(* ===== verification/Awg_Prelude.thy ===== *)
theory Awg_Prelude
  imports "HOL-Library.Word" "HOL-Library.Monad_Syntax"
begin

unbundle bit_operations_syntax

text \<open>
  Shared vocabulary of the development: the machine types of the C sources, byte strings
  with little-endian codecs (the sources use \<^verbatim>\<open>memcpy\<close> on little-endian targets), the
  byte-wise exclusive or, and a small memory model.  A C buffer is a list of bytes; reading
  and writing go through \<open>rd\<close> and \<open>wr\<close>, which return \<open>None\<close> on an access outside the
  buffer, so that ``no undefined behaviour'' is the statement that a modelled function
  does not return \<open>None\<close>.  Two collections, \<open>mem_simps\<close> and \<open>le_simps\<close>, gather the
  rewrite rules the component theories use.
\<close>

named_theorems mem_simps \<open>rewrite rules for the memory accesses rd and wr\<close>
named_theorems le_simps \<open>rewrite rules for the little-endian codecs\<close>

type_synonym u8 = "8 word"
type_synonym u16 = "16 word"
type_synonym u32 = "32 word"
type_synonym u64 = "64 word"
type_synonym bytes = "u8 list"

section \<open>Memory accesses\<close>

text \<open>Read \<open>n\<close> bytes at offset \<open>off\<close>; \<open>None\<close> when the range leaves the buffer.\<close>

definition rd :: "bytes \<Rightarrow> int \<Rightarrow> int \<Rightarrow> bytes option" where
  "rd b off n =
     (if 0 \<le> off \<and> 0 \<le> n \<and> off + n \<le> int (length b)
      then Some (take (nat n) (drop (nat off) b)) else None)"

text \<open>Write the bytes \<open>xs\<close> at offset \<open>off\<close>; \<open>None\<close> when the range leaves the buffer.\<close>

definition wr :: "bytes \<Rightarrow> int \<Rightarrow> bytes \<Rightarrow> bytes option" where
  "wr b off xs =
     (if 0 \<le> off \<and> off + int (length xs) \<le> int (length b)
      then Some (take (nat off) b @ xs @ drop (nat off + length xs) b) else None)"

lemma rd_split [mem_simps]:
  assumes "off = int (length p)" and "n = int (length m)"
  shows "rd (p @ m @ q) off n = Some m"
  using assms by (simp add: rd_def)

lemma wr_split [mem_simps]:
  assumes "off = int (length p)" and "length xs = length m"
  shows "wr (p @ m @ q) off xs = Some (p @ xs @ q)"
  using assms by (simp add: wr_def)

text \<open>The same when the window covers only the beginning of the middle part.\<close>

lemma rd_within:
  assumes "off = int (length p)" "n = int k" "k \<le> length m"
  shows "rd (p @ m @ q) off n = Some (take k m)"
  using assms by (simp add: rd_def)

lemma wr_within:
  assumes "off = int (length p)" "length xs \<le> length m"
  shows "wr (p @ m @ q) off xs = Some (p @ xs @ drop (length xs) m @ q)"
  using assms by (simp add: wr_def)

lemma rd_Some_iff:
  "rd b off n = Some m \<longleftrightarrow>
     0 \<le> off \<and> 0 \<le> n \<and> off + n \<le> int (length b) \<and> m = take (nat n) (drop (nat off) b)"
  by (auto simp: rd_def)

lemma rd_eq_None_iff: "rd b off n = None \<longleftrightarrow> off < 0 \<or> n < 0 \<or> int (length b) < off + n"
  by (auto simp: rd_def)

lemma wr_Some_iff:
  "wr b off xs = Some b' \<longleftrightarrow>
     0 \<le> off \<and> off + int (length xs) \<le> int (length b) \<and>
     b' = take (nat off) b @ xs @ drop (nat off + length xs) b"
  by (auto simp: wr_def)

lemma wr_eq_None_iff: "wr b off xs = None \<longleftrightarrow> off < 0 \<or> int (length b) < off + int (length xs)"
  by (auto simp: wr_def)

lemma wr_length: "wr b off xs = Some b' \<Longrightarrow> length b' = length b"
  by (auto simp: wr_Some_iff)

lemma rd_length: "rd b off n = Some m \<Longrightarrow> int (length m) = n"
  by (auto simp: rd_Some_iff)

text \<open>An in-range read or write succeeds: the shape in which the safety proofs use it.\<close>

lemma rd_ok: "0 \<le> off \<Longrightarrow> 0 \<le> n \<Longrightarrow> off + n \<le> int (length b) \<Longrightarrow> \<exists>m. rd b off n = Some m \<and> int (length m) = n"
  by (auto simp: rd_def)

lemma wr_ok: "0 \<le> off \<Longrightarrow> off + int (length xs) \<le> int (length b) \<Longrightarrow> \<exists>b'. wr b off xs = Some b' \<and> length b' = length b"
  by (auto simp: wr_def)

text \<open>Any in-range window cuts a buffer in three.\<close>

lemma buf_split3:
  assumes "off + n \<le> length b"
  obtains p m q where "b = p @ m @ q" and "length p = off" and "length m = n"
    and "length q = length b - (off + n)"
proof
  show "b = take off b @ take n (drop off b) @ drop (off + n) b"
    by (metis append_take_drop_id drop_drop add.commute)
qed (use assms in auto)

section \<open>Little-endian codecs\<close>

fun put_le :: "nat \<Rightarrow> 'a::len word \<Rightarrow> bytes" where
  "put_le 0 v = []"
| "put_le (Suc n) v = ucast v # put_le n (drop_bit 8 v)"

fun get_le :: "bytes \<Rightarrow> 'a::len word" where
  "get_le [] = 0"
| "get_le (b # bs) = ucast b OR push_bit 8 (get_le bs)"

lemma length_put_le [simp]: "length (put_le n v) = n"
  by (induction n arbitrary: v) auto

lemma get_put_le: "get_le (put_le n v) = take_bit (8 * n) (v :: 'a::len word)"
proof (induction n arbitrary: v)
  case (Suc n)
  show ?case
    unfolding put_le.simps get_le.simps Suc.IH
    by (rule bit_word_eqI) (auto simp: bit_simps)
qed simp

lemma bit_get_le_bound: "bit (get_le bs :: 'a::len word) i \<Longrightarrow> i < 8 * length bs"
proof (induction bs arbitrary: i)
  case (Cons b bs)
  from Cons.prems have "bit b i \<or> (8 \<le> i \<and> bit (get_le bs :: 'a word) (i - 8))"
    by (auto simp: bit_simps)
  then show ?case
  proof
    assume "bit b i"
    then show ?thesis using bit_imp_le_length [of b i] by simp
  next
    assume "8 \<le> i \<and> bit (get_le bs :: 'a word) (i - 8)"
    then show ?thesis using Cons.IH [of "i - 8"] by simp
  qed
qed simp

lemma put_get_le:
  "8 * length bs \<le> LENGTH('a) \<Longrightarrow> put_le (length bs) (get_le bs :: 'a::len word) = bs"
proof (induction bs)
  case (Cons b bs)
  let ?g = "get_le bs :: 'a word"
  have hd: "ucast (ucast b OR push_bit 8 ?g) = b"
    using Cons.prems by (intro bit_word_eqI) (auto simp: bit_simps)
  have tl: "drop_bit 8 (ucast b OR push_bit 8 ?g) = ?g"
  proof (rule bit_word_eqI)
    fix i assume "i < LENGTH('a)"
    show "bit (drop_bit 8 (ucast b OR push_bit 8 ?g)) i \<longleftrightarrow> bit ?g i"
      using Cons.prems bit_get_le_bound [of bs i, where 'a = 'a] bit_imp_le_length [of b "8 + i"]
      by (auto simp: bit_simps)
  qed
  show ?case using hd tl Cons by simp
qed simp

lemma get_le_append: "8 * length a \<le> LENGTH('w) \<Longrightarrow>
  (get_le (a @ b) :: 'w::len word) = get_le a OR push_bit (8 * length a) (get_le b)"
proof (induction a)
  case (Cons x xs)
  then show ?case
    by (auto simp: push_bit_or or.assoc algebra_simps)
qed simp

lemma put_le_inj:
  assumes "put_le n v = put_le n w" and "LENGTH('a) \<le> 8 * n"
  shows "(v :: 'a::len word) = w"
proof -
  have "take_bit (8 * n) v = take_bit (8 * n) w"
    using assms(1) by (metis get_put_le)
  then show ?thesis using assms(2) by (simp add: take_bit_word_eq_self)
qed

text \<open>The 32- and 64-bit instances used throughout.\<close>

abbreviation write32_le :: "u32 \<Rightarrow> bytes" where "write32_le \<equiv> put_le 4"
abbreviation read32_le :: "bytes \<Rightarrow> u32" where "read32_le \<equiv> get_le"

lemma read_write32 [simp, le_simps]: "read32_le (write32_le v) = v"
  by (simp add: get_put_le take_bit_word_eq_self)

lemma write_read32: "length bs = 4 \<Longrightarrow> write32_le (read32_le bs) = bs"
  using put_get_le [of bs, where 'a = 32] by simp

lemma read_write64 [simp, le_simps]: "get_le (put_le 8 (v :: u64)) = v"
  by (simp add: get_put_le take_bit_word_eq_self)

section \<open>Byte-wise exclusive or\<close>

definition xor_bytes :: "bytes \<Rightarrow> bytes \<Rightarrow> bytes" where
  "xor_bytes xs ys = map2 (XOR) xs ys"

lemma length_xor_bytes [simp]: "length (xor_bytes xs ys) = min (length xs) (length ys)"
  by (simp add: xor_bytes_def)

lemma xor_bytes_Nil [simp]: "xor_bytes [] ys = []" "xor_bytes xs [] = []"
  by (simp_all add: xor_bytes_def)

lemma xor_bytes_Cons [simp]: "xor_bytes (x # xs) (y # ys) = (x XOR y) # xor_bytes xs ys"
  by (simp add: xor_bytes_def)

lemma xor_bytes_append:
  "length a = length c \<Longrightarrow> xor_bytes (a @ b) (c @ d) = xor_bytes a c @ xor_bytes b d"
  by (simp add: xor_bytes_def zip_append)

lemma xor_bytes_append_le:
  "length a \<le> length c \<Longrightarrow> xor_bytes (a @ b) c = xor_bytes a c @ xor_bytes b (drop (length a) c)"
proof (induction a arbitrary: c)
  case (Cons x xs)
  then show ?case by (cases c) auto
qed simp

lemma xor_bytes_twice: "length xs \<le> length ys \<Longrightarrow> xor_bytes (xor_bytes xs ys) ys = xs"
proof (induction xs arbitrary: ys)
  case (Cons x xs)
  then show ?case by (cases ys) (auto simp: xor.assoc)
qed simp

lemma take_xor_bytes: "take n (xor_bytes xs ys) = xor_bytes (take n xs) (take n ys)"
  by (simp add: xor_bytes_def take_map take_zip)

lemma drop_xor_bytes: "drop n (xor_bytes xs ys) = xor_bytes (drop n xs) (drop n ys)"
  by (simp add: xor_bytes_def drop_map drop_zip)

lemma xor_bytes_take2: "xor_bytes xs (take (length xs) ys) = xor_bytes xs ys"
proof (induction xs arbitrary: ys)
  case (Cons x xs)
  then show ?case by (cases ys) auto
qed simp

lemma get_le_xor_bytes:
  "length xs = length ys \<Longrightarrow>
   (get_le (xor_bytes xs ys) :: 'a::len word) = get_le xs XOR get_le ys"
proof (induction xs ys rule: list_induct2)
  case (Cons x xs y ys)
  then show ?case
    by (simp, intro bit_word_eqI) (auto simp: bit_simps dest: bit_imp_le_length)
qed simp

section \<open>List and word lemmas the components share\<close>

lemma unat_mod_less: "0 < (n :: 'a::len word) \<Longrightarrow> x mod n < n"
  by (simp add: word_less_nat_alt unat_mod unat_gt_0)

lemma sint_small: "uint (w :: u32) < 2 ^ 31 \<Longrightarrow> sint w = uint w"
proof -
  assume "uint w < 2 ^ 31"
  moreover have "- (2 ^ 31) \<le> uint w" by (rule order_trans [of _ 0]) simp_all
  ultimately show ?thesis by (simp add: sint_uint signed_take_bit_int_eq_self)
qed

lemma funpow_invariant: "P x \<Longrightarrow> (\<And>y. P y \<Longrightarrow> P (f y)) \<Longrightarrow> P ((f ^^ n) x)"
  by (induction n) auto

lemma concat_map_const_length: "(\<And>x. length (f x) = k) \<Longrightarrow> length (concat (map f xs)) = k * length xs"
  by (induction xs) auto

end
