(* ===== verification/Base64.thy ===== *)
theory Base64
  imports Awg_Prelude
begin

text \<open>
  Model of \<^verbatim>\<open>src/src/base64.c\<close>, the decoder for the keys of the configuration, over
  character codes.  The decoder strips trailing \<open>=\<close>, rejects impossible lengths, foreign
  characters and results that do not fit, and returns the decoded bytes.  The round-trip
  theorem is against the standard encoder, with or without padding.
\<close>

section \<open>The decoder\<close>

definition b64_val :: "u8 \<Rightarrow> int" where
  "b64_val c =
     (if 65 \<le> c \<and> c \<le> 90 then uint c - 65
      else if 97 \<le> c \<and> c \<le> 122 then uint c - 97 + 26
      else if 48 \<le> c \<and> c \<le> 57 then uint c - 48 + 52
      else if c = 43 then 62
      else if c = 47 then 63
      else -1)"

text \<open>\<open>while (inlen > 0 && in[inlen-1] == '=') inlen--\<close>.\<close>

fun strip_pad :: "bytes \<Rightarrow> nat \<Rightarrow> nat" where
  "strip_pad s 0 = 0"
| "strip_pad s (Suc n) = (if s ! n = 61 then strip_pad s n else Suc n)"

text \<open>The main loop, from position \<open>i\<close> with output \<open>acc\<close>; \<open>None\<close> is the return of \<open>-1\<close>.\<close>

fun decode_loop :: "bytes \<Rightarrow> bytes \<Rightarrow> bytes option" where
  "decode_loop (c0 # c1 # c2 # c3 # cs) acc =
     (let a = b64_val c0; b = b64_val c1; c = b64_val c2; d = b64_val c3
      in if a < 0 \<or> b < 0 \<or> c < 0 \<or> d < 0 then None
         else let v = push_bit 18 (word_of_int a :: u32) OR push_bit 12 (word_of_int b) OR
                      push_bit 6 (word_of_int c) OR word_of_int d
              in decode_loop cs (acc @ [ucast (drop_bit 16 v AND 0xFF), ucast (drop_bit 8 v AND 0xFF),
                                        ucast (v AND 0xFF)]))"
| "decode_loop [c0, c1] acc =
     (let a = b64_val c0; b = b64_val c1
      in if a < 0 \<or> b < 0 then None
         else Some (acc @ [ucast (drop_bit 16 (push_bit 18 (word_of_int a :: u32) OR
                                               push_bit 12 (word_of_int b)))]))"
| "decode_loop [c0, c1, c2] acc =
     (let a = b64_val c0; b = b64_val c1; c = b64_val c2
      in if a < 0 \<or> b < 0 \<or> c < 0 then None
         else let v = push_bit 18 (word_of_int a :: u32) OR push_bit 12 (word_of_int b) OR
                      push_bit 6 (word_of_int c)
              in Some (acc @ [ucast (drop_bit 16 v AND 0xFF), ucast (drop_bit 8 v AND 0xFF)]))"
| "decode_loop cs acc = Some acc"

definition base64_decode :: "bytes \<Rightarrow> nat \<Rightarrow> bytes option" where
  "base64_decode inp outmax =
     (let inlen = strip_pad inp (length inp)
      in if inlen mod 4 = 1 then None
         else if outmax < inlen * 3 div 4 then None
         else decode_loop (take inlen inp) [])"

section \<open>The standard encoder, for the specification\<close>

definition b64_chr :: "u8 \<Rightarrow> u8" where
  "b64_chr v =
     (if v < 26 then v + 65
      else if v < 52 then v - 26 + 97
      else if v < 62 then v - 52 + 48
      else if v = 62 then 43 else 47)"

fun base64_encode :: "bytes \<Rightarrow> bytes" where
  "base64_encode (x # y # z # r) =
     b64_chr (drop_bit 2 x) # b64_chr (push_bit 4 (x AND 3) OR drop_bit 4 y) #
     b64_chr (push_bit 2 (y AND 15) OR drop_bit 6 z) # b64_chr (z AND 63) # base64_encode r"
| "base64_encode [x, y] =
     [b64_chr (drop_bit 2 x), b64_chr (push_bit 4 (x AND 3) OR drop_bit 4 y), b64_chr (push_bit 2 (y AND 15))]"
| "base64_encode [x] = [b64_chr (drop_bit 2 x), b64_chr (push_bit 4 (x AND 3))]"
| "base64_encode [] = []"

section \<open>Lemmas\<close>

lemma b64_val_range: "b64_val c < 64" "-1 \<le> b64_val c"
  by (auto simp: b64_val_def word_le_def)

lemma b64_val_chr: "v < 64 \<Longrightarrow> b64_val (b64_chr v) = uint v"
  by (auto simp: b64_val_def b64_chr_def word_less_def word_le_def uint_word_ariths word_uint_eq_iff)
    (use uint_nonnegative [of v] in linarith)

lemma b64_chr_not_pad: "v < 64 \<Longrightarrow> b64_chr v \<noteq> 61"
  using b64_val_chr [of v] by (auto simp: b64_val_def) (use uint_nonnegative [of v] in linarith)

lemma low_masks: "(x :: u8) AND 3 = take_bit 2 x" "(x :: u8) AND 15 = take_bit 4 x"
  "(x :: u8) AND 63 = take_bit 6 x" "(y :: u32) AND 0xFF = take_bit 8 y"
  by (simp_all add: take_bit_eq_mask mask_eq_exp_minus_1)

lemma bit_u8_high [simp]: "8 \<le> n \<Longrightarrow> \<not> bit (x :: u8) n"
  using bit_imp_le_length [of x n] by auto

text \<open>Equality of two bytes, bit by bit.\<close>

lemma u8_bits_eqI:
  assumes "bit x 0 = bit (y :: u8) 0" "bit x 1 = bit y 1" "bit x 2 = bit y 2" "bit x 3 = bit y 3"
    "bit x 4 = bit y 4" "bit x 5 = bit y 5" "bit x 6 = bit y 6" "bit x 7 = bit y 7"
  shows "x = y"
proof (rule bit_word_eqI)
  fix n assume "n < LENGTH(8)"
  then have "n = 0 \<or> n = 1 \<or> n = 2 \<or> n = 3 \<or> n = 4 \<or> n = 5 \<or> n = 6 \<or> n = 7" by auto
  then show "bit x n = bit y n" using assms by auto
qed

lemma sextet_lessI: "\<not> bit x 6 \<Longrightarrow> \<not> bit x 7 \<Longrightarrow> (x :: u8) < 64"
proof -
  assume "\<not> bit x 6" "\<not> bit x 7"
  then have "x = take_bit 6 x" by (intro u8_bits_eqI) (simp_all add: bit_simps)
  moreover have "take_bit 6 x < 64"
    using take_bit_int_less_exp [of 6 "uint x"] by (simp add: word_less_def unsigned_take_bit_eq)
  ultimately show ?thesis by simp
qed

lemma sextet_less [simp]:
  "drop_bit 2 (x :: u8) < 64" "push_bit 4 (take_bit 2 (x :: u8)) OR drop_bit 4 (y :: u8) < 64"
  "push_bit 2 (take_bit 4 (y :: u8)) OR drop_bit 6 (z :: u8) < 64" "take_bit 6 (z :: u8) < 64"
  "push_bit 4 (take_bit 2 (x :: u8)) < 64" "push_bit 2 (take_bit 4 (y :: u8)) < 64"
  by (rule sextet_lessI; simp add: bit_simps)+

lemma triple_bits:
  fixes x y z :: u8
  defines "v \<equiv> push_bit 18 (ucast (drop_bit 2 x) :: u32) OR
      push_bit 12 (ucast (push_bit 4 (take_bit 2 x) OR drop_bit 4 y)) OR
      push_bit 6 (ucast (push_bit 2 (take_bit 4 y) OR drop_bit 6 z)) OR ucast (take_bit 6 z)"
  shows "ucast (take_bit 8 (drop_bit 16 v)) = x" "ucast (take_bit 8 (drop_bit 8 v)) = y"
    "ucast (take_bit 8 v) = z"
  unfolding v_def by (rule u8_bits_eqI; simp add: bit_simps)+

lemma pair_bits:
  fixes x y :: u8
  defines "v \<equiv> push_bit 18 (ucast (drop_bit 2 x) :: u32) OR
      push_bit 12 (ucast (push_bit 4 (take_bit 2 x) OR drop_bit 4 y)) OR
      push_bit 6 (ucast (push_bit 2 (take_bit 4 y)))"
  shows "ucast (take_bit 8 (drop_bit 16 v)) = x" "ucast (take_bit 8 (drop_bit 8 v)) = y"
  unfolding v_def by (rule u8_bits_eqI; simp add: bit_simps)+

lemma single_bits:
  "ucast (drop_bit 16 (push_bit 18 (ucast (drop_bit 2 x) :: u32) OR
      push_bit 12 (ucast (push_bit 4 (take_bit 2 (x :: u8)))))) = x"
  by (rule u8_bits_eqI; simp add: bit_simps)

lemma decode_loop_encode: "decode_loop (base64_encode bs) acc = Some (acc @ bs)"
proof (induction bs arbitrary: acc rule: base64_encode.induct)
  case (1 x y z r)
  then show ?case
    using triple_bits [of x y z]
    by (simp add: low_masks b64_val_chr Let_def of_int_uint not_less)
next
  case (2 x y)
  then show ?case
    using pair_bits [of x y] by (simp add: low_masks b64_val_chr Let_def of_int_uint not_less)
next
  case (3 x)
  then show ?case
    using single_bits [of x] by (simp add: low_masks b64_val_chr Let_def of_int_uint not_less)
qed simp

lemma length_base64_encode: "length (base64_encode bs) = (4 * length bs + 2) div 3"
  by (induction bs rule: base64_encode.induct) auto

lemma base64_encode_no_pad: "c \<in> set (base64_encode bs) \<Longrightarrow> c \<noteq> 61"
  by (induction bs rule: base64_encode.induct) (auto simp: low_masks b64_chr_not_pad)

lemma strip_pad_append:
  assumes "\<forall>c \<in> set s. c \<noteq> 61" and "j \<le> k"
  shows "strip_pad (s @ replicate k 61) (length s + j) = length s"
  using assms(2)
proof (induction j)
  case 0
  show ?case
  proof (cases "length s")
    case (Suc n)
    then have "(s @ replicate k 61) ! n \<noteq> 61"
      using assms(1) by (simp add: nth_append)
    with Suc show ?thesis by simp
  qed simp
next
  case (Suc j)
  then show ?case by (simp add: nth_append)
qed

text \<open>What a successful decode wrote: exactly three quarters of the stripped input.\<close>

lemma decode_loop_length:
  "decode_loop cs acc = Some out \<Longrightarrow> length cs mod 4 \<noteq> 1 \<Longrightarrow> length out = length acc + length cs * 3 div 4"
proof (induction cs acc rule: decode_loop.induct)
  case (1 c0 c1 c2 c3 cs acc)
  then show ?case by (auto simp: Let_def split: if_splits)
qed (auto simp: Let_def split: if_splits)

lemma strip_pad_le: "strip_pad s n \<le> n"
  by (induction n) auto

section \<open>Properties\<close>

lemma base64_decode_encode:
  assumes "length bs \<le> outmax"
  shows "base64_decode (base64_encode bs @ replicate k 61) outmax = Some bs"
proof -
  let ?e = "base64_encode bs"
  have "strip_pad (?e @ replicate k 61) (length (?e @ replicate k 61)) = length ?e"
    using strip_pad_append [of ?e k k] base64_encode_no_pad by auto
  moreover have "length ?e mod 4 \<noteq> 1" "length ?e * 3 div 4 = length bs"
    unfolding length_base64_encode by presburger+
  ultimately show ?thesis
    using assms decode_loop_encode [of bs "[]"] by (simp add: base64_decode_def)
qed

text \<open>
  Decoding inverts the standard encoding: for every byte string that fits the output
  buffer, and any number of trailing padding characters, \<open>base64_decode\<close> returns it.
\<close>

theorem base64_roundtrip:
  assumes "length bs \<le> outmax"
  shows "base64_decode (base64_encode bs @ replicate k 61) outmax = Some bs"
  by (rule base64_decode_encode [OF assms])

theorem base64_roundtrip_witness:
  "length [1 :: u8, 2, 3, 254] \<le> 32 \<and>
   base64_decode (base64_encode [1, 2, 3, 254] @ replicate 2 61) 32 = Some [1, 2, 3, 254]"
  using base64_roundtrip [of "[1, 2, 3, 254]" 32 2] by simp

text \<open>
  The decoder never writes past the output buffer: a successful decode of any input
  produces exactly three quarters of the input without its padding, and at most \<open>outmax\<close>
  bytes; an input whose stripped length is 1 modulo 4, or whose result would not fit, is
  rejected.
\<close>

theorem base64_decode_bounds:
  "(case base64_decode inp outmax of
      None \<Rightarrow> True
    | Some out \<Rightarrow> length out \<le> outmax \<and>
        length out = strip_pad inp (length inp) * 3 div 4 \<and>
        strip_pad inp (length inp) mod 4 \<noteq> 1)"
proof (cases "base64_decode inp outmax")
  case (Some out)
  let ?n = "strip_pad inp (length inp)"
  have "decode_loop (take ?n inp) [] = Some out" "?n mod 4 \<noteq> 1" "?n * 3 div 4 \<le> outmax"
    using Some by (auto simp: base64_decode_def Let_def split: if_splits)
  moreover have "length (take ?n inp) = ?n"
    using strip_pad_le [of inp "length inp"] by simp
  ultimately show ?thesis
    using decode_loop_length [of "take ?n inp" "[]" out] Some by simp
qed simp

end
