(* ===== verification/Blake.thy ===== *)
theory Blake
  imports Awg_Prelude
begin

text \<open>
  Model of \<^verbatim>\<open>src/src/blake2s.c\<close>: the compression function, the incremental state with its
  block buffer and 64-bit byte counter kept in two 32-bit halves, the unkeyed 256-bit hash,
  the keyed 128-bit MAC, and the MAC1 operations of WireGuard built on it.  The C code compares
  the length cast to \<^verbatim>\<open>int\<close> with the room in its block buffer, and the model does so too: an update
  whose copy would leave the 64-byte buffer is \<open>None\<close>.  The refinement theorem shows that for
  messages below 2 GiB initialise, update, finalise computes the plain specification
  \<open>blake2s_spec\<close> (split the padded key and the message in 64-byte blocks, compress each
  with the number of bytes so far, mark the last one), and that a message of exactly 2 GiB
  leaves the buffer.
\<close>

section \<open>Compression\<close>

definition blake2s_iv :: "u32 list" where
  "blake2s_iv =
     [0x6A09E667, 0xBB67AE85, 0x3C6EF372, 0xA54FF53A,
      0x510E527F, 0x9B05688C, 0x1F83D9AB, 0x5BE0CD19]"

definition blake2s_sigma :: "nat list list" where
  "blake2s_sigma =
     [[0,1,2,3,4,5,6,7,8,9,10,11,12,13,14,15],
      [14,10,4,8,9,15,13,6,1,12,0,2,11,7,5,3],
      [11,8,12,0,5,2,15,13,10,14,3,6,7,1,9,4],
      [7,9,3,1,13,12,11,14,2,6,5,10,4,0,15,8],
      [9,0,5,7,2,4,10,15,14,1,11,12,6,8,3,13],
      [2,12,6,10,0,11,8,3,4,13,7,5,15,14,1,9],
      [12,5,1,15,14,13,4,10,0,7,6,3,9,2,8,11],
      [13,11,7,14,12,1,3,9,5,0,15,4,8,6,2,10],
      [6,15,14,9,11,3,0,8,12,2,13,7,1,4,10,5],
      [10,2,8,4,7,6,1,5,15,11,9,14,3,12,13,0]]"

definition rotr32 :: "u32 \<Rightarrow> nat \<Rightarrow> u32" where
  "rotr32 x n = drop_bit n x OR push_bit (32 - n) x"

definition G :: "nat \<Rightarrow> nat \<Rightarrow> nat \<Rightarrow> nat \<Rightarrow> u32 \<Rightarrow> u32 \<Rightarrow> u32 list \<Rightarrow> u32 list" where
  "G a b c d x y v =
     (let v = v[a := v ! a + (v ! b + x)];
          v = v[d := rotr32 (v ! d XOR v ! a) 16];
          v = v[c := v ! c + v ! d];
          v = v[b := rotr32 (v ! b XOR v ! c) 12];
          v = v[a := v ! a + (v ! b + y)];
          v = v[d := rotr32 (v ! d XOR v ! a) 8];
          v = v[c := v ! c + v ! d]
      in v[b := rotr32 (v ! b XOR v ! c) 7])"

definition blake2s_round :: "u32 list \<Rightarrow> nat list \<Rightarrow> u32 list \<Rightarrow> u32 list" where
  "blake2s_round m s v =
     (let v = G 0 4 8 12 (m ! (s ! 0)) (m ! (s ! 1)) v;
          v = G 1 5 9 13 (m ! (s ! 2)) (m ! (s ! 3)) v;
          v = G 2 6 10 14 (m ! (s ! 4)) (m ! (s ! 5)) v;
          v = G 3 7 11 15 (m ! (s ! 6)) (m ! (s ! 7)) v;
          v = G 0 5 10 15 (m ! (s ! 8)) (m ! (s ! 9)) v;
          v = G 1 6 11 12 (m ! (s ! 10)) (m ! (s ! 11)) v;
          v = G 2 7 8 13 (m ! (s ! 12)) (m ! (s ! 13)) v
      in G 3 4 9 14 (m ! (s ! 14)) (m ! (s ! 15)) v)"

definition blake2s_compress :: "u32 list \<Rightarrow> bytes \<Rightarrow> u32 \<Rightarrow> u32 \<Rightarrow> bool \<Rightarrow> u32 list" where
  "blake2s_compress h block t0 t1 is_last =
     (let m = map (\<lambda>i. read32_le (take 4 (drop (i * 4) block))) [0..<16];
          v = map (\<lambda>i. h ! i) [0..<8] @
              [blake2s_iv ! 0, blake2s_iv ! 1, blake2s_iv ! 2, blake2s_iv ! 3,
               t0 XOR blake2s_iv ! 4, t1 XOR blake2s_iv ! 5, blake2s_iv ! 6, blake2s_iv ! 7];
          v = (if is_last then v[14 := v ! 14 XOR 0xFFFFFFFF] else v);
          v = fold (\<lambda>i. blake2s_round m (blake2s_sigma ! i)) [0..<10] v
      in map (\<lambda>i. h ! i XOR (v ! i XOR v ! (i + 8))) [0..<8])"

section \<open>The incremental interface\<close>

record blake2s_state =
  b_h :: "u32 list"
  b_t0 :: u32
  b_t1 :: u32
  b_buf :: bytes
  b_buflen :: nat
  b_nn :: nat

definition blake2s_init :: "nat \<Rightarrow> bytes \<Rightarrow> nat \<Rightarrow> blake2s_state" where
  "blake2s_init nn key kk =
     \<lparr>b_h = blake2s_iv[0 := blake2s_iv ! 0 XOR
              (0x01010000 OR push_bit 8 (word_of_nat kk) OR word_of_nat nn)],
      b_t0 = 0, b_t1 = 0,
      b_buf = (if 0 < kk then take kk key @ replicate (64 - kk) 0 else replicate 64 0),
      b_buflen = (if 0 < kk then 64 else 0),
      b_nn = nn\<rparr>"

text \<open>\<open>t0 += n; if (t0 < n) t1++\<close>: the two halves of the byte counter.\<close>

definition count_bytes :: "u32 \<Rightarrow> u32 \<times> u32 \<Rightarrow> u32 \<times> u32" where
  "count_bytes n t = (let t0 = fst t + n in (t0, if t0 < n then snd t + 1 else snd t))"

fun update_loop :: "u32 list \<Rightarrow> u32 \<times> u32 \<Rightarrow> bytes \<Rightarrow> u32 list \<times> (u32 \<times> u32) \<times> bytes" where
  "update_loop h t p =
     (if 64 < length p then
        (let t = count_bytes 64 t
         in update_loop (blake2s_compress h (take 64 p) (fst t) (snd t) False) t (drop 64 p))
      else (h, t, p))"

declare update_loop.simps [simp del]

text \<open>
  \<open>blake2s_update\<close>: complete the buffered block when more than it can hold arrives, compress
  whole blocks straight from the input, and keep the rest (never an empty rest, so that the
  last block is always still in the buffer).  The comparison is the one of the code, on
  \<^verbatim>\<open>(int)len\<close>: the length reduced to 32 bits and read as a signed number.  When it takes the
  short branch with more bytes than the buffer has room for, the copy runs past \<^verbatim>\<open>buf[64]\<close> and
  the result is \<open>None\<close>.
\<close>

definition int_len :: "bytes \<Rightarrow> int" where
  "int_len p = sint (word_of_nat (length p) :: 32 word)"

definition blake2s_update :: "blake2s_state \<Rightarrow> bytes \<Rightarrow> blake2s_state option" where
  "blake2s_update st p =
     (if p = [] then Some st
      else let left = b_buflen st; fill = 64 - left
      in if int fill < int_len p then
           Some (let buf = take left (b_buf st) @ take fill p @ drop (left + fill) (b_buf st);
                t = count_bytes 64 (b_t0 st, b_t1 st);
                h = blake2s_compress (b_h st) buf (fst t) (snd t) False;
                (h, t, p) = update_loop h t (drop fill p)
            in st\<lparr>b_h := h, b_t0 := fst t, b_t1 := snd t,
                  b_buf := p @ drop (length p) buf, b_buflen := length p\<rparr>)
         else if length p \<le> fill then
           Some (st\<lparr>b_buf := take left (b_buf st) @ p @ drop (left + length p) (b_buf st),
                    b_buflen := left + length p\<rparr>)
         else None)"

definition blake2s_final :: "blake2s_state \<Rightarrow> bytes" where
  "blake2s_final st =
     (let t = count_bytes (word_of_nat (b_buflen st)) (b_t0 st, b_t1 st);
          buf = take (b_buflen st) (b_buf st) @ replicate (64 - b_buflen st) 0;
          h = blake2s_compress (b_h st) buf (fst t) (snd t) True
      in concat (map (\<lambda>i. write32_le (h ! i)) [0..<8]))"

definition blake2s_256 :: "bytes \<Rightarrow> bytes option" where
  "blake2s_256 data =
     do { st \<leftarrow> blake2s_update (blake2s_init 32 [] 0) data; Some (blake2s_final st) }"

definition blake2s_128mac :: "bytes \<Rightarrow> bytes \<Rightarrow> bytes option" where
  "blake2s_128mac key data =
     do { st \<leftarrow> blake2s_update (blake2s_init 16 key 32) data; Some (take 16 (blake2s_final st)) }"

text \<open>The key is 32 bytes, the input 40, which always hash (\<open>mac1_key_hashes\<close> below).\<close>

definition compute_mac1_key :: "bytes \<Rightarrow> bytes" where
  "compute_mac1_key pubkey =
     the (blake2s_256 ([0x6D, 0x61, 0x63, 0x31, 0x2D, 0x2D, 0x2D, 0x2D] @ take 32 pubkey))"

text \<open>The two in-place MAC1 updates, on a message that starts at \<open>off\<close> in a buffer.\<close>

definition recompute_mac1 :: "bytes \<Rightarrow> int \<Rightarrow> bytes \<Rightarrow> bytes option" where
  "recompute_mac1 buf off mac1key =
     do { m \<leftarrow> rd buf off 116; mac1 \<leftarrow> blake2s_128mac mac1key m; wr buf (off + 116) mac1 }"

definition recompute_mac1_response :: "bytes \<Rightarrow> int \<Rightarrow> bytes \<Rightarrow> bytes option" where
  "recompute_mac1_response buf off mac1key =
     do { m \<leftarrow> rd buf off 60; mac1 \<leftarrow> blake2s_128mac mac1key m; wr buf (off + 60) mac1 }"

section \<open>Specification\<close>

text \<open>
  The hash as RFC 7693 describes it: the byte count is one number, the input one string
  that is cut into 64-byte blocks, the last of them (possibly short, padded with zeros)
  compressed with the final flag.
\<close>

definition compress_at :: "u32 list \<Rightarrow> bytes \<Rightarrow> nat \<Rightarrow> bool \<Rightarrow> u32 list" where
  "compress_at h block t is_last =
     blake2s_compress h block (word_of_nat t) (word_of_nat (t div 2 ^ 32)) is_last"

fun spec_blocks :: "u32 list \<Rightarrow> nat \<Rightarrow> bytes \<Rightarrow> u32 list" where
  "spec_blocks h t d =
     (if length d \<le> 64 then compress_at h (d @ replicate (64 - length d) 0) (t + length d) True
      else spec_blocks (compress_at h (take 64 d) (t + 64) False) (t + 64) (drop 64 d))"

declare spec_blocks.simps [simp del]

definition blake2s_spec :: "nat \<Rightarrow> bytes \<Rightarrow> bytes \<Rightarrow> bytes" where
  "blake2s_spec nn key data =
     (let h = blake2s_iv[0 := blake2s_iv ! 0 XOR
                (0x01010000 OR push_bit 8 (word_of_nat (length key)) OR word_of_nat nn)];
          d = (if key = [] then data else key @ replicate (64 - length key) 0 @ data)
      in take nn (concat (map write32_le (spec_blocks h 0 d))))"

section \<open>Refinement\<close>

lemma length_blake2s_compress [simp]: "length (blake2s_compress h b t0 t1 l) = 8"
  by (simp add: blake2s_compress_def Let_def)

lemma length_compress_at [simp]: "length (compress_at h b t l) = 8"
  by (simp add: compress_at_def)

lemma length_spec_blocks [simp]: "length (spec_blocks h t d) = 8"
proof (induction h t d rule: spec_blocks.induct)
  case (1 h t d)
  then show ?case by (subst spec_blocks.simps) simp
qed

text \<open>The two halves represent one byte count; adding at most a block keeps it so.\<close>

definition counter_rep :: "nat \<Rightarrow> u32 \<times> u32" where
  "counter_rep t = (word_of_nat t, word_of_nat (t div 2 ^ 32))"

lemma count_bytes_rep:
  assumes "n \<le> 64"
  shows "count_bytes (word_of_nat n) (counter_rep t) = counter_rep (t + n)"
proof -
  define q where "q = t div 2 ^ 32"
  define r where "r = t mod 2 ^ 32"
  have t: "t = q * 2 ^ 32 + r" and r: "r < 2 ^ 32"
    by (simp_all add: q_def r_def mult.commute)
  have n: "unat (word_of_nat n :: u32) = n"
    using assms by (simp add: unat_of_nat)
  have u: "unat (word_of_nat (t + n) :: u32) = (r + n) mod 2 ^ 32"
    by (simp add: unat_of_nat r_def mod_add_left_eq del: of_nat_add)
  have carry: "(word_of_nat (t + n) :: u32) < word_of_nat n \<longleftrightarrow> 2 ^ 32 \<le> r + n"
  proof (cases "2 ^ 32 \<le> r + n")
    case True
    then have "(r + n) mod 2 ^ 32 = r + n - 2 ^ 32"
      using r assms by (simp add: le_mod_geq)
    then show ?thesis using True r assms u n by (simp add: word_less_nat_alt)
  next
    case False
    then show ?thesis using u n by (simp add: word_less_nat_alt)
  qed
  have "(t + n) div 2 ^ 32 = (if 2 ^ 32 \<le> r + n then q + 1 else q)"
    using r assms by (auto simp: t div_add_self2 div_mult_self3 intro: div_nat_eqI)
  with carry show ?thesis
    by (simp add: count_bytes_def counter_rep_def Let_def q_def)
qed

lemma compress_rep: "blake2s_compress h b (fst (counter_rep t)) (snd (counter_rep t)) l = compress_at h b t l"
  by (simp add: compress_at_def counter_rep_def)

lemma update_loop_spec:
  "update_loop h (counter_rep t) p = (h', ct, p') \<Longrightarrow>
   length p' \<le> 64 \<and> (p \<noteq> [] \<longrightarrow> p' \<noteq> []) \<and>
   (\<exists>t'. ct = counter_rep t' \<and> spec_blocks h t p = spec_blocks h' t' p')"
proof (induction h "counter_rep t" p arbitrary: t rule: update_loop.induct)
  case (1 h p)
  show ?case
  proof (cases "64 < length p")
    case True
    let ?h = "compress_at h (take 64 p) (t + 64) False"
    have ct: "count_bytes 64 (counter_rep t) = counter_rep (t + 64)"
      using count_bytes_rep [of 64 t] by simp
    have step: "update_loop ?h (counter_rep (t + 64)) (drop 64 p) = (h', ct, p')"
      using "1.prems" True
      by (subst (asm) update_loop.simps) (simp add: ct Let_def compress_rep)
    have "length p' \<le> 64 \<and> (drop 64 p \<noteq> [] \<longrightarrow> p' \<noteq> []) \<and>
        (\<exists>t'. ct = counter_rep t' \<and> spec_blocks ?h (t + 64) (drop 64 p) = spec_blocks h' t' p')"
      using "1.hyps" [OF True ct [symmetric]] step by (simp add: compress_rep)
    then show ?thesis
      using True by (subst spec_blocks.simps [of h t p]) auto
  next
    case False
    then show ?thesis using "1.prems" by (auto simp: update_loop.simps [of h _ p])
  qed
qed


text \<open>
  Finalising a state whose buffer holds \<open>d\<close> (at most a block) is the last block of the
  specification.
\<close>

lemma blake2s_final_spec:
  assumes "b_buflen st = length d" "length d \<le> 64" "take (length d) (b_buf st) = d"
    and "(b_t0 st, b_t1 st) = counter_rep t"
  shows "blake2s_final st = concat (map write32_le (spec_blocks (b_h st) t d))"
proof -
  let ?h = "compress_at (b_h st) (d @ replicate (64 - length d) 0) (t + length d) True"
  have "blake2s_final st = concat (map (\<lambda>i. write32_le (?h ! i)) [0..<8])"
    using assms by (simp add: blake2s_final_def Let_def count_bytes_rep compress_rep)
  also have "map (\<lambda>i. write32_le (?h ! i)) [0..<8] = map write32_le ?h"
    by (intro nth_equalityI) (simp_all del: upt_Suc)
  also have "?h = spec_blocks (b_h st) t d"
    using assms(2) by (subst spec_blocks.simps) simp
  finally show ?thesis .
qed

text \<open>
  The length as the comparison sees it: the length itself below 2 GiB, never more than it, and
  negative at exactly 2 GiB.
\<close>

lemma int_len_small: "length p < 2 ^ 31 \<Longrightarrow> int_len p = int (length p)"
  by (simp add: int_len_def signed_of_nat signed_take_bit_int_eq_self)

lemma int_len_le: "int_len p \<le> int (length p)"
proof -
  have "int_len p = signed_take_bit 31 (int (length p))"
    by (simp add: int_len_def signed_of_nat)
  also have "\<dots> \<le> take_bit 32 (int (length p))"
    by (simp add: signed_take_bit_eq_take_bit_minus)
  also have "\<dots> \<le> int (length p)"
    by (simp add: take_bit_eq_mod zmod_le_nonneg_dividend)
  finally show ?thesis .
qed

lemma int_len_2GiB: "length p = 2 ^ 31 \<Longrightarrow> int_len p = - (2 ^ 31)"
  by (simp add: int_len_def signed_of_nat signed_take_bit_int_eq_self)

text \<open>
  Update and finalise from a state whose buffer already holds \<open>pre\<close> (the padded key, or
  nothing): when the update returns, the digest is the one of the specification, and it returns
  when the length is below 2 GiB.
\<close>

lemma update_returns:
  assumes "length data < 2 ^ 31"
  shows "\<exists>st'. blake2s_update st data = Some st'"
  using assms by (simp add: blake2s_update_def Let_def int_len_small split: prod.splits)

lemma update_2GiB:
  assumes "length data = 2 ^ 31"
  shows "blake2s_update st data = None"
proof -
  have "data \<noteq> []" "\<not> length data \<le> 64 - b_buflen st" "\<not> int (64 - b_buflen st) < int_len data"
    using assms int_len_2GiB [OF assms] by auto
  then show ?thesis by (simp add: blake2s_update_def Let_def)
qed

lemma update_final_spec:
  assumes "b_buflen st = length pre" "length pre \<le> 64" "length (b_buf st) = 64"
    and "take (length pre) (b_buf st) = pre"
    and t: "(b_t0 st, b_t1 st) = counter_rep t"
    and u: "blake2s_update st data = Some st'"
  shows "blake2s_final st' = concat (map write32_le (spec_blocks (b_h st) t (pre @ data)))"
proof (cases "data = []")
  case True
  then show ?thesis
    using assms blake2s_final_spec [of st pre t] by (simp add: blake2s_update_def)
next
  case False
  let ?fill = "64 - length pre"
  show ?thesis
  proof (cases "int ?fill < int_len data")
    case c: True
    then have True: "?fill < length data"
      using int_len_le [of data] by linarith
    let ?buf = "pre @ take ?fill data"
    let ?h = "compress_at (b_h st) ?buf (t + 64) False"
    obtain h' ct p' where loop: "update_loop ?h (counter_rep (t + 64)) (drop ?fill data) = (h', ct, p')"
      using prod_cases3 by blast
    obtain t' where l: "length p' \<le> 64" and ct: "ct = counter_rep t'"
      and eq: "spec_blocks ?h (t + 64) (drop ?fill data) = spec_blocks h' t' p'"
      using update_loop_spec [OF loop] True by auto
    have cb: "count_bytes 64 (counter_rep t) = counter_rep (t + 64)"
      using count_bytes_rep [of 64 t] by simp
    have upd: "st' =
        st\<lparr>b_h := h', b_t0 := fst ct, b_t1 := snd ct,
           b_buf := p' @ drop (length p') ?buf, b_buflen := length p'\<rparr>"
      using False True c assms loop by (simp add: blake2s_update_def Let_def cb compress_rep)
    have "blake2s_final st' = concat (map write32_le (spec_blocks h' t' p'))"
      using blake2s_final_spec [of st' p' t'] l ct by (simp add: upd)
    moreover have "spec_blocks (b_h st) t (pre @ data) = spec_blocks h' t' p'"
      using True assms(2) eq by (subst spec_blocks.simps) auto
    ultimately show ?thesis by simp
  next
    case c: False
    then have False2: "length data \<le> ?fill"
      using False u assms(1) by (auto simp: blake2s_update_def Let_def split: if_splits)
    have upd: "st' = st\<lparr>b_buf := pre @ data @ drop (length pre + length data) (b_buf st),
        b_buflen := length pre + length data\<rparr>"
      using False False2 c u assms by (simp add: blake2s_update_def Let_def)
    then show ?thesis
      using blake2s_final_spec [of st' "pre @ data" t] False2 assms(2) t by (simp add: upd)
  qed
qed

lemma counter_rep_0: "(0, 0) = counter_rep 0"
  by (simp add: counter_rep_def)

text \<open>What a hash that returns has computed.\<close>

lemma blake2s_256_Some:
  assumes "blake2s_256 data = Some d"
  shows "d = blake2s_spec 32 [] data"
proof -
  let ?st = "blake2s_init 32 [] 0"
  obtain st' where u: "blake2s_update ?st data = Some st'" and d: "d = blake2s_final st'"
    using assms by (auto simp: blake2s_256_def bind_eq_Some_conv)
  have "blake2s_final st' = concat (map write32_le (spec_blocks (b_h ?st) 0 data))"
    using update_final_spec [of ?st "[]" 0 data st'] u by (simp add: blake2s_init_def counter_rep_0)
  moreover have "length (concat (map write32_le (spec_blocks (b_h ?st) 0 data))) = 32"
    by (simp add: concat_map_const_length [where k = 4] length_spec_blocks)
  ultimately show ?thesis
    by (simp add: d blake2s_spec_def blake2s_init_def)
qed

lemma blake2s_128mac_Some:
  assumes "blake2s_128mac key data = Some d" and k: "length key = 32"
  shows "d = blake2s_spec 16 key data"
proof -
  let ?st = "blake2s_init 16 key 32"
  obtain st' where u: "blake2s_update ?st data = Some st'" and d: "d = take 16 (blake2s_final st')"
    using assms by (auto simp: blake2s_128mac_def bind_eq_Some_conv)
  have "blake2s_final st' =
      concat (map write32_le (spec_blocks (b_h ?st) 0 ((key @ replicate 32 0) @ data)))"
    using update_final_spec [of ?st "key @ replicate 32 0" 0 data st'] k u
    by (simp add: blake2s_init_def counter_rep_0)
  then show ?thesis
    using k by (auto simp: d blake2s_spec_def blake2s_init_def)
qed

lemma blake2s_256_small: "length data < 2 ^ 31 \<Longrightarrow> \<exists>d. blake2s_256 data = Some d"
  using update_returns [of data "blake2s_init 32 [] 0"] by (auto simp: blake2s_256_def)

lemma blake2s_128mac_small: "length data < 2 ^ 31 \<Longrightarrow> \<exists>d. blake2s_128mac key data = Some d"
  using update_returns [of data "blake2s_init 16 key 32"] by (auto simp: blake2s_128mac_def)

text \<open>
  C24. The incremental BLAKE2s implementation computes the hash of the specification: for
  every message below 2 GiB the 256-bit hash, and with a 32-byte key the 128-bit MAC, return and
  equal the block-by-block specification, including the carry between the two halves of the
  byte counter and the rule that the last block is never compressed early; for a longer message
  a result, when there is one, is still that of the specification.  The bound is the code's: the
  update compares the length as an \<^verbatim>\<open>int\<close>, and a message of exactly 2 GiB, whose length becomes
  negative, is copied past the end of the 64-byte block buffer.
\<close>

theorem blake2s_refines_spec:
  "(length data < 2 ^ 31 \<longrightarrow>
      blake2s_256 data = Some (blake2s_spec 32 [] data) \<and>
      (length key = 32 \<longrightarrow> blake2s_128mac key data = Some (blake2s_spec 16 key data))) \<and>
   (\<forall>d. blake2s_256 data = Some d \<longrightarrow> d = blake2s_spec 32 [] data) \<and>
   (\<forall>d. length key = 32 \<longrightarrow> blake2s_128mac key data = Some d \<longrightarrow> d = blake2s_spec 16 key data) \<and>
   (length data = 2 ^ 31 \<longrightarrow> blake2s_256 data = None \<and> blake2s_128mac key data = None)"
proof (intro conjI impI allI)
  assume "length data < 2 ^ 31"
  then obtain d d' where "blake2s_256 data = Some d" "blake2s_128mac key data = Some d'"
    using blake2s_256_small blake2s_128mac_small by blast
  then show "blake2s_256 data = Some (blake2s_spec 32 [] data)"
    and "length key = 32 \<Longrightarrow> blake2s_128mac key data = Some (blake2s_spec 16 key data)"
    using blake2s_256_Some blake2s_128mac_Some by auto
qed (auto simp: blake2s_256_def blake2s_128mac_def update_2GiB
       dest: blake2s_256_Some [unfolded blake2s_256_def] blake2s_128mac_Some [unfolded blake2s_128mac_def])

theorem blake2s_refines_spec_witness:
  "length (replicate 32 (0 :: u8)) = 32 \<and> length [1, 2, 3 :: u8] < 2 ^ 31 \<and>
   blake2s_256 [1, 2, 3] = Some (blake2s_spec 32 [] [1, 2, 3]) \<and>
   blake2s_128mac (replicate 32 0) [1, 2, 3] = Some (blake2s_spec 16 (replicate 32 0) [1, 2, 3]) \<and>
   (\<exists>z. length z = 2 ^ 31 \<and> blake2s_256 z = None)"
proof -
  obtain z :: bytes where z: "length z = 2 ^ 31"
    using Ex_list_of_length by blast
  have "blake2s_256 z = None"
    using blake2s_refines_spec [of z "replicate 32 0"] z by blast
  with z have long: "\<exists>z. length z = 2 ^ 31 \<and> blake2s_256 z = None" by blast
  have len: "length (replicate 32 (0 :: u8)) = 32" "length [1, 2, 3 :: u8] < 2 ^ 31" by simp_all
  note short = blake2s_refines_spec [of "[1, 2, 3]" "replicate 32 0", THEN conjunct1, rule_format, OF len(2)]
  show ?thesis
    by (intro conjI len long short [THEN conjunct1] short [THEN conjunct2, rule_format, OF len(1)])
qed

section \<open>MAC1\<close>

lemma length_blake2s_final [simp]: "length (blake2s_final st) = 32"
  by (simp add: blake2s_final_def Let_def concat_map_const_length [where k = 4] del: upt_Suc)

text \<open>The MAC as a total function: on the two lengths that MAC1 covers it is the code's result.\<close>

definition mac128 :: "bytes \<Rightarrow> bytes \<Rightarrow> bytes" where
  "mac128 key m = (case blake2s_128mac key m of Some d \<Rightarrow> d | None \<Rightarrow> replicate 16 0)"

lemma length_blake2s_128mac: "blake2s_128mac k m = Some d \<Longrightarrow> length d = 16"
  by (auto simp: blake2s_128mac_def bind_eq_Some_conv)

lemma length_mac128 [simp]: "length (mac128 k m) = 16"
  by (auto simp: mac128_def length_blake2s_128mac split: option.split)

lemma blake2s_128mac_mac128: "length m < 2 ^ 31 \<Longrightarrow> blake2s_128mac k m = Some (mac128 k m)"
  using blake2s_128mac_small [of m k] by (auto simp: mac128_def)

lemma mac1_key_hashes:
  "blake2s_256 ([0x6D, 0x61, 0x63, 0x31, 0x2D, 0x2D, 0x2D, 0x2D] @ take 32 p) =
   Some (compute_mac1_key p)"
  using blake2s_256_small [of "[0x6D, 0x61, 0x63, 0x31, 0x2D, 0x2D, 0x2D, 0x2D] @ take 32 p"]
  by (auto simp: compute_mac1_key_def)

lemma length_compute_mac1_key [simp]: "length (compute_mac1_key p) = 32"
proof -
  have "blake2s_256 data = Some d \<Longrightarrow> length d = 32" for data d
    by (auto simp: blake2s_256_def bind_eq_Some_conv)
  from this [OF mac1_key_hashes [of p]] show ?thesis .
qed

text \<open>
  The contract of a MAC1 field, shared by the handshake initiation (covering 116 bytes) and
  the response (covering 60): the update succeeds on a complete message, rewrites the sixteen
  bytes after the covered part and nothing else, and the result carries the MAC of its own
  covered part, so that updating twice is updating once.
\<close>

locale mac1_field =
  fixes upd :: "bytes \<Rightarrow> int \<Rightarrow> bytes \<Rightarrow> bytes option"
    and mac :: "bytes \<Rightarrow> bytes \<Rightarrow> bytes"
    and cov :: nat
  assumes mac_length: "length (mac k m) = 16"
    and upd_at: "length c = cov \<Longrightarrow> length f = 16 \<Longrightarrow>
      upd (p @ c @ f @ q) (int (length p)) k = Some (p @ c @ mac k c @ q)"
begin

text \<open>The update as a function on a message.\<close>

definition set_mac :: "bytes \<Rightarrow> bytes \<Rightarrow> bytes" where
  "set_mac k m = take cov m @ mac k (take cov m) @ drop (cov + 16) m"

lemma length_set_mac: "cov + 16 \<le> length m \<Longrightarrow> length (set_mac k m) = length m"
  by (simp add: set_mac_def mac_length)

lemma set_mac_head: "n \<le> cov \<Longrightarrow> cov \<le> length m \<Longrightarrow> take n (set_mac k m) = take n m"
  by (simp add: set_mac_def min_def)

lemma upd_message:
  assumes "cov + 16 \<le> length m"
  shows "upd (p @ m @ q) (int (length p)) k = Some (p @ set_mac k m @ q)"
proof -
  have m: "m = take cov m @ take 16 (drop cov m) @ drop (cov + 16) m"
    by (metis append_take_drop_id drop_drop add.commute)
  have "upd (p @ take cov m @ take 16 (drop cov m) @ (drop (cov + 16) m @ q)) (int (length p)) k =
      Some (p @ take cov m @ mac k (take cov m) @ drop (cov + 16) m @ q)"
    by (rule upd_at) (use assms in auto)
  moreover have "p @ take cov m @ take 16 (drop cov m) @ (drop (cov + 16) m @ q) = p @ m @ q"
    using m by (metis append.assoc)
  ultimately show ?thesis by (simp add: set_mac_def)
qed

lemma set_mac_fixed:
  assumes "cov + 16 \<le> length m"
  shows "set_mac k m = m \<longleftrightarrow> mac k (take cov m) = take 16 (drop cov m)"
proof -
  have m: "m = take cov m @ take 16 (drop cov m) @ drop (cov + 16) m"
    by (metis append_take_drop_id drop_drop add.commute)
  have "set_mac k m = m \<longleftrightarrow> take cov m @ mac k (take cov m) @ drop (cov + 16) m =
      take cov m @ take 16 (drop cov m) @ drop (cov + 16) m"
    unfolding set_mac_def using m by simp
  then show ?thesis by simp
qed

lemma set_mac_idem: "cov + 16 \<le> length m \<Longrightarrow> set_mac k (set_mac k' m) = set_mac k m"
  by (simp add: set_mac_def mac_length min_def)

text \<open>Only the covered bytes matter for the MAC, and everything after the field is kept.\<close>

lemma set_mac_verifies: "cov + 16 \<le> length m \<Longrightarrow>
    take 16 (drop cov (set_mac k m)) = mac k (take cov (set_mac k m))"
  by (simp add: set_mac_def mac_length min_def)

lemma set_mac_tail: "cov + 16 \<le> length m \<Longrightarrow> drop (cov + 16) (set_mac k m) = drop (cov + 16) m"
  by (simp add: set_mac_def mac_length min_def)

end

interpretation init_mac: mac1_field recompute_mac1 mac128 116
proof unfold_locales
  fix c f p q k :: bytes
  assume "length c = 116" "length f = 16"
  then show "recompute_mac1 (p @ c @ f @ q) (int (length p)) k = Some (p @ c @ mac128 k c @ q)"
    using wr_split [of "int (length p) + 116" "p @ c" "mac128 k c" f q]
    by (simp add: recompute_mac1_def rd_split blake2s_128mac_mac128)
qed simp

interpretation resp_mac: mac1_field recompute_mac1_response mac128 60
proof unfold_locales
  fix c f p q k :: bytes
  assume "length c = 60" "length f = 16"
  then show "recompute_mac1_response (p @ c @ f @ q) (int (length p)) k = Some (p @ c @ mac128 k c @ q)"
    using wr_split [of "int (length p) + 60" "p @ c" "mac128 k c" f q]
    by (simp add: recompute_mac1_response_def rd_split blake2s_128mac_mac128)
qed simp

end
