(* ===== verification/Known_Answers.thy ===== *)
theory Known_Answers
  imports Chacha
begin

text \<open>
  The block function of \<^verbatim>\<open>src/src/chacha20.c\<close> on the test vector of RFC 8439, section 2.3.2
  (key 00 01 .. 1f, nonce 00 00 00 09 00 00 00 4a 00 00 00 00, block counter 1), evaluated
  in the kernel.  One lemma per double round keeps each evaluation small; the last lemma
  chains the ten rounds.  The other theories use the block as a concrete keystream.
\<close>

definition rfc_key :: bytes where
  "rfc_key = map word_of_nat [0..<32]"

definition rfc_nonce :: bytes where
  "rfc_nonce = [0, 0, 0, 9, 0, 0, 0, 0x4A, 0, 0, 0, 0]"

definition rfc_state0 :: "u32 list" where
  "rfc_state0 =
     [0x61707865, 0x3320646E, 0x79622D32, 0x6B206574, 0x03020100, 0x07060504, 0x0B0A0908, 0x0F0E0D0C,
      0x13121110, 0x17161514, 0x1B1A1918, 0x1F1E1D1C, 0x00000001, 0x09000000, 0x4A000000, 0x00000000]"

definition rfc_state1 :: "u32 list" where
  "rfc_state1 =
     [0xCD52E917, 0x85AB03B4, 0xB3457395, 0xF96DE7DD, 0xC4B7CD22, 0x5C2E187A, 0xC95EB461, 0x316C801A,
      0x7BF7D740, 0x7EDDD644, 0xF1A1BDF5, 0x761246CA, 0x6B0D58A3, 0x6798471A, 0xD737F167, 0xF173888D]"

definition rfc_state2 :: "u32 list" where
  "rfc_state2 =
     [0xCF1A7584, 0x048927EC, 0x54051FDA, 0xC244FF28, 0x901D2F40, 0x7974B81C, 0x378DCFB4, 0xCD47FD0E,
      0x2DAFB216, 0x27C89CD6, 0xCD3C9AA0, 0x79FC89C7, 0x10AEF18D, 0x16218765, 0x68F76705, 0x04D6EE22]"

definition rfc_state3 :: "u32 list" where
  "rfc_state3 =
     [0x03A14032, 0x66B15927, 0x9D6B6B42, 0xB84C4109, 0xA7143AE0, 0xA09B33DD, 0xA5DAAF88, 0x2FD91A73,
      0xC90C6B18, 0x5A202413, 0xC20E01B6, 0x72CD6B74, 0xBA35D777, 0xB360F1BF, 0x8178315B, 0x2CD11B1A]"

definition rfc_state4 :: "u32 list" where
  "rfc_state4 =
     [0x9A2D3589, 0x0B23FC4E, 0x40AF3B6B, 0xCEEA8144, 0x0A1BFFC6, 0x5E5993F7, 0x9904C2E7, 0x0D334718,
      0xE46C6354, 0xC9503229, 0x04FEF5AA, 0xF8933F72, 0x2687D476, 0x54E65231, 0x3594FFC5, 0x2B3BB2CA]"

definition rfc_state5 :: "u32 list" where
  "rfc_state5 =
     [0xC53318C5, 0xCA325D96, 0x7E7D11CB, 0x3404E2CA, 0x26D7CF73, 0x6088D379, 0xC0F0E9BD, 0xE310CDB9,
      0xAE2CA8DB, 0x42F67C72, 0x71669ACA, 0x975C171D, 0x9E5EC228, 0x7D85A9F3, 0x201D0756, 0x63FA6953]"

definition rfc_state6 :: "u32 list" where
  "rfc_state6 =
     [0x04A3131A, 0x66176309, 0x0415BAB1, 0x61B880A2, 0x36CC86C7, 0xBF8A4465, 0xF77DD720, 0xFC0BDC90,
      0x07D13ACA, 0xEB0BE9AF, 0x61599491, 0x918512DC, 0x33B6686D, 0x795CC671, 0xC0049972, 0xA0A81BDE]"

definition rfc_state7 :: "u32 list" where
  "rfc_state7 =
     [0x9B70F51F, 0x7EA8AC11, 0x21E54DA9, 0xCA393B2F, 0x93B08686, 0x6A4C50AE, 0x19212A5A, 0x9B032958,
      0xD839165E, 0x4C06E28A, 0xD3FDE99E, 0x26ACC13D, 0xA609F555, 0x2C246549, 0x95151853, 0x2C847A0D]"

definition rfc_state8 :: "u32 list" where
  "rfc_state8 =
     [0xCA5C85DD, 0x93A4F90E, 0xD9F0DF58, 0x26DD82DD, 0x982563F8, 0x712AA9FF, 0x279A61E8, 0x970F72BD,
      0x1C25931A, 0x5180BB10, 0x779C27E7, 0x54077E08, 0xA9B751FB, 0x382F3CE2, 0x8DB1757D, 0xCC38080B]"

definition rfc_state9 :: "u32 list" where
  "rfc_state9 =
     [0xB6B87DE6, 0x9A016148, 0x93859815, 0x4915E6CC, 0xDC33C122, 0x98E18FA3, 0x5FFBE8FC, 0xF7154B8B,
      0x28C1FCB3, 0xC4B38F9D, 0x83E2F5D7, 0x7D24B98B, 0x21078B22, 0xB193E7A3, 0xB2F49389, 0x6CDE6026]"

definition rfc_state10 :: "u32 list" where
  "rfc_state10 =
     [0x837778AB, 0xE238D763, 0xA67AE21E, 0x5950BB2F, 0xC4F2D0C7, 0xFC62BB2F, 0x8FA018FC, 0x3F5EC7B7,
      0x335271C2, 0xF29489F3, 0xEABDA8FC, 0x82E46EBD, 0xD19C12B4, 0xB04E16DE, 0x9E83D0CB, 0x4E3C50A2]"

lemma rfc_setup: "chacha20_setup rfc_key rfc_nonce 1 = rfc_state0"
  by code_simp

lemma rfc_round1: "double_round rfc_state0 = rfc_state1"
  by code_simp

lemma rfc_round2: "double_round rfc_state1 = rfc_state2"
  by code_simp

lemma rfc_round3: "double_round rfc_state2 = rfc_state3"
  by code_simp

lemma rfc_round4: "double_round rfc_state3 = rfc_state4"
  by code_simp

lemma rfc_round5: "double_round rfc_state4 = rfc_state5"
  by code_simp

lemma rfc_round6: "double_round rfc_state5 = rfc_state6"
  by code_simp

lemma rfc_round7: "double_round rfc_state6 = rfc_state7"
  by code_simp

lemma rfc_round8: "double_round rfc_state7 = rfc_state8"
  by code_simp

lemma rfc_round9: "double_round rfc_state8 = rfc_state9"
  by code_simp

lemma rfc_round10: "double_round rfc_state9 = rfc_state10"
  by code_simp

definition rfc_block :: bytes where
  "rfc_block =
     [0x10, 0xF1, 0xE7, 0xE4, 0xD1, 0x3B, 0x59, 0x15, 0x50, 0x0F, 0xDD, 0x1F, 0xA3, 0x20, 0x71, 0xC4,
      0xC7, 0xD1, 0xF4, 0xC7, 0x33, 0xC0, 0x68, 0x03, 0x04, 0x22, 0xAA, 0x9A, 0xC3, 0xD4, 0x6C, 0x4E,
      0xD2, 0x82, 0x64, 0x46, 0x07, 0x9F, 0xAA, 0x09, 0x14, 0xC2, 0xD7, 0x05, 0xD9, 0x8B, 0x02, 0xA2,
      0xB5, 0x12, 0x9C, 0xD1, 0xDE, 0x16, 0x4E, 0xB9, 0xCB, 0xD0, 0x83, 0xE8, 0xA2, 0x50, 0x3C, 0x4E]"

lemmas rfc_rounds = rfc_round1 rfc_round2 rfc_round3 rfc_round4 rfc_round5
  rfc_round6 rfc_round7 rfc_round8 rfc_round9 rfc_round10

lemma rfc_ten_rounds: "(double_round ^^ 10) rfc_state0 = rfc_state10"
  by (simp add: eval_nat_numeral funpow_Suc_right rfc_rounds del: funpow.simps(2))

lemma rfc_final: "concat (map (\<lambda>i. write32_le (rfc_state10 ! i + rfc_state0 ! i)) [0..<16]) = rfc_block"
  by code_simp

lemma rfc_core: "chacha20_core rfc_state0 = rfc_block"
  by (simp only: chacha20_core_def rfc_ten_rounds rfc_final Let_def)

text \<open>
  The block function returns the test vector of RFC 8439, section 2.3.2.
\<close>

theorem chacha20_rfc8439: "chacha20_block rfc_key rfc_nonce 1 = rfc_block"
  by (simp add: chacha20_block_def rfc_setup rfc_core)

end
