(* ===== verification/Cps.thy ===== *)
theory Cps
  imports Fastrand Known_Answers
begin

text \<open>
  Model of \<^verbatim>\<open>src/src/cps.c\<close> and of the template types in \<^verbatim>\<open>src/src/transform.h\<close>: the
  parser for the \<open>I1\<close>--\<open>I5\<close> packet templates (\<open><b 0x..>\<close>, \<open><r N>\<close>, \<open><rc N>\<close>, \<open><rd N>\<close>,
  \<open><t>\<close>, \<open><c>\<close>, \<open><dz N>\<close>, \<open><d>\<close>, \<open><ds>\<close>) and the generator that renders a template into a
  packet.  Strings are lists of character codes.  The fixed C arrays of a template are the
  lists of their used entries; the clock is an argument.  The rejection sampling of
  \<open>fill_symbols\<close> may in principle draw for ever, so it is a partial function whose \<open>None\<close>
  means that it does not return; a theorem gives the condition under which it does.
\<close>

section \<open>Templates\<close>

datatype cps_kind = CPS_STATIC | CPS_RANDOM | CPS_TIMESTAMP | CPS_COUNTER
  | CPS_RANDOM_CHARS | CPS_RANDOM_DIGITS | CPS_ZEROS

record cps_segment =
  sg_kind :: cps_kind
  sg_size :: u16
  sg_data_off :: u16
  sg_data_len :: u16

record cps_template =
  tm_segs :: "cps_segment list"
  tm_static :: bytes

definition CPS_MAX_SEGMENTS :: nat where "CPS_MAX_SEGMENTS = 32"
definition CPS_MAX_STATIC :: nat where "CPS_MAX_STATIC = 1500"

definition mk_seg :: "cps_kind \<Rightarrow> cps_segment" where
  "mk_seg k = \<lparr>sg_kind = k, sg_size = 0, sg_data_off = 0, sg_data_len = 0\<rparr>"

section \<open>The parser\<close>

definition hex_val :: "u8 \<Rightarrow> int" where
  "hex_val c =
     (if 48 \<le> c \<and> c \<le> 57 then uint c - 48
      else if 97 \<le> c \<and> c \<le> 102 then uint c - 97 + 10
      else if 65 \<le> c \<and> c \<le> 70 then uint c - 65 + 10
      else -1)"

fun parse_int_loop :: "int \<Rightarrow> bytes \<Rightarrow> int" where
  "parse_int_loop v [] = v"
| "parse_int_loop v (c # cs) =
     (if c < 48 \<or> 57 < c then -1
      else if 100000 < v then -1
      else parse_int_loop (v * 10 + (uint c - 48)) cs)"

definition parse_int :: "bytes \<Rightarrow> int" where
  "parse_int s = (if s = [] then -1 else parse_int_loop 0 s)"

definition skip_spaces :: "bytes \<Rightarrow> bytes" where
  "skip_spaces = dropWhile (\<lambda>c. c = 32 \<or> c = 9)"

text \<open>The hex digits of a static segment, two per byte; \<open>None\<close> on a foreign character.\<close>

fun hex_bytes :: "bytes \<Rightarrow> bytes option" where
  "hex_bytes (h # l # r) =
     (let hi = hex_val h; lo = hex_val l
      in if hi < 0 \<or> lo < 0 then None
         else map_option (\<lambda>bs. word_of_int (hi * 16 + lo) # bs) (hex_bytes r))"
| "hex_bytes _ = Some []"

text \<open>\<open>seg->size = size\<close>: the parsed number is stored in sixteen bits.\<close>

definition sized_seg :: "cps_kind \<Rightarrow> bytes \<Rightarrow> cps_template \<Rightarrow> cps_template option" where
  "sized_seg k digits t =
     (let size = parse_int (skip_spaces digits)
      in if size \<le> 0 then None
         else Some (t\<lparr>tm_segs := tm_segs t @ [(mk_seg k)\<lparr>sg_size := word_of_int size\<rparr>]\<rparr>))"

definition static_seg :: "bytes \<Rightarrow> cps_template \<Rightarrow> cps_template option" where
  "static_seg body t =
     (case skip_spaces body of
        z # x # (d # ds) \<Rightarrow>
          (let hex = d # ds; used = length (tm_static t); nbytes = length hex div 2
           in if z \<noteq> 48 \<or> (x \<noteq> 120 \<and> x \<noteq> 88) then None
              else if length hex mod 2 \<noteq> 0 then None
              else if CPS_MAX_STATIC < used + nbytes then None
              else map_option (\<lambda>bs. t\<lparr>tm_segs := tm_segs t @
                       [(mk_seg CPS_STATIC)\<lparr>sg_data_off := word_of_nat used,
                                            sg_data_len := word_of_nat nbytes\<rparr>],
                     tm_static := tm_static t @ bs\<rparr>) (hex_bytes hex))
      | _ \<Rightarrow> None)"

text \<open>One tag, given the text between its angle brackets (not empty).\<close>

fun parse_tag :: "bytes \<Rightarrow> cps_template \<Rightarrow> cps_template option" where
  "parse_tag [] t = None"
| "parse_tag (kind # body) t =
     (if kind = 98 then static_seg body t
      else if kind = 114 then
        (case body of
           c # r \<Rightarrow> (if c = 99 then sized_seg CPS_RANDOM_CHARS r t
                     else if c = 100 then sized_seg CPS_RANDOM_DIGITS r t
                     else sized_seg CPS_RANDOM body t)
         | [] \<Rightarrow> sized_seg CPS_RANDOM body t)
      else if kind = 116 then Some (t\<lparr>tm_segs := tm_segs t @ [mk_seg CPS_TIMESTAMP]\<rparr>)
      else if kind = 99 then Some (t\<lparr>tm_segs := tm_segs t @ [mk_seg CPS_COUNTER]\<rparr>)
      else if kind = 100 then
        (case body of
           c # r \<Rightarrow> (if c = 122 then sized_seg CPS_ZEROS r t else Some t)
         | [] \<Rightarrow> Some t)
      else None)"

function cps_parse_loop :: "bytes \<Rightarrow> cps_template \<Rightarrow> cps_template option" where
  "cps_parse_loop [] t = Some t"
| "cps_parse_loop (c # s) t =
     (if c = 32 \<or> c = 9 \<or> c = 10 \<or> c = 13 then cps_parse_loop s t
      else if c \<noteq> 60 then None
      else let inner = takeWhile (\<lambda>x. x \<noteq> 62) s
           in if length inner = length s then None
              else if CPS_MAX_SEGMENTS \<le> length (tm_segs t) then None
              else (case parse_tag inner t of
                      None \<Rightarrow> None
                    | Some t' \<Rightarrow> cps_parse_loop (drop (length inner + 1) s) t'))"
  by pat_completeness auto
termination
  by (relation "measure (\<lambda>(s, t). length s)") auto

definition cps_parse :: "bytes \<Rightarrow> cps_template option" where
  "cps_parse s =
     (case cps_parse_loop s \<lparr>tm_segs = [], tm_static = []\<rparr> of
        None \<Rightarrow> None
      | Some t \<Rightarrow> (if tm_segs t \<noteq> [] then Some t else None))"

section \<open>The generator\<close>

definition seg_len :: "cps_segment \<Rightarrow> nat" where
  "seg_len seg =
     (case sg_kind seg of
        CPS_STATIC \<Rightarrow> unat (sg_data_len seg)
      | CPS_RANDOM \<Rightarrow> unat (sg_size seg)
      | CPS_RANDOM_CHARS \<Rightarrow> unat (sg_size seg)
      | CPS_RANDOM_DIGITS \<Rightarrow> unat (sg_size seg)
      | CPS_ZEROS \<Rightarrow> unat (sg_size seg)
      | CPS_TIMESTAMP \<Rightarrow> 4
      | CPS_COUNTER \<Rightarrow> 4)"

definition cps_max_size :: "cps_template \<Rightarrow> nat" where
  "cps_max_size t = sum_list (map seg_len (tm_segs t))"

definition chars52 :: bytes where
  "chars52 = map word_of_nat ([97..<123] @ [65..<91])"

definition digits10 :: bytes where
  "digits10 = map word_of_nat [48..<58]"

text \<open>
  \<open>fill_symbols\<close>: draw bytes from a 64-byte pool, last one first, reject those at or above the
  largest multiple of the alphabet size, refill when the pool is empty.
\<close>

partial_function (option) fill_symbols_loop ::
    "bytes \<Rightarrow> csprng \<Rightarrow> bytes \<Rightarrow> nat \<Rightarrow> bytes \<Rightarrow> (bytes \<times> csprng) option" where
  "fill_symbols_loop alpha rng pool n acc =
     (if n = 0 then Some (acc, rng)
      else if pool = [] then
        fill_symbols_loop alpha (snd (csprng_fill rng 64)) (fst (csprng_fill rng 64)) n acc
      else if unat (last pool) < 256 - 256 mod length alpha then
        fill_symbols_loop alpha rng (butlast pool) (n - 1)
          (acc @ [alpha ! (unat (last pool) mod length alpha)])
      else fill_symbols_loop alpha rng (butlast pool) n acc)"

definition fill_symbols :: "bytes \<Rightarrow> csprng \<Rightarrow> nat \<Rightarrow> (bytes \<times> csprng) option" where
  "fill_symbols alpha rng n = fill_symbols_loop alpha rng [] n []"

text \<open>Big-endian, as the sources write the timestamp.\<close>

definition put_be32 :: "u32 \<Rightarrow> bytes" where
  "put_be32 v = [ucast (drop_bit 24 v), ucast (drop_bit 16 v), ucast (drop_bit 8 v), ucast v]"

definition seg_bytes :: "cps_template \<Rightarrow> u32 \<Rightarrow> u32 \<Rightarrow> csprng \<Rightarrow> cps_segment \<Rightarrow> (bytes \<times> csprng) option" where
  "seg_bytes t counter ts rng seg =
     (case sg_kind seg of
        CPS_STATIC \<Rightarrow> Some (take (unat (sg_data_len seg)) (drop (unat (sg_data_off seg)) (tm_static t)), rng)
      | CPS_RANDOM \<Rightarrow> Some (csprng_fill rng (unat (sg_size seg)))
      | CPS_RANDOM_CHARS \<Rightarrow> fill_symbols chars52 rng (unat (sg_size seg))
      | CPS_RANDOM_DIGITS \<Rightarrow> fill_symbols digits10 rng (unat (sg_size seg))
      | CPS_ZEROS \<Rightarrow> Some (replicate (unat (sg_size seg)) 0, rng)
      | CPS_TIMESTAMP \<Rightarrow> Some (put_be32 ts, rng)
      | CPS_COUNTER \<Rightarrow> Some (put_le 4 counter, rng))"

text \<open>
  \<open>clk\<close> is what \<open>time(NULL)\<close> returns while the \<open>i\<close>-th remaining segment is rendered.  The
  loop stops before the first segment that does not fit.
\<close>

fun gen_loop :: "cps_template \<Rightarrow> u32 \<Rightarrow> (nat \<Rightarrow> u32) \<Rightarrow> nat \<Rightarrow> cps_segment list \<Rightarrow> csprng \<Rightarrow> bytes
    \<Rightarrow> (bytes \<times> csprng) option" where
  "gen_loop t counter clk bufsize [] rng out = Some (out, rng)"
| "gen_loop t counter clk bufsize (seg # segs) rng out =
     (if bufsize < length out + seg_len seg then Some (out, rng)
      else do { (bs, rng) \<leftarrow> seg_bytes t counter (clk (length segs)) rng seg;
                gen_loop t counter clk bufsize segs rng (out @ bs) })"

definition cps_generate :: "cps_template \<Rightarrow> u32 \<Rightarrow> (nat \<Rightarrow> u32) \<Rightarrow> csprng \<Rightarrow> nat \<Rightarrow> (bytes \<times> csprng) option" where
  "cps_generate t counter clk rng bufsize = gen_loop t counter clk bufsize (tm_segs t) rng []"

text \<open>All configured templates, each in a 1500-byte buffer, the counter incremented per packet.\<close>

fun cps_generate_all :: "cps_template option list \<Rightarrow> u32 \<Rightarrow> (nat \<Rightarrow> nat \<Rightarrow> u32) \<Rightarrow> csprng
    \<Rightarrow> (bytes list \<times> u32 \<times> csprng) option" where
  "cps_generate_all [] counter clk rng = Some ([], counter, rng)"
| "cps_generate_all (None # ts) counter clk rng = cps_generate_all ts counter clk rng"
| "cps_generate_all (Some t # ts) counter clk rng =
     do { (pkt, rng) \<leftarrow> cps_generate t counter (clk (length ts)) rng 1500;
          (pkts, counter, rng) \<leftarrow> cps_generate_all ts (counter + 1) clk rng;
          Some (pkt # pkts, counter, rng) }"

section \<open>Well-formed templates\<close>

text \<open>
  What the parser guarantees: at most 32 segments, at most 1500 static bytes, and every
  static segment refers to bytes the template holds.
\<close>

definition seg_wf :: "cps_template \<Rightarrow> cps_segment \<Rightarrow> bool" where
  "seg_wf t seg \<longleftrightarrow>
     (sg_kind seg = CPS_STATIC \<longrightarrow>
        unat (sg_data_off seg) + unat (sg_data_len seg) \<le> length (tm_static t))"

definition wf_template :: "cps_template \<Rightarrow> bool" where
  "wf_template t \<longleftrightarrow>
     length (tm_segs t) \<le> CPS_MAX_SEGMENTS \<and> length (tm_static t) \<le> CPS_MAX_STATIC \<and>
     list_all (seg_wf t) (tm_segs t)"

lemma seg_wf_mono:
  "seg_wf t seg \<Longrightarrow> length (tm_static t) \<le> length (tm_static t') \<Longrightarrow> seg_wf t' seg"
  by (auto simp: seg_wf_def)

lemma hex_bytes_length: "hex_bytes s = Some bs \<Longrightarrow> length bs = length s div 2"
  by (induction s arbitrary: bs rule: hex_bytes.induct) (auto simp: Let_def split: if_splits)

lemma wf_snoc:
  assumes "wf_template t" "length (tm_segs t) < CPS_MAX_SEGMENTS" "sg_kind seg \<noteq> CPS_STATIC"
  shows "wf_template (t\<lparr>tm_segs := tm_segs t @ [seg]\<rparr>)"
  using assms by (auto simp: wf_template_def list_all_iff seg_wf_def)

lemma sized_seg_wf:
  "wf_template t \<Longrightarrow> length (tm_segs t) < CPS_MAX_SEGMENTS \<Longrightarrow> k \<noteq> CPS_STATIC \<Longrightarrow>
   sized_seg k ds t = Some t' \<Longrightarrow> wf_template t'"
  by (auto simp: sized_seg_def Let_def mk_seg_def intro!: wf_snoc split: if_splits)

lemma static_seg_wf:
  assumes "wf_template t" "length (tm_segs t) < CPS_MAX_SEGMENTS" "static_seg body t = Some t'"
  shows "wf_template t'"
proof -
  obtain hex bs where bs: "hex_bytes hex = Some bs"
    and fits: "length (tm_static t) + length hex div 2 \<le> CPS_MAX_STATIC"
    and t': "t' = t\<lparr>tm_segs := tm_segs t @ [(mk_seg CPS_STATIC)\<lparr>sg_data_off := word_of_nat (length (tm_static t)),
        sg_data_len := word_of_nat (length hex div 2)\<rparr>], tm_static := tm_static t @ bs\<rparr>"
    using assms(3) by (auto simp: static_seg_def Let_def split: list.splits if_splits)
  have len: "length bs = length hex div 2" using bs by (rule hex_bytes_length)
  have "unat (word_of_nat (length (tm_static t)) :: u16) = length (tm_static t)"
    "unat (word_of_nat (length hex div 2) :: u16) = length hex div 2"
    using fits by (simp_all add: unat_of_nat CPS_MAX_STATIC_def)
  then show ?thesis
    using assms(1,2) fits len
    by (auto simp: t' wf_template_def list_all_iff seg_wf_def mk_seg_def)
qed

lemma parse_tag_wf:
  assumes "wf_template t" "length (tm_segs t) < CPS_MAX_SEGMENTS" "parse_tag inner t = Some t'"
  shows "wf_template t'"
  using assms
  by (cases inner)
    (auto simp: mk_seg_def intro!: wf_snoc split: if_splits list.splits
      intro: sized_seg_wf static_seg_wf)

lemma cps_parse_loop_wf: "cps_parse_loop s t = Some t' \<Longrightarrow> wf_template t \<Longrightarrow> wf_template t'"
proof (induction s t rule: cps_parse_loop.induct)
  case (2 c s t)
  then show ?case
    by (auto simp: Let_def split: if_splits option.splits dest: parse_tag_wf)
qed simp

section \<open>Drawing symbols\<close>

lemma fill_symbols_loop_result:
  assumes "fill_symbols_loop alpha rng pool n acc = Some (out, rng')" and "alpha \<noteq> []"
  shows "length out = length acc + n \<and> set out \<subseteq> set acc \<union> set alpha"
proof -
  have "alpha \<noteq> [] \<longrightarrow> length (fst r) = length acc + n \<and> set (fst r) \<subseteq> set acc \<union> set alpha"
    if ret: "fill_symbols_loop alpha rng pool n acc = Some r" for r
  proof (rule fill_symbols_loop.raw_induct [where P = "\<lambda>alpha rng pool n acc r. alpha \<noteq> [] \<longrightarrow>
        length (fst r) = length acc + n \<and> set (fst r) \<subseteq> set acc \<union> set alpha", OF _ ret], goal_cases)
    case (1 f alpha rng pool n acc r)
    have sym: "alpha \<noteq> [] \<Longrightarrow> alpha ! (unat (last pool) mod length alpha) \<in> set alpha"
      by (simp add: nth_mem)
    consider "n = 0" | "n \<noteq> 0" "pool = []" | "n \<noteq> 0" "pool \<noteq> []"
        "unat (last pool) < 256 - 256 mod length alpha"
      | "n \<noteq> 0" "pool \<noteq> []" "\<not> unat (last pool) < 256 - 256 mod length alpha"
      by blast
    then show ?case
    proof cases
      case 3
      then have "f alpha rng (butlast pool) (n - 1)
          (acc @ [alpha ! (unat (last pool) mod length alpha)]) = Some r"
        using 1(2) by simp
      from 1(1) [OF this] 3(1) sym show ?thesis by auto
    qed (use 1 in \<open>auto\<close>)
  qed
  from this [OF assms(1)] assms(2) show ?thesis by simp
qed

text \<open>A byte the sampling accepts.\<close>

definition accepted :: "bytes \<Rightarrow> u8 \<Rightarrow> bool" where
  "accepted alpha b \<longleftrightarrow> unat b < 256 - 256 mod length alpha"

text \<open>
  The sampling returns as soon as the generator's keystream holds an acceptable byte in some
  block: the 32-bit block counter comes round to every block.
\<close>

definition draws_forever :: "bytes \<Rightarrow> csprng \<Rightarrow> bytes \<Rightarrow> nat \<Rightarrow> bytes \<Rightarrow> bool" where
  "draws_forever alpha rng pool n acc \<longleftrightarrow> fill_symbols_loop alpha rng pool n acc = None"

lemma draws_pool_step:
  assumes "pool \<noteq> []"
  shows "draws_forever alpha rng pool (Suc n) acc \<longleftrightarrow>
    (if accepted alpha (last pool)
     then draws_forever alpha rng (butlast pool) n (acc @ [alpha ! (unat (last pool) mod length alpha)])
     else draws_forever alpha rng (butlast pool) (Suc n) acc)"
  using assms by (simp add: draws_forever_def accepted_def fill_symbols_loop.simps [of alpha rng pool])

lemma draws_refill_step:
  "draws_forever alpha rng [] (Suc n) acc \<longleftrightarrow>
   draws_forever alpha (snd (csprng_fill rng 64)) (fst (csprng_fill rng 64)) (Suc n) acc"
  by (simp add: draws_forever_def fill_symbols_loop.simps [of alpha rng "[]"])

lemma draws_from_pool:
  assumes more: "\<And>pool acc. \<not> draws_forever alpha rng pool n acc"
    and "b \<in> set pool" "accepted alpha b"
  shows "\<not> draws_forever alpha rng pool (Suc n) acc"
  using assms(2,3)
proof (induction pool arbitrary: acc rule: rev_induct)
  case (snoc x xs)
  then show ?case by (auto simp: draws_pool_step more)
qed simp

lemma draws_until_block:
  assumes more: "\<And>rng pool acc. cs_key rng = key \<Longrightarrow> cs_nonce rng = nonce \<Longrightarrow>
      \<not> draws_forever alpha rng pool n acc"
    and blk: "b \<in> set (chacha20_keystream key nonce c 64)" "accepted alpha b"
    and "cs_key rng = key" "cs_nonce rng = nonce" "unat (c - cs_ctr rng) = d"
  shows "\<not> draws_forever alpha rng pool (Suc n) acc"
  using assms(4-)
proof (induction d arbitrary: rng pool acc)
  case 0
  have c: "cs_ctr rng = c" using 0(3) by (simp add: unat_eq_0)
  have refill: "\<not> draws_forever alpha rng [] (Suc n) acc" for acc
    unfolding draws_refill_step
    by (rule draws_from_pool [OF more _ blk(2)]) (use 0 c blk(1) in \<open>simp_all add: csprng_fill_def\<close>)
  show ?case
    by (induction pool arbitrary: acc rule: rev_induct) (auto simp: refill draws_pool_step more 0)
next
  case (Suc d)
  let ?rng = "snd (csprng_fill rng 64)"
  have "unat (c - cs_ctr ?rng) = d"
  proof -
    have eq: "c - cs_ctr ?rng = (c - cs_ctr rng) - 1" by (simp add: csprng_fill_def algebra_simps)
    have "c - cs_ctr rng \<noteq> 0" using Suc.prems(3) by auto
    from unat_minus_one [OF this] show ?thesis using Suc.prems(3) by (simp only: eq)
  qed
  then have refill: "\<not> draws_forever alpha rng [] (Suc n) acc" for acc
    unfolding draws_refill_step using Suc.IH [of ?rng] Suc.prems by (simp add: csprng_fill_def)
  show ?case
    by (induction pool arbitrary: acc rule: rev_induct) (auto simp: refill draws_pool_step more Suc.prems)
qed

lemma fill_symbols_returns:
  assumes "b \<in> set (chacha20_keystream (cs_key rng) (cs_nonce rng) c 64)" "accepted alpha b"
  shows "\<exists>r. fill_symbols alpha rng n = Some r"
proof -
  have "cs_key rng' = cs_key rng \<Longrightarrow> cs_nonce rng' = cs_nonce rng \<Longrightarrow>
      \<not> draws_forever alpha rng' pool n acc" for rng' pool acc
  proof (induction n arbitrary: rng' pool acc)
    case 0
    then show ?case by (simp add: draws_forever_def fill_symbols_loop.simps)
  next
    case (Suc n)
    show ?case
      by (rule draws_until_block [OF Suc.IH assms]) (use Suc.prems in auto)
  qed
  from this [of rng "[]" "[]"] show ?thesis
    by (simp add: draws_forever_def fill_symbols_def)
qed

lemma fill_symbols_result:
  "fill_symbols alpha rng n = Some (out, rng') \<Longrightarrow> alpha \<noteq> [] \<Longrightarrow> length out = n \<and> set out \<subseteq> set alpha"
  using fill_symbols_loop_result [of alpha rng "[]" n "[]" out rng'] by (simp add: fill_symbols_def)

lemma alphabets_nonempty [simp]: "chars52 \<noteq> []" "digits10 \<noteq> []"
  by (simp_all add: chars52_def digits10_def)

section \<open>Sizes of generated packets\<close>

lemma seg_bytes_length:
  assumes "seg_wf t seg" "seg_bytes t counter ts rng seg = Some (bs, rng')"
  shows "length bs = seg_len seg"
proof -
  have "unat (sg_size seg) < 2 ^ 31" using unsigned_less [of "sg_size seg", where 'a = nat] by simp
  then show ?thesis
    using assms fill_symbols_result [of _ rng _ bs rng'] length_csprng_fill [of "unat (sg_size seg)" rng]
    by (cases "sg_kind seg")
      (auto simp: seg_bytes_def seg_len_def seg_wf_def put_be32_def)
qed

text \<open>
  The generator renders a prefix of the segments: those that fit, in order.
\<close>

fun fitting :: "nat \<Rightarrow> nat list \<Rightarrow> nat" where
  "fitting room [] = 0"
| "fitting room (n # ns) = (if room < n then 0 else n + fitting (room - n) ns)"

lemma fitting_le: "fitting room ns \<le> room"
  by (induction room ns rule: fitting.induct) auto

lemma fitting_all: "sum_list ns \<le> room \<Longrightarrow> fitting room ns = sum_list ns"
  by (induction room ns rule: fitting.induct) auto

lemma gen_loop_length:
  assumes "list_all (seg_wf t) segs" "length out \<le> bufsize"
    and "gen_loop t counter clk bufsize segs rng out = Some (pkt, rng')"
  shows "length pkt = length out + fitting (bufsize - length out) (map seg_len segs)"
  using assms
proof (induction segs arbitrary: rng out)
  case (Cons seg segs)
  show ?case
  proof (cases "bufsize < length out + seg_len seg")
    case True
    then show ?thesis using Cons.prems by auto
  next
    case False
    then obtain bs rng1 where b: "seg_bytes t counter (clk (length segs)) rng seg = Some (bs, rng1)"
      and g: "gen_loop t counter clk bufsize segs rng1 (out @ bs) = Some (pkt, rng')"
      using Cons.prems(3) by (auto split: Option.bind_splits)
    have l: "length bs = seg_len seg" using Cons.prems(1) b by (auto intro: seg_bytes_length)
    have "length pkt = length (out @ bs) + fitting (bufsize - length (out @ bs)) (map seg_len segs)"
      using Cons.IH [OF _ _ g] Cons.prems(1) False l by simp
    then show ?thesis using False l by simp
  qed
qed simp

section \<open>Properties\<close>

text \<open>
  Every template the parser accepts is well formed: one to 32 segments, at most 1500
  bytes of static data, and each static segment lies inside them, so that the generator's
  copy from \<open>static_data\<close> stays in the array.
\<close>

theorem cps_parse_wf:
  assumes "cps_parse s = Some t"
  shows "wf_template t \<and> 1 \<le> length (tm_segs t)"
proof -
  have "cps_parse_loop s \<lparr>tm_segs = [], tm_static = []\<rparr> = Some t" "tm_segs t \<noteq> []"
    using assms by (auto simp: cps_parse_def split: option.splits if_splits)
  moreover have "wf_template \<lparr>tm_segs = [], tm_static = []\<rparr>"
    by (simp add: wf_template_def CPS_MAX_SEGMENTS_def)
  ultimately show ?thesis
    using cps_parse_loop_wf by (auto simp: Suc_le_eq)
qed

text \<open>The template \<open><b 0xAB><t>\<close>, as character codes.\<close>

theorem cps_parse_wf_witness:
  "cps_parse [60, 98, 32, 48, 120, 65, 66, 62, 60, 116, 62] =
     Some \<lparr>tm_segs = [(mk_seg CPS_STATIC)\<lparr>sg_data_len := 1\<rparr>, mk_seg CPS_TIMESTAMP], tm_static = [0xAB]\<rparr> \<and>
   wf_template \<lparr>tm_segs = [(mk_seg CPS_STATIC)\<lparr>sg_data_len := 1\<rparr>, mk_seg CPS_TIMESTAMP], tm_static = [0xAB]\<rparr>"
proof -
  have p: "cps_parse [60, 98, 32, 48, 120, 65, 66, 62, 60, 116, 62] =
     Some \<lparr>tm_segs = [(mk_seg CPS_STATIC)\<lparr>sg_data_len := 1\<rparr>, mk_seg CPS_TIMESTAMP], tm_static = [0xAB]\<rparr>"
    by code_simp
  with cps_parse_wf [OF p] show ?thesis by simp
qed

text \<open>
  A generated packet never exceeds its buffer: for a well-formed template, every packet
  \<open>cps_generate\<close> returns is a prefix of the segments that fits the buffer, and when
  \<open>cps_max_size\<close> fits, the packet has exactly that size.
\<close>

theorem cps_generate_size:
  assumes "wf_template t" "cps_generate t counter clk rng bufsize = Some (pkt, rng')"
  shows "length pkt = fitting bufsize (map seg_len (tm_segs t)) \<and> length pkt \<le> bufsize \<and>
         (cps_max_size t \<le> bufsize \<longrightarrow> length pkt = cps_max_size t)"
proof -
  have "length pkt = fitting bufsize (map seg_len (tm_segs t))"
    using gen_loop_length [of t "tm_segs t" "[]" bufsize counter clk rng pkt rng'] assms
    by (simp add: cps_generate_def wf_template_def)
  then show ?thesis
    using fitting_le [of bufsize] fitting_all [of "map seg_len (tm_segs t)" bufsize]
    by (simp add: cps_max_size_def)
qed

theorem cps_generate_size_witness:
  "cps_generate \<lparr>tm_segs = [mk_seg CPS_TIMESTAMP, mk_seg CPS_COUNTER], tm_static = []\<rparr> 7 (\<lambda>_. 0x01020304)
     (csprng_init [] 1) 1500 = Some ([1, 2, 3, 4, 7, 0, 0, 0], csprng_init [] 1) \<and>
   length [1 :: u8, 2, 3, 4, 7, 0, 0, 0] \<le> 1500"
proof -
  let ?t = "\<lparr>tm_segs = [mk_seg CPS_TIMESTAMP, mk_seg CPS_COUNTER], tm_static = []\<rparr>"
  have g: "cps_generate ?t 7 (\<lambda>_. 0x01020304) (csprng_init [] 1) 1500 =
      Some ([1, 2, 3, 4, 7, 0, 0, 0], csprng_init [] 1)"
    by code_simp
  have "wf_template ?t"
    by (simp add: wf_template_def CPS_MAX_SEGMENTS_def seg_wf_def mk_seg_def)
  from cps_generate_size [OF this g] g show ?thesis by simp
qed

text \<open>
  C25. The rejection sampling of \<open>fill_symbols\<close> returns: whenever some block of the
  generator's keystream holds an acceptable byte, any number of symbols is drawn in finitely
  many steps, the result has the requested length and consists of symbols of the alphabet.
\<close>

theorem fill_symbols_total:
  assumes "b \<in> set (chacha20_keystream (cs_key rng) (cs_nonce rng) c 64)" "accepted alpha b"
    and "alpha \<noteq> []"
  shows "\<exists>out rng'. fill_symbols alpha rng n = Some (out, rng') \<and> length out = n \<and> set out \<subseteq> set alpha"
  using fill_symbols_returns [OF assms(1,2), of n] fill_symbols_result [OF _ assms(3)] by fast

text \<open>The generator in the state of the RFC 8439 vector: the first byte of its block is 0x10.\<close>

theorem fill_symbols_total_witness:
  "(0x10 :: u8) \<in> set rfc_block \<and> accepted chars52 0x10 \<and>
   (\<exists>out rng'. fill_symbols chars52 \<lparr>cs_key = rfc_key, cs_nonce = rfc_nonce, cs_ctr = 0\<rparr> 100 = Some (out, rng') \<and>
      length out = 100 \<and> set out \<subseteq> set chars52)"
proof -
  have mem: "(0x10 :: u8) \<in> set rfc_block" by (simp add: rfc_block_def)
  have acc: "accepted chars52 0x10" by code_simp
  have "chacha20_keystream rfc_key rfc_nonce 1 64 = rfc_block"
    by (simp add: block_is_keystream chacha20_block_def rfc_setup rfc_core rfc_block_def)
  then have "(0x10 :: u8) \<in> set (chacha20_keystream (cs_key \<lparr>cs_key = rfc_key, cs_nonce = rfc_nonce, cs_ctr = 0\<rparr>)
      (cs_nonce \<lparr>cs_key = rfc_key, cs_nonce = rfc_nonce, cs_ctr = 0\<rparr>) 1 64)"
    using mem by simp
  from fill_symbols_total [OF this acc alphabets_nonempty(1)] mem acc show ?thesis by blast
qed

end
