(* ===== verification/Config.thy ===== *)
theory Config
  imports Blake Cps
begin

text \<open>
  The configuration of \<^verbatim>\<open>src/src/transform.h\<close> and its operations in \<^verbatim>\<open>src/src/transform.c\<close>:
  the H ranges, one obfuscation profile per AmneziaWG version, the whole configuration with
  the active profile mirrored into flat fields, validation, the derived fields and the
  trailer window.  C \<open>int\<close> fields are \<open>int\<close>: every sum the code forms from validated fields is
  small (theorem on validated profiles below).  Zero/one flags are \<open>bool\<close>.  The fixed arrays
  of server peers are the lists of their used entries; the array of profiles is a list of
  \<open>AWG_MAX_PROFILES\<close> entries next to its count.  The fields that only tune sockets and threads
  are not part of this record.
\<close>

section \<open>Constants\<close>

abbreviation (input) WG_HANDSHAKE_INIT :: u32 where "WG_HANDSHAKE_INIT \<equiv> 1"
abbreviation (input) WG_HANDSHAKE_RESPONSE :: u32 where "WG_HANDSHAKE_RESPONSE \<equiv> 2"
abbreviation (input) WG_COOKIE_REPLY :: u32 where "WG_COOKIE_REPLY \<equiv> 3"
abbreviation (input) WG_TRANSPORT_DATA :: u32 where "WG_TRANSPORT_DATA \<equiv> 4"
abbreviation (input) WG_INIT_SIZE :: int where "WG_INIT_SIZE \<equiv> 148"
abbreviation (input) WG_RESP_SIZE :: int where "WG_RESP_SIZE \<equiv> 92"
abbreviation (input) WG_COOKIE_SIZE :: int where "WG_COOKIE_SIZE \<equiv> 64"
abbreviation (input) WG_TRANSPORT_MIN :: int where "WG_TRANSPORT_MIN \<equiv> 32"
abbreviation (input) AWG_PACKET_BUF_SIZE :: int where "AWG_PACKET_BUF_SIZE \<equiv> 1500"
abbreviation (input) AWG_PACKET_HEADROOM :: int where "AWG_PACKET_HEADROOM \<equiv> 256"
abbreviation (input) AWG_HP_MIN_PADDING :: int where "AWG_HP_MIN_PADDING \<equiv> 12"
abbreviation (input) AWG_HP_TRANSPORT_HDR :: int where "AWG_HP_TRANSPORT_HDR \<equiv> 16"
abbreviation (input) AWG_DEFAULT_UDP_WINDOW :: u32 where "AWG_DEFAULT_UDP_WINDOW \<equiv> 500"
abbreviation (input) AWG_MAX_PROFILES :: nat where "AWG_MAX_PROFILES \<equiv> 4"

section \<open>H ranges\<close>

record hrange =
  h_min :: u32
  h_max :: u32

text \<open>
  The width of the range is computed in 64 bits and wraps when the range is inverted; a
  width of zero makes the remainder a division by zero, here \<open>None\<close>.
\<close>

definition hrange_pick :: "hrange \<Rightarrow> u64 \<Rightarrow> u32 option" where
  "hrange_pick r rand_val =
     (if h_min r = h_max r then Some (h_min r)
      else let span = (ucast (h_max r) :: u64) - ucast (h_min r) + 1
           in if span = 0 then None
              else Some (h_min r + ucast (rand_val mod span)))"

definition hrange_contains :: "hrange \<Rightarrow> u32 \<Rightarrow> bool" where
  "hrange_contains r v \<longleftrightarrow> h_min r \<le> v \<and> v \<le> h_max r"

definition hrange_overlaps :: "hrange \<Rightarrow> hrange \<Rightarrow> bool" where
  "hrange_overlaps a b \<longleftrightarrow> h_min a \<le> h_max b \<and> h_min b \<le> h_max a"

section \<open>Profiles and configuration\<close>

record awg_profile =
  pr_s1 :: int
  pr_s2 :: int
  pr_s3 :: int
  pr_s4 :: int
  pr_h1 :: hrange
  pr_h2 :: hrange
  pr_h3 :: hrange
  pr_h4 :: hrange
  pr_cps :: "cps_template option list"
  pr_hp_on :: bool
  pr_rt :: bool
  pr_h4_fixed :: u32
  pr_h4_noop :: bool
  pr_init_total :: int
  pr_resp_total :: int
  pr_cookie_total :: int
  pr_transport_size_ambiguous :: bool

datatype awg_mode = AWG_MODE_NORMAL | AWG_MODE_REVERSE | AWG_MODE_SERVER

record awg_config =
  c_jc :: int
  c_jmin :: int
  c_jmax :: int
  c_s1 :: int
  c_s2 :: int
  c_s3 :: int
  c_s4 :: int
  c_h1 :: hrange
  c_h2 :: hrange
  c_h3 :: hrange
  c_h4 :: hrange
  c_cps :: "cps_template option list"
  c_server_pub :: bytes
  c_client_pub :: bytes
  c_server_peer_pubs :: "bytes list"
  c_mac1key_server :: bytes
  c_mac1key_client :: bytes
  c_server_peer_mac1keys :: "bytes list"
  c_hp_key :: bytes
  c_hp_key_set :: bool
  c_h4_fixed :: u32
  c_h4_noop :: bool
  c_init_total :: int
  c_resp_total :: int
  c_cookie_total :: int
  c_hp_on :: bool
  c_rt :: bool
  c_rt_any :: bool
  c_disable_cookies :: bool
  c_udp_window :: u32
  c_has_server_pub :: bool
  c_has_client_pub :: bool
  c_mac1key_out :: "bytes option"
  c_mac1key_in :: "bytes option"
  c_transport_size_ambiguous :: bool
  c_mode :: awg_mode
  c_profiles :: "awg_profile list"
  c_profile_count :: int
  c_active_profile :: int
  c_max_s4 :: int
  c_fb_after :: int

section \<open>Validation\<close>

datatype cfg_error =
    Err_S1_range | Err_S2_range | Err_S3_range | Err_S4_range
  | Err_S1_hp | Err_S2_hp | Err_S3_hp | Err_S4_hp
  | Err_H_overlap | Err_Jmin

fun cfg_error_msg :: "cfg_error \<Rightarrow> string" where
  "cfg_error_msg Err_S1_range = ''AWG_S1: must be between 0 and 1352''"
| "cfg_error_msg Err_S2_range = ''AWG_S2: must be between 0 and 1408''"
| "cfg_error_msg Err_S3_range = ''AWG_S3: must be between 0 and 1436''"
| "cfg_error_msg Err_S4_range = ''AWG_S4: must be between 0 and 256''"
| "cfg_error_msg Err_S1_hp = ''AWG_S1: must be >= 12 when AWG_HEADER_PROTECTION_KEY is set''"
| "cfg_error_msg Err_S2_hp = ''AWG_S2: must be >= 12 when AWG_HEADER_PROTECTION_KEY is set''"
| "cfg_error_msg Err_S3_hp = ''AWG_S3: must be >= 12 when AWG_HEADER_PROTECTION_KEY is set''"
| "cfg_error_msg Err_S4_hp = ''AWG_S4: must be >= 12 when AWG_HEADER_PROTECTION_KEY is set''"
| "cfg_error_msg Err_H_overlap = ''AWG_H1..AWG_H4: ranges must not overlap''"
| "cfg_error_msg Err_Jmin = ''AWG_JMIN: must not be greater than AWG_JMAX''"

definition config_validate_profile :: "awg_profile \<Rightarrow> cfg_error + unit" where
  "config_validate_profile pr =
     (if pr_s1 pr < 0 \<or> pr_s1 pr > AWG_PACKET_BUF_SIZE - WG_INIT_SIZE then Inl Err_S1_range
      else if pr_s2 pr < 0 \<or> pr_s2 pr > AWG_PACKET_BUF_SIZE - WG_RESP_SIZE then Inl Err_S2_range
      else if pr_s3 pr < 0 \<or> pr_s3 pr > AWG_PACKET_BUF_SIZE - WG_COOKIE_SIZE then Inl Err_S3_range
      else if pr_s4 pr < 0 \<or> pr_s4 pr > AWG_PACKET_HEADROOM then Inl Err_S4_range
      else if pr_hp_on pr \<and> pr_s1 pr < AWG_HP_MIN_PADDING then Inl Err_S1_hp
      else if pr_hp_on pr \<and> pr_s2 pr < AWG_HP_MIN_PADDING then Inl Err_S2_hp
      else if pr_hp_on pr \<and> pr_s3 pr < AWG_HP_MIN_PADDING then Inl Err_S3_hp
      else if pr_hp_on pr \<and> pr_s4 pr < AWG_HP_MIN_PADDING then Inl Err_S4_hp
      else if hrange_overlaps (pr_h1 pr) (pr_h2 pr) \<or>
              hrange_overlaps (pr_h1 pr) (pr_h3 pr) \<or>
              hrange_overlaps (pr_h1 pr) (pr_h4 pr) \<or>
              hrange_overlaps (pr_h2 pr) (pr_h3 pr) \<or>
              hrange_overlaps (pr_h2 pr) (pr_h4 pr) \<or>
              hrange_overlaps (pr_h3 pr) (pr_h4 pr) then Inl Err_H_overlap
      else Inr ())"

text \<open>
  The profile literal of \<open>config_validate\<close> and \<open>config_compute\<close>: the flat fields, every other
  field zero.
\<close>

definition flat_profile :: "awg_config \<Rightarrow> awg_profile" where
  "flat_profile cfg =
     \<lparr>pr_s1 = c_s1 cfg, pr_s2 = c_s2 cfg, pr_s3 = c_s3 cfg, pr_s4 = c_s4 cfg,
      pr_h1 = c_h1 cfg, pr_h2 = c_h2 cfg, pr_h3 = c_h3 cfg, pr_h4 = c_h4 cfg,
      pr_cps = replicate 5 None, pr_hp_on = c_hp_on cfg, pr_rt = False,
      pr_h4_fixed = 0, pr_h4_noop = False, pr_init_total = 0, pr_resp_total = 0,
      pr_cookie_total = 0, pr_transport_size_ambiguous = False\<rparr>"

definition config_validate :: "awg_config \<Rightarrow> cfg_error + unit" where
  "config_validate cfg =
     (if c_jc cfg > 0 \<and> c_jmin cfg > c_jmax cfg then Inl Err_Jmin
      else config_validate_profile (flat_profile cfg))"

section \<open>Derived fields\<close>

definition config_compute_profile :: "awg_profile \<Rightarrow> awg_profile" where
  "config_compute_profile pr =
     (let pr = pr\<lparr>pr_h4_fixed := h_min (pr_h4 pr),
                 pr_h4_noop := h_min (pr_h4 pr) = WG_TRANSPORT_DATA \<and>
                   h_max (pr_h4 pr) = WG_TRANSPORT_DATA \<and> pr_s4 pr = 0 \<and> \<not> pr_hp_on pr,
                 pr_init_total := pr_s1 pr + WG_INIT_SIZE,
                 pr_resp_total := pr_s2 pr + WG_RESP_SIZE,
                 pr_cookie_total := pr_s3 pr + WG_COOKIE_SIZE\<rparr>;
          tmin = pr_s4 pr + WG_TRANSPORT_MIN
      in pr\<lparr>pr_transport_size_ambiguous :=
              pr_init_total pr \<ge> tmin \<or> pr_resp_total pr \<ge> tmin \<or> pr_cookie_total pr \<ge> tmin\<rparr>)"

definition config_snapshot_profile :: "awg_config \<Rightarrow> awg_profile" where
  "config_snapshot_profile cfg =
     \<lparr>pr_s1 = c_s1 cfg, pr_s2 = c_s2 cfg, pr_s3 = c_s3 cfg, pr_s4 = c_s4 cfg,
      pr_h1 = c_h1 cfg, pr_h2 = c_h2 cfg, pr_h3 = c_h3 cfg, pr_h4 = c_h4 cfg,
      pr_cps = c_cps cfg, pr_hp_on = c_hp_on cfg, pr_rt = c_rt cfg,
      pr_h4_fixed = c_h4_fixed cfg, pr_h4_noop = c_h4_noop cfg,
      pr_init_total = c_init_total cfg, pr_resp_total = c_resp_total cfg,
      pr_cookie_total = c_cookie_total cfg,
      pr_transport_size_ambiguous = c_transport_size_ambiguous cfg\<rparr>"

text \<open>\<open>cfg->profiles[idx]\<close>; outside the array the access is undefined behaviour.\<close>

definition profile_at :: "awg_config \<Rightarrow> int \<Rightarrow> awg_profile option" where
  "profile_at cfg idx =
     (if 0 \<le> idx \<and> nat idx < length (c_profiles cfg) then Some (c_profiles cfg ! nat idx) else None)"

definition mirror_profile :: "awg_profile \<Rightarrow> awg_config \<Rightarrow> awg_config" where
  "mirror_profile pr cfg =
     cfg\<lparr>c_s1 := pr_s1 pr, c_s2 := pr_s2 pr, c_s3 := pr_s3 pr, c_s4 := pr_s4 pr,
         c_h1 := pr_h1 pr, c_h2 := pr_h2 pr, c_h3 := pr_h3 pr, c_h4 := pr_h4 pr,
         c_cps := pr_cps pr, c_hp_on := pr_hp_on pr, c_rt := pr_rt pr,
         c_h4_fixed := pr_h4_fixed pr, c_h4_noop := pr_h4_noop pr,
         c_init_total := pr_init_total pr, c_resp_total := pr_resp_total pr,
         c_cookie_total := pr_cookie_total pr,
         c_transport_size_ambiguous := pr_transport_size_ambiguous pr\<rparr>"

definition config_apply_profile :: "awg_config \<Rightarrow> int \<Rightarrow> awg_config option" where
  "config_apply_profile cfg idx =
     map_option (\<lambda>pr. (mirror_profile pr cfg)\<lparr>c_active_profile := idx\<rparr>) (profile_at cfg idx)"

definition config_active_profile :: "awg_config \<Rightarrow> awg_profile option" where
  "config_active_profile cfg = profile_at cfg (c_active_profile cfg)"

fun max_s4_loop :: "awg_profile list \<Rightarrow> int \<Rightarrow> bool \<Rightarrow> int \<times> bool" where
  "max_s4_loop [] m rt = (m, rt)"
| "max_s4_loop (pr # prs) m rt =
     max_s4_loop prs (if pr_s4 pr > m then pr_s4 pr else m) (rt \<or> pr_rt pr)"

definition config_compute_max_s4 :: "awg_config \<Rightarrow> awg_config" where
  "config_compute_max_s4 cfg =
     (let n = (if c_profile_count cfg > 0 then c_profile_count cfg else 1);
          (m, rt) = max_s4_loop (take (nat n) (c_profiles cfg)) 0 False
      in cfg\<lparr>c_max_s4 := m, c_rt_any := rt\<rparr>)"

definition zero_key :: bytes where
  "zero_key = replicate 32 0"

text \<open>\<open>config_compute\<close>, in the order of its steps.\<close>

definition compute_keys :: "awg_config \<Rightarrow> awg_config" where
  "compute_keys cfg =
     cfg\<lparr>c_has_server_pub := c_server_pub cfg \<noteq> zero_key,
         c_has_client_pub := c_client_pub cfg \<noteq> zero_key,
         c_hp_key_set := c_hp_key cfg \<noteq> zero_key,
         c_mac1key_server := compute_mac1_key (c_server_pub cfg),
         c_mac1key_client := compute_mac1_key (c_client_pub cfg),
         c_server_peer_mac1keys := map compute_mac1_key (c_server_peer_pubs cfg)\<rparr>"

definition compute_flat :: "awg_config \<Rightarrow> awg_config" where
  "compute_flat cfg =
     (let pr = config_compute_profile (flat_profile cfg)
      in cfg\<lparr>c_h4_fixed := pr_h4_fixed pr, c_h4_noop := pr_h4_noop pr,
             c_init_total := pr_init_total pr, c_resp_total := pr_resp_total pr,
             c_cookie_total := pr_cookie_total pr,
             c_transport_size_ambiguous := pr_transport_size_ambiguous pr\<rparr>)"

definition select_mac1 :: "awg_config \<Rightarrow> awg_config" where
  "select_mac1 cfg =
     (let server = (if c_has_server_pub cfg then Some (c_mac1key_server cfg) else None);
          client = (if c_has_client_pub cfg then Some (c_mac1key_client cfg) else None)
      in cfg\<lparr>c_mac1key_out := (if c_mode cfg = AWG_MODE_NORMAL then server else client),
             c_mac1key_in := (if c_mode cfg = AWG_MODE_NORMAL then client else server)\<rparr>)"

definition floor_window :: "awg_config \<Rightarrow> awg_config" where
  "floor_window cfg =
     cfg\<lparr>c_udp_window := (if c_udp_window cfg < AWG_DEFAULT_UDP_WINDOW
                           then AWG_DEFAULT_UDP_WINDOW else c_udp_window cfg)\<rparr>"

definition start_chain :: "awg_config \<Rightarrow> awg_config" where
  "start_chain cfg =
     cfg\<lparr>c_profile_count := (if c_profile_count cfg < 1 then 1 else c_profile_count cfg),
         c_active_profile := 0,
         c_profiles := (c_profiles cfg)[0 := config_snapshot_profile cfg]\<rparr>"

definition config_compute :: "awg_config \<Rightarrow> awg_config" where
  "config_compute cfg =
     config_compute_max_s4 (start_chain (floor_window (select_mac1 (compute_flat (compute_keys cfg)))))"

text \<open>\<open>awg_window_note\<close>: the size is compared as an unsigned 32-bit number.\<close>

definition awg_window_note :: "awg_config \<Rightarrow> int \<Rightarrow> awg_config" where
  "awg_window_note cfg sz =
     (if \<not> c_rt_any cfg then cfg
      else if (word_of_int sz :: u32) > c_udp_window cfg
      then cfg\<lparr>c_udp_window := word_of_int sz\<rparr> else cfg)"

section \<open>Facts on H ranges\<close>

definition hrange_ordered :: "hrange \<Rightarrow> bool" where
  "hrange_ordered r \<longleftrightarrow> h_min r \<le> h_max r"

lemma hrange_span:
  assumes "hrange_ordered r"
  shows "unat ((ucast (h_max r) :: u64) - ucast (h_min r) + 1) = unat (h_max r) - unat (h_min r) + 1"
proof -
  have le: "unat (h_min r) \<le> unat (h_max r)" using assms by (simp add: hrange_ordered_def word_le_nat_alt)
  have lt: "unat (h_max r) < 2 ^ 32" using unsigned_less [of "h_max r", where 'a = nat] by simp
  have "(ucast (h_max r) :: u64) - ucast (h_min r) + 1 = word_of_nat (unat (h_max r) - unat (h_min r) + 1)"
    using le by (simp add: of_nat_diff)
  then show ?thesis unfolding \<open>_ = word_of_nat _\<close> unat_of_nat using lt by simp
qed

lemma hrange_pick_value:
  assumes "hrange_ordered r"
  shows "hrange_pick r x = Some (word_of_nat (unat (h_min r) + unat x mod (unat (h_max r) - unat (h_min r) + 1)))"
proof (cases "h_min r = h_max r")
  case True
  then show ?thesis by (simp add: hrange_pick_def)
next
  case False
  let ?span = "(ucast (h_max r) :: u64) - ucast (h_min r) + 1"
  have sp: "unat ?span = unat (h_max r) - unat (h_min r) + 1" by (rule hrange_span [OF assms])
  then have nz: "?span \<noteq> 0" by (metis add_is_0 one_neq_zero unat_0)
  have "(ucast (x mod ?span) :: u32) = word_of_nat (unat (x mod ?span))"
    by (rule of_nat_unat [symmetric])
  then have "(ucast (x mod ?span) :: u32) = word_of_nat (unat x mod (unat (h_max r) - unat (h_min r) + 1))"
    by (simp only: unat_mod sp)
  then show ?thesis using False nz by (simp add: hrange_pick_def Let_def)
qed

lemma hrange_offset:
  assumes "hrange_ordered r" "k < unat (h_max r) - unat (h_min r) + 1"
  shows "unat (word_of_nat (unat (h_min r) + k) :: u32) = unat (h_min r) + k"
    and "hrange_contains r (word_of_nat (unat (h_min r) + k))"
proof -
  have le: "unat (h_min r) \<le> unat (h_max r)" using assms by (simp add: hrange_ordered_def word_le_nat_alt)
  have lt: "unat (h_max r) < 2 ^ 32" using unsigned_less [of "h_max r", where 'a = nat] by simp
  show u: "unat (word_of_nat (unat (h_min r) + k) :: u32) = unat (h_min r) + k"
    unfolding unat_of_nat using assms(2) le lt by simp
  then show "hrange_contains r (word_of_nat (unat (h_min r) + k))"
    unfolding hrange_contains_def word_le_nat_alt u using assms(2) le by simp
qed

lemma hrange_pick_contains:
  assumes "hrange_ordered r"
  shows "\<exists>v. hrange_pick r x = Some v \<and> hrange_contains r v"
  using hrange_pick_value [OF assms] hrange_offset(2) [OF assms] by simp

lemma hrange_overlaps_iff:
  assumes "hrange_ordered a" "hrange_ordered b"
  shows "hrange_overlaps a b \<longleftrightarrow> (\<exists>v. hrange_contains a v \<and> hrange_contains b v)"
proof
  assume "hrange_overlaps a b"
  then have "hrange_contains a (max (h_min a) (h_min b)) \<and> hrange_contains b (max (h_min a) (h_min b))"
    using assms by (auto simp: hrange_overlaps_def hrange_contains_def hrange_ordered_def max_def)
  then show "\<exists>v. hrange_contains a v \<and> hrange_contains b v" by blast
next
  assume "\<exists>v. hrange_contains a v \<and> hrange_contains b v"
  then show "hrange_overlaps a b"
    by (auto simp: hrange_overlaps_def hrange_contains_def)
qed

section \<open>Well-formed profiles and configurations\<close>

text \<open>
  A profile the rest of the program may use: validated, its H ranges ordered (the parser of
  the ranges rejects the others), its derived fields computed.
\<close>

definition profile_derived :: "awg_profile \<Rightarrow> bool" where
  "profile_derived pr \<longleftrightarrow> config_compute_profile pr = pr"

definition wf_profile :: "awg_profile \<Rightarrow> bool" where
  "wf_profile pr \<longleftrightarrow>
     config_validate_profile pr = Inr () \<and> profile_derived pr \<and>
     hrange_ordered (pr_h1 pr) \<and> hrange_ordered (pr_h2 pr) \<and>
     hrange_ordered (pr_h3 pr) \<and> hrange_ordered (pr_h4 pr)"

text \<open>The state between operations: the flat fields mirror the active profile.\<close>

definition mirrored :: "awg_config \<Rightarrow> bool" where
  "mirrored cfg \<longleftrightarrow> config_active_profile cfg = Some (config_snapshot_profile cfg)"

definition wf_config :: "awg_config \<Rightarrow> bool" where
  "wf_config cfg \<longleftrightarrow>
     length (c_profiles cfg) = AWG_MAX_PROFILES \<and>
     1 \<le> c_profile_count cfg \<and> c_profile_count cfg \<le> int AWG_MAX_PROFILES \<and>
     0 \<le> c_active_profile cfg \<and> c_active_profile cfg < c_profile_count cfg \<and>
     list_all wf_profile (take (nat (c_profile_count cfg)) (c_profiles cfg)) \<and>
     mirrored cfg \<and> AWG_DEFAULT_UDP_WINDOW \<le> c_udp_window cfg"

lemma validate_profile_iff:
  "config_validate_profile pr = Inr () \<longleftrightarrow>
     0 \<le> pr_s1 pr \<and> pr_s1 pr \<le> 1352 \<and> 0 \<le> pr_s2 pr \<and> pr_s2 pr \<le> 1408 \<and>
     0 \<le> pr_s3 pr \<and> pr_s3 pr \<le> 1436 \<and> 0 \<le> pr_s4 pr \<and> pr_s4 pr \<le> 256 \<and>
     (pr_hp_on pr \<longrightarrow> 12 \<le> pr_s1 pr \<and> 12 \<le> pr_s2 pr \<and> 12 \<le> pr_s3 pr \<and> 12 \<le> pr_s4 pr) \<and>
     \<not> hrange_overlaps (pr_h1 pr) (pr_h2 pr) \<and> \<not> hrange_overlaps (pr_h1 pr) (pr_h3 pr) \<and>
     \<not> hrange_overlaps (pr_h1 pr) (pr_h4 pr) \<and> \<not> hrange_overlaps (pr_h2 pr) (pr_h3 pr) \<and>
     \<not> hrange_overlaps (pr_h2 pr) (pr_h4 pr) \<and> \<not> hrange_overlaps (pr_h3 pr) (pr_h4 pr)"
  unfolding config_validate_profile_def by (auto split: if_splits)

lemma compute_profile_fields [simp]:
  "pr_s1 (config_compute_profile pr) = pr_s1 pr" "pr_s2 (config_compute_profile pr) = pr_s2 pr"
  "pr_s3 (config_compute_profile pr) = pr_s3 pr" "pr_s4 (config_compute_profile pr) = pr_s4 pr"
  "pr_h1 (config_compute_profile pr) = pr_h1 pr" "pr_h2 (config_compute_profile pr) = pr_h2 pr"
  "pr_h3 (config_compute_profile pr) = pr_h3 pr" "pr_h4 (config_compute_profile pr) = pr_h4 pr"
  "pr_hp_on (config_compute_profile pr) = pr_hp_on pr" "pr_rt (config_compute_profile pr) = pr_rt pr"
  "pr_cps (config_compute_profile pr) = pr_cps pr"
  "pr_h4_fixed (config_compute_profile pr) = h_min (pr_h4 pr)"
  "pr_h4_noop (config_compute_profile pr) \<longleftrightarrow>
     h_min (pr_h4 pr) = 4 \<and> h_max (pr_h4 pr) = 4 \<and> pr_s4 pr = 0 \<and> \<not> pr_hp_on pr"
  "pr_init_total (config_compute_profile pr) = pr_s1 pr + 148"
  "pr_resp_total (config_compute_profile pr) = pr_s2 pr + 92"
  "pr_cookie_total (config_compute_profile pr) = pr_s3 pr + 64"
  by (simp_all add: config_compute_profile_def Let_def)

lemma compute_profile_idem [simp]: "profile_derived (config_compute_profile pr)"
  by (simp add: profile_derived_def config_compute_profile_def Let_def)

text \<open>The bundle the packet proofs use.\<close>

lemma wf_profileD:
  assumes "wf_profile pr"
  shows "0 \<le> pr_s1 pr" "pr_s1 pr \<le> 1352" "0 \<le> pr_s2 pr" "pr_s2 pr \<le> 1408"
    "0 \<le> pr_s3 pr" "pr_s3 pr \<le> 1436" "0 \<le> pr_s4 pr" "pr_s4 pr \<le> 256"
    "pr_hp_on pr \<Longrightarrow> 12 \<le> pr_s1 pr" "pr_hp_on pr \<Longrightarrow> 12 \<le> pr_s2 pr"
    "pr_hp_on pr \<Longrightarrow> 12 \<le> pr_s3 pr" "pr_hp_on pr \<Longrightarrow> 12 \<le> pr_s4 pr"
    "hrange_ordered (pr_h1 pr)" "hrange_ordered (pr_h2 pr)"
    "hrange_ordered (pr_h3 pr)" "hrange_ordered (pr_h4 pr)"
  using assms by (auto simp: wf_profile_def validate_profile_iff)

lemma wf_profile_derived:
  assumes "wf_profile pr"
  shows "pr_h4_fixed pr = h_min (pr_h4 pr)"
    "pr_h4_noop pr \<longleftrightarrow> h_min (pr_h4 pr) = 4 \<and> h_max (pr_h4 pr) = 4 \<and> pr_s4 pr = 0 \<and> \<not> pr_hp_on pr"
    "pr_init_total pr = pr_s1 pr + 148" "pr_resp_total pr = pr_s2 pr + 92"
    "pr_cookie_total pr = pr_s3 pr + 64"
proof -
  have "config_compute_profile pr = pr" using assms by (simp add: wf_profile_def profile_derived_def)
  then show "pr_h4_fixed pr = h_min (pr_h4 pr)"
    "pr_h4_noop pr \<longleftrightarrow> h_min (pr_h4 pr) = 4 \<and> h_max (pr_h4 pr) = 4 \<and> pr_s4 pr = 0 \<and> \<not> pr_hp_on pr"
    "pr_init_total pr = pr_s1 pr + 148" "pr_resp_total pr = pr_s2 pr + 92"
    "pr_cookie_total pr = pr_s3 pr + 64"
    by (metis compute_profile_fields)+
qed

lemma wf_profile_disjoint:
  assumes "wf_profile pr"
  shows "\<not> (hrange_contains (pr_h1 pr) v \<and> hrange_contains (pr_h2 pr) v)"
    "\<not> (hrange_contains (pr_h1 pr) v \<and> hrange_contains (pr_h3 pr) v)"
    "\<not> (hrange_contains (pr_h1 pr) v \<and> hrange_contains (pr_h4 pr) v)"
    "\<not> (hrange_contains (pr_h2 pr) v \<and> hrange_contains (pr_h3 pr) v)"
    "\<not> (hrange_contains (pr_h2 pr) v \<and> hrange_contains (pr_h4 pr) v)"
    "\<not> (hrange_contains (pr_h3 pr) v \<and> hrange_contains (pr_h4 pr) v)"
  using assms by (auto simp: wf_profile_def validate_profile_iff hrange_overlaps_iff)

section \<open>Switching profiles\<close>

lemma snapshot_mirror [simp]: "config_snapshot_profile (mirror_profile pr cfg) = pr"
  by (simp add: config_snapshot_profile_def mirror_profile_def)

lemma snapshot_active [simp]:
  "config_snapshot_profile (cfg\<lparr>c_active_profile := i\<rparr>) = config_snapshot_profile cfg"
  "config_snapshot_profile (cfg\<lparr>c_profiles := ps\<rparr>) = config_snapshot_profile cfg"
  "config_snapshot_profile (cfg\<lparr>c_max_s4 := m\<rparr>) = config_snapshot_profile cfg"
  "config_snapshot_profile (cfg\<lparr>c_rt_any := r\<rparr>) = config_snapshot_profile cfg"
  "config_snapshot_profile (cfg\<lparr>c_udp_window := w\<rparr>) = config_snapshot_profile cfg"
  by (simp_all add: config_snapshot_profile_def)

lemma mirror_fields [simp]:
  "c_profiles (mirror_profile pr cfg) = c_profiles cfg"
  "c_profile_count (mirror_profile pr cfg) = c_profile_count cfg"
  "c_active_profile (mirror_profile pr cfg) = c_active_profile cfg"
  "c_udp_window (mirror_profile pr cfg) = c_udp_window cfg"
  by (simp_all add: mirror_profile_def)

lemma mirror_mirror: "mirror_profile p ((mirror_profile q cfg)\<lparr>c_active_profile := i\<rparr>) = (mirror_profile p cfg)\<lparr>c_active_profile := i\<rparr>"
  by (simp add: mirror_profile_def)

lemma mirror_snapshot: "mirror_profile (config_snapshot_profile cfg) cfg = cfg"
  by (simp add: mirror_profile_def config_snapshot_profile_def)

lemma profile_at_cong [simp]:
  "profile_at (mirror_profile pr cfg) i = profile_at cfg i"
  "profile_at (cfg\<lparr>c_active_profile := k\<rparr>) i = profile_at cfg i"
  by (simp_all add: profile_at_def)

lemma wf_config_profile:
  assumes "wf_config cfg" "0 \<le> i" "i < c_profile_count cfg"
  shows "\<exists>pr. profile_at cfg i = Some pr \<and> wf_profile pr"
proof -
  have "nat i < length (take (nat (c_profile_count cfg)) (c_profiles cfg))" "nat i < length (c_profiles cfg)"
    using assms by (auto simp: wf_config_def)
  then show ?thesis using assms by (auto simp: wf_config_def profile_at_def list_all_length)
qed

lemma max_s4_loop_result:
  "max_s4_loop prs m rt = (Max (insert m (pr_s4 ` set prs)), rt \<or> (\<exists>pr \<in> set prs. pr_rt pr))"
proof (induction prs m rt rule: max_s4_loop.induct)
  case (2 pr prs m rt)
  have "Max (insert (if pr_s4 pr > m then pr_s4 pr else m) (pr_s4 ` set prs)) =
      Max (insert m (insert (pr_s4 pr) (pr_s4 ` set prs)))"
    by (cases "prs = []") (auto simp: max_def)
  then show ?case using "2.IH" by auto
qed simp

section \<open>Properties\<close>

text \<open>
  The values drawn from an H range are exactly the values it contains: every draw lies
  in the range, and every value of the range is drawn for some random number.
\<close>

theorem hrange_pick_exact:
  assumes "hrange_ordered r"
  shows "(\<exists>x. hrange_pick r x = Some v) \<longleftrightarrow> hrange_contains r v"
proof
  assume "\<exists>x. hrange_pick r x = Some v"
  then show "hrange_contains r v" by (metis hrange_pick_contains [OF assms] option.inject)
next
  assume c: "hrange_contains r v"
  define k where "k = unat v - unat (h_min r)"
  have b: "unat (h_min r) \<le> unat v" "unat v \<le> unat (h_max r)"
    using c by (simp_all add: hrange_contains_def word_le_nat_alt)
  have "k < 2 ^ 64" using unsigned_less [of v, where 'a = nat] by (simp add: k_def)
  then have "unat (word_of_nat k :: u64) = k" by (simp add: unat_of_nat)
  moreover have "k < unat (h_max r) - unat (h_min r) + 1" "unat (h_min r) + k = unat v"
    using b by (simp_all add: k_def)
  ultimately have "hrange_pick r (word_of_nat k) = Some v"
    using hrange_pick_value [OF assms, of "word_of_nat k"] by (simp del: of_nat_add)
  then show "\<exists>x. hrange_pick r x = Some v" ..
qed

theorem hrange_pick_exact_witness:
  "hrange_ordered \<lparr>h_min = 5, h_max = 9\<rparr> \<and> (\<exists>x. hrange_pick \<lparr>h_min = 5, h_max = 9\<rparr> x = Some 7)"
proof -
  have o: "hrange_ordered \<lparr>h_min = 5, h_max = 9\<rparr>" by (simp add: hrange_ordered_def)
  show ?thesis using hrange_pick_exact [OF o, of 7] o by (simp add: hrange_contains_def)
qed

text \<open>
  C21. Validation decides what the packet layout needs: a profile with ordered H ranges is
  accepted exactly when each padded handshake fits a 1500-byte packet, the transport padding
  fits the 256 bytes of headroom, header protection finds its 12-byte nonce in every padding,
  and no type value belongs to two message types.
\<close>

theorem config_validate_profile_exact:
  assumes "list_all hrange_ordered [pr_h1 pr, pr_h2 pr, pr_h3 pr, pr_h4 pr]"
  shows "config_validate_profile pr = Inr () \<longleftrightarrow>
    0 \<le> pr_s1 pr \<and> pr_s1 pr + 148 \<le> 1500 \<and> 0 \<le> pr_s2 pr \<and> pr_s2 pr + 92 \<le> 1500 \<and>
    0 \<le> pr_s3 pr \<and> pr_s3 pr + 64 \<le> 1500 \<and> 0 \<le> pr_s4 pr \<and> pr_s4 pr \<le> 256 \<and>
    (pr_hp_on pr \<longrightarrow> list_all (\<lambda>s. 12 \<le> s) [pr_s1 pr, pr_s2 pr, pr_s3 pr, pr_s4 pr]) \<and>
    (\<forall>v. length (filter (\<lambda>h. hrange_contains h v) [pr_h1 pr, pr_h2 pr, pr_h3 pr, pr_h4 pr]) \<le> 1)"
proof -
  have "(\<forall>v. length (filter (\<lambda>h. hrange_contains h v) [pr_h1 pr, pr_h2 pr, pr_h3 pr, pr_h4 pr]) \<le> 1) \<longleftrightarrow>
     \<not> hrange_overlaps (pr_h1 pr) (pr_h2 pr) \<and> \<not> hrange_overlaps (pr_h1 pr) (pr_h3 pr) \<and>
     \<not> hrange_overlaps (pr_h1 pr) (pr_h4 pr) \<and> \<not> hrange_overlaps (pr_h2 pr) (pr_h3 pr) \<and>
     \<not> hrange_overlaps (pr_h2 pr) (pr_h4 pr) \<and> \<not> hrange_overlaps (pr_h3 pr) (pr_h4 pr)"
    using assms by (auto simp: hrange_overlaps_iff)
  then show ?thesis by (auto simp: validate_profile_iff)
qed

text \<open>A v3 profile: header protection and random trailers.\<close>

definition example_profile :: awg_profile where
  "example_profile = config_compute_profile
     \<lparr>pr_s1 = 20, pr_s2 = 30, pr_s3 = 40, pr_s4 = 16,
      pr_h1 = \<lparr>h_min = 100, h_max = 199\<rparr>, pr_h2 = \<lparr>h_min = 200, h_max = 299\<rparr>,
      pr_h3 = \<lparr>h_min = 300, h_max = 399\<rparr>, pr_h4 = \<lparr>h_min = 400, h_max = 499\<rparr>,
      pr_cps = replicate 5 None, pr_hp_on = True, pr_rt = True,
      pr_h4_fixed = 0, pr_h4_noop = False, pr_init_total = 0, pr_resp_total = 0,
      pr_cookie_total = 0, pr_transport_size_ambiguous = False\<rparr>"

theorem config_validate_profile_exact_witness:
  "config_validate_profile example_profile = Inr () \<and>
   (\<forall>v. length (filter (\<lambda>h. hrange_contains h v)
      [pr_h1 example_profile, pr_h2 example_profile, pr_h3 example_profile, pr_h4 example_profile]) \<le> 1)"
proof -
  have o: "list_all hrange_ordered [pr_h1 example_profile, pr_h2 example_profile, pr_h3 example_profile, pr_h4 example_profile]"
    by (simp add: example_profile_def hrange_ordered_def)
  have v: "config_validate_profile example_profile = Inr ()"
    by (simp add: config_validate_profile_def example_profile_def hrange_overlaps_def)
  show ?thesis using v config_validate_profile_exact [OF o] by simp
qed

lemma wf_example_profile: "wf_profile example_profile"
  by (simp add: wf_profile_def config_validate_profile_def example_profile_def hrange_overlaps_def
      hrange_ordered_def)

text \<open>What each step of \<open>config_compute\<close> does to the fields the next ones read.\<close>

lemma compute_max_s4_fields [simp]:
  "config_snapshot_profile (config_compute_max_s4 cfg) = config_snapshot_profile cfg"
  "c_profiles (config_compute_max_s4 cfg) = c_profiles cfg"
  "c_profile_count (config_compute_max_s4 cfg) = c_profile_count cfg"
  "c_active_profile (config_compute_max_s4 cfg) = c_active_profile cfg"
  "c_udp_window (config_compute_max_s4 cfg) = c_udp_window cfg"
  "c_mac1key_out (config_compute_max_s4 cfg) = c_mac1key_out cfg"
  by (simp_all add: config_compute_max_s4_def Let_def split: prod.split)

lemma start_chain_fields [simp]:
  "config_snapshot_profile (start_chain cfg) = config_snapshot_profile cfg"
  "c_profiles (start_chain cfg) = (c_profiles cfg)[0 := config_snapshot_profile cfg]"
  "c_active_profile (start_chain cfg) = 0" "c_udp_window (start_chain cfg) = c_udp_window cfg"
  "c_mac1key_out (start_chain cfg) = c_mac1key_out cfg"
  "c_profile_count (start_chain cfg) = max 1 (c_profile_count cfg)"
  by (simp_all add: start_chain_def config_snapshot_profile_def)

lemma window_fields [simp]:
  "config_snapshot_profile (floor_window cfg) = config_snapshot_profile cfg"
  "c_profiles (floor_window cfg) = c_profiles cfg" "c_profile_count (floor_window cfg) = c_profile_count cfg"
  "500 \<le> c_udp_window (floor_window cfg)" "c_mac1key_out (floor_window cfg) = c_mac1key_out cfg"
  by (simp_all add: floor_window_def config_snapshot_profile_def not_less)

lemma select_fields [simp]:
  "config_snapshot_profile (select_mac1 cfg) = config_snapshot_profile cfg"
  "c_profiles (select_mac1 cfg) = c_profiles cfg" "c_profile_count (select_mac1 cfg) = c_profile_count cfg"
  by (simp_all add: select_mac1_def config_snapshot_profile_def Let_def)

lemma flat_fields [simp]:
  "config_snapshot_profile (compute_flat cfg) =
     config_compute_profile ((flat_profile cfg)\<lparr>pr_cps := c_cps cfg, pr_rt := c_rt cfg\<rparr>)"
  "c_profiles (compute_flat cfg) = c_profiles cfg" "c_profile_count (compute_flat cfg) = c_profile_count cfg"
  by (simp_all add: compute_flat_def config_snapshot_profile_def config_compute_profile_def flat_profile_def Let_def)

lemma keys_fields [simp]:
  "flat_profile (compute_keys cfg) = flat_profile cfg" "c_cps (compute_keys cfg) = c_cps cfg"
  "c_rt (compute_keys cfg) = c_rt cfg"
  "c_profiles (compute_keys cfg) = c_profiles cfg" "c_profile_count (compute_keys cfg) = c_profile_count cfg"
  by (simp_all add: compute_keys_def flat_profile_def)

lemma wf_profile_compute:
  assumes "config_validate_profile (flat_profile cfg) = Inr ()"
    and "list_all hrange_ordered [c_h1 cfg, c_h2 cfg, c_h3 cfg, c_h4 cfg]"
  shows "wf_profile (config_compute_profile ((flat_profile cfg)\<lparr>pr_cps := cp, pr_rt := rt\<rparr>))"
  using assms by (simp add: wf_profile_def validate_profile_iff) (simp add: flat_profile_def)

lemma config_compute_wf:
  assumes "config_validate cfg = Inr ()" "length (c_profiles cfg) = 4" "c_profile_count cfg \<le> 1"
    and "list_all hrange_ordered [c_h1 cfg, c_h2 cfg, c_h3 cfg, c_h4 cfg]"
  shows "wf_config (config_compute cfg)"
    and "config_active_profile (config_compute cfg) = Some (config_snapshot_profile (config_compute cfg))"
    and "c_active_profile (config_compute cfg) = 0"
proof -
  have val: "config_validate_profile (flat_profile cfg) = Inr ()"
    using assms(1) by (simp add: config_validate_def split: if_splits)
  obtain p0 p1 p2 p3 where ps: "c_profiles cfg = [p0, p1, p2, p3]"
    using assms(2) by (auto simp: eval_nat_numeral length_Suc_conv)
  note wf = wf_profile_compute [OF val assms(4)]
  show "wf_config (config_compute cfg)"
    and "config_active_profile (config_compute cfg) = Some (config_snapshot_profile (config_compute cfg))"
    and "c_active_profile (config_compute cfg) = 0"
    using wf assms(3)
    by (simp_all add: config_compute_def wf_config_def mirrored_def config_active_profile_def profile_at_def ps)
qed

text \<open>
  Start-up: from a validated configuration with ordered H ranges and at most one profile,
  \<open>config_compute\<close> reaches a well-formed state whose flat fields are the only and active
  profile, selects the MAC1 keys by mode, and computes the largest S4.
\<close>

theorem config_compute_establishes:
  assumes "config_validate cfg = Inr ()" "length (c_profiles cfg) = 4" "c_profile_count cfg \<le> 1"
    and "list_all hrange_ordered [c_h1 cfg, c_h2 cfg, c_h3 cfg, c_h4 cfg]"
  shows "wf_config (config_compute cfg) \<and>
    config_active_profile (config_compute cfg) = Some (config_snapshot_profile (config_compute cfg)) \<and>
    config_apply_profile (config_compute cfg) 0 = Some (config_compute cfg) \<and>
    c_max_s4 (config_compute cfg) = c_s4 cfg \<and>
    c_mac1key_out (config_compute cfg) =
      (let pub = (if c_mode cfg = AWG_MODE_NORMAL then c_server_pub cfg else c_client_pub cfg)
       in if pub = zero_key then None else Some (compute_mac1_key pub))"
proof -
  let ?c = "config_compute cfg"
  note wf = config_compute_wf [OF assms]
  have val: "config_validate_profile (flat_profile cfg) = Inr ()"
    using assms(1) by (simp add: config_validate_def split: if_splits)
  obtain p0 p1 p2 p3 where ps: "c_profiles cfg = [p0, p1, p2, p3]"
    using assms(2) by (auto simp: eval_nat_numeral length_Suc_conv)
  have "config_apply_profile ?c 0 = Some ?c"
    using mirror_snapshot [of ?c] wf(2,3)
    by (simp add: config_apply_profile_def config_active_profile_def)
  moreover have "c_max_s4 ?c = c_s4 cfg"
  proof -
    have "c_max_s4 (config_compute_max_s4 d) = max 0 (pr_s4 (c_profiles d ! 0))"
      if "c_profile_count d = 1" "c_profiles d \<noteq> []" for d
      using that by (cases "c_profiles d") (simp_all add: config_compute_max_s4_def max_def)
    then show ?thesis using assms(3) val
      by (simp add: config_compute_def ps) (simp add: flat_profile_def validate_profile_iff)
  qed
  moreover have "c_mac1key_out ?c =
      (let pub = (if c_mode cfg = AWG_MODE_NORMAL then c_server_pub cfg else c_client_pub cfg)
       in if pub = zero_key then None else Some (compute_mac1_key pub))"
    by (simp add: config_compute_def) (simp add: select_mac1_def compute_flat_def compute_keys_def Let_def)
  ultimately show ?thesis using wf by simp
qed

text \<open>A reverse-mode configuration before \<open>config_compute\<close>, built on the profile above.\<close>

definition example_input :: awg_config where
  "example_input = mirror_profile example_profile
     \<lparr>c_jc = 3, c_jmin = 10, c_jmax = 50, c_s1 = 0, c_s2 = 0, c_s3 = 0, c_s4 = 0,
      c_h1 = \<lparr>h_min = 1, h_max = 1\<rparr>, c_h2 = \<lparr>h_min = 2, h_max = 2\<rparr>,
      c_h3 = \<lparr>h_min = 3, h_max = 3\<rparr>, c_h4 = \<lparr>h_min = 4, h_max = 4\<rparr>,
      c_cps = replicate 5 None, c_server_pub = replicate 32 1, c_client_pub = zero_key,
      c_server_peer_pubs = [], c_mac1key_server = zero_key, c_mac1key_client = zero_key,
      c_server_peer_mac1keys = [], c_hp_key = rfc_key, c_hp_key_set = True,
      c_h4_fixed = 0, c_h4_noop = False, c_init_total = 0, c_resp_total = 0, c_cookie_total = 0,
      c_hp_on = False, c_rt = False, c_rt_any = False, c_disable_cookies = False, c_udp_window = 0,
      c_has_server_pub = False, c_has_client_pub = False, c_mac1key_out = None, c_mac1key_in = None,
      c_transport_size_ambiguous = False, c_mode = AWG_MODE_REVERSE,
      c_profiles = replicate 4 example_profile, c_profile_count = 0, c_active_profile = 0,
      c_max_s4 = 0, c_fb_after = 0\<rparr>"

definition example_config :: awg_config where
  "example_config = config_compute example_input"

lemma example_input_ok:
  "config_validate example_input = Inr ()" "length (c_profiles example_input) = 4"
  "c_profile_count example_input \<le> 1"
  "list_all hrange_ordered [c_h1 example_input, c_h2 example_input, c_h3 example_input, c_h4 example_input]"
  by (simp_all add: config_validate_def config_validate_profile_def flat_profile_def example_input_def
      mirror_profile_def example_profile_def hrange_overlaps_def hrange_ordered_def)

theorem config_compute_establishes_witness:
  "config_validate example_input = Inr () \<and> wf_config example_config \<and> c_max_s4 example_config = 16"
proof -
  have "c_s4 example_input = 16"
    by (simp add: example_input_def mirror_profile_def example_profile_def)
  with config_compute_establishes [OF example_input_ok] example_input_ok show ?thesis
    by (simp add: example_config_def)
qed


lemma apply_profile_switch:
  assumes "wf_config cfg" "0 \<le> i" "i < c_profile_count cfg"
  shows "\<exists>cfg'. config_apply_profile cfg i = Some cfg' \<and> wf_config cfg' \<and>
    config_active_profile cfg' = profile_at cfg i \<and> c_active_profile cfg' = i \<and>
    c_profiles cfg' = c_profiles cfg \<and> c_udp_window cfg' = c_udp_window cfg \<and>
    c_mac1key_out cfg' = c_mac1key_out cfg \<and> c_mac1key_in cfg' = c_mac1key_in cfg \<and>
    config_apply_profile cfg' (c_active_profile cfg) = Some cfg"
proof -
  obtain pr where pr: "profile_at cfg i = Some pr" using wf_config_profile [OF assms] by blast
  have m: "profile_at cfg (c_active_profile cfg) = Some (config_snapshot_profile cfg)"
    using assms(1) by (simp add: wf_config_def mirrored_def config_active_profile_def)
  let ?c = "(mirror_profile pr cfg)\<lparr>c_active_profile := i\<rparr>"
  have "config_apply_profile cfg i = Some ?c" by (simp add: config_apply_profile_def pr)
  moreover have "wf_config ?c" using assms pr
    by (simp add: wf_config_def mirrored_def config_active_profile_def)
  moreover have "config_apply_profile ?c (c_active_profile cfg) = Some cfg"
    by (simp add: config_apply_profile_def m mirror_mirror mirror_snapshot)
  ultimately show ?thesis using pr
    by (simp add: config_active_profile_def) (simp add: mirror_profile_def)
qed

text \<open>
  Switching the active profile at run time: for every configured index the switch
  succeeds and keeps the configuration well formed, makes that profile the active one,
  leaves the profiles, the trailer window and the MAC1 keys alone, and switching back
  restores the configuration.
\<close>

theorem config_apply_profile_switch:
  assumes "wf_config cfg" "0 \<le> i" "i < c_profile_count cfg"
  shows "\<exists>cfg'. config_apply_profile cfg i = Some cfg' \<and> wf_config cfg' \<and>
    config_active_profile cfg' = profile_at cfg i \<and> c_active_profile cfg' = i \<and>
    c_profiles cfg' = c_profiles cfg \<and> c_udp_window cfg' = c_udp_window cfg \<and>
    c_mac1key_out cfg' = c_mac1key_out cfg \<and> c_mac1key_in cfg' = c_mac1key_in cfg \<and>
    config_apply_profile cfg' (c_active_profile cfg) = Some cfg"
  by (rule apply_profile_switch [OF assms])

lemmas wf_example_config = config_compute_wf(1) [OF example_input_ok, folded example_config_def]

theorem config_apply_profile_switch_witness:
  "wf_config example_config \<and> (\<exists>cfg'. config_apply_profile example_config 0 = Some cfg' \<and> wf_config cfg' \<and>
    config_apply_profile cfg' (c_active_profile example_config) = Some example_config)"
proof -
  have "0 < c_profile_count example_config"
    using wf_example_config by (simp add: wf_config_def)
  from config_apply_profile_switch [OF wf_example_config order_refl this] wf_example_config
  show ?thesis by blast
qed

end
