(* ===== verification/Tuning.thy ===== *)
theory Tuning
  imports Config "HOL-Library.Signed_Division"
begin

text \<open>
  The parts of \<^verbatim>\<open>src/src/proxy.c\<close> and \<^verbatim>\<open>src/src/proxy.h\<close> that fit the proxy to the machine and
  the traffic: \<open>perf_fit_hw\<close>, which drops or trims the performance settings the hardware cannot
  honour, the controller of the receive buffers (\<open>rb_for_rate\<close>, \<open>rb_step\<close>), the self-tuning
  controller of the spin budget (\<open>sp_init\<close>, \<open>sp_tick\<close>), and the MTU advice
  (\<open>awg_max_wg_mtu\<close>, \<open>check_path_mtu\<close>, \<open>log_frag_warn\<close>).
\<close>

section \<open>Settings\<close>

text \<open>
  The socket, thread and schedule fields of \<open>awg_config_t\<close>, those the packet transformation does
  not read; strings are lists of character codes without the terminating zero.
\<close>

record awg_tuning =
  t_timeout :: int
  t_dns_refresh :: int
  t_rot_t_lo :: u32
  t_rot_t_hi :: u32
  t_rot_mb_lo :: u32
  t_rot_mb_hi :: u32
  t_rot_soft :: int
  t_he_delay :: int
  t_state_file :: bytes
  t_log_level :: nat
  t_socket_buf :: int
  t_socket_buf_auto :: bool
  t_src_port :: int
  t_cpu_c2s :: int
  t_cpu_s2c :: int
  t_busy_poll :: int
  t_spin_us :: int
  t_spin_auto :: bool
  t_no_gro :: int
  t_no_gso :: int
  t_rt_prio :: int
  t_rps_mask :: bytes
  t_no_df :: int
  t_stats_interval :: int

section \<open>Performance settings and the hardware\<close>

abbreviation (input) PERF_MIN_CPUS :: int where "PERF_MIN_CPUS \<equiv> 4"
abbreviation (input) PERF_FEW_CPUS :: u32 where "PERF_FEW_CPUS \<equiv> 1"
abbreviation (input) PERF_NO_C2S_CPU :: u32 where "PERF_NO_C2S_CPU \<equiv> 2"
abbreviation (input) PERF_NO_S2C_CPU :: u32 where "PERF_NO_S2C_CPU \<equiv> 4"
abbreviation (input) PERF_RPS_TRIMMED :: u32 where "PERF_RPS_TRIMMED \<equiv> 8"
abbreviation (input) PERF_RPS_DROPPED :: u32 where "PERF_RPS_DROPPED \<equiv> 16"
abbreviation (input) PERF_32BIT :: u32 where "PERF_32BIT \<equiv> 32"

definition hw_strong :: "int \<Rightarrow> bool \<Rightarrow> bool" where
  "hw_strong ncpu wide \<longleftrightarrow> wide \<and> PERF_MIN_CPUS \<le> ncpu"

text \<open>A pinned core the process may not use.\<close>

definition core_bad :: "u32 \<Rightarrow> int \<Rightarrow> bool" where
  "core_bad allowed cpu \<longleftrightarrow> 32 \<le> cpu \<or> (0 \<le> cpu \<and> drop_bit (nat cpu) allowed AND 1 = 0)"

text \<open>
  The loop over the digits of \<open>rps_mask\<close>: the value and the number of digits, which a foreign
  character or a ninth digit resets to zero.
\<close>

fun rps_value :: "u32 \<Rightarrow> nat \<Rightarrow> bytes \<Rightarrow> u32 \<times> nat" where
  "rps_value m n [] = (m, n)"
| "rps_value m n (c # cs) =
     (let d = hex_val c
      in if d < 0 \<or> 8 \<le> n then (m, 0)
         else rps_value (push_bit 4 m OR word_of_int d) (n + 1) cs)"

definition core_bit :: "int \<Rightarrow> u32" where
  "core_bit cpu = (if 0 \<le> cpu then push_bit (nat cpu) 1 else 0)"

definition hex_char :: "u32 \<Rightarrow> u8" where
  "hex_char d = (if d < 10 then 48 + ucast d else 87 + ucast d)"

text \<open>The digits of the trimmed mask, from the most significant one that is not zero.\<close>

fun rps_digits :: "u32 \<Rightarrow> nat list \<Rightarrow> bytes \<Rightarrow> bytes" where
  "rps_digits m [] tmp = tmp"
| "rps_digits m (sh # shs) tmp =
     (let d = drop_bit sh m AND 0xF
      in rps_digits m shs (if tmp \<noteq> [] \<or> d \<noteq> 0 then tmp @ [hex_char d] else tmp))"

definition rps_text :: "u32 \<Rightarrow> bytes" where
  "rps_text m = rps_digits m [28, 24, 20, 16, 12, 8, 4, 0] []"

definition fit_rps :: "int \<Rightarrow> int \<Rightarrow> bytes \<Rightarrow> bytes \<times> u32" where
  "fit_rps c2s s2c rps =
     (let (m, n) = rps_value 0 0 rps;
          busy = core_bit c2s OR core_bit s2c
      in if n > 0 \<and> m AND busy \<noteq> 0
         then let m' = m AND NOT busy
              in if m' = 0 then ([], PERF_RPS_DROPPED) else (rps_text m', PERF_RPS_TRIMMED)
         else (rps, 0))"

definition perf_fit_hw :: "awg_tuning \<Rightarrow> int \<Rightarrow> u32 \<Rightarrow> bool \<Rightarrow> awg_tuning \<times> u32" where
  "perf_fit_hw t ncpu allowed wide =
     (if t_cpu_c2s t < 0 \<and> t_cpu_s2c t < 0 \<and> t_rt_prio t \<le> 0 \<and> t_rps_mask t = [] then (t, 0)
      else if \<not> hw_strong ncpu wide
      then (t\<lparr>t_cpu_c2s := -1, t_cpu_s2c := -1, t_rt_prio := 0, t_rps_mask := []\<rparr>,
            if ncpu < PERF_MIN_CPUS then PERF_FEW_CPUS else PERF_32BIT)
      else let bad1 = core_bad allowed (t_cpu_c2s t);
               bad2 = core_bad allowed (t_cpu_s2c t);
               c2s = (if bad1 then -1 else t_cpu_c2s t);
               s2c = (if bad2 then -1 else t_cpu_s2c t);
               (rps, f) = fit_rps c2s s2c (t_rps_mask t)
           in (t\<lparr>t_cpu_c2s := c2s, t_cpu_s2c := s2c, t_rps_mask := rps\<rparr>,
               (if bad1 then PERF_NO_C2S_CPU else 0) OR (if bad2 then PERF_NO_S2C_CPU else 0) OR f))"

section \<open>Receive buffers\<close>

abbreviation (input) RB_FLOOR :: int where "RB_FLOOR \<equiv> 212992"

text \<open>Unsigned 64-bit arithmetic; the conversion of the result to \<open>int\<close> keeps the low word.\<close>

definition rb_for_rate :: "u32 \<Rightarrow> int \<Rightarrow> int" where
  "rb_for_rate pps cap =
     (let r = (ucast pps :: u64) * 50 * 2304 div 2000;
          r = (if word_of_int cap < r then word_of_int cap else r);
          r = (if r < word_of_int RB_FLOOR then word_of_int RB_FLOOR else r)
      in sint (ucast r :: u32))"

record rb_ctl =
  rb_pv_pkts :: u32
  rb_peak_pps :: u32
  rb_req :: int

definition rb_peak :: "rb_ctl \<Rightarrow> u32 \<Rightarrow> u32" where
  "rb_peak c pps =
     (if rb_peak_pps c \<le> pps then pps else rb_peak_pps c - (rb_peak_pps c - pps) div 4)"

definition rb_step :: "rb_ctl \<Rightarrow> u32 \<Rightarrow> int \<Rightarrow> int \<Rightarrow> rb_ctl \<times> int" where
  "rb_step c pkts secs cap =
     (let pps = (pkts - rb_pv_pkts c) div word_of_int (if secs > 0 then secs else 1);
          c' = c\<lparr>rb_pv_pkts := pkts, rb_peak_pps := rb_peak c pps\<rparr>;
          want = rb_for_rate (rb_peak_pps c') cap
      in if want > rb_req c' + rb_req c' sdiv 8 \<or> want < rb_req c' - rb_req c' sdiv 4
         then (c'\<lparr>rb_req := want\<rparr>, want)
         else (c', 0))"

section \<open>The spin controller\<close>

definition sp_ladder :: "int list" where
  "sp_ladder = [0, 50, 100, 200, 400, 800]"

record spin_ctl =
  sp_idx :: nat
  sp_best :: nat
  sp_ticks :: nat
  sp_windows :: nat
  sp_probe_cursor :: nat
  sp_score :: "u32 list"
  sp_seen :: "bool list"
  sp_pv_pkts :: u32
  sp_pv_drops :: u64

definition sp_packets :: "u32 \<Rightarrow> u32 \<Rightarrow> u32" where
  "sp_packets st_c2s_rx st_s2c_tx = st_c2s_rx + st_s2c_tx"

text \<open>The drop counters of the two sockets; the remote one may be closed.\<close>

definition sp_drops :: "(nat \<Rightarrow> u64) \<Rightarrow> nat \<Rightarrow> nat option \<Rightarrow> u64" where
  "sp_drops udp_socket_drops listen_fd remote_fd =
     udp_socket_drops listen_fd + (case remote_fd of None \<Rightarrow> 0 | Some fd \<Rightarrow> udp_socket_drops fd)"

definition sp_init :: "u32 \<Rightarrow> u64 \<Rightarrow> spin_ctl" where
  "sp_init pkts drops =
     \<lparr>sp_idx = 3, sp_best = 3, sp_ticks = 0, sp_windows = 0, sp_probe_cursor = 0,
      sp_score = replicate 6 0, sp_seen = replicate 6 False, sp_pv_pkts = pkts, sp_pv_drops = drops\<rparr>"

definition sp_note :: "u32 \<Rightarrow> spin_ctl \<Rightarrow> spin_ctl" where
  "sp_note sample c =
     (let i = sp_idx c
      in c\<lparr>sp_score := (sp_score c)[i := if sp_seen c ! i then (sp_score c ! i * 3 + sample) div 4 else sample],
           sp_seen := (sp_seen c)[i := True]\<rparr>)"

text \<open>The first rung not yet tried, from the opening one upwards and round.\<close>

definition sp_untried :: "spin_ctl \<Rightarrow> nat option" where
  "sp_untried c = find (\<lambda>i. \<not> sp_seen c ! i) (map (\<lambda>k. (3 + k) mod 6) [0..<6])"

fun sp_lowest :: "u32 list \<Rightarrow> nat \<Rightarrow> nat list \<Rightarrow> nat" where
  "sp_lowest score best [] = best"
| "sp_lowest score best (i # is) = sp_lowest score (if score ! i < score ! best then i else best) is"

text \<open>Every twentieth judged window tries a rung other than the best.\<close>

definition sp_probe :: "nat \<Rightarrow> spin_ctl \<Rightarrow> nat \<times> spin_ctl" where
  "sp_probe best c =
     (if sp_windows c + 1 \<ge> 20
      then case find (\<lambda>i. i \<noteq> best) (map (\<lambda>k. (sp_probe_cursor c + k) mod 6) [0..<6]) of
             None \<Rightarrow> (best, c\<lparr>sp_windows := 0\<rparr>)
           | Some i \<Rightarrow> (i, c\<lparr>sp_windows := 0, sp_probe_cursor := i + 1\<rparr>)
      else (best, c\<lparr>sp_windows := sp_windows c + 1\<rparr>))"

definition sp_judge :: "spin_ctl \<Rightarrow> spin_ctl" where
  "sp_judge c =
     (let best = sp_lowest (sp_score c) 0 [1..<6];
          (next, c) = sp_probe best c
      in c\<lparr>sp_best := best, sp_idx := next\<rparr>)"

text \<open>
  One tick: the controller and the budget in force, given the readings \<open>sp_packets\<close> and
  \<open>sp_drops\<close>.
\<close>

definition sp_tick :: "u32 \<Rightarrow> u64 \<Rightarrow> spin_ctl \<times> int \<Rightarrow> spin_ctl \<times> int" where
  "sp_tick pkts drops s =
     (let (c, spin_us) = s
      in if sp_ticks c + 1 < 3 then (c\<lparr>sp_ticks := sp_ticks c + 1\<rparr>, spin_us)
         else let d_pkts = pkts - sp_pv_pkts c;
                  d_drops = (if drops > sp_pv_drops c then drops - sp_pv_drops c else 0);
                  c = c\<lparr>sp_ticks := 0, sp_pv_pkts := pkts, sp_pv_drops := drops\<rparr>
              in if d_pkts < 20000 then (c, spin_us)
                 else let c = sp_note (ucast (d_drops * 10000 div ucast d_pkts)) c
                      in case sp_untried c of
                           Some i \<Rightarrow> (c\<lparr>sp_idx := i\<rparr>, sp_ladder ! i)
                         | None \<Rightarrow>
                             let c' = sp_judge c
                             in (c', if sp_idx c' \<noteq> sp_idx c then sp_ladder ! sp_idx c' else spin_us))"

section \<open>MTU advice\<close>

definition awg_path_mtu_usable :: "int \<Rightarrow> bool" where
  "awg_path_mtu_usable mtu \<longleftrightarrow> 576 \<le> mtu \<and> mtu < 1500"

definition awg_max_wg_mtu :: "int \<Rightarrow> int \<Rightarrow> bool \<Rightarrow> int" where
  "awg_max_wg_mtu path_mtu s4 ipv6 =
     (let room = path_mtu - (if ipv6 then 80 else 60) - s4;
          room = (if room < 0 then 0 else room)
      in (room sdiv 16) * 16)"

text \<open>The learned path MTU, the size above which a packet is worth a warning, the warnings.\<close>

record frag =
  fr_path_mtu :: int
  fr_lim :: int
  fr_warned :: "int list"

text \<open>\<open>IP_MTU\<close> of the socket is the argument, \<open>None\<close> without a socket or when the call fails.\<close>

definition check_path_mtu :: "int option \<Rightarrow> frag \<Rightarrow> frag" where
  "check_path_mtu sock s =
     (case sock of None \<Rightarrow> s
      | Some mtu \<Rightarrow>
          if \<not> awg_path_mtu_usable mtu \<or> mtu = fr_path_mtu s then s
          else s\<lparr>fr_path_mtu := mtu, fr_lim := mtu\<rparr>)"

definition log_frag_warn :: "bool \<Rightarrow> int \<Rightarrow> bool \<Rightarrow> int \<Rightarrow> frag \<Rightarrow> frag" where
  "log_frag_warn log_on headroom v6 outer s =
     (let lim = fr_lim s; s = s\<lparr>fr_lim := 2147483647\<rparr>
      in if outer \<le> lim \<or> \<not> log_on then s
         else s\<lparr>fr_warned := fr_warned s @ [awg_max_wg_mtu lim headroom v6]\<rparr>)"

text \<open>The guard of \<open>send_batch_remote\<close>, on the first packet of a batch.\<close>

definition frag_guard :: "bool \<Rightarrow> int \<Rightarrow> bool \<Rightarrow> int \<Rightarrow> frag \<Rightarrow> frag" where
  "frag_guard log_on headroom v6 len s =
     (let outer = len + (if v6 then 48 else 28)
      in if outer > fr_lim s then log_frag_warn log_on headroom v6 outer s else s)"

section \<open>Facts on the RPS mask\<close>

lemma nibble_less [simp]: "(x AND 0xF :: u32) < 16"
  using and_mask_less' [of 4 x] by (simp add: mask_eq_exp_minus_1)

lemma hex_val_char [simp]:
  assumes "d < 16" shows "hex_val (hex_char d) = uint d"
proof -
  have "unat d \<in> set [0..<16]" using assms by (simp add: word_less_nat_alt)
  then have "word_of_nat (unat d) \<in> set (map word_of_nat [0..<16] :: u32 list)" unfolding set_map by (rule imageI)
  then have "d \<in> set (map word_of_nat [0..<16])" by simp
  then show ?thesis by (simp add: upt_rec) (elim disjE; simp add: hex_val_def hex_char_def)
qed

lemma rps_digits_eq:
  "rps_digits m shs tmp = tmp @ map hex_char ((if tmp = [] then dropWhile (\<lambda>d. d = 0) else id) (map (\<lambda>sh. drop_bit sh m AND 0xF) shs))"
  by (induction m shs tmp rule: rps_digits.induct) (auto simp: Let_def)

lemma rps_value_digits:
  assumes "\<forall>d \<in> set ds. d < 16" "n + length ds \<le> 8"
  shows "rps_value m n (map hex_char ds) = (fold (\<lambda>d m. push_bit 4 m OR d) ds m, n + length ds)"
  using assms by (induction ds arbitrary: m n) (simp_all add: Let_def)

lemma fold_leading_zeros:
  "fold (\<lambda>d m. push_bit 4 m OR d) (dropWhile (\<lambda>d. d = 0) ds) (0 :: u32) = fold (\<lambda>d m. push_bit 4 m OR d) ds 0"
  by (induction ds) simp_all

lemma u32_bits_eqI:
  assumes "list_all (\<lambda>n. bit (x :: u32) n = bit y n) [0..<32]"
  shows "x = y"
  using assms by (intro bit_eqI) (auto simp: list_all_iff)

lemma nibbles_value:
  "fold (\<lambda>d m. push_bit 4 m OR d) (map (\<lambda>sh. drop_bit sh m AND 0xF) [28, 24, 20, 16, 12, 8, 4, 0]) 0 = (m :: u32)"
proof (rule u32_bits_eqI)
  have f: "(0xF :: u32) = Bit_Operations.mask 4" by (simp add: mask_eq_exp_minus_1)
  show "list_all (\<lambda>n. bit (fold (\<lambda>d m. push_bit 4 m OR d) (map (\<lambda>sh. drop_bit sh m AND 0xF) [28, 24, 20, 16, 12, 8, 4, 0]) 0) n = bit m n) [0..<32]"
    unfolding f by (simp add: upt_rec bit_simps) (simp add: eval_nat_numeral)
qed

text \<open>Reading back the text of a mask gives the mask.\<close>

lemma rps_text_value:
  assumes "m \<noteq> 0"
  shows "rps_value 0 0 (rps_text m) = (m, length (rps_text m))" "rps_text m \<noteq> []"
proof -
  define ds :: "u32 list" where "ds = map (\<lambda>sh. drop_bit sh m AND 0xF) [28, 24, 20, 16, 12, 8, 4, 0]"
  have t: "rps_text m = map hex_char (dropWhile (\<lambda>d. d = 0) ds)"
    by (simp add: rps_text_def rps_digits_eq ds_def del: list.map)
  have "list_all (\<lambda>d. d < 16) ds" unfolding ds_def list.pred_map by simp
  then have d: "\<forall>d \<in> set (dropWhile (\<lambda>d. d = 0) ds). d < 16"
    by (auto simp: list_all_iff dest: set_dropWhileD)
  have l: "0 + length (dropWhile (\<lambda>d. d = 0) ds) \<le> 8"
  proof -
    have "length ds = 8" unfolding ds_def length_map by simp
    then show ?thesis using length_dropWhile_le [of "\<lambda>d. d = 0" ds] by simp
  qed
  have "fold (\<lambda>d m. push_bit 4 m OR d) ds 0 = m" unfolding ds_def by (rule nibbles_value)
  then show v: "rps_value 0 0 (rps_text m) = (m, length (rps_text m))"
    unfolding t rps_value_digits [OF d l] fold_leading_zeros by simp
  show "rps_text m \<noteq> []" using v assms by auto
qed

text \<open>The cores a mask spreads the receive processing over, \<open>None\<close> for a mask left alone.\<close>

definition rps_cores :: "bytes \<Rightarrow> nat set option" where
  "rps_cores rps = (let (m, n) = rps_value 0 0 rps in if n > 0 then Some {i. bit m i} else None)"

lemma core_bad_iff: "core_bad allowed cpu \<longleftrightarrow> 0 \<le> cpu \<and> (32 \<le> cpu \<or> \<not> bit allowed (nat cpu))"
proof -
  have "drop_bit (nat cpu) allowed AND 1 = 0 \<longleftrightarrow> \<not> bit allowed (nat cpu)"
    by (simp add: bit_iff_odd_drop_bit and_one_eq even_iff_mod_2_eq_zero)
  then show ?thesis by (auto simp: core_bad_def)
qed

lemma bit_core_bit: "cpu < 32 \<Longrightarrow> bit (core_bit cpu) i \<longleftrightarrow> int i = cpu"
  by (auto simp: core_bit_def bit_simps)

lemma fit_rps_cores:
  assumes "fit_rps c2s s2c rps = (rps', f)" "c2s < 32" "s2c < 32"
  shows "f = 0 \<longleftrightarrow> rps' = rps"
    and "rps_cores rps = Some B \<Longrightarrow> (case rps_cores rps' of None \<Rightarrow> {} | Some B' \<Rightarrow> B') = {i \<in> B. int i \<noteq> c2s \<and> int i \<noteq> s2c}"
    and "rps_cores rps = None \<Longrightarrow> rps' = rps"
    and "fit_rps c2s s2c rps' = (rps', 0)"
proof -
  obtain m n where mn: "rps_value 0 0 rps = (m, n)" by (cases "rps_value 0 0 rps")
  define busy where "busy = core_bit c2s OR core_bit s2c"
  define m' where "m' = m AND NOT busy"
  have b: "bit m' i \<longleftrightarrow> bit m i \<and> int i \<noteq> c2s \<and> int i \<noteq> s2c" for i
    using assms(2,3) bit_imp_le_length [of m i] by (auto simp: m'_def busy_def bit_simps bit_core_bit)
  have disj: "m' AND busy = 0" by (rule bit_eqI) (simp add: m'_def bit_simps)
  have r: "(rps', f) = (if n > 0 \<and> m AND busy \<noteq> 0 then if m' = 0 then ([], 16) else (rps_text m', 8) else (rps, 0))"
    using assms(1) unfolding fit_rps_def mn Let_def prod.case busy_def [symmetric] m'_def [symmetric] by (rule sym)
  note t = rps_text_value [of m']
  consider "n > 0" "m AND busy \<noteq> 0" "m' = 0" | "n > 0" "m AND busy \<noteq> 0" "m' \<noteq> 0" | "n = 0 \<or> m AND busy = 0"
    by blast
  then have "(f = 0 \<longleftrightarrow> rps' = rps) \<and>
    (rps_cores rps = Some B \<longrightarrow> (case rps_cores rps' of None \<Rightarrow> {} | Some B' \<Rightarrow> B') = {i \<in> B. int i \<noteq> c2s \<and> int i \<noteq> s2c}) \<and>
    (rps_cores rps = None \<longrightarrow> rps' = rps) \<and> fit_rps c2s s2c rps' = (rps', 0)" for B
  proof cases
    case 1
    then show ?thesis using r mn b by (auto simp: rps_cores_def fit_rps_def)
  next
    case 2
    then have "rps' = rps_text m'" "f = 8" using r by auto
    moreover have "rps_text m' \<noteq> rps" using 2 t mn disj by auto
    ultimately show ?thesis using 2 t mn b disj
      by (auto simp: rps_cores_def fit_rps_def busy_def [symmetric])
  next
    case 3
    then have "rps' = rps" "f = 0" using r by auto
    moreover have "{i. bit m i} = {i \<in> {i. bit m i}. int i \<noteq> c2s \<and> int i \<noteq> s2c}" if "m AND busy = 0"
    proof -
      have "\<not> (bit m i \<and> bit busy i)" for i using arg_cong [OF that, of "\<lambda>x. bit x i"] by (simp add: bit_simps)
      then have "bit m' i = bit m i" for i using bit_imp_le_length [of m i] by (auto simp: m'_def bit_simps)
      then show ?thesis using b by auto
    qed
    ultimately show ?thesis using 3 mn assms(1) by (auto simp: rps_cores_def)
  qed
  then show "f = 0 \<longleftrightarrow> rps' = rps"
    and "rps_cores rps = Some B \<Longrightarrow> (case rps_cores rps' of None \<Rightarrow> {} | Some B' \<Rightarrow> B') = {i \<in> B. int i \<noteq> c2s \<and> int i \<noteq> s2c}"
    and "rps_cores rps = None \<Longrightarrow> rps' = rps"
    and "fit_rps c2s s2c rps' = (rps', 0)" by auto
qed

lemma perf_update_eq:
  assumes "t' = t\<lparr>t_cpu_c2s := c, t_cpu_s2c := d, t_rps_mask := rps\<rparr>"
  shows "t' = t \<longleftrightarrow> c = t_cpu_c2s t \<and> d = t_cpu_s2c t \<and> rps = t_rps_mask t"
proof
  assume "t' = t"
  moreover have "t_cpu_c2s t' = c" "t_cpu_s2c t' = d" "t_rps_mask t' = rps" by (simp_all add: assms)
  ultimately show "c = t_cpu_c2s t \<and> d = t_cpu_s2c t \<and> rps = t_rps_mask t" by simp
qed (simp add: assms)

section \<open>Properties of the performance settings\<close>

text \<open>
  C36. The settings after \<open>perf_fit_hw\<close>: a thread is pinned only to a core the process may use, a
  weak machine keeps no setting at all, the cores of the pinned threads are taken out of the RPS
  mask and no other core is, the returned flags are zero exactly when nothing was changed, and a
  second call changes nothing.
\<close>

theorem perf_fit_hw_sound:
  assumes "perf_fit_hw t ncpu allowed wide = (t', f)"
  shows "(\<forall>cpu \<in> {t_cpu_c2s t', t_cpu_s2c t'}. cpu < 0 \<or> cpu < 32 \<and> bit allowed (nat cpu)) \<and>
    (\<not> hw_strong ncpu wide \<longrightarrow>
      t_cpu_c2s t' < 0 \<and> t_cpu_s2c t' < 0 \<and> t_rt_prio t' \<le> 0 \<and> t_rps_mask t' = []) \<and>
    (hw_strong ncpu wide \<longrightarrow> t_rt_prio t' = t_rt_prio t \<and>
      (case rps_cores (t_rps_mask t) of None \<Rightarrow> t_rps_mask t' = t_rps_mask t
       | Some B \<Rightarrow> (case rps_cores (t_rps_mask t') of None \<Rightarrow> {} | Some B' \<Rightarrow> B') =
                   {i \<in> B. int i \<noteq> t_cpu_c2s t' \<and> int i \<noteq> t_cpu_s2c t'})) \<and>
    (f = 0 \<longleftrightarrow> t' = t) \<and> perf_fit_hw t' ncpu allowed wide = (t', 0)"
proof -
  consider (off) "t_cpu_c2s t < 0" "t_cpu_s2c t < 0" "t_rt_prio t \<le> 0" "t_rps_mask t = []"
    | (weak) "\<not> (t_cpu_c2s t < 0 \<and> t_cpu_s2c t < 0 \<and> t_rt_prio t \<le> 0 \<and> t_rps_mask t = [])" "\<not> hw_strong ncpu wide"
    | (strong) "\<not> (t_cpu_c2s t < 0 \<and> t_cpu_s2c t < 0 \<and> t_rt_prio t \<le> 0 \<and> t_rps_mask t = [])" "hw_strong ncpu wide"
    by blast
  then show ?thesis
  proof cases
    case off
    then have "t' = t" "f = 0" using assms by (simp_all add: perf_fit_hw_def)
    then show ?thesis using off by (simp add: perf_fit_hw_def rps_cores_def)
  next
    case weak
    have t': "t' = t\<lparr>t_cpu_c2s := -1, t_cpu_s2c := -1, t_rt_prio := 0, t_rps_mask := []\<rparr>" and f: "f \<noteq> 0"
      using weak assms unfolding perf_fit_hw_def by (auto split: if_splits)
    have "t' \<noteq> t"
    proof
      assume "t' = t"
      moreover have "t_cpu_c2s t' = -1" "t_cpu_s2c t' = -1" "t_rt_prio t' = 0" "t_rps_mask t' = []"
        by (simp_all add: t')
      ultimately show False using weak(1) by simp
    qed
    then show ?thesis using weak f by (simp add: t' perf_fit_hw_def)
  next
    case strong
    define c where "c = (if core_bad allowed (t_cpu_c2s t) then -1 else t_cpu_c2s t)"
    define d where "d = (if core_bad allowed (t_cpu_s2c t) then -1 else t_cpu_s2c t)"
    obtain rps g where fit: "fit_rps c d (t_rps_mask t) = (rps, g)" by (cases "fit_rps c d (t_rps_mask t)")
    have t': "t' = t\<lparr>t_cpu_c2s := c, t_cpu_s2c := d, t_rps_mask := rps\<rparr>"
      and f: "f = (if core_bad allowed (t_cpu_c2s t) then 2 else 0) OR (if core_bad allowed (t_cpu_s2c t) then 4 else 0) OR g"
      using assms strong unfolding perf_fit_hw_def Let_def c_def [symmetric] d_def [symmetric] fit
      by (simp_all only: if_False not_True_eq_False prod.case prod.inject)
    have cd: "c < 32" "d < 32" "\<not> core_bad allowed c" "\<not> core_bad allowed d"
      by (auto simp: c_def d_def core_bad_iff)
    note fr = fit_rps_cores [OF fit cd(1,2)]
    have "t' = t \<longleftrightarrow> c = t_cpu_c2s t \<and> d = t_cpu_s2c t \<and> rps = t_rps_mask t"
      by (rule perf_update_eq [OF t'])
    moreover have "c = t_cpu_c2s t \<longleftrightarrow> \<not> core_bad allowed (t_cpu_c2s t)" "d = t_cpu_s2c t \<longleftrightarrow> \<not> core_bad allowed (t_cpu_s2c t)"
      by (auto simp: c_def d_def core_bad_iff)
    ultimately have "f = 0 \<longleftrightarrow> t' = t" using fr(1) by (simp add: f or_eq_0_iff)
    moreover have "perf_fit_hw t' ncpu allowed wide = (t', 0)"
      using strong(2) cd fr(4) by (simp add: perf_fit_hw_def t')
    moreover have "\<forall>cpu \<in> {c, d}. cpu < 0 \<or> cpu < 32 \<and> bit allowed (nat cpu)"
      using cd by (auto simp: core_bad_iff)
    moreover have "case rps_cores (t_rps_mask t) of None \<Rightarrow> rps = t_rps_mask t
       | Some B \<Rightarrow> (case rps_cores rps of None \<Rightarrow> {} | Some B' \<Rightarrow> B') = {i \<in> B. int i \<noteq> c \<and> int i \<noteq> d}"
      using fr(2,3) by (cases "rps_cores (t_rps_mask t)") simp_all
    moreover have "t_cpu_c2s t' = c" "t_cpu_s2c t' = d" "t_rps_mask t' = rps" "t_rt_prio t' = t_rt_prio t"
      by (simp_all add: t')
    ultimately show ?thesis using strong(2) by (simp only:) blast
  qed
qed

text \<open>Four cores, threads on 1 and 2, the mask naming all four.\<close>

definition example_tuning :: awg_tuning where
  "example_tuning =
     \<lparr>t_timeout = 60, t_dns_refresh = 60, t_rot_t_lo = 1800, t_rot_t_hi = 7200, t_rot_mb_lo = 0,
      t_rot_mb_hi = 0, t_rot_soft = 1, t_he_delay = 250, t_state_file = [], t_log_level = 2,
      t_socket_buf = 16777216, t_socket_buf_auto = True, t_src_port = -1, t_cpu_c2s = 1, t_cpu_s2c = 2,
      t_busy_poll = 0, t_spin_us = 0, t_spin_auto = False, t_no_gro = 0, t_no_gso = 0, t_rt_prio = 10,
      t_rps_mask = [102], t_no_df = 0, t_stats_interval = 0\<rparr>"

theorem perf_fit_hw_sound_witness:
  "perf_fit_hw example_tuning 4 15 True = (example_tuning\<lparr>t_rps_mask := [57]\<rparr>, 8) \<and>
   perf_fit_hw (example_tuning\<lparr>t_rps_mask := [57]\<rparr>) 4 15 True = (example_tuning\<lparr>t_rps_mask := [57]\<rparr>, 0)"
proof -
  have "perf_fit_hw example_tuning 4 15 True = (example_tuning\<lparr>t_rps_mask := [57]\<rparr>, 8)" by code_simp
  from perf_fit_hw_sound [OF this] this show ?thesis by blast
qed

section \<open>Properties of the receive buffers\<close>

lemma rb_for_rate_value:
  assumes "0 \<le> cap" "cap < 2 ^ 31"
  shows "rb_for_rate pps cap = max 212992 (min cap (uint pps * 115200 div 2000))"
proof -
  let ?r = "(ucast pps :: u64) * 50 * 2304 div 2000"
  have lt: "uint pps < 2 ^ 32" "0 \<le> uint pps" using uint_lt2p [of pps] by simp_all
  have m: "uint ((ucast pps :: u64) * 50 * 2304) = uint pps * 115200"
    using lt by (simp add: uint_word_ariths uint_up_ucast is_up take_bit_int_eq_self)
  have r: "uint ?r = uint pps * 115200 div 2000" unfolding uint_div_distrib m by simp
  have c: "uint (word_of_int cap :: u64) = cap" "uint (word_of_int 212992 :: u64) = 212992"
    using assms by (simp_all add: uint_word_of_int_eq take_bit_int_eq_self)
  define q :: u64 where "q = (let r = (if word_of_int cap < ?r then word_of_int cap else ?r)
    in if r < word_of_int 212992 then word_of_int 212992 else r)"
  have q: "uint q = max 212992 (min cap (uint pps * 115200 div 2000))"
    unfolding q_def Let_def word_less_alt using r c by (auto simp: word_less_alt)
  then have b: "uint q < 2 ^ 31" using assms by simp
  have u: "uint (ucast q :: u32) = uint q"
    using b by (simp add: unsigned_ucast_eq take_bit_int_eq_self)
  have "sint (ucast q :: u32) = uint q"
    using signed_take_bit_int_eq_self [of 31 "uint q"] b order.trans [OF _ uint_ge_0 [of q], of "- 2147483648"]
    by (simp add: sint_uint u)
  moreover have "rb_for_rate pps cap = sint (ucast q :: u32)" unfolding rb_for_rate_def q_def Let_def by (rule refl)
  ultimately show ?thesis by (simp only: q)
qed

text \<open>Truncating division agrees with \<open>div\<close> on the requests, which are positive.\<close>

lemma sdiv_pos: "0 \<le> (a :: int) \<Longrightarrow> 0 < b \<Longrightarrow> a sdiv b = a div b"
  by (cases "a = 0") (simp_all add: signed_divide_int_def)

definition rb_inv :: "int \<Rightarrow> rb_ctl \<Rightarrow> bool" where
  "rb_inv cap c \<longleftrightarrow> RB_FLOOR \<le> rb_req c \<and> rb_req c \<le> max RB_FLOOR cap"

lemma rb_peak_bounds: "pps \<le> rb_peak c pps" "rb_peak c pps \<le> max pps (rb_peak_pps c)"
  "\<not> rb_peak_pps c \<le> pps \<Longrightarrow> unat (rb_peak c pps) = unat (rb_peak_pps c) - (unat (rb_peak_pps c) - unat pps) div 4"
proof -
  let ?p = "rb_peak_pps c"
  have *: "unat (?p - (?p - pps) div 4) = unat ?p - (unat ?p - unat pps) div 4" if "pps < ?p"
  proof -
    have "unat (?p - pps) = unat ?p - unat pps" using that by (simp add: unat_sub order_less_imp_le)
    then have d: "unat ((?p - pps) div 4) = (unat ?p - unat pps) div 4" by (simp add: unat_div)
    then have "(?p - pps) div 4 \<le> ?p" by (simp add: word_le_nat_alt)
    then show ?thesis by (simp add: unat_sub d)
  qed
  show "pps \<le> rb_peak c pps" "rb_peak c pps \<le> max pps ?p"
  proof (atomize (full), cases "?p \<le> pps")
    case False
    then have "pps < ?p" by (simp add: not_le)
    with * False have "unat (rb_peak c pps) = unat ?p - (unat ?p - unat pps) div 4" by (simp add: rb_peak_def)
    with False show "pps \<le> rb_peak c pps \<and> rb_peak c pps \<le> max pps ?p"
      by (simp add: max_def word_le_nat_alt)
  qed (simp add: rb_peak_def max_def)
  show "unat (rb_peak c pps) = unat ?p - (unat ?p - unat pps) div 4" if "\<not> ?p \<le> pps"
    using * [unfolded not_le [symmetric]] that by (simp add: rb_peak_def)
qed

lemma rb_step_result:
  assumes "0 \<le> cap" "cap < 2 ^ 31" "rb_inv cap c" "rb_step c pkts secs cap = (c', r)"
    and "pps = (pkts - rb_pv_pkts c) div word_of_int (if secs > 0 then secs else 1)"
  shows "rb_inv cap c'" "rb_pv_pkts c' = pkts" "rb_peak_pps c' = rb_peak c pps"
    "r = (if rb_req c' = rb_req c then 0 else rb_req c')"
    "4 * rb_for_rate (rb_peak c pps) cap \<ge> 3 * rb_req c'" "8 * rb_for_rate (rb_peak c pps) cap \<le> 9 * rb_req c'"
proof -
  define want where "want = rb_for_rate (rb_peak c pps) cap"
  have w: "212992 \<le> want" "want \<le> max 212992 cap"
    unfolding want_def rb_for_rate_value [OF assms(1,2)] by auto
  have i: "212992 \<le> rb_req c" "rb_req c \<le> max 212992 cap" using assms(3) by (simp_all add: rb_inv_def)
  let ?c = "c\<lparr>rb_pv_pkts := pkts, rb_peak_pps := rb_peak c pps\<rparr>"
  have "rb_peak_pps ?c = rb_peak c pps" "rb_req ?c = rb_req c" by simp_all
  then have s: "(if want > rb_req c + rb_req c div 8 \<or> want < rb_req c - rb_req c div 4
      then (?c\<lparr>rb_req := want\<rparr>, want) else (?c, 0)) = (c', r)"
    using assms(4) sdiv_pos [of "rb_req c" 8] sdiv_pos [of "rb_req c" 4] i
    unfolding rb_step_def Let_def assms(5) [symmetric] want_def by (simp only: zero_le_numeral)
  show "rb_inv cap c'" "rb_pv_pkts c' = pkts" "rb_peak_pps c' = rb_peak c pps"
    "r = (if rb_req c' = rb_req c then 0 else rb_req c')"
    "4 * rb_for_rate (rb_peak c pps) cap \<ge> 3 * rb_req c'" "8 * rb_for_rate (rb_peak c pps) cap \<le> 9 * rb_req c'"
    unfolding want_def [symmetric] using s w i by (auto simp: rb_inv_def split: if_splits)
qed

text \<open>
  The buffer follows the traffic: a step keeps the request between the kernel's default and the
  ceiling, takes the rate from the counter across its wrap, raises the peak at once and never
  above what was seen, asks for a new size exactly when the request changes, and leaves the
  request between 8/9 and 4/3 of what \<open>RB_QUEUE_MS\<close> of traffic at the peak rate need.
\<close>

theorem rb_step_follows:
  assumes "0 \<le> cap" "cap < 2 ^ 31" "rb_inv cap c" "rb_step c (rb_pv_pkts c + d) secs cap = (c', r)" "0 < secs"
  shows "rb_inv cap c' \<and> rb_pv_pkts c' = rb_pv_pkts c + d \<and>
    d div word_of_int secs \<le> rb_peak_pps c' \<and> rb_peak_pps c' \<le> max (d div word_of_int secs) (rb_peak_pps c) \<and>
    r = (if rb_req c' = rb_req c then 0 else rb_req c') \<and>
    (let need = max 212992 (min cap (uint (rb_peak_pps c') * 115200 div 2000))
     in 8 * need \<le> 9 * rb_req c' \<and> 3 * rb_req c' \<le> 4 * need)"
proof -
  have p: "d div word_of_int secs = (rb_pv_pkts c + d - rb_pv_pkts c) div word_of_int (if secs > 0 then secs else 1)"
    using assms(5) by simp
  note r = rb_step_result [OF assms(1-4) p]
  show ?thesis using r rb_peak_bounds(1,2) [where pps = "d div word_of_int secs" and c = c]
    by (simp add: Let_def rb_for_rate_value [OF assms(1,2)])
qed

theorem rb_step_follows_witness:
  "rb_step \<lparr>rb_pv_pkts = 0xFFFFFF00, rb_peak_pps = 0, rb_req = 212992\<rparr> (0xFFFFFF00 + 100000) 5 16777216 =
     (\<lparr>rb_pv_pkts = 99744, rb_peak_pps = 20000, rb_req = 1152000\<rparr>, 1152000) \<and>
   rb_inv 16777216 \<lparr>rb_pv_pkts = 99744, rb_peak_pps = 20000, rb_req = 1152000\<rparr>"
proof -
  have s: "rb_step \<lparr>rb_pv_pkts = 0xFFFFFF00, rb_peak_pps = 0, rb_req = 212992\<rparr> (0xFFFFFF00 + 100000) 5 16777216 =
     (\<lparr>rb_pv_pkts = 99744, rb_peak_pps = 20000, rb_req = 1152000\<rparr>, 1152000)" by code_simp
  have "rb_inv 16777216 \<lparr>rb_pv_pkts = 0xFFFFFF00, rb_peak_pps = 0, rb_req = 212992\<rparr>" by (simp add: rb_inv_def)
  from rb_step_follows [OF _ _ this, where d = 100000 and secs = 5] s show ?thesis by simp
qed

section \<open>Steady traffic\<close>

text \<open>One tick of five seconds in which \<open>d\<close> datagrams arrived.\<close>

definition rb_tick :: "u32 \<Rightarrow> int \<Rightarrow> rb_ctl \<Rightarrow> rb_ctl" where
  "rb_tick d cap c = fst (rb_step c (rb_pv_pkts c + d) 5 cap)"

lemma rb_tick_peak: "rb_peak_pps (rb_tick d cap c) = rb_peak c (d div 5)"
  by (simp add: rb_tick_def rb_step_def Let_def)

lemma peak_shrinks: "4 * (x - (x - r) div 4 - (r + 3)) \<le> 3 * (x - (r + 3 :: nat))"
  by simp

lemma rb_ticks_peak:
  defines "r \<equiv> \<lambda>d :: u32. unat (d div 5)"
  shows "r d \<le> unat (rb_peak_pps ((rb_tick d cap ^^ Suc n) c)) \<and>
    4 ^ Suc n * (unat (rb_peak_pps ((rb_tick d cap ^^ Suc n) c)) - (r d + 3)) \<le> 3 ^ Suc n * (unat (rb_peak_pps c) - (r d + 3))"
proof -
  have step: "r d \<le> unat (rb_peak c (d div 5)) \<and>
      4 * (unat (rb_peak c (d div 5)) - (r d + 3)) \<le> 3 * (unat (rb_peak_pps c) - (r d + 3))" for c
  proof (cases "rb_peak_pps c \<le> d div 5")
    case False
    then show ?thesis unfolding rb_peak_bounds(3) [OF False] r_def using rb_peak_bounds(3) [OF False]
      rb_peak_bounds(1) [of "d div 5" c] peak_shrinks by (simp add: word_le_nat_alt)
  qed (simp add: rb_peak_def r_def)
  show ?thesis
  proof (induction n)
    case 0
    then show ?case using step by (simp add: rb_tick_peak)
  next
    case (Suc n)
    let ?c = "(rb_tick d cap ^^ Suc n) c"
    have "4 ^ Suc n * (4 * (unat (rb_peak ?c (d div 5)) - (r d + 3))) \<le> 3 * (4 ^ Suc n * (unat (rb_peak_pps ?c) - (r d + 3)))"
      using step [of ?c] mult_le_mono2 [of _ _ "4 ^ Suc n"] by fastforce
    also have "\<dots> \<le> 3 * (3 ^ Suc n * (unat (rb_peak_pps c) - (r d + 3)))"
      using Suc.IH by simp
    finally show ?case using step [of ?c] by (simp add: rb_tick_peak)
  qed
qed

lemma power_gap: "80 \<le> n \<Longrightarrow> 3 ^ n * 2 ^ 32 < (4 :: nat) ^ n"
  by (induction n rule: dec_induct) simp_all

lemma rb_ticks_inv:
  assumes "0 \<le> cap" "cap < 2 ^ 31" "rb_inv cap c"
  shows "rb_inv cap ((rb_tick d cap ^^ n) c)"
proof (induction n)
  case (Suc n)
  obtain c' r where "rb_step ((rb_tick d cap ^^ n) c) (rb_pv_pkts ((rb_tick d cap ^^ n) c) + d) 5 cap = (c', r)" by fastforce
  from rb_step_result(1) [OF assms(1,2) Suc.IH this refl] this have "rb_inv cap (rb_tick d cap ((rb_tick d cap ^^ n) c))"
    by (simp only: rb_tick_def [of d cap "(rb_tick d cap ^^ n) c"] fst_conv)
  then show ?case by simp
qed (simp add: assms(3))

text \<open>
  A peak is forgotten: under steady traffic of \<open>d\<close> datagrams a tick, eighty ticks later (under
  seven minutes) the remembered peak is within three packets a second of the rate, whatever
  burst came before, and the buffer is sized for it.
\<close>

theorem rb_settles:
  assumes "0 \<le> cap" "cap < 2 ^ 31" "rb_inv cap c" "80 \<le> n"
  shows "let c' = (rb_tick d cap ^^ n) c; r = unat (d div 5)
    in rb_inv cap c' \<and> r \<le> unat (rb_peak_pps c') \<and> unat (rb_peak_pps c') \<le> r + 3"
proof -
  obtain k where n: "n = Suc k" using assms(4) by (cases n) auto
  let ?p = "unat (rb_peak_pps ((rb_tick d cap ^^ n) c)) - (unat (d div 5) + 3)"
  have b: "unat (d div 5) \<le> unat (rb_peak_pps ((rb_tick d cap ^^ n) c))"
    "4 ^ n * ?p \<le> 3 ^ n * (unat (rb_peak_pps c) - (unat (d div 5) + 3))"
    unfolding n using rb_ticks_peak [of d k cap c] by simp_all
  have "?p = 0"
  proof (rule ccontr)
    assume "?p \<noteq> 0"
    have lt: "unat (rb_peak_pps c) < 2 ^ 32" using unsigned_less [of "rb_peak_pps c", where 'a = nat] by simp
    have "(4 :: nat) ^ n \<le> 4 ^ n * ?p" using \<open>?p \<noteq> 0\<close> by simp
    also have "\<dots> \<le> 3 ^ n * 2 ^ 32" using b(2) lt by (meson diff_le_self le_trans less_imp_le_nat mult_le_mono2)
    also have "\<dots> < 4 ^ n" by (rule power_gap [OF assms(4)])
    finally show False by simp
  qed
  then show ?thesis using b(1) rb_ticks_inv [OF assms(1-3)] by (simp add: Let_def)
qed

theorem rb_settles_witness:
  "let c' = (rb_tick 5000 16777216 ^^ 80) \<lparr>rb_pv_pkts = 7, rb_peak_pps = 100000, rb_req = 5760000\<rparr>
   in rb_inv 16777216 c' \<and> 1000 \<le> unat (rb_peak_pps c') \<and> unat (rb_peak_pps c') \<le> 1003"
proof -
  have "rb_inv 16777216 \<lparr>rb_pv_pkts = 7, rb_peak_pps = 100000, rb_req = 5760000\<rparr>" by (simp add: rb_inv_def)
  from rb_settles [OF _ _ this, where n = 80 and d = 5000] show ?thesis by (simp add: Let_def unat_div)
qed

section \<open>Properties of the spin controller\<close>

text \<open>
  The state between ticks: the budget in force is the one of the current rung, and while a rung
  is still untried the current one is.
\<close>

definition sp_inv :: "spin_ctl \<times> int \<Rightarrow> bool" where
  "sp_inv s \<longleftrightarrow>
     (case s of (c, us) \<Rightarrow>
        length (sp_score c) = 6 \<and> length (sp_seen c) = 6 \<and> sp_idx c < 6 \<and> sp_best c < 6 \<and>
        sp_ticks c < 3 \<and> sp_windows c < 20 \<and> sp_probe_cursor c \<le> 6 \<and> us = sp_ladder ! sp_idx c \<and>
        (False \<in> set (sp_seen c) \<longrightarrow> \<not> sp_seen c ! sp_idx c))"

definition rungs_left :: "spin_ctl \<Rightarrow> nat" where
  "rungs_left c = length (filter Not (sp_seen c))"

text \<open>The lowest score, the lower rung on a tie.\<close>

definition lowest :: "u32 list \<Rightarrow> nat \<Rightarrow> bool" where
  "lowest score b \<longleftrightarrow> b < length score \<and> (\<forall>i < length score. score ! b \<le> score ! i) \<and> (\<forall>i < b. score ! b < score ! i)"

lemma sp_lowest_upto:
  assumes "b < j" "\<forall>i < j. score ! b \<le> score ! i" "\<forall>i < b. score ! b < score ! i" "j \<le> k"
  shows "let r = sp_lowest score b [j..<k] in r < k \<and> (\<forall>i < k. score ! r \<le> score ! i) \<and> (\<forall>i < r. score ! r < score ! i)"
  using assms
proof (induction "k - j" arbitrary: b j)
  case 0
  then show ?case by (simp add: Let_def)
next
  case (Suc n)
  then have jk: "j < k" "n = k - Suc j" "Suc j \<le> k" by simp_all
  have u: "sp_lowest score b [j..<k] = sp_lowest score (if score ! j < score ! b then j else b) [Suc j..<k]"
    using jk by (simp add: upt_rec)
  show ?case unfolding u
    by (rule Suc.hyps(1) [OF jk(2) _ _ _ jk(3)])
      (use Suc.prems in \<open>auto simp: less_Suc_eq not_less split: if_splits intro: less_imp_le order.strict_trans2 order.trans\<close>)
qed

lemma sp_lowest_six: "length score = 6 \<Longrightarrow> lowest score (sp_lowest score 0 [1..<6])"
  using sp_lowest_upto [of 0 1 score 6] by (simp add: lowest_def Let_def)

text \<open>The search of the rungs in ladder order from any cursor finds a rung whenever there is one.\<close>

lemma find_rung:
  assumes "i < 6" "P i"
  shows "\<exists>j. find P (map (\<lambda>k. (c + k) mod 6) [0..<6]) = Some j \<and> j < 6 \<and> P j"
proof -
  have "\<exists>k < 6. (c + k) mod 6 = i" using assms(1) by presburger
  then have "i \<in> set (map (\<lambda>k. (c + k) mod 6) [0..<6])" by auto
  then have "find P (map (\<lambda>k. (c + k) mod 6) [0..<6]) \<noteq> None" using assms(2) unfolding find_None_iff by blast
  then obtain j where "find P (map (\<lambda>k. (c + k) mod 6) [0..<6]) = Some j" by blast
  then show ?thesis by (auto simp: find_Some_iff)
qed

lemma sp_untried_spec:
  assumes "length (sp_seen c) = 6"
  shows "sp_untried c = None \<longleftrightarrow> False \<notin> set (sp_seen c)"
    and "sp_untried c = Some i \<Longrightarrow> i < 6 \<and> \<not> sp_seen c ! i"
proof -
  show "sp_untried c = None \<longleftrightarrow> False \<notin> set (sp_seen c)"
  proof
    assume n: "sp_untried c = None"
    show "False \<notin> set (sp_seen c)"
    proof
      assume "False \<in> set (sp_seen c)"
      then obtain i where "i < 6" "\<not> sp_seen c ! i" using assms by (metis in_set_conv_nth)
      from find_rung [where P = "\<lambda>i. \<not> sp_seen c ! i" and c = 3, OF this] n show False by (auto simp: sp_untried_def)
    qed
  next
    assume "False \<notin> set (sp_seen c)"
    then have "sp_seen c ! i" if "i < 6" for i using assms that by (metis nth_mem)
    then show "sp_untried c = None" by (simp add: sp_untried_def find_None_iff)
  qed
  show "sp_untried c = Some i \<Longrightarrow> i < 6 \<and> \<not> sp_seen c ! i"
    by (auto simp: sp_untried_def find_Some_iff)
qed

lemma sp_judge_spec:
  assumes "length (sp_score c) = 6" "sp_windows c < 20" "sp_probe_cursor c \<le> 6"
  shows "lowest (sp_score (sp_judge c)) (sp_best (sp_judge c))" "sp_best (sp_judge c) < 6" "sp_idx (sp_judge c) < 6"
    "sp_windows c + 1 < 20 \<Longrightarrow> sp_idx (sp_judge c) = sp_best (sp_judge c)"
    "sp_windows c + 1 = 20 \<Longrightarrow> sp_idx (sp_judge c) \<noteq> sp_best (sp_judge c)"
    "sp_windows (sp_judge c) = (if sp_windows c + 1 < 20 then sp_windows c + 1 else 0)" "sp_probe_cursor (sp_judge c) \<le> 6"
    "sp_score (sp_judge c) = sp_score c" "sp_seen (sp_judge c) = sp_seen c" "sp_ticks (sp_judge c) = sp_ticks c"
proof -
  define b where "b = sp_lowest (sp_score c) 0 [1..<6]"
  have b: "lowest (sp_score c) b" "b < 6" using sp_lowest_six [OF assms(1)] assms(1) by (simp_all add: b_def lowest_def)
  have "(if b = 0 then 1 else 0) < (6 :: nat)" "(if b = 0 then 1 else 0) \<noteq> b" by simp_all
  from find_rung [where P = "\<lambda>i. i \<noteq> b" and c = "sp_probe_cursor c", OF this]
  obtain i where i: "find (\<lambda>i. i \<noteq> b) (map (\<lambda>k. (sp_probe_cursor c + k) mod 6) [0..<6]) = Some i" "i < 6" "i \<noteq> b"
    by blast
  have j: "sp_judge c = (if sp_windows c + 1 < 20 then c\<lparr>sp_windows := sp_windows c + 1, sp_best := b, sp_idx := b\<rparr>
      else c\<lparr>sp_windows := 0, sp_probe_cursor := i + 1, sp_best := b, sp_idx := i\<rparr>)"
    using i(1) unfolding sp_judge_def b_def [symmetric] by (simp add: sp_probe_def Let_def not_less)
  show "lowest (sp_score (sp_judge c)) (sp_best (sp_judge c))" "sp_best (sp_judge c) < 6" "sp_idx (sp_judge c) < 6"
    "sp_windows c + 1 < 20 \<Longrightarrow> sp_idx (sp_judge c) = sp_best (sp_judge c)"
    "sp_windows c + 1 = 20 \<Longrightarrow> sp_idx (sp_judge c) \<noteq> sp_best (sp_judge c)"
    "sp_windows (sp_judge c) = (if sp_windows c + 1 < 20 then sp_windows c + 1 else 0)" "sp_probe_cursor (sp_judge c) \<le> 6"
    "sp_score (sp_judge c) = sp_score c" "sp_seen (sp_judge c) = sp_seen c" "sp_ticks (sp_judge c) = sp_ticks c"
    using b i assms(3) by (simp_all add: j)
qed

lemma rungs_left_mark:
  assumes "i < length xs"
  shows "length (filter Not (xs[i := True])) = length (filter Not xs) - (if xs ! i then 0 else 1)"
proof -
  have "filter Not xs = filter Not (take i xs) @ filter Not (xs ! i # drop (Suc i) xs)"
    using id_take_nth_drop [OF assms] by (metis filter_append)
  moreover have "filter Not (xs[i := True]) = filter Not (take i xs) @ filter Not (drop (Suc i) xs)"
    using assms by (simp add: upd_conv_take_nth_drop)
  ultimately show ?thesis by (cases "xs ! i") simp_all
qed

lemma rungs_left_0: "rungs_left c = 0 \<longleftrightarrow> False \<notin> set (sp_seen c)"
  by (simp add: rungs_left_def filter_empty_conv) (metis (full_types))

lemma sp_note_fields [simp]:
  "sp_idx (sp_note v c) = sp_idx c" "sp_best (sp_note v c) = sp_best c" "sp_ticks (sp_note v c) = sp_ticks c"
  "sp_windows (sp_note v c) = sp_windows c" "sp_probe_cursor (sp_note v c) = sp_probe_cursor c"
  "length (sp_score (sp_note v c)) = length (sp_score c)" "sp_seen (sp_note v c) = (sp_seen c)[sp_idx c := True]"
  by (simp_all add: sp_note_def Let_def)

text \<open>
  C37. One tick of the spin controller.  Inside a window, and at the end of a window with fewer than
  \<open>SP_MIN_PACKETS\<close> packets, the measurements and the budget stay as they are.  At the end of a
  busy window the untried rungs, if any, are one fewer; once all have been tried the best rung is
  the one with the lowest score, the cheaper one on a tie, and the budget is that rung's, except
  that every twentieth judged window tries another one.  The budget is always the current rung's.
\<close>

theorem sp_tick_decides:
  assumes "sp_inv (c, us)" "sp_tick pkts drops (c, us) = (c', us')"
  shows "sp_inv (c', us') \<and>
    (if sp_ticks c < 2 \<or> pkts - sp_pv_pkts c < 20000
     then sp_score c' = sp_score c \<and> sp_seen c' = sp_seen c \<and> sp_idx c' = sp_idx c \<and> us' = us
     else rungs_left c' = rungs_left c - 1 \<and>
       (rungs_left c' = 0 \<longrightarrow> lowest (sp_score c') (sp_best c') \<and>
          (sp_idx c' = sp_best c' \<longleftrightarrow> sp_windows c + 1 < 20)))"
proof -
  note i = assms(1) [unfolded sp_inv_def prod.case]
  consider (inside) "sp_ticks c < 2" | (quiet) "\<not> sp_ticks c < 2" "pkts - sp_pv_pkts c < 20000"
    | (busy) "\<not> sp_ticks c < 2" "\<not> pkts - sp_pv_pkts c < 20000" by blast
  then show ?thesis
  proof cases
    case inside
    then have "c' = c\<lparr>sp_ticks := sp_ticks c + 1\<rparr>" "us' = us" using assms(2) by (simp_all add: sp_tick_def)
    then show ?thesis using inside i by (simp add: sp_inv_def)
  next
    case quiet
    then have "c' = c\<lparr>sp_ticks := 0, sp_pv_pkts := pkts, sp_pv_drops := drops\<rparr>" "us' = us"
      using assms(2) by (simp_all add: sp_tick_def Let_def)
    then show ?thesis using quiet i by (simp add: sp_inv_def)
  next
    case busy
    define v where "v = (ucast ((if drops > sp_pv_drops c then drops - sp_pv_drops c else 0) * 10000 div
      ucast (pkts - sp_pv_pkts c)) :: u32)"
    define n where "n = sp_note v (c\<lparr>sp_ticks := 0, sp_pv_pkts := pkts, sp_pv_drops := drops\<rparr>)"
    have n: "sp_idx n = sp_idx c" "sp_ticks n = 0" "sp_windows n = sp_windows c" "sp_probe_cursor n = sp_probe_cursor c"
      "sp_best n = sp_best c" "length (sp_score n) = 6" "sp_seen n = (sp_seen c)[sp_idx c := True]"
      using i by (simp_all add: n_def)
    have l: "length (sp_seen n) = 6" using i n by simp
    have left: "rungs_left n = rungs_left c - 1"
    proof (cases "rungs_left c = 0")
      case False
      then have "\<not> sp_seen c ! sp_idx c" using i by (simp add: rungs_left_0)
      then show ?thesis using i rungs_left_mark [of "sp_idx c" "sp_seen c"] by (simp add: rungs_left_def n)
    qed (use i rungs_left_mark [of "sp_idx c" "sp_seen c"] in \<open>simp add: rungs_left_def n\<close>)
    have t: "(case sp_untried n of Some i \<Rightarrow> (n\<lparr>sp_idx := i\<rparr>, sp_ladder ! i)
        | None \<Rightarrow> (sp_judge n, if sp_idx (sp_judge n) \<noteq> sp_idx n then sp_ladder ! sp_idx (sp_judge n) else us)) = (c', us')"
      using assms(2) busy unfolding sp_tick_def Let_def prod.case v_def [symmetric] n_def [symmetric] by simp
    note u = sp_untried_spec [OF l]
    show ?thesis
    proof (cases "sp_untried n")
      case None
      then have c': "c' = sp_judge n" "us' = (if sp_idx (sp_judge n) \<noteq> sp_idx n then sp_ladder ! sp_idx (sp_judge n) else us)"
        using t by auto
      have nw: "sp_windows n < 20" "sp_probe_cursor n \<le> 6" using i n by simp_all
      note j = sp_judge_spec [OF n(6) nw]
      have "rungs_left c' = rungs_left n" by (simp add: rungs_left_def c' j)
      moreover have "sp_inv (c', us')" using i j n l u(1) None by (simp add: sp_inv_def c')
      moreover have "sp_idx c' = sp_best c' \<longleftrightarrow> sp_windows c + 1 < 20"
        using j(4,5) i n(3) unfolding c' by (cases "sp_windows c + 1 < 20") auto
      ultimately show ?thesis using busy left j(1) by (simp add: c')
    next
      case (Some k)
      then have c': "c' = n\<lparr>sp_idx := k\<rparr>" "us' = sp_ladder ! k" using t by simp_all
      have "rungs_left c' = rungs_left n" by (simp add: rungs_left_def c')
      moreover have "rungs_left n \<noteq> 0" using Some u(1) by (simp add: rungs_left_0)
      moreover have "sp_inv (c', us')" using i n l u(2) [OF Some] by (simp add: sp_inv_def c')
      ultimately show ?thesis using busy left by simp
    qed
  qed
qed

text \<open>A controller that has tried all rungs, at the end of a busy window without drops.\<close>

definition example_spin :: spin_ctl where
  "example_spin =
     \<lparr>sp_idx = 3, sp_best = 3, sp_ticks = 2, sp_windows = 4, sp_probe_cursor = 0, sp_score = [9, 7, 4, 4, 6, 8],
      sp_seen = replicate 6 True, sp_pv_pkts = 100, sp_pv_drops = 5\<rparr>"

theorem sp_tick_decides_witness:
  "sp_inv (example_spin, 200) \<and> fst (sp_tick 30100 5 (example_spin, 200)) = example_spin
     \<lparr>sp_best := 3, sp_ticks := 0, sp_windows := 5, sp_score := [9, 7, 4, 3, 6, 8], sp_pv_pkts := 30100\<rparr> \<and>
   sp_inv (sp_tick 30100 5 (example_spin, 200))"
proof -
  have i: "sp_inv (example_spin, 200)" by (simp add: sp_inv_def example_spin_def sp_ladder_def eval_nat_numeral)
  have t: "sp_tick 30100 5 (example_spin, 200) = (example_spin
     \<lparr>sp_best := 3, sp_ticks := 0, sp_windows := 5, sp_score := [9, 7, 4, 3, 6, 8], sp_pv_pkts := 30100\<rparr>, 200)"
    by code_simp
  from sp_tick_decides [OF i t] show ?thesis using i by (simp add: t)
qed

section \<open>Properties of the MTU advice\<close>

lemma round_up_16: "16 * ((n + 15) div 16) \<le> k \<longleftrightarrow> n \<le> k div 16 * (16 :: int)"
proof -
  define p r q s where "p = k div 16" and "r = k mod 16" and "q = (n + 15) div 16" and "s = (n + 15) mod 16"
  have k: "k = 16 * p + r" "0 \<le> r" "r < 16" by (simp_all add: p_def r_def)
  have n: "n + 15 = 16 * q + s" "0 \<le> s" "s < 16" by (simp_all add: q_def s_def)
  have "16 * q \<le> k \<and> n \<le> p * 16" if "q \<le> p" using that k n by linarith
  moreover have "\<not> 16 * q \<le> k \<and> \<not> n \<le> p * 16" if "\<not> q \<le> p"
  proof -
    have "p + 1 \<le> q" using that by simp
    then show ?thesis using k n by linarith
  qed
  ultimately show ?thesis unfolding p_def q_def by blast
qed

text \<open>
  The MTU the warning names, for a path the kernel reports and a padding a profile may have, is
  at least 240, so never the ``0 or lower'' of a flapping link, and it is the exact limit: a
  tunnel packet of a given size, rounded up to 16 bytes by WireGuard, fits the path with its
  IP and UDP headers, padding, WireGuard header and tag exactly when it is not larger.
\<close>

theorem awg_max_wg_mtu_exact:
  assumes "awg_path_mtu_usable path \<or> path = 1500" "0 \<le> s4" "s4 \<le> 256"
  shows "240 \<le> awg_max_wg_mtu path s4 v6 \<and>
    (\<forall>n. (if v6 then 40 else 20) + 8 + s4 + 16 + 16 * ((n + 15) div 16) + 16 \<le> path \<longleftrightarrow> n \<le> awg_max_wg_mtu path s4 v6)"
proof -
  define k where "k = path - (if v6 then 80 else 60) - s4"
  have m: "awg_max_wg_mtu path s4 v6 = k div 16 * 16" "240 \<le> k"
    using assms by (auto simp: awg_max_wg_mtu_def awg_path_mtu_usable_def Let_def sdiv_pos k_def)
  have "(if v6 then 40 else 20) + 8 + s4 + 16 + 16 * ((n + 15) div 16) + 16 \<le> path \<longleftrightarrow> n \<le> k div 16 * 16" for n
  proof -
    have "(if v6 then 40 else 20) + 8 + s4 + 16 + 16 * ((n + 15) div 16) + 16 \<le> path \<longleftrightarrow> 16 * ((n + 15) div 16) \<le> k"
      by (auto simp: k_def)
    also have "\<dots> \<longleftrightarrow> n \<le> k div 16 * 16" by (rule round_up_16)
    finally show ?thesis .
  qed
  moreover have "240 \<le> k div 16 * 16" using m(2) zdiv_mono1 [of 240 k 16] by simp
  ultimately show ?thesis unfolding m(1) by blast
qed

theorem awg_max_wg_mtu_exact_witness:
  "awg_path_mtu_usable 1400 \<and> awg_max_wg_mtu 1400 16 True = 1296 \<and> 240 \<le> awg_max_wg_mtu 1400 16 True"
proof -
  have "awg_path_mtu_usable 1400" "awg_max_wg_mtu 1400 16 True = 1296"
    by (simp_all add: awg_path_mtu_usable_def awg_max_wg_mtu_def sdiv_pos)
  then show ?thesis using awg_max_wg_mtu_exact [of 1400 16 True] by simp
qed

text \<open>One warning for each path MTU learned, and one for the default of 1500.\<close>

datatype frag_event = Learn "int option" | Send bool int

fun frag_step :: "bool \<Rightarrow> int \<Rightarrow> frag_event \<Rightarrow> frag \<Rightarrow> frag" where
  "frag_step log_on headroom (Learn sock) s = check_path_mtu sock s"
| "frag_step log_on headroom (Send v6 len) s = frag_guard log_on headroom v6 len s"

fun learned :: "frag \<Rightarrow> bool \<Rightarrow> int \<Rightarrow> frag_event list \<Rightarrow> nat" where
  "learned s log_on headroom [] = 0"
| "learned s log_on headroom (e # es) =
     (let s' = frag_step log_on headroom e s
      in (if fr_path_mtu s' \<noteq> fr_path_mtu s then 1 else 0) + learned s' log_on headroom es)"

lemma frag_warnings_bounded:
  assumes "\<forall>e \<in> set es. case e of Learn _ \<Rightarrow> True | Send v6 len \<Rightarrow> len \<le> 65535"
  shows "length (fr_warned (fold (frag_step log_on headroom) es s)) \<le>
    length (fr_warned s) + (if fr_lim s = 2147483647 then 0 else 1) + learned s log_on headroom es"
  using assms
proof (induction es arbitrary: s)
  case (Cons e es)
  note ih = Cons.IH [of "frag_step log_on headroom e s"]
  show ?case
  proof (cases e)
    case (Learn sock)
    then show ?thesis using ih Cons.prems
      by (cases sock) (auto simp: check_path_mtu_def Let_def awg_path_mtu_usable_def split: if_splits)
  next
    case (Send v6 len)
    then show ?thesis using ih Cons.prems
      by (auto simp: frag_guard_def log_frag_warn_def Let_def split: if_splits)
  qed
qed simp

end
