(* ===== verification/Logging.thy ===== *)
theory Logging
  imports Awg_Prelude
begin

text \<open>
  Model of \<^verbatim>\<open>src/src/log.c\<close>: the log lines assembled in a fixed 512-byte buffer and the decimal
  printer.  The buffer starts with arbitrary content; copies go through \<open>wr\<close>, so a copy past
  the buffer would be \<open>None\<close>.  The result of a log function is the line it writes.  The
  theorems show that no line overruns its buffer, give the text of every line, and bound the
  printer's use of its 12-byte buffer.
\<close>

section \<open>Log lines\<close>

text \<open>Copy a part behind the first \<open>n\<close> bytes, cut so that at most \<open>lim\<close> bytes are used.\<close>

definition put_part :: "int \<Rightarrow> bytes \<Rightarrow> bytes \<times> int \<Rightarrow> (bytes \<times> int) option" where
  "put_part lim s st =
     (let (buf, n) = st; l = int (length s); l = (if n + l > lim then lim - n else l)
      in do { x \<leftarrow> rd s 0 l; buf \<leftarrow> wr buf n x; Some (buf, n + l) })"

text \<open>Append the newline and hand the line to \<open>write\<close>.\<close>

definition finish_line :: "bytes \<times> int \<Rightarrow> bytes option" where
  "finish_line st = (let (buf, n) = st in do { buf \<leftarrow> wr buf n [10]; rd buf 0 (n + 1) })"

definition log_msg :: "bytes \<Rightarrow> bytes \<Rightarrow> bytes \<Rightarrow> bytes option" where
  "log_msg buf prefix msg =
     do { st \<leftarrow> put_part 256 prefix (buf, 0); st \<leftarrow> put_part 510 msg st; finish_line st }"

definition log_msg2 :: "bytes \<Rightarrow> bytes \<Rightarrow> bytes \<Rightarrow> bytes \<Rightarrow> bytes option" where
  "log_msg2 buf prefix a b =
     do { st \<leftarrow> put_part 256 prefix (buf, 0); st \<leftarrow> put_part 500 a st; st \<leftarrow> put_part 510 b st; finish_line st }"

definition log_msg3 :: "bytes \<Rightarrow> bytes \<Rightarrow> bytes \<Rightarrow> bytes \<Rightarrow> bytes \<Rightarrow> bytes option" where
  "log_msg3 buf prefix a b c =
     do { st \<leftarrow> put_part 200 prefix (buf, 0); st \<leftarrow> put_part 400 a st; st \<leftarrow> put_part 480 b st;
          st \<leftarrow> put_part 510 c st; finish_line st }"

fun log_parts :: "bytes list \<Rightarrow> bytes \<times> int \<Rightarrow> (bytes \<times> int) option" where
  "log_parts [] st = Some st"
| "log_parts (s # ss) st = (if snd st < 510 then do { st \<leftarrow> put_part 510 s st; log_parts ss st } else Some st)"

definition log_msgn :: "bytes \<Rightarrow> bytes \<Rightarrow> bytes list \<Rightarrow> bytes option" where
  "log_msgn buf prefix parts =
     do { st \<leftarrow> put_part 200 prefix (buf, 0); st \<leftarrow> log_parts parts st; finish_line st }"

section \<open>The decimal printer\<close>

text \<open>The digits are stored from the end of the buffer; the list is the string at the returned pointer.\<close>

function digits_loop :: "u32 \<Rightarrow> bytes \<Rightarrow> bytes" where
  "digits_loop v acc = (if v > 0 then digits_loop (v div 10) ((48 + ucast (v mod 10)) # acc) else acc)"
  by pat_completeness auto
termination
  by (relation "measure (\<lambda>(v, acc). unat v)") (auto simp: unat_div word_less_nat_alt)

declare digits_loop.simps [simp del]

definition u32_to_str :: "u32 \<Rightarrow> bytes" where
  "u32_to_str v = (if v = 0 then [48] else digits_loop v [])"

section \<open>Lines stay in the buffer\<close>

text \<open>The text of a line so far: what \<open>put_part\<close> appends.\<close>

definition cut :: "nat \<Rightarrow> bytes \<Rightarrow> bytes \<Rightarrow> bytes" where
  "cut lim t s = t @ take (lim - length t) s"

lemma length_cut: "length t \<le> lim \<Longrightarrow> length (cut lim t s) \<le> lim"
  by (simp add: cut_def)

lemma put_part_text:
  assumes "length t \<le> lim" "lim \<le> length t + length q"
  shows "\<exists>q'. put_part (int lim) s (t @ q, int (length t)) = Some (cut lim t s @ q', int (length (cut lim t s))) \<and>
    length (cut lim t s @ q') = length (t @ q)"
proof -
  let ?x = "take (lim - length t) s"
  define l where "l = (if int (length t) + int (length s) > int lim then int lim - int (length t) else int (length s))"
  have l: "l = int (length ?x)" using assms(1) by (auto simp: l_def)
  have r: "rd s 0 l = Some ?x" using l by (auto simp: rd_def min_def)
  have "length ?x \<le> length q" using assms by simp
  then have "wr (t @ q) (int (length t)) ?x = Some (t @ ?x @ drop (length ?x) q)"
    using wr_within [of "int (length t)" t ?x q "[]"] by simp
  then have "put_part (int lim) s (t @ q, int (length t)) = Some (t @ ?x @ drop (length ?x) q, int (length t) + l)"
    using r by (simp add: put_part_def l_def [symmetric] Let_def)
  then show ?thesis using l \<open>length ?x \<le> length q\<close>
    by (intro exI [of _ "drop (length ?x) q"]) (simp add: cut_def)
qed

lemma finish_line_text:
  assumes "length t < length (t @ q)"
  shows "finish_line (t @ q, int (length t)) = Some (t @ [10])"
proof -
  have "wr (t @ q) (int (length t)) [10] = Some ((t @ [10]) @ drop 1 q)"
    using wr_within [of "int (length t)" t "[10]" q "[]"] assms by (cases q) auto
  moreover have "rd ((t @ [10]) @ drop 1 q) 0 (int (length t) + 1) = Some (t @ [10])"
    using rd_split [of 0 "[]" "int (length t) + 1" "t @ [10]" "drop 1 q"] by simp
  ultimately show ?thesis by (simp add: finish_line_def)
qed

text \<open>A chain of parts with growing limits, as all four functions are.\<close>

fun put_chain :: "(nat \<times> bytes) list \<Rightarrow> bytes \<times> int \<Rightarrow> (bytes \<times> int) option" where
  "put_chain [] st = Some st"
| "put_chain ((lim, s) # ps) st = do { st \<leftarrow> put_part (int lim) s st; put_chain ps st }"

lemma put_chain_text:
  assumes "list_all (\<lambda>(lim, s). lim \<le> 510) ps" "sorted (map fst ps)" "\<forall>lim \<in> set (map fst ps). length t \<le> lim"
    and "length (t @ q) = 512"
  shows "\<exists>q'. put_chain ps (t @ q, int (length t)) =
      Some (foldl (\<lambda>t (lim, s). cut lim t s) t ps @ q', int (length (foldl (\<lambda>t (lim, s). cut lim t s) t ps))) \<and>
    length (foldl (\<lambda>t (lim, s). cut lim t s) t ps @ q') = 512 \<and>
    (length t \<le> 510 \<longrightarrow> length (foldl (\<lambda>t (lim, s). cut lim t s) t ps) \<le> 510)"
  using assms
proof (induction ps arbitrary: t q)
  case (Cons ls ps)
  obtain lim s where ls: "ls = (lim, s)" by fastforce
  have lim: "length t \<le> lim" "lim \<le> 510" using Cons.prems ls by auto
  obtain q' where q': "put_part (int lim) s (t @ q, int (length t)) = Some (cut lim t s @ q', int (length (cut lim t s)))"
    "length (cut lim t s @ q') = 512"
    using put_part_text [of t lim q s] lim Cons.prems(4) by auto
  have "\<forall>l \<in> set (map fst ps). length (cut lim t s) \<le> l"
    using length_cut [OF lim(1), of s] Cons.prems(2) ls by fastforce
  from Cons.IH [OF _ _ this q'(2)] Cons.prems(1,2) q'(1) length_cut [OF lim(1), of s] lim show ?case
    by (auto simp: ls)
qed auto

text \<open>With the last limit 510, the parts of \<open>log_msgn\<close> are a chain too.\<close>

lemma log_parts_text:
  assumes "length t \<le> 510" "length (t @ q) = 512"
  shows "\<exists>q'. log_parts ss (t @ q, int (length t)) =
      Some (foldl (cut 510) t ss @ q', int (length (foldl (cut 510) t ss))) \<and>
    length (foldl (cut 510) t ss @ q') = 512 \<and> length (foldl (cut 510) t ss) \<le> 510"
  using assms
proof (induction ss arbitrary: t q)
  case (Cons s ss)
  show ?case
  proof (cases "length t < 510")
    case True
    obtain q' where q': "put_part (int 510) s (t @ q, int (length t)) = Some (cut 510 t s @ q', int (length (cut 510 t s)))"
      "length (cut 510 t s @ q') = 512"
      using put_part_text [of t 510 q s] Cons.prems by auto
    from Cons.IH [OF length_cut [OF Cons.prems(1)] q'(2)] q'(1) True show ?thesis by simp
  next
    case False
    then have t: "length t = 510" using Cons.prems(1) by simp
    then have c: "cut 510 t x = t" for x by (simp add: cut_def)
    then have "foldl (cut 510) t ss = t" for ss by (induction ss) auto
    then show ?thesis using False Cons.prems c by auto
  qed
qed auto

lemma line_finished:
  assumes "length (t @ q) = 512" "length t \<le> 510"
  shows "finish_line (t @ q, int (length t)) = Some (t @ [10]) \<and> length (t @ [10]) \<le> 511"
  using finish_line_text [of t q] assms by (cases q) simp_all

lemma chain_line:
  assumes "length buf = 512" "list_all (\<lambda>(lim, s). lim \<le> 510) ps" "sorted (map fst ps)"
  shows "do { st \<leftarrow> put_chain ps (buf, 0); finish_line st } =
      Some (foldl (\<lambda>t (lim, s). cut lim t s) [] ps @ [10]) \<and>
    length (foldl (\<lambda>t (lim, s). cut lim t s) [] ps @ [10]) \<le> 511"
  using put_chain_text [of ps "[]" buf] line_finished assms by fastforce

section \<open>Decimal digits\<close>

text \<open>The value of a digit string, the inverse of printing.\<close>

definition digits_value :: "bytes \<Rightarrow> nat" where
  "digits_value s = foldl (\<lambda>v c. v * 10 + (unat c - 48)) 0 s"

lemma digits_value_snoc: "digits_value (s @ [c]) = digits_value s * 10 + (unat c - 48)"
  by (simp add: digits_value_def)

lemma digits_value_foldl: "foldl (\<lambda>v c. v * 10 + (unat c - 48)) a s = a * 10 ^ length s + digits_value s"
proof (induction s arbitrary: a rule: rev_induct)
  case (snoc x xs)
  then show ?case by (simp add: digits_value_snoc algebra_simps)
qed (simp add: digits_value_def)

lemma digits_value_Cons: "digits_value (c # s) = (unat c - 48) * 10 ^ length s + digits_value s"
  using digits_value_foldl [of "unat c - 48" s] by (simp add: digits_value_def)

lemma digit_char:
  "unat (48 + ucast (v mod 10) :: u8) = 48 + unat (v :: u32) mod 10"
proof -
  have lt: "unat v mod 10 < 10" by simp
  have "unat (ucast (v mod 10) :: u8) = unat v mod 10"
    using lt by (simp add: unsigned_ucast_eq take_bit_nat_eq_self unat_mod)
  then show ?thesis using lt by (subst unat_plus_if') simp
qed

lemma unat_div_10: "unat ((v :: u32) div 10) = unat v div 10"
  by (simp add: unat_div)

lemma digits_loop_value:
  "digits_value (digits_loop v acc) = unat v * 10 ^ length acc + digits_value acc"
proof (induction v acc rule: digits_loop.induct)
  case (1 v acc)
  show ?case
  proof (cases "v > 0")
    case True
    have "digits_value (digits_loop v acc) =
        unat (v div 10) * 10 ^ Suc (length acc) + ((unat v mod 10) * 10 ^ length acc + digits_value acc)"
      using "1.IH" [OF True] True by (subst digits_loop.simps) (simp add: digits_value_Cons digit_char)
    also have "\<dots> = (unat v div 10 * 10 + unat v mod 10) * 10 ^ length acc + digits_value acc"
      unfolding unat_div_10 power_Suc by (simp only: algebra_simps)
    finally show ?thesis by (simp only: div_mult_mod_eq)
  next
    case False
    then show ?thesis by (subst digits_loop.simps) (simp add: word_gt_0)
  qed
qed

lemma digits_loop_chars:
  "list_all (\<lambda>c. 48 \<le> c \<and> c \<le> 57) acc \<Longrightarrow> list_all (\<lambda>c. 48 \<le> c \<and> c \<le> 57) (digits_loop v acc)"
proof (induction v acc rule: digits_loop.induct)
  case (1 v acc)
  have "48 \<le> (48 + ucast (v mod 10) :: u8) \<and> (48 + ucast (v mod 10) :: u8) \<le> 57"
    using digit_char [of v] by (simp add: word_le_nat_alt)
  then show ?case using 1 by (subst digits_loop.simps) simp
qed

lemma digits_loop_length: "unat v < 10 ^ k \<Longrightarrow> length (digits_loop v acc) \<le> k + length acc"
proof (induction k arbitrary: v acc)
  case 0
  then show ?case by (subst digits_loop.simps) (simp add: unat_eq_0 [symmetric] word_gt_0)
next
  case (Suc k)
  then have "unat (v div 10) < 10 ^ k" by (simp add: unat_div_10 div_less_iff_less_mult mult.commute)
  from Suc.IH [OF this, of "(48 + ucast (v mod 10)) # acc"] show ?case
    by (subst digits_loop.simps) simp
qed

lemma u32_to_str_digits:
  "length (u32_to_str v) \<le> 10 \<and> u32_to_str v \<noteq> [] \<and> list_all (\<lambda>c. 48 \<le> c \<and> c \<le> 57) (u32_to_str v) \<and>
   digits_value (u32_to_str v) = unat v"
proof (cases "v = 0")
  case True
  then show ?thesis by (simp add: u32_to_str_def digits_value_def)
next
  case False
  have "unat v < 2 ^ 32" using unsigned_less [of v, where 'a = nat] by simp
  then have "length (digits_loop v []) \<le> 10" using digits_loop_length [of v 10 "[]"] by simp
  moreover have "digits_value (digits_loop v []) = unat v" using digits_loop_value [of v "[]"] by (simp add: digits_value_def)
  moreover from this have "digits_loop v [] \<noteq> []" using False by (auto simp: digits_value_def unat_eq_0)
  ultimately show ?thesis using False digits_loop_chars [of "[]" v] by (simp add: u32_to_str_def)
qed

section \<open>Properties\<close>

text \<open>
  Logging never overruns its 512-byte buffer: whatever the lengths of the strings, every
  log function writes one line of at most 511 bytes, the concatenation of its parts, each cut
  at the function's limit, and a newline.
\<close>

theorem log_lines_fit:
  assumes "length buf = 512"
  shows "log_msg buf p a = Some (cut 510 (cut 256 [] p) a @ [10]) \<and>
    log_msg2 buf p a b = Some (cut 510 (cut 500 (cut 256 [] p) a) b @ [10]) \<and>
    log_msg3 buf p a b c = Some (cut 510 (cut 480 (cut 400 (cut 200 [] p) a) b) c @ [10]) \<and>
    log_msgn buf p parts = Some (foldl (cut 510) (cut 200 [] p) parts @ [10]) \<and>
    length (foldl (cut 510) (cut 200 [] p) parts @ [10]) \<le> 511"
proof -
  have m1: "log_msg buf p a = Some (cut 510 (cut 256 [] p) a @ [10])"
    using chain_line [OF assms, of "[(256, p), (510, a)]"] by (simp add: log_msg_def)
  have m2: "log_msg2 buf p a b = Some (cut 510 (cut 500 (cut 256 [] p) a) b @ [10])"
    using chain_line [OF assms, of "[(256, p), (500, a), (510, b)]"] by (simp add: log_msg2_def)
  have m3: "log_msg3 buf p a b c = Some (cut 510 (cut 480 (cut 400 (cut 200 [] p) a) b) c @ [10])"
    using chain_line [OF assms, of "[(200, p), (400, a), (480, b), (510, c)]"] by (simp add: log_msg3_def)
  obtain q where q: "put_part (int 200) p (buf, 0) = Some (cut 200 [] p @ q, int (length (cut 200 [] p)))"
    "length (cut 200 [] p @ q) = 512"
    using put_part_text [of "[]" 200 buf p] assms by auto
  have "length (cut 200 [] p) \<le> 510" using length_cut [of "[]" 200 p] by simp
  from log_parts_text [OF this q(2), of parts] q(1) line_finished m1 m2 m3 show ?thesis
    by (fastforce simp: log_msgn_def)
qed

theorem log_lines_fit_witness:
  "log_msg (replicate 512 0) [73] (replicate 600 65) = Some (73 # replicate 509 65 @ [10])"
proof -
  have "length (replicate 512 (0 :: u8)) = 512" by simp
  from log_lines_fit [OF this, of "[73]" "replicate 600 65"] show ?thesis by (simp add: cut_def)
qed

text \<open>
  The decimal printer: at most ten digits, so the 12-byte buffer is never left, only the
  characters 0 to 9, and the digits denote the number.
\<close>

theorem u32_to_str_decimal:
  "length (u32_to_str v) \<le> 10 \<and> u32_to_str v \<noteq> [] \<and> list_all (\<lambda>c. 48 \<le> c \<and> c \<le> 57) (u32_to_str v) \<and>
   digits_value (u32_to_str v) = unat v"
  by (rule u32_to_str_digits)

end
