(* ===== verification/Ports.thy ===== *)
theory Ports
  imports Fastrand Logging
begin

text \<open>
  Endpoint strings and port sets of \<^verbatim>\<open>src/src/proxy.c\<close>: splitting \<^verbatim>\<open>host:port\<close>, the port list of
  \<open>AWG_REMOTE\<close>, the uniform draw of a port, and the spans and schedule of the port rotation.
  Strings are lists of character codes without the terminating zero.  \<open>inet_pton\<close> is library
  code and a parameter: the test whether a string is an IPv6 literal.  The theorems: accepted
  port sets are well formed, the draw stays in the set and every port of the set is drawn for
  some index, and a span that was parsed can never make the schedule divide by zero.
\<close>

section \<open>Splitting host and port\<close>

definition split_host_port :: "(bytes \<Rightarrow> bool) \<Rightarrow> bytes \<Rightarrow> int \<Rightarrow> (bytes \<times> bytes) option" where
  "split_host_port inet6 s hostmax =
     do { (host, rest) \<leftarrow>
            (case s of
               c # r \<Rightarrow>
                 if c = 91 then
                   (let h = takeWhile (\<lambda>x. x \<noteq> 93) r; t = drop (length h) r
                    in case t of _ # col # u \<Rightarrow> (if col = 58 then Some (h, u) else None) | _ \<Rightarrow> None)
                 else if inet6 s then None
                 else if 58 \<notin> set s then None
                 else (let u = rev (takeWhile (\<lambda>x. x \<noteq> 58) (rev s))
                       in Some (take (length s - length u - 1) s, u))
             | [] \<Rightarrow> None);
          if int (length host) \<ge> hostmax then None
          else if rest = [] then None
          else Some (host, rest) }"

fun port_value :: "u32 \<Rightarrow> bytes \<Rightarrow> u32 option" where
  "port_value v [] = Some v"
| "port_value v (c # q) =
     (if c < 48 \<or> 57 < c then None
      else let v = v * 10 + ucast (c - 48) in if v > 65535 then None else port_value v q)"

definition parse_host_port :: "(bytes \<Rightarrow> bool) \<Rightarrow> bytes \<Rightarrow> int \<Rightarrow> (bytes \<times> u16) option" where
  "parse_host_port inet6 s hostmax =
     do { (host, pstr) \<leftarrow> split_host_port inet6 s hostmax;
          v \<leftarrow> port_value 0 pstr;
          Some (host, ucast v) }"

section \<open>Port sets\<close>

record portset =
  ps_r :: "(u16 \<times> u16) list"
  ps_total :: u32

text \<open>The digits of one number: value and rest of the string.\<close>

fun port_digits :: "u32 \<Rightarrow> nat \<Rightarrow> bytes \<Rightarrow> (u32 \<times> nat \<times> bytes) option" where
  "port_digits v digits [] = Some (v, digits, [])"
| "port_digits v digits (c # q) =
     (if 48 \<le> c \<and> c \<le> 57 then
        (let v = v * 10 + ucast (c - 48)
         in if v > 65535 then None else port_digits v (digits + 1) q)
      else Some (v, digits, c # q))"

definition parse_port_num :: "bytes \<Rightarrow> (u32 \<times> bytes) option" where
  "parse_port_num q =
     do { (v, digits, q) \<leftarrow> port_digits 0 0 q;
          if digits = 0 \<or> v = 0 then None else Some (v, q) }"

text \<open>One token, \<^verbatim>\<open>443\<close> or \<^verbatim>\<open>20150-20299\<close>.\<close>

definition parse_port_token :: "bytes \<Rightarrow> (u32 \<times> u32 \<times> bytes) option" where
  "parse_port_token q =
     do { (lo, q) \<leftarrow> parse_port_num q;
          (hi, q) \<leftarrow> (case q of c # q' \<Rightarrow> (if c = 45 then parse_port_num q' else Some (lo, q)) | [] \<Rightarrow> Some (lo, q));
          if hi < lo then None else Some (lo, hi, q) }"

lemma port_digits_length: "port_digits v d q = Some (v', d', q') \<Longrightarrow> length q' + d' = length q + d"
  by (induction v d q rule: port_digits.induct) (auto simp: Let_def split: if_splits)

lemma parse_port_num_length: "parse_port_num q = Some (v, q') \<Longrightarrow> length q' < length q"
  by (auto simp: parse_port_num_def split: Option.bind_splits if_splits dest: port_digits_length)

lemma parse_port_token_length: "parse_port_token q = Some (lo, hi, q') \<Longrightarrow> length q' < length q"
  by (auto simp: parse_port_token_def split: Option.bind_splits list.splits if_splits dest!: parse_port_num_length)

function port_set_loop :: "bytes \<Rightarrow> portset \<Rightarrow> portset option" where
  "port_set_loop q ps =
     (case parse_port_token q of
        None \<Rightarrow> None
      | Some (lo, hi, q') \<Rightarrow>
          if length (ps_r ps) \<ge> 32 then None
          else let ps = \<lparr>ps_r = ps_r ps @ [(ucast lo, ucast hi)], ps_total = ps_total ps + (hi - lo + 1)\<rparr>
               in case q' of
                    [] \<Rightarrow> Some ps
                  | c # q'' \<Rightarrow> (if c \<noteq> 44 then None else port_set_loop q'' ps))"
  by pat_completeness auto
termination
  by (relation "measure (\<lambda>(q, ps). length q)") (auto dest!: parse_port_token_length)

declare port_set_loop.simps [simp del]

definition parse_port_set :: "bytes \<Rightarrow> portset option" where
  "parse_port_set s = port_set_loop s \<lparr>ps_r = [], ps_total = 0\<rparr>"

definition parse_host_ports :: "(bytes \<Rightarrow> bool) \<Rightarrow> bytes \<Rightarrow> int \<Rightarrow> (bytes \<times> portset) option" where
  "parse_host_ports inet6 s hostmax =
     do { (host, pstr) \<leftarrow> split_host_port inet6 s hostmax;
          ps \<leftarrow> parse_port_set pstr;
          Some (host, ps) }"

fun portset_at_loop :: "(u16 \<times> u16) list \<Rightarrow> u16 \<Rightarrow> u32 \<Rightarrow> u16" where
  "portset_at_loop [] first idx = first"
| "portset_at_loop ((lo, hi) # rs) first idx =
     (let sz = (ucast hi :: u32) - ucast lo + 1
      in if idx < sz then lo + ucast idx else portset_at_loop rs first (idx - sz))"

definition portset_at :: "portset \<Rightarrow> u32 \<Rightarrow> u16" where
  "portset_at ps idx = portset_at_loop (ps_r ps) (case ps_r ps of (lo, hi) # _ \<Rightarrow> lo | [] \<Rightarrow> 0) idx"

definition portset_pick :: "portset \<Rightarrow> fastrand \<Rightarrow> u16 \<Rightarrow> (u16 \<times> fastrand) option" where
  "portset_pick ps rng avoid =
     do { (i, rng) \<leftarrow> fastrand_intn rng (sint (ps_total ps));
          let port = portset_at ps (word_of_int i);
          if port = avoid \<and> ps_total ps > 1
          then do { (i, rng) \<leftarrow> fastrand_intn rng (sint (ps_total ps));
                    Some (portset_at ps (word_of_int i), rng) }
          else Some (port, rng) }"

definition portset_has :: "portset \<Rightarrow> u16 \<Rightarrow> bool" where
  "portset_has ps port \<longleftrightarrow> list_ex (\<lambda>(lo, hi). lo \<le> port \<and> port \<le> hi) (ps_r ps)"

section \<open>Rotation spans and schedule\<close>

fun span_digits :: "u64 \<Rightarrow> bytes \<Rightarrow> u64 \<times> bytes" where
  "span_digits v [] = (v, [])"
| "span_digits v (c # s) =
     (if 48 \<le> c \<and> c \<le> 57 \<and> v \<le> 100000000 then span_digits (v * 10 + ucast (c - 48)) s else (v, c # s))"

definition skip_one :: "u8 \<Rightarrow> u8 \<Rightarrow> bytes \<Rightarrow> bytes option" where
  "skip_one a b s = (case s of c # r \<Rightarrow> (if c = a \<or> c = b then Some r else None) | [] \<Rightarrow> None)"

text \<open>
  The unit suffix: \<open>h\<close>, \<open>m\<close> or \<open>s\<close> for times; \<open>G\<close> or \<open>M\<close>, then an optional \<open>B\<close>, for volumes.
\<close>

definition span_unit :: "bool \<Rightarrow> u64 \<Rightarrow> bytes \<Rightarrow> u64 \<times> bytes" where
  "span_unit time v s =
     (if time then
        (case skip_one 104 104 s of
           Some r \<Rightarrow> (v * 3600, r)
         | None \<Rightarrow> (case skip_one 109 109 s of
                     Some r \<Rightarrow> (v * 60, r)
                   | None \<Rightarrow> (case skip_one 115 115 s of Some r \<Rightarrow> (v, r) | None \<Rightarrow> (v, s))))
      else
        (let (v, s) = (case skip_one 71 103 s of
                         Some r \<Rightarrow> (v * 1024, r)
                       | None \<Rightarrow> (case skip_one 77 109 s of Some r \<Rightarrow> (v, r) | None \<Rightarrow> (v, s)))
         in case skip_one 66 98 s of Some r \<Rightarrow> (v, r) | None \<Rightarrow> (v, s)))"

definition span_num :: "bytes \<Rightarrow> bool \<Rightarrow> (u32 \<times> bytes) option" where
  "span_num s time =
     (let (v, r) = span_digits 0 s
      in if r = s then None
         else let (v, r) = span_unit time v r
              in if v = 0 \<or> v > 0xFFFFFFFF then None else Some (ucast v, r))"

definition rot_parse_span :: "bytes \<Rightarrow> bool \<Rightarrow> (u32 \<times> u32) option" where
  "rot_parse_span s time =
     do { (lo, e) \<leftarrow> span_num s time;
          (hi, e) \<leftarrow> (case e of c # e' \<Rightarrow> (if c = 45 then span_num e' time else Some (lo, e)) | [] \<Rightarrow> Some (lo, e));
          if e \<noteq> [] \<or> hi < lo then None else Some (lo, hi) }"

record rot_cfg =
  rc_t_lo :: u32
  rc_t_hi :: u32
  rc_mb_lo :: u32
  rc_mb_hi :: u32
  rc_idle :: u32
  rc_retry :: u32
  rc_force :: u32

record rot_sched =
  rs_deadline :: u32
  rs_retry :: u32
  rs_bytes :: u64
  rs_vol :: u64

definition rot_cfg_make :: "u32 \<Rightarrow> u32 \<Rightarrow> u32 \<Rightarrow> u32 \<Rightarrow> rot_cfg" where
  "rot_cfg_make t_lo_s t_hi_s mb_lo mb_hi =
     (let idle_s = (if t_lo_s \<noteq> 0 \<and> t_lo_s < 30 then t_lo_s else 30);
          force_s = (if t_lo_s \<noteq> 0 \<and> t_lo_s < 900 then t_lo_s else 900);
          t_lo = (if t_lo_s \<noteq> 0 then (t_lo_s + 4) div 5 else 0);
          t_hi = (if t_lo_s \<noteq> 0 then (t_hi_s + 4) div 5 else 0)
      in \<lparr>rc_t_lo = t_lo, rc_t_hi = t_hi, rc_mb_lo = mb_lo, rc_mb_hi = mb_hi,
          rc_idle = (idle_s + 4) div 5,
          rc_retry = (if t_lo_s \<noteq> 0 \<and> t_lo < 60 then t_lo else 60),
          rc_force = (force_s + 4) div 5\<rparr>)"

text \<open>\<open>None\<close> is the division by zero of an inverted span of width zero.\<close>

definition rot_draw :: "u32 \<Rightarrow> u32 \<Rightarrow> fastrand \<Rightarrow> (u32 \<times> fastrand) option" where
  "rot_draw lo hi rng =
     (let (v, rng) = fastrand_u64 rng; span = (ucast hi :: u64) - ucast lo + 1
      in if span = 0 then None else Some (lo + ucast (v mod span), rng))"

definition rot_sched_reset :: "rot_cfg \<Rightarrow> u32 \<Rightarrow> fastrand \<Rightarrow> (rot_sched \<times> fastrand) option" where
  "rot_sched_reset c now rng =
     do { (deadline, rng) \<leftarrow>
            (if rc_t_lo c \<noteq> 0
             then do { (d, rng) \<leftarrow> rot_draw (rc_t_lo c) (rc_t_hi c) rng; Some (now + d, rng) }
             else Some (0, rng));
          (vol, rng) \<leftarrow>
            (if rc_mb_lo c \<noteq> 0
             then do { (d, rng) \<leftarrow> rot_draw (rc_mb_lo c) (rc_mb_hi c) rng; Some (push_bit 20 (ucast d), rng) }
             else Some (0, rng));
          Some (\<lparr>rs_deadline = deadline, rs_retry = now, rs_bytes = 0, rs_vol = vol\<rparr>, rng) }"

definition rot_is_due :: "rot_cfg \<Rightarrow> rot_sched \<Rightarrow> u32 \<Rightarrow> bool" where
  "rot_is_due c s now =
     (if sint (now - rs_retry s) < 0 then False
      else rc_t_lo c \<noteq> 0 \<and> sint (now - rs_deadline s) \<ge> 0 \<or> rs_vol s \<noteq> 0 \<and> rs_bytes s \<ge> rs_vol s)"

definition rot_window :: "rot_cfg \<Rightarrow> u32 \<Rightarrow> u32 \<Rightarrow> u32 \<Rightarrow> bool \<Rightarrow> bool \<Rightarrow> bool" where
  "rot_window c now busy client user init =
     (if now - busy \<le> rc_idle c then False
      else if user then True
      else init \<and> now - client \<le> 6)"

section \<open>Accepted port sets\<close>

definition range_size :: "u16 \<times> u16 \<Rightarrow> nat" where
  "range_size r = unat (snd r) - unat (fst r) + 1"

definition wf_portset :: "portset \<Rightarrow> bool" where
  "wf_portset ps \<longleftrightarrow>
     ps_r ps \<noteq> [] \<and> length (ps_r ps) \<le> 32 \<and> list_all (\<lambda>(lo, hi). 1 \<le> lo \<and> lo \<le> hi) (ps_r ps) \<and>
     unat (ps_total ps) = sum_list (map range_size (ps_r ps))"

text \<open>The ports of a set in order.\<close>

definition ports_of :: "portset \<Rightarrow> u16 list" where
  "ports_of ps = concat (map (\<lambda>(lo, hi). map word_of_nat [unat lo..<unat hi + 1]) (ps_r ps))"

lemma port_digits_bound: "port_digits v d q = Some (v', d', q') \<Longrightarrow> v \<le> 65535 \<Longrightarrow> v' \<le> 65535"
proof (induction v d q rule: port_digits.induct)
  case (2 v d c q)
  then show ?case by (cases "48 \<le> c \<and> c \<le> 57") (auto simp: Let_def not_less split: if_splits)
qed simp

lemma parse_port_num_bound: "parse_port_num q = Some (v, q') \<Longrightarrow> v \<noteq> 0 \<and> v \<le> 65535"
  by (auto simp: parse_port_num_def split: Option.bind_splits if_splits dest: port_digits_bound)

lemma parse_port_token_bound:
  "parse_port_token q = Some (lo, hi, q') \<Longrightarrow> lo \<noteq> 0 \<and> lo \<le> hi \<and> hi \<le> 65535"
  by (auto simp: parse_port_token_def not_less split: Option.bind_splits list.splits if_splits dest!: parse_port_num_bound)

lemma range_size_bound: "range_size r \<le> 65536"
  using unsigned_less [of "snd r", where 'a = nat] by (simp add: range_size_def)

lemma sum_range_size: "sum_list (map range_size rs) \<le> 65536 * length rs"
  by (induction rs) (use range_size_bound in \<open>auto intro: add_mono\<close>)

lemma ucast_u16: "(v :: u32) \<le> 65535 \<Longrightarrow> unat (ucast v :: u16) = unat v"
  by (simp add: unsigned_ucast_eq take_bit_nat_eq_self word_le_nat_alt)

definition pre_portset :: "portset \<Rightarrow> bool" where
  "pre_portset ps \<longleftrightarrow>
     length (ps_r ps) \<le> 32 \<and> list_all (\<lambda>(lo, hi). 1 \<le> lo \<and> lo \<le> hi) (ps_r ps) \<and>
     unat (ps_total ps) = sum_list (map range_size (ps_r ps))"

lemma pre_portset_add:
  assumes "pre_portset ps" "length (ps_r ps) < 32" "lo \<noteq> 0" "lo \<le> hi" "hi \<le> 65535"
  shows "pre_portset \<lparr>ps_r = ps_r ps @ [(ucast lo, ucast hi)], ps_total = ps_total ps + (hi - lo + 1)\<rparr>"
proof -
  have b: "lo \<le> 65535" "unat lo \<le> unat hi" "unat hi \<le> 65535" "0 < unat lo"
    using assms(3-5) by (auto simp: word_le_nat_alt unat_gt_0)
  have u: "unat (ucast lo :: u16) = unat lo" "unat (ucast hi :: u16) = unat hi"
    using b(1) assms(5) by (simp_all add: ucast_u16)
  have sz: "unat (hi - lo + 1) = unat hi - unat lo + 1"
  proof -
    have "unat (hi - lo) = unat hi - unat lo" using assms(4) by (simp add: unat_sub)
    moreover have "unat (hi - lo + 1) = unat (hi - lo) + 1"
      using b calculation by (subst unat_plus_if') simp
    ultimately show ?thesis by simp
  qed
  have "unat (ps_total ps) \<le> 65536 * 31"
    using sum_range_size [of "ps_r ps"] assms(1,2) by (simp add: pre_portset_def)
  then have "unat (ps_total ps + (hi - lo + 1)) = unat (ps_total ps) + (unat hi - unat lo + 1)"
    using b by (subst unat_plus_if') (simp add: sz)
  then show ?thesis
    using assms(1,2) b u by (simp add: pre_portset_def range_size_def word_le_nat_alt)
qed

lemma port_set_loop_wf:
  "port_set_loop q ps = Some ps' \<Longrightarrow> pre_portset ps \<Longrightarrow> wf_portset ps'"
proof (induction q ps rule: port_set_loop.induct)
  case (1 q ps)
  obtain lo hi q' where t: "parse_port_token q = Some (lo, hi, q')" and l: "length (ps_r ps) < 32"
    using "1.prems"(1) by (subst (asm) port_set_loop.simps) (auto split: option.splits if_splits)
  let ?ps = "\<lparr>ps_r = ps_r ps @ [(ucast lo, ucast hi)], ps_total = ps_total ps + (hi - lo + 1)\<rparr>"
  have pre: "pre_portset ?ps" using pre_portset_add [OF "1.prems"(2) l] parse_port_token_bound [OF t] by blast
  show ?case
  proof (cases q')
    case Nil
    then have "ps' = ?ps" using "1.prems"(1) t l by (subst (asm) port_set_loop.simps) (simp add: Let_def)
    then show ?thesis using pre by (simp add: wf_portset_def pre_portset_def)
  next
    case (Cons c q'')
    then have "c = 44" "port_set_loop q'' ?ps = Some ps'"
      using "1.prems"(1) t l by (subst (asm) port_set_loop.simps, simp add: Let_def split: if_splits)+
    then show ?thesis using "1.IH" [OF t refl refl _ refl Cons _ _ pre] l by simp
  qed
qed

section \<open>Drawing a port\<close>

lemma ports_of_length: "list_all (\<lambda>(lo, hi). lo \<le> hi) rs \<Longrightarrow>
    length (concat (map (\<lambda>(lo :: u16, hi). map (word_of_nat :: nat \<Rightarrow> u16) [unat lo..<unat hi + 1]) rs)) = sum_list (map range_size rs)"
  by (induction rs) (auto simp: range_size_def word_le_nat_alt)

lemma range_size_word:
  assumes "(lo :: u16) \<le> hi"
  shows "unat ((ucast hi :: u32) - ucast lo + 1) = range_size (lo, hi)"
proof -
  have le: "unat lo \<le> unat hi" "unat hi < 65536" using assms unsigned_less [of hi, where 'a = nat] by (simp_all add: word_le_nat_alt)
  have u: "unat (ucast hi :: u32) = unat hi" "unat (ucast lo :: u32) = unat lo"
    using le by (simp_all add: unsigned_ucast_eq take_bit_nat_eq_self)
  have "unat ((ucast hi :: u32) - ucast lo) = unat hi - unat lo"
    using le u by (subst unat_sub) (simp_all add: word_le_nat_alt)
  then show ?thesis using le by (subst unat_plus_if') (simp add: range_size_def)
qed

lemma portset_at_loop_nth:
  assumes "list_all (\<lambda>(lo, hi). lo \<le> hi) rs" "unat idx < sum_list (map range_size rs)"
  shows "portset_at_loop rs f idx = concat (map (\<lambda>(lo, hi). map word_of_nat [unat lo..<unat hi + 1]) rs) ! unat idx"
  using assms
proof (induction rs f idx rule: portset_at_loop.induct)
  case (2 lo hi rs f idx)
  let ?sz = "(ucast hi :: u32) - ucast lo + 1"
  have le: "lo \<le> hi" using "2.prems" by simp
  have sz: "unat ?sz = range_size (lo, hi)" by (rule range_size_word [OF le])
  have len: "length (map word_of_nat [unat lo..<unat hi + 1]) = range_size (lo, hi)"
    using le by (simp add: range_size_def word_le_nat_alt)
  show ?case
  proof (cases "idx < ?sz")
    case True
    then have lt: "unat idx < range_size (lo, hi)" using sz by (simp add: word_less_nat_alt)
    then have "unat lo + unat idx < unat hi + 1" using le by (simp add: range_size_def word_le_nat_alt)
    then have "[unat lo..<unat hi + 1] ! unat idx = unat lo + unat idx" by (rule nth_upt)
    moreover have "lo + ucast idx = word_of_nat (unat lo + unat idx)" by simp
    ultimately show ?thesis using True lt len by (simp add: nth_append del: upt_Suc)
  next
    case False
    then have ge: "range_size (lo, hi) \<le> unat idx" using sz by (simp add: word_less_nat_alt)
    then have d: "unat (idx - ?sz) = unat idx - range_size (lo, hi)"
      using sz by (subst unat_sub) (simp_all add: word_le_nat_alt)
    then show ?thesis
      using "2.IH" [OF refl False] "2.prems" False ge len by (simp add: nth_append del: upt_Suc)
  qed
qed simp

lemma portset_at_ports:
  assumes "wf_portset ps" "unat idx < unat (ps_total ps)"
  shows "portset_at ps idx = ports_of ps ! unat idx" "length (ports_of ps) = unat (ps_total ps)"
proof -
  have o: "list_all (\<lambda>(lo, hi). lo \<le> hi) (ps_r ps)"
    using assms(1) by (auto simp: wf_portset_def list_all_iff)
  show "portset_at ps idx = ports_of ps ! unat idx"
    using portset_at_loop_nth [OF o, of idx] assms by (simp add: portset_at_def ports_of_def wf_portset_def)
  show "length (ports_of ps) = unat (ps_total ps)"
    using ports_of_length [OF o] assms(1) by (simp add: ports_of_def wf_portset_def)
qed

lemma ports_of_has: "port \<in> set (ports_of ps) \<longleftrightarrow> portset_has ps port"
proof -
  have "(port \<in> (word_of_nat :: nat \<Rightarrow> u16) ` {unat lo..<Suc (unat hi)}) \<longleftrightarrow> lo \<le> port \<and> port \<le> hi" for lo hi
  proof
    assume "port \<in> word_of_nat ` {unat lo..<Suc (unat hi)}"
    then obtain n where n: "port = word_of_nat n" "unat lo \<le> n" "n \<le> unat hi" by auto
    then have "unat port = n" using unsigned_less [of hi, where 'a = nat] by (simp add: unat_of_nat)
    then show "lo \<le> port \<and> port \<le> hi" using n by (simp add: word_le_nat_alt)
  next
    assume "lo \<le> port \<and> port \<le> hi"
    then have "unat port \<in> {unat lo..<Suc (unat hi)}" by (simp add: word_le_nat_alt)
    then have "(word_of_nat (unat port) :: u16) \<in> word_of_nat ` {unat lo..<Suc (unat hi)}" by (rule imageI)
    then show "port \<in> word_of_nat ` {unat lo..<Suc (unat hi)}" by simp
  qed
  then show ?thesis
    by (auto simp: ports_of_def portset_has_def list_ex_iff simp del: upt_Suc)
qed

section \<open>Spans\<close>

lemma span_digits_bound: "unat v \<le> 1000000009 \<Longrightarrow> unat (fst (span_digits v s)) \<le> 1000000009"
proof (induction v s rule: span_digits.induct)
  case (2 v c s)
  show ?case
  proof (cases "48 \<le> c \<and> c \<le> 57 \<and> v \<le> 100000000")
    case True
    have "unat (c - 48) = unat c - 48" using True by (subst unat_sub) (simp_all add: word_le_nat_alt)
    moreover have "unat c \<le> 57" using True by (simp add: word_le_nat_alt)
    ultimately have "unat (c - 48) \<le> 9" by simp
    then have d: "unat (ucast (c - 48) :: u64) \<le> 9"
      by (simp add: unsigned_ucast_eq take_bit_nat_eq_self)
    have v: "unat v \<le> 100000000" using True by (simp add: word_le_nat_alt)
    then have "unat (v * 10) = unat v * 10" by (subst unat_mult_lem [THEN iffD1]) simp_all
    then have "unat (v * 10 + ucast (c - 48)) = unat v * 10 + unat (ucast (c - 48) :: u64)"
      using v d by (subst unat_plus_if') simp
    then have "unat (v * 10 + ucast (c - 48)) \<le> 1000000009" using v d by simp
    then show ?thesis using "2.IH" [OF True] True by simp
  next
    case False
    then show ?thesis using "2.prems" by auto
  qed
qed simp

lemma unat_times: "unat (v :: u64) \<le> 1000000009 \<Longrightarrow> k \<le> 3600 \<Longrightarrow> unat (v * word_of_nat k) = unat v * k"
proof -
  assume v: "unat v \<le> 1000000009" and k: "k \<le> 3600"
  have u: "unat (word_of_nat k :: u64) = k" using k by (simp add: unat_of_nat)
  have "unat v * k \<le> 1000000009 * 3600" using v k by (rule mult_le_mono)
  then show ?thesis using u by (subst unat_mult_lem [THEN iffD1]) simp_all
qed

lemma span_num_time_bound:
  assumes "span_num s True = Some (v, r)"
  shows "v \<noteq> 0" "unat v \<le> 4294967280"
proof -
  define d where "d = fst (span_digits 0 s)"
  have b: "unat d \<le> 1000000009" using span_digits_bound [of 0 s] by (simp add: d_def)
  obtain w where w: "v = ucast w" "w \<noteq> 0" "\<not> w > 0xFFFFFFFF" "w = d * 3600 \<or> w = d * 60 \<or> w = d"
    using assms by (auto simp: span_num_def span_unit_def Let_def d_def split: prod.splits option.splits if_splits)
  have le: "unat w \<le> 0xFFFFFFFF" using w(3) by (simp add: word_less_nat_alt not_less)
  have uv: "unat v = unat w" using le by (simp add: w(1) unsigned_ucast_eq take_bit_nat_eq_self)
  then show "v \<noteq> 0" using w(2) by (metis unat_eq_0)
  have "unat (d * 3600) = unat d * 3600" "unat (d * 60) = unat d * 60"
    using unat_times [OF b, of 3600] unat_times [OF b, of 60] by simp_all
  then have "unat w = unat d * 3600 \<or> unat w = unat d * 60 \<or> unat w = unat d" using w(4) by auto
  then show "unat v \<le> 4294967280" using uv le b by auto
qed

lemma rot_parse_span_time:
  assumes "rot_parse_span s True = Some (lo, hi)"
  shows "lo \<noteq> 0" "lo \<le> hi" "unat hi \<le> 4294967280"
  using assms span_num_time_bound
  by (auto simp: rot_parse_span_def not_less split: Option.bind_splits list.splits if_splits)

lemma span_num_nonzero: "span_num s time = Some (v, r) \<Longrightarrow> v \<noteq> 0"
proof -
  assume "span_num s time = Some (v, r)"
  then obtain w :: u64 where w: "v = ucast w" "w \<noteq> 0" "\<not> w > 0xFFFFFFFF"
    by (auto simp: span_num_def Let_def split: prod.splits if_splits)
  then have "unat w \<le> 0xFFFFFFFF" by (simp add: word_less_nat_alt not_less)
  then have "unat v = unat w" by (simp add: w(1) unsigned_ucast_eq take_bit_nat_eq_self)
  then show "v \<noteq> 0" using w(2) by (metis unat_eq_0)
qed

lemma rot_parse_span_order: "rot_parse_span s time = Some (lo, hi) \<Longrightarrow> lo \<noteq> 0 \<and> lo \<le> hi"
  by (auto simp: rot_parse_span_def not_less split: Option.bind_splits list.splits if_splits dest!: span_num_nonzero)

lemma ticks_of_seconds: "unat (t :: u32) \<le> 4294967280 \<Longrightarrow> unat ((t + 4) div 5) = (unat t + 4) div 5"
  by (simp add: unat_div) (subst unat_plus_if', simp)

lemma rot_draw_range:
  assumes "lo \<le> hi"
  shows "\<exists>d. rot_draw lo hi rng = Some (d, xorshift rng) \<and> lo \<le> d \<and> d \<le> hi"
proof -
  let ?span = "(ucast hi :: u64) - ucast lo + 1" and ?v = "xorshift rng"
  have le: "unat lo \<le> unat hi" and lt: "unat hi < 2 ^ 32"
    using assms unsigned_less [of hi, where 'a = nat] by (simp_all add: word_le_nat_alt)
  have "?span = word_of_nat (unat hi - unat lo + 1)" using le by (simp add: of_nat_diff)
  then have sp: "unat ?span = unat hi - unat lo + 1" unfolding \<open>?span = _\<close> unat_of_nat using lt by simp
  define k where "k = unat ?v mod (unat hi - unat lo + 1)"
  have k: "k \<le> unat hi - unat lo" by (simp add: k_def flip: less_Suc_eq_le)
  have "(ucast (?v mod ?span) :: u32) = word_of_nat (unat (?v mod ?span))" by (rule of_nat_unat [symmetric])
  then have uc: "(ucast (?v mod ?span) :: u32) = word_of_nat k" by (simp only: unat_mod sp k_def)
  have "unat (lo + word_of_nat k) = unat lo + k"
    using k le lt by (subst unat_plus_if') (simp add: unat_of_nat)
  then have "lo \<le> lo + word_of_nat k \<and> lo + word_of_nat k \<le> hi" using k le by (simp add: word_le_nat_alt)
  moreover have "?span \<noteq> 0" using sp by (metis add_is_0 one_neq_zero unat_0)
  ultimately show ?thesis using uc by (simp add: rot_draw_def fastrand_u64_xorshift Let_def)
qed

lemma portset_pick_indices:
  assumes "wf_portset ps"
  shows "(\<exists>port rng'. portset_pick ps rng avoid = Some (port, rng') \<and> portset_has ps port) \<and>
    map (\<lambda>i. portset_at ps (word_of_nat i)) [0..<unat (ps_total ps)] = ports_of ps"
proof -
  let ?n = "unat (ps_total ps)"
  have bound: "?n \<le> 65536 * 32"
    using assms sum_range_size [of "ps_r ps"] by (simp add: wf_portset_def)
  have pos: "0 < ?n"
  proof -
    have "ps_r ps \<noteq> []" using assms by (simp add: wf_portset_def)
    then have "0 < sum_list (map range_size (ps_r ps))" by (cases "ps_r ps") (simp_all add: range_size_def)
    then show ?thesis using assms by (simp add: wf_portset_def)
  qed
  have u: "uint (ps_total ps) = int ?n" by (rule uint_nat)
  have bnd: "int ?n \<le> int (65536 * 32)" using bound by (simp only: of_nat_le_iff)
  then have "uint (ps_total ps) < 2 ^ 31" unfolding u by (rule le_less_trans) simp
  then have s: "sint (ps_total ps) = int ?n" using sint_small u by metis
  have at: "portset_has ps (portset_at ps (word_of_int i))" if "0 \<le> i" "i < int ?n" for i
  proof -
    have "i < 2 ^ 32" using that(2) bnd by (rule order.strict_trans2 [THEN less_trans]) simp
    then have i: "unat (word_of_int i :: u32) = nat i"
      using that(1) by (simp add: unsigned_of_int take_bit_int_eq_self)
    then have lt: "unat (word_of_int i :: u32) < ?n" using that by (simp only: nat_less_iff)
    show ?thesis using portset_at_ports [OF assms lt] lt ports_of_has nth_mem by metis
  qed
  have draw: "\<exists>v. fastrand_intn r (int ?n) = Some (v, xorshift r) \<and> 0 \<le> v \<and> v < int ?n" for r
  proof -
    have "0 < int ?n" using pos by (simp only: of_nat_0_less_iff)
    moreover have "int ?n < 2 ^ 31" using bnd by (rule le_less_trans) simp
    ultimately show ?thesis using fastrand_intn_range [of "int ?n" r] by blast
  qed
  obtain i where i: "fastrand_intn rng (int ?n) = Some (i, xorshift rng)" "0 \<le> i" "i < int ?n" using draw by blast
  obtain j where j: "fastrand_intn (xorshift rng) (int ?n) = Some (j, xorshift (xorshift rng))" "0 \<le> j" "j < int ?n" using draw by blast
  have "\<exists>port rng'. portset_pick ps rng avoid = Some (port, rng') \<and> portset_has ps port"
    using i j at by (simp add: portset_pick_def s Let_def)
  moreover have "map (\<lambda>i. portset_at ps (word_of_nat i)) [0..<?n] = ports_of ps"
  proof (rule nth_equalityI)
    have "unat 0 < ?n" using pos by simp
    from portset_at_ports(2) [OF assms this] show "length (map (\<lambda>i. portset_at ps (word_of_nat i)) [0..<?n]) = length (ports_of ps)" by simp
  next
    fix k assume "k < length (map (\<lambda>i. portset_at ps (word_of_nat i)) [0..<?n])"
    then have k: "k < ?n" by simp
    then have "unat (word_of_nat k :: u32) = k" using bound by (simp add: unat_of_nat)
    then show "map (\<lambda>i. portset_at ps (word_of_nat i)) [0..<?n] ! k = ports_of ps ! k"
      using k portset_at_ports(1) [OF assms, of "word_of_nat k"] by simp
  qed
  ultimately show ?thesis by blast
qed

lemmas portset_pick_ok = portset_pick_indices [THEN conjunct1]

section \<open>Properties\<close>

text \<open>
  Whatever port list the parser accepts has one to 32 ranges, each starting at port 1 or
  above and not reversed, and its weight is exactly the number of ports in the ranges.
\<close>

theorem parse_port_set_wf:
  assumes "parse_port_set s = Some ps"
  shows "wf_portset ps \<and> length (ports_of ps) = unat (ps_total ps)"
proof -
  have wf: "wf_portset ps"
    using assms port_set_loop_wf [of s "\<lparr>ps_r = [], ps_total = 0\<rparr>" ps] by (simp add: parse_port_set_def pre_portset_def)
  have o: "list_all (\<lambda>(lo, hi). lo \<le> hi) (ps_r ps)" using wf by (auto simp: wf_portset_def list_all_iff)
  show ?thesis using wf ports_of_length [OF o] by (simp add: ports_of_def wf_portset_def)
qed

text \<open>The list \<^verbatim>\<open>443,20-22\<close>.\<close>

theorem parse_port_set_wf_witness:
  "parse_port_set [52, 52, 51, 44, 50, 48, 45, 50, 50] = Some \<lparr>ps_r = [(443, 443), (20, 22)], ps_total = 4\<rparr> \<and>
   wf_portset \<lparr>ps_r = [(443, 443), (20, 22)], ps_total = 4\<rparr>"
proof -
  have p: "parse_port_set [52, 52, 51, 44, 50, 48, 45, 50, 50] = Some \<lparr>ps_r = [(443, 443), (20, 22)], ps_total = 4\<rparr>"
    by code_simp
  from parse_port_set_wf [OF p] p show ?thesis by blast
qed

text \<open>
  The port draw: on a well-formed set it always returns, the port belongs to the set, and
  every index below the weight selects its own place in the list of all ports, so each port
  weighs the same.
\<close>

theorem portset_pick_uniform:
  assumes "wf_portset ps"
  shows "(\<exists>port rng'. portset_pick ps rng avoid = Some (port, rng') \<and> portset_has ps port) \<and>
    map (\<lambda>i. portset_at ps (word_of_nat i)) [0..<unat (ps_total ps)] = ports_of ps"
  by (rule portset_pick_indices [OF assms])

theorem portset_pick_uniform_witness:
  "\<exists>port rng'. portset_pick \<lparr>ps_r = [(443, 443), (20, 22)], ps_total = 4\<rparr> 99 443 = Some (port, rng') \<and>
     portset_has \<lparr>ps_r = [(443, 443), (20, 22)], ps_total = 4\<rparr> port"
proof -
  have "wf_portset \<lparr>ps_r = [(443, 443), (20, 22)], ps_total = 4\<rparr>" by (simp add: wf_portset_def range_size_def)
  from portset_pick_uniform [OF this] show ?thesis by blast
qed

text \<open>
  Rotation schedules are safe: for any timer and volume spans the parser accepted (or
  left off), drawing a schedule never divides by zero, the timer lies inside the configured
  span of ticks and the volume inside the configured span of megabytes.
\<close>

theorem rot_schedule_safe:
  assumes "(t_lo, t_hi) = (0, 0) \<or> rot_parse_span ts True = Some (t_lo, t_hi)"
    and "(mb_lo, mb_hi) = (0, 0) \<or> rot_parse_span ms False = Some (mb_lo, mb_hi)"
    and "c = rot_cfg_make t_lo t_hi mb_lo mb_hi"
  shows "\<exists>s rng' d v. rot_sched_reset c now rng = Some (s, rng') \<and> rs_bytes s = 0 \<and> rs_retry s = now \<and>
    (t_lo \<noteq> 0 \<longrightarrow> rc_t_lo c \<noteq> 0 \<and> rs_deadline s = now + d \<and> (unat t_lo + 4) div 5 \<le> unat d \<and> unat d \<le> (unat t_hi + 4) div 5) \<and>
    (mb_lo \<noteq> 0 \<longrightarrow> rs_vol s = push_bit 20 (ucast v) \<and> mb_lo \<le> v \<and> v \<le> mb_hi)"
proof -
  have c: "rc_t_lo c = (if t_lo \<noteq> 0 then (t_lo + 4) div 5 else 0)" "rc_t_hi c = (if t_lo \<noteq> 0 then (t_hi + 4) div 5 else 0)"
    "rc_mb_lo c = mb_lo" "rc_mb_hi c = mb_hi"
    using assms(3) by (simp_all add: rot_cfg_make_def Let_def)
  have mb: "mb_lo \<noteq> 0 \<Longrightarrow> mb_lo \<le> mb_hi" using assms(2) rot_parse_span_order by auto
  show ?thesis
  proof (cases "t_lo = 0")
    case True
    then show ?thesis
      using mb rot_draw_range [of mb_lo mb_hi rng] by (cases "mb_lo = 0") (auto simp: rot_sched_reset_def c)
  next
    case False
    then have t: "t_lo \<le> t_hi" "unat t_hi \<le> 4294967280" using assms(1) rot_parse_span_time by auto
    then have "unat t_lo \<le> 4294967280" by (simp add: word_le_nat_alt)
    then have ticks: "unat ((t_lo + 4) div 5) = (unat t_lo + 4) div 5" "unat ((t_hi + 4) div 5) = (unat t_hi + 4) div 5"
      using t by (simp_all add: ticks_of_seconds)
    have "(t_lo + 4) div 5 \<le> (t_hi + 4) div 5"
      unfolding word_le_nat_alt ticks using t(1) by (simp add: word_le_nat_alt div_le_mono)
    then obtain d where d: "rot_draw ((t_lo + 4) div 5) ((t_hi + 4) div 5) rng = Some (d, xorshift rng)"
      "(unat t_lo + 4) div 5 \<le> unat d" "unat d \<le> (unat t_hi + 4) div 5"
      using rot_draw_range ticks unfolding word_le_nat_alt by metis
    have "0 < unat t_lo" using False by (simp add: unat_gt_0)
    then have "0 < (unat t_lo + 4) div 5" by simp
    then have nz: "(t_lo + 4) div 5 \<noteq> 0" unfolding ticks(1) [symmetric] by (metis unat_0 less_numeral_extra(3))
    show ?thesis
      using mb rot_draw_range [of mb_lo mb_hi "xorshift rng"] d nz False
      by (cases "mb_lo = 0") (auto simp: rot_sched_reset_def c)
  qed
qed

theorem rot_schedule_safe_witness:
  "rot_parse_span [51, 48, 109, 45, 50, 104] True = Some (1800, 7200) \<and>
   (\<exists>s rng' d. rot_sched_reset (rot_cfg_make 1800 7200 0 0) 7 3 = Some (s, rng') \<and> rs_deadline s = 7 + d \<and>
      360 \<le> unat d \<and> unat d \<le> 1440)"
proof -
  have p: "rot_parse_span [51, 48, 109, 45, 50, 104] True = Some (1800, 7200)" by code_simp
  from rot_schedule_safe [of 1800 7200 _ 0 0, OF disjI2 [OF p] disjI1 [OF refl] refl, of 7 3] p show ?thesis by simp blast
qed

text \<open>
  The timer fires on time, also across the wrap of the 32-bit tick counter: for a schedule
  drawn at tick \<open>now\<close> without a volume trigger, and less than half the counter's range of
  ticks later, the port is due exactly when the drawn number of ticks has passed.
\<close>

theorem rot_timer_exact:
  assumes "rc_t_lo c \<noteq> 0" "rs_retry s = now" "rs_deadline s = now + d" "rs_vol s = 0"
    and "unat d < 2 ^ 31" "unat e < 2 ^ 31"
  shows "rot_is_due c s (now + e) \<longleftrightarrow> d \<le> e"
proof -
  have small: "sint (x :: u32) = int (unat x)" if "unat x < 2 ^ 31" for x
  proof -
    have "uint x < 2 ^ 31" using that unfolding uint_nat by (metis of_nat_less_iff of_nat_numeral of_nat_power)
    then show ?thesis using sint_small [of x] by (simp only: uint_nat)
  qed
  have diff: "sint (e - d) \<ge> 0 \<longleftrightarrow> d \<le> e"
  proof (cases "d \<le> e")
    case True
    then have "unat (e - d) = unat e - unat d" by (simp add: unat_sub)
    then have "unat (e - d) < 2 ^ 31" using assms(6) by simp
    then show ?thesis using small True by simp
  next
    case False
    then have lt: "unat e < unat d" by (simp add: word_le_nat_alt)
    have "sint (e - d) = - int (unat d - unat e)"
    proof -
      define a b where "a = unat e" and "b = unat d"
      have eq: "e - d = word_of_int (int a - int b)" by (simp add: a_def b_def)
      have r: "- (2 ^ 31) \<le> int a - int b" "int a - int b < 2 ^ 31" "a < b"
        using assms(5,6) lt by (simp_all add: a_def [symmetric] b_def [symmetric])
      have "sint (e - d) = signed_take_bit 31 (int a - int b)" unfolding eq signed_of_int by simp
      also have "\<dots> = int a - int b" by (rule signed_take_bit_int_eq_self [OF r(1,2)])
      finally have "sint (e - d) = - int (b - a)" using r(3) by (simp only: of_nat_diff less_imp_le)
      then show ?thesis by (simp only: a_def b_def)
    qed
    then show ?thesis using False lt by (simp add: word_le_def)
  qed
  have "\<not> sint (now + e - rs_retry s) < 0" using small [OF assms(6)] assms(2) by simp
  moreover have eq: "now + e - rs_deadline s = e - d" using assms(3) by simp
  ultimately show ?thesis unfolding rot_is_due_def eq using assms(1,4) diff by simp
qed

theorem rot_timer_exact_witness:
  "rot_is_due (rot_cfg_make 1800 7200 0 0) \<lparr>rs_deadline = 0xFFFFFFFE + 400, rs_retry = 0xFFFFFFFE, rs_bytes = 0, rs_vol = 0\<rparr>
     (0xFFFFFFFE + 400) \<and> 400 \<le> (400 :: u32)"
proof -
  have "rc_t_lo (rot_cfg_make 1800 7200 0 0) \<noteq> 0" by code_simp
  from rot_timer_exact [OF this, where now = "0xFFFFFFFE" and d = 400 and e = 400 and
      s = "\<lparr>rs_deadline = 0xFFFFFFFE + 400, rs_retry = 0xFFFFFFFE, rs_bytes = 0, rs_vol = 0\<rparr>"]
  show ?thesis by simp
qed

end
