(* ===== verification/Startup.thy ===== *)
theory Startup
  imports Tuning Base64 Ports
begin

text \<open>
  Model of \<^verbatim>\<open>src/src/main.c\<close>: from the environment variables to the configuration the proxy
  runs on.  The environment is a function from names to values, a value the list of its
  character codes (environment strings hold no zero byte); the peer file is read through a
  parameter.  Every \<open>fatal\<close> exit is a value of \<open>fatal\<close>.  A number that leaves the range of
  \<open>int\<close> while it is read is undefined behaviour in C; here it is the error \<open>Int_overflow\<close>.  The
  theorems: a configuration the start-up accepts satisfies everything the packet paths rely
  on, the settings the program checks are in the ranges their users need while the others are
  passed on as read, and keys are read back exactly.
\<close>

section \<open>Errors\<close>

datatype fatal =
    Missing_env "string list"
  | No_client_pub | No_server_peers
  | Bad_range string
  | Bad_server_pub | Bad_client_pub
  | Peer_token_long string | Peer_token_bad string | Too_many_peers string
  | Peer_file
  | Bad_hp_key
  | Bad_config cfg_error
  | Bad_cps string
  | Fb_required string string
  | Fb_hp_needs_key string
  | Int_overflow

definition bindE :: "fatal + 'a \<Rightarrow> ('a \<Rightarrow> fatal + 'b) \<Rightarrow> fatal + 'b" where
  "bindE m f = (case m of Inl e \<Rightarrow> Inl e | Inr x \<Rightarrow> f x)"

definition orE :: "'a option \<Rightarrow> fatal \<Rightarrow> fatal + 'a" where
  "orE r e = (case r of None \<Rightarrow> Inl e | Some x \<Rightarrow> Inr x)"

named_theorems return_iff \<open>inversion of a start-up step that returns\<close>

lemma bindE_Inr [return_iff]: "bindE m f = Inr y \<longleftrightarrow> (\<exists>x. m = Inr x \<and> f x = Inr y)"
  by (auto simp: bindE_def split: sum.splits)

lemma orE_Inr [return_iff]: "orE r e = Inr y \<longleftrightarrow> r = Some y"
  by (auto simp: orE_def split: option.splits)

lemma if_Inl_Inr [return_iff]: "(if b then Inl e else m) = Inr y \<longleftrightarrow> \<not> b \<and> m = Inr y"
  by simp

lemma check_Inr [return_iff]:
  "(case v of Inl e \<Rightarrow> Inl (g e) | Inr (_ :: unit) \<Rightarrow> m) = Inr y \<longleftrightarrow> v = Inr () \<and> m = Inr y"
  by (cases v) auto

section \<open>Numbers, ranges, keys\<close>

text \<open>The digits at the head of the string; \<open>None\<close> when the value leaves the range of \<open>int\<close>.\<close>

fun int_digits :: "int \<Rightarrow> bytes \<Rightarrow> int option" where
  "int_digits v [] = Some v"
| "int_digits v (c # s) =
     (if 48 \<le> c \<and> c \<le> 57
      then let v' = v * 10 + (uint c - 48) in if v' > 2147483647 then None else int_digits v' s
      else Some v)"

definition parse_int_str :: "bytes \<Rightarrow> int option" where
  "parse_int_str s =
     (case s of c # r \<Rightarrow> if c = 45 then map_option uminus (int_digits 0 r) else int_digits 0 s
      | [] \<Rightarrow> int_digits 0 s)"

text \<open>\<open>s[i]\<close> of a terminated string, for the positions up to the terminator.\<close>

definition char_at :: "bytes \<Rightarrow> nat \<Rightarrow> u8" where
  "char_at s i = (if i < length s then s ! i else 0)"

definition parse_bool_str :: "bytes \<Rightarrow> bool option" where
  "parse_bool_str s =
     (if char_at s 0 \<in> {111, 79} \<and> char_at s 1 \<in> {110, 78} \<and> char_at s 2 = 0 then Some True
      else if char_at s 0 \<in> {116, 84, 121, 89} then Some True
      else map_option (\<lambda>v. v \<noteq> 0) (parse_int_str s))"

fun uint32_digits :: "u32 \<Rightarrow> bytes \<Rightarrow> u32" where
  "uint32_digits v [] = v"
| "uint32_digits v (c # s) = (if 48 \<le> c \<and> c \<le> 57 then uint32_digits (v * 10 + ucast (c - 48)) s else v)"

definition parse_uint32 :: "bytes \<Rightarrow> u32" where
  "parse_uint32 s = uint32_digits 0 s"

definition parse_hrange :: "bytes \<Rightarrow> hrange option" where
  "parse_hrange s =
     (let head = takeWhile (\<lambda>c. c \<noteq> 45) s; tail = dropWhile (\<lambda>c. c \<noteq> 45) s
      in if tail = [] then Some \<lparr>h_min = parse_uint32 s, h_max = parse_uint32 s\<rparr>
         else if 32 \<le> length head then None
         else let lo = parse_uint32 head; hi = parse_uint32 (tl tail)
              in if lo > hi then None else Some \<lparr>h_min = lo, h_max = hi\<rparr>)"

definition hex_nibble :: "u8 \<Rightarrow> int" where
  "hex_nibble c =
     (if 48 \<le> c \<and> c \<le> 57 then uint c - 48
      else if 97 \<le> c \<and> c \<le> 102 then uint c - 97 + 10
      else if 65 \<le> c \<and> c \<le> 70 then uint c - 65 + 10
      else -1)"

fun hex_pairs :: "bytes \<Rightarrow> bytes option" where
  "hex_pairs (a # b # s) =
     (let hi = hex_nibble a; lo = hex_nibble b
      in if hi < 0 \<or> lo < 0 then None
         else map_option (\<lambda>r. (push_bit 4 (word_of_int hi) OR word_of_int lo) # r) (hex_pairs s))"
| "hex_pairs _ = Some []"

definition decode_key32 :: "bytes \<Rightarrow> bytes option" where
  "decode_key32 s =
     (if length s = 64 then hex_pairs s
      else case base64_decode s 32 of
             Some k \<Rightarrow> if length k = 32 then Some k else None
           | None \<Rightarrow> None)"

section \<open>The environment\<close>

type_synonym env = "string \<Rightarrow> bytes option"

text \<open>\<open>(v = getenv(name)) && v[0]\<close>.\<close>

definition env_value :: "env \<Rightarrow> string \<Rightarrow> bytes option" where
  "env_value env name = (case env name of Some v \<Rightarrow> if v = [] then None else Some v | None \<Rightarrow> None)"

definition getenv_required :: "env \<Rightarrow> string \<Rightarrow> bytes \<times> string list" where
  "getenv_required env name = (case env_value env name of None \<Rightarrow> ([], [name]) | Some v \<Rightarrow> (v, []))"

text \<open>An optional variable that, when set, goes through a parser that may overflow.\<close>

definition env_opt :: "env \<Rightarrow> string \<Rightarrow> (bytes \<Rightarrow> 'a option) \<Rightarrow> 'a \<Rightarrow> fatal + 'a" where
  "env_opt env name parse d =
     (case env_value env name of None \<Rightarrow> Inr d | Some v \<Rightarrow> orE (parse v) Int_overflow)"

definition fb_name :: "nat \<Rightarrow> string \<Rightarrow> string" where
  "fb_name stage suffix =
     (if stage = 0 then ''AWG_'' @ suffix
      else ''AWG_FB'' @ (if stage > 1 then [char_of (48 + stage)] else []) @ ''_'' @ suffix)"

definition fb_required :: "env \<Rightarrow> nat \<Rightarrow> string \<Rightarrow> fatal + bytes" where
  "fb_required env stage suffix =
     orE (env_value env (fb_name stage suffix)) (Fb_required (fb_name stage suffix) (fb_name stage ''H1''))"

definition fb_hrange :: "env \<Rightarrow> nat \<Rightarrow> string \<Rightarrow> fatal + hrange" where
  "fb_hrange env stage suffix =
     bindE (fb_required env stage suffix) (\<lambda>v. orE (parse_hrange v) (Bad_range (fb_name stage suffix)))"

section \<open>The peers of a server\<close>

definition is_pub_sep :: "u8 \<Rightarrow> bool" where
  "is_pub_sep c \<longleftrightarrow> c = 44 \<or> c = 59 \<or> c = 32 \<or> c = 9 \<or> c = 13 \<or> c = 10"

definition add_server_peer_pub :: "bytes list \<Rightarrow> bytes \<Rightarrow> string \<Rightarrow> fatal + bytes list" where
  "add_server_peer_pub pubs pub name =
     (if pub \<in> set pubs then Inr pubs
      else if length pubs \<ge> 256 then Inl (Too_many_peers name)
      else Inr (pubs @ [pub]))"

definition peer_token :: "bytes list \<Rightarrow> string \<Rightarrow> bytes \<Rightarrow> fatal + bytes list" where
  "peer_token pubs name token =
     (if length token \<ge> 128 then Inl (Peer_token_long name)
      else case base64_decode token 32 of
             Some pub \<Rightarrow> if length pub \<noteq> 32 then Inl (Peer_token_bad name)
                         else add_server_peer_pub pubs pub name
           | None \<Rightarrow> Inl (Peer_token_bad name))"

function parse_server_peer_list :: "bytes list \<Rightarrow> string \<Rightarrow> bytes \<Rightarrow> fatal + bytes list" where
  "parse_server_peer_list pubs name s =
     (let p = dropWhile is_pub_sep s
      in if p = [] then Inr pubs
         else case peer_token pubs name (takeWhile (\<lambda>c. \<not> is_pub_sep c) p) of
                Inl e \<Rightarrow> Inl e
              | Inr pubs' \<Rightarrow> parse_server_peer_list pubs' name (dropWhile (\<lambda>c. \<not> is_pub_sep c) p))"
  by pat_completeness auto
termination
proof (relation "measure (\<lambda>(_, _, s). length s)")
  fix s :: bytes and p assume "p = dropWhile is_pub_sep s" "p \<noteq> []"
  then have "\<not> is_pub_sep (hd p)" by (metis hd_dropWhile)
  then have "length (dropWhile (\<lambda>c. \<not> is_pub_sep c) p) < length p"
    using \<open>p \<noteq> []\<close> by (cases p) (simp_all add: length_dropWhile_le less_Suc_eq_le)
  also have "\<dots> \<le> length s" unfolding \<open>p = _\<close> by (rule length_dropWhile_le)
  finally show "((pubs', name, dropWhile (\<lambda>c. \<not> is_pub_sep c) p), pubs, name, s) \<in> measure (\<lambda>(_, _, s). length s)"
    for pubs pubs' :: "bytes list" and name :: string by simp
qed simp

text \<open>The file is read to its end; the list ends at the first zero byte.\<close>

definition load_server_peer_file :: "(bytes \<Rightarrow> bytes option) \<Rightarrow> bytes list \<Rightarrow> bytes \<Rightarrow> fatal + bytes list" where
  "load_server_peer_file file pubs path =
     bindE (orE (file path) Peer_file)
       (\<lambda>buf. parse_server_peer_list pubs ''AWG_CLIENT_PUBS_FILE'' (takeWhile (\<lambda>c. c \<noteq> 0) buf))"

declare parse_server_peer_list.simps [simp del]

section \<open>Templates and fallback stages\<close>

definition zero_range :: hrange where
  "zero_range = \<lparr>h_min = 0, h_max = 0\<rparr>"

text \<open>A profile and a configuration after \<open>memset\<close>.\<close>

definition zero_profile :: awg_profile where
  "zero_profile =
     \<lparr>pr_s1 = 0, pr_s2 = 0, pr_s3 = 0, pr_s4 = 0, pr_h1 = zero_range, pr_h2 = zero_range,
      pr_h3 = zero_range, pr_h4 = zero_range, pr_cps = replicate 5 None, pr_hp_on = False, pr_rt = False,
      pr_h4_fixed = 0, pr_h4_noop = False, pr_init_total = 0, pr_resp_total = 0, pr_cookie_total = 0,
      pr_transport_size_ambiguous = False\<rparr>"

definition zero_config :: awg_config where
  "zero_config =
     \<lparr>c_jc = 0, c_jmin = 0, c_jmax = 0, c_s1 = 0, c_s2 = 0, c_s3 = 0, c_s4 = 0,
      c_h1 = zero_range, c_h2 = zero_range, c_h3 = zero_range, c_h4 = zero_range,
      c_cps = replicate 5 None, c_server_pub = zero_key, c_client_pub = zero_key,
      c_server_peer_pubs = [], c_mac1key_server = zero_key, c_mac1key_client = zero_key,
      c_server_peer_mac1keys = [], c_hp_key = zero_key, c_hp_key_set = False,
      c_h4_fixed = 0, c_h4_noop = False, c_init_total = 0, c_resp_total = 0, c_cookie_total = 0,
      c_hp_on = False, c_rt = False, c_rt_any = False, c_disable_cookies = False, c_udp_window = 0,
      c_has_server_pub = False, c_has_client_pub = False, c_mac1key_out = None, c_mac1key_in = None,
      c_transport_size_ambiguous = False, c_mode = AWG_MODE_NORMAL,
      c_profiles = replicate 4 zero_profile, c_profile_count = 0, c_active_profile = 0,
      c_max_s4 = 0, c_fb_after = 0\<rparr>"

fun cps_stage_loop :: "env \<Rightarrow> nat \<Rightarrow> (nat \<times> string) list \<Rightarrow> cps_template option list
    \<Rightarrow> fatal + cps_template option list" where
  "cps_stage_loop env stage [] cps = Inr cps"
| "cps_stage_loop env stage ((i, suf) # is) cps =
     (case env_value env (fb_name stage suf) of
        None \<Rightarrow> cps_stage_loop env stage is cps
      | Some v \<Rightarrow> bindE (orE (cps_parse v) (Bad_cps (fb_name stage suf)))
                    (\<lambda>t. cps_stage_loop env stage is (cps[i := Some t])))"

definition load_cps_stage :: "env \<Rightarrow> nat \<Rightarrow> awg_profile \<Rightarrow> fatal + awg_profile" where
  "load_cps_stage env stage pr =
     bindE (cps_stage_loop env stage [(0, ''I1''), (1, ''I2''), (2, ''I3''), (3, ''I4''), (4, ''I5'')] (pr_cps pr))
       (\<lambda>cps. Inr (pr\<lparr>pr_cps := cps\<rparr>))"

text \<open>The paddings and switches of a fallback stage.\<close>

definition fb_int :: "env \<Rightarrow> nat \<Rightarrow> string \<Rightarrow> fatal + int" where
  "fb_int env stage suffix = bindE (fb_required env stage suffix) (\<lambda>v. orE (parse_int_str v) Int_overflow)"

definition int_flag :: "bytes \<Rightarrow> bool option" where
  "int_flag v = map_option (\<lambda>n. n \<noteq> 0) (parse_int_str v)"

definition fb_numbers :: "env \<Rightarrow> nat \<Rightarrow> fatal + awg_profile" where
  "fb_numbers env stage =
     bindE (fb_int env stage ''S1'') (\<lambda>s1.
     bindE (fb_int env stage ''S2'') (\<lambda>s2.
     bindE (env_opt env (fb_name stage ''S3'') parse_int_str 0) (\<lambda>s3.
     bindE (env_opt env (fb_name stage ''S4'') parse_int_str 0) (\<lambda>s4.
     bindE (env_opt env (fb_name stage ''HP'') int_flag False) (\<lambda>hp.
     bindE (env_opt env (fb_name stage ''RANDOM_TRAILERS'') parse_bool_str False) (\<lambda>rt.
       Inr (zero_profile\<lparr>pr_s1 := s1, pr_s2 := s2, pr_s3 := s3, pr_s4 := s4, pr_hp_on := hp, pr_rt := rt\<rparr>)))))))"

definition fb_ranges :: "env \<Rightarrow> nat \<Rightarrow> awg_profile \<Rightarrow> fatal + awg_profile" where
  "fb_ranges env stage pr =
     bindE (fb_hrange env stage ''H1'') (\<lambda>h1.
     bindE (fb_hrange env stage ''H2'') (\<lambda>h2.
     bindE (fb_hrange env stage ''H3'') (\<lambda>h3.
     bindE (fb_hrange env stage ''H4'') (\<lambda>h4.
       Inr (pr\<lparr>pr_h1 := h1, pr_h2 := h2, pr_h3 := h3, pr_h4 := h4\<rparr>)))))"

definition parse_fb_stage :: "env \<Rightarrow> awg_config \<Rightarrow> nat \<Rightarrow> fatal + awg_profile option" where
  "parse_fb_stage env cfg stage =
     (if env_value env (fb_name stage ''H1'') = None then Inr None
      else bindE (fb_numbers env stage) (\<lambda>fb.
           if pr_hp_on fb \<and> \<not> c_hp_key_set cfg then Inl (Fb_hp_needs_key (fb_name stage ''HP''))
           else bindE (fb_ranges env stage fb) (\<lambda>fb.
                bindE (load_cps_stage env stage fb) (\<lambda>fb.
                let fb = config_compute_profile fb
                in case config_validate_profile fb of Inl e \<Rightarrow> Inl (Bad_config e) | Inr _ \<Rightarrow> Inr (Some fb)))))"

fun fb_chain :: "env \<Rightarrow> nat list \<Rightarrow> awg_config \<Rightarrow> fatal + awg_config" where
  "fb_chain env [] cfg = Inr cfg"
| "fb_chain env (stage # ss) cfg =
     bindE (parse_fb_stage env cfg stage) (\<lambda>r.
       case r of None \<Rightarrow> Inr cfg
       | Some fb \<Rightarrow> fb_chain env ss (cfg\<lparr>c_profiles := (c_profiles cfg)[stage := fb],
                                        c_profile_count := int stage + 1\<rparr>))"

section \<open>The configuration\<close>

definition read_mode :: "env \<Rightarrow> awg_mode" where
  "read_mode env =
     (case env_value env ''AWG_MODE'' of
        Some (c # _) \<Rightarrow> if c = 114 then AWG_MODE_REVERSE else if c = 115 then AWG_MODE_SERVER else AWG_MODE_NORMAL
      | _ \<Rightarrow> AWG_MODE_NORMAL)"

definition required_names :: "string list" where
  "required_names =
     [''AWG_LISTEN'', ''AWG_REMOTE'', ''AWG_JC'', ''AWG_JMIN'', ''AWG_JMAX'', ''AWG_S1'', ''AWG_S2'',
      ''AWG_H1'', ''AWG_H2'', ''AWG_H3'', ''AWG_H4'', ''AWG_SERVER_PUB'']"

text \<open>The checks before anything is parsed.\<close>

definition check_present :: "env \<Rightarrow> fatal + unit" where
  "check_present env =
     (let errs = concat (map (snd \<circ> getenv_required env) required_names);
          cpub = env_value env ''AWG_CLIENT_PUB''
      in if errs \<noteq> [] then Inl (Missing_env errs)
         else if read_mode env \<noteq> AWG_MODE_SERVER \<and> cpub = None then Inl No_client_pub
         else if read_mode env = AWG_MODE_SERVER \<and> cpub = None \<and>
                 env_value env ''AWG_CLIENT_PUBS'' = None \<and> env_value env ''AWG_CLIENT_PUBS_FILE'' = None
         then Inl No_server_peers
         else Inr ())"

definition req :: "env \<Rightarrow> string \<Rightarrow> bytes" where
  "req env name = fst (getenv_required env name)"

definition req_int :: "env \<Rightarrow> string \<Rightarrow> fatal + int" where
  "req_int env name = orE (parse_int_str (req env name)) Int_overflow"

definition read_numbers :: "env \<Rightarrow> awg_config \<Rightarrow> fatal + awg_config" where
  "read_numbers env cfg =
     bindE (req_int env ''AWG_JC'') (\<lambda>jc.
     bindE (req_int env ''AWG_JMIN'') (\<lambda>jmin.
     bindE (req_int env ''AWG_JMAX'') (\<lambda>jmax.
     bindE (req_int env ''AWG_S1'') (\<lambda>s1.
     bindE (req_int env ''AWG_S2'') (\<lambda>s2.
       Inr (cfg\<lparr>c_jc := jc, c_jmin := jmin, c_jmax := jmax, c_s1 := s1, c_s2 := s2\<rparr>))))))"

definition req_range :: "env \<Rightarrow> string \<Rightarrow> fatal + hrange" where
  "req_range env name = orE (parse_hrange (req env name)) (Bad_range name)"

definition read_ranges :: "env \<Rightarrow> awg_config \<Rightarrow> fatal + awg_config" where
  "read_ranges env cfg =
     bindE (req_range env ''AWG_H1'') (\<lambda>h1.
     bindE (req_range env ''AWG_H2'') (\<lambda>h2.
     bindE (req_range env ''AWG_H3'') (\<lambda>h3.
     bindE (req_range env ''AWG_H4'') (\<lambda>h4.
       Inr (cfg\<lparr>c_h1 := h1, c_h2 := h2, c_h3 := h3, c_h4 := h4\<rparr>)))))"

definition pub32 :: "bytes \<Rightarrow> bytes option" where
  "pub32 s = (case base64_decode s 32 of Some k \<Rightarrow> if length k = 32 then Some k else None | None \<Rightarrow> None)"

definition read_pubs :: "env \<Rightarrow> awg_config \<Rightarrow> fatal + awg_config" where
  "read_pubs env cfg =
     bindE (orE (pub32 (req env ''AWG_SERVER_PUB'')) Bad_server_pub) (\<lambda>spub.
     bindE (case env_value env ''AWG_CLIENT_PUB'' of
              None \<Rightarrow> Inr (c_client_pub cfg)
            | Some v \<Rightarrow> orE (pub32 v) Bad_client_pub) (\<lambda>cpub.
       Inr (cfg\<lparr>c_server_pub := spub, c_client_pub := cpub\<rparr>)))"

definition read_peers :: "env \<Rightarrow> (bytes \<Rightarrow> bytes option) \<Rightarrow> awg_config \<Rightarrow> fatal + awg_config" where
  "read_peers env file cfg =
     (if c_mode cfg \<noteq> AWG_MODE_SERVER then Inr cfg
      else bindE (case env_value env ''AWG_CLIENT_PUBS'' of
                    None \<Rightarrow> Inr (c_server_peer_pubs cfg)
                  | Some v \<Rightarrow> parse_server_peer_list (c_server_peer_pubs cfg) ''AWG_CLIENT_PUBS'' v) (\<lambda>pubs.
           bindE (case env_value env ''AWG_CLIENT_PUBS_FILE'' of
                    None \<Rightarrow> Inr pubs
                  | Some path \<Rightarrow> load_server_peer_file file pubs path) (\<lambda>pubs.
             Inr (cfg\<lparr>c_server_peer_pubs := pubs\<rparr>))))"

definition read_hp :: "env \<Rightarrow> awg_config \<Rightarrow> fatal + awg_config" where
  "read_hp env cfg =
     (case env_value env ''AWG_HEADER_PROTECTION_KEY'' of
        None \<Rightarrow> Inr cfg
      | Some v \<Rightarrow> bindE (orE (decode_key32 v) Bad_hp_key) (\<lambda>k.
          Inr (cfg\<lparr>c_hp_key := k, c_hp_key_set := k \<noteq> zero_key, c_hp_on := k \<noteq> zero_key\<rparr>)))"

definition read_options :: "env \<Rightarrow> awg_config \<Rightarrow> fatal + awg_config" where
  "read_options env cfg =
     bindE (env_opt env ''AWG_S3'' parse_int_str (c_s3 cfg)) (\<lambda>s3.
     bindE (env_opt env ''AWG_S4'' parse_int_str (c_s4 cfg)) (\<lambda>s4.
     bindE (read_hp env (cfg\<lparr>c_s3 := s3, c_s4 := s4\<rparr>)) (\<lambda>cfg.
     bindE (env_opt env ''AWG_RANDOM_TRAILERS'' parse_bool_str (c_rt cfg)) (\<lambda>rt.
     bindE (env_opt env ''AWG_DISABLE_COOKIES'' parse_bool_str (c_disable_cookies cfg)) (\<lambda>dc.
       Inr (cfg\<lparr>c_rt := rt, c_disable_cookies := dc\<rparr>))))))"

text \<open>Validation, the templates of the primary profile, the derived fields.\<close>

definition finish_primary :: "env \<Rightarrow> awg_config \<Rightarrow> fatal + awg_config" where
  "finish_primary env cfg =
     (case config_validate cfg of
        Inl e \<Rightarrow> Inl (Bad_config e)
      | Inr _ \<Rightarrow>
          bindE (load_cps_stage env 0 (hd (c_profiles cfg))) (\<lambda>pr.
            Inr (config_compute (cfg\<lparr>c_profiles := (c_profiles cfg)[0 := pr], c_cps := pr_cps pr\<rparr>))))"

definition read_fb_after :: "env \<Rightarrow> fatal + int" where
  "read_fb_after env =
     bindE (env_opt env ''AWG_FB_AFTER'' (map_option (max 5) \<circ> parse_int_str) 20) Inr"

definition main_config :: "env \<Rightarrow> (bytes \<Rightarrow> bytes option) \<Rightarrow> fatal + awg_config" where
  "main_config env file =
     bindE (check_present env) (\<lambda>_.
     bindE (read_numbers env (zero_config\<lparr>c_mode := read_mode env\<rparr>)) (\<lambda>cfg.
     bindE (read_ranges env cfg) (\<lambda>cfg.
     bindE (read_pubs env cfg) (\<lambda>cfg.
     bindE (read_peers env file cfg) (\<lambda>cfg.
     bindE (read_options env cfg) (\<lambda>cfg.
     bindE (finish_primary env cfg) (\<lambda>cfg.
     bindE (read_fb_after env) (\<lambda>fb_after.
     bindE (fb_chain env [1, 2, 3] (cfg\<lparr>c_fb_after := fb_after\<rparr>)) (\<lambda>cfg.
       Inr (config_compute_max_s4 cfg))))))))))"

section \<open>The settings\<close>

definition str :: "string \<Rightarrow> bytes" where
  "str = map of_char"

definition read_log_level :: "env \<Rightarrow> nat" where
  "read_log_level env =
     (case env ''AWG_LOG_LEVEL'' of
        None \<Rightarrow> 2
      | Some v \<Rightarrow> if char_at v 0 = 110 then 0 else if char_at v 0 = 101 then 1
                  else if char_at v 0 = 105 then 2 else if char_at v 0 = 100 then 3 else 2)"

definition read_rot_time :: "env \<Rightarrow> u32 \<times> u32" where
  "read_rot_time env =
     (case env_value env ''AWG_PORT_ROTATE'' of
        None \<Rightarrow> (1800, 7200)
      | Some v \<Rightarrow> if v = str ''0'' \<or> v = str ''off'' then (0, 0)
                  else case rot_parse_span v True of None \<Rightarrow> (1800, 7200) | Some r \<Rightarrow> r)"

definition read_rot_mb :: "env \<Rightarrow> u32 \<times> u32" where
  "read_rot_mb env =
     (case env_value env ''AWG_PORT_ROTATE_MB'' of
        None \<Rightarrow> (0, 0)
      | Some v \<Rightarrow> if v = str ''0'' \<or> v = str ''off'' then (0, 0)
                  else case rot_parse_span v False of None \<Rightarrow> (0, 0) | Some r \<Rightarrow> r)"

definition read_rot_soft :: "env \<Rightarrow> fatal + int" where
  "read_rot_soft env =
     (case env_value env ''AWG_PORT_ROTATE_SOFT'' of
        None \<Rightarrow> Inr (-1)
      | Some v \<Rightarrow> if v = str ''auto'' then Inr (-1)
                  else bindE (orE (parse_bool_str v) Int_overflow) (\<lambda>b. Inr (of_bool b)))"

definition read_src_port :: "env \<Rightarrow> fatal + int" where
  "read_src_port env =
     (case env_value env ''AWG_SRC_PORT'' of
        None \<Rightarrow> Inr (-1)
      | Some v \<Rightarrow> if v = str ''random'' then Inr (-1) else if v = str ''auto'' then Inr 0
                  else orE (parse_int_str v) Int_overflow)"

text \<open>\<open>AWG_SPIN\<close>: the budget, and whether it tunes itself.\<close>

definition read_spin :: "env \<Rightarrow> fatal + int \<times> bool" where
  "read_spin env =
     (case env_value env ''AWG_SPIN'' of
        None \<Rightarrow> Inr (0, False)
      | Some v \<Rightarrow> if char_at v 0 = 97 \<or> char_at v 0 = 65 then Inr (200, True)
                  else bindE (orE (parse_int_str v) Int_overflow) (\<lambda>n. Inr (n, False)))"

definition read_socket_buf :: "env \<Rightarrow> fatal + int \<times> bool" where
  "read_socket_buf env =
     (case env_value env ''AWG_SOCKET_BUF'' of
        None \<Rightarrow> Inr (16 * 1024 * 1024, True)
      | Some v \<Rightarrow> bindE (orE (parse_int_str v) Int_overflow) (\<lambda>n. Inr (n, False)))"

definition clamp :: "int \<Rightarrow> int \<Rightarrow> int \<Rightarrow> int" where
  "clamp lo hi v = (let v = (if v < lo then lo else v) in if v > hi then hi else v)"

definition env_int :: "env \<Rightarrow> string \<Rightarrow> int \<Rightarrow> fatal + int" where
  "env_int env name d = env_opt env name parse_int_str d"

definition read_settings :: "env \<Rightarrow> fatal + awg_tuning" where
  "read_settings env =
     bindE (env_int env ''AWG_TIMEOUT'' 60) (\<lambda>timeout.
     bindE (env_int env ''AWG_DNS_REFRESH'' 60) (\<lambda>dns.
     bindE (read_rot_soft env) (\<lambda>soft.
     bindE (env_opt env ''AWG_HE_DELAY'' (map_option (clamp 0 5000) \<circ> parse_int_str) 250) (\<lambda>he.
     bindE (read_socket_buf env) (\<lambda>sb.
     bindE (read_src_port env) (\<lambda>src.
     bindE (env_int env ''AWG_CPU_C2S'' (-1)) (\<lambda>c2s.
     bindE (env_int env ''AWG_CPU_S2C'' (-1)) (\<lambda>s2c.
     bindE (env_int env ''AWG_BUSY_POLL'' 0) (\<lambda>busy.
     bindE (read_spin env) (\<lambda>spin.
     bindE (env_int env ''AWG_NO_GRO'' 0) (\<lambda>no_gro.
     bindE (env_int env ''AWG_NO_GSO'' 0) (\<lambda>no_gso.
     bindE (env_opt env ''AWG_RT'' (map_option (clamp 0 50) \<circ> parse_int_str) 0) (\<lambda>rt.
     bindE (env_int env ''AWG_STATS'' 0) (\<lambda>stats.
     bindE (env_int env ''AWG_NO_DF'' 0) (\<lambda>no_df.
       Inr \<lparr>t_timeout = timeout, t_dns_refresh = (if dns < 0 then 0 else dns),
            t_rot_t_lo = fst (read_rot_time env), t_rot_t_hi = snd (read_rot_time env),
            t_rot_mb_lo = fst (read_rot_mb env), t_rot_mb_hi = snd (read_rot_mb env),
            t_rot_soft = soft, t_he_delay = he,
            t_state_file = (case env ''AWG_STATE_FILE'' of None \<Rightarrow> str ''/etc/awg-proxy.state'' | Some v \<Rightarrow> v),
            t_log_level = read_log_level env, t_socket_buf = fst sb, t_socket_buf_auto = snd sb,
            t_src_port = src, t_cpu_c2s = c2s, t_cpu_s2c = s2c, t_busy_poll = busy,
            t_spin_us = fst spin, t_spin_auto = snd spin, t_no_gro = no_gro, t_no_gso = no_gso,
            t_rt_prio = rt,
            t_rps_mask = (case env_value env ''AWG_RPS'' of None \<Rightarrow> [] | Some v \<Rightarrow> take 15 v),
            t_no_df = no_df, t_stats_interval = stats\<rparr>)))))))))))))))"

text \<open>
  The cores of the process: \<open>None\<close> when \<open>sched_getaffinity\<close> fails, otherwise their number and
  the mask of the first 32.  The result says whether the router is a strong one.
\<close>

definition fit_perf_to_hardware :: "(int \<times> u32) option \<Rightarrow> bool \<Rightarrow> awg_tuning \<Rightarrow> awg_tuning \<times> bool" where
  "fit_perf_to_hardware affinity wide t =
     (case affinity of
        None \<Rightarrow> (t, True)
      | Some (ncpu, allowed) \<Rightarrow>
          if ncpu \<le> 0 then (t, True) else (fst (perf_fit_hw t ncpu allowed wide), hw_strong ncpu wide))"

definition finish_settings :: "(int \<times> u32) option \<Rightarrow> bool \<Rightarrow> awg_tuning \<Rightarrow> awg_tuning" where
  "finish_settings affinity wide t =
     (let t = (if t_rt_prio t > 0 \<and> (t_spin_us t > 0 \<or> t_spin_auto t) then t\<lparr>t_rt_prio := 0\<rparr> else t);
          (t, strong) = fit_perf_to_hardware affinity wide t;
          t = (if strong \<and> t_socket_buf_auto t then t\<lparr>t_socket_buf_auto := False\<rparr> else t)
      in if t_rot_soft t < 0 then t\<lparr>t_rot_soft := of_bool strong\<rparr> else t)"

definition main_settings :: "env \<Rightarrow> (int \<times> u32) option \<Rightarrow> bool \<Rightarrow> fatal + awg_tuning" where
  "main_settings env affinity wide = bindE (read_settings env) (\<lambda>t. Inr (finish_settings affinity wide t))"

text \<open>The protocol version of the start-up line.\<close>

definition proto_version :: "awg_config \<Rightarrow> string" where
  "proto_version cfg =
     (if c_rt cfg \<or> c_disable_cookies cfg then ''v3.1''
      else if c_hp_key_set cfg then ''v3''
      else if c_s3 cfg > 0 \<or> c_s4 cfg > 0 \<or>
              list_ex (\<lambda>h. h_min h \<noteq> h_max h) [c_h1 cfg, c_h2 cfg, c_h3 cfg, c_h4 cfg] then ''v2''
      else if list_ex (\<lambda>t. t \<noteq> None) (c_cps cfg) then ''v1.5''
      else ''v1'')"

section \<open>Facts on the parsers\<close>

lemma parse_hrange_ordered: "parse_hrange s = Some r \<Longrightarrow> hrange_ordered r"
  by (auto simp: parse_hrange_def hrange_ordered_def Let_def not_less split: if_splits)

lemma hex_pairs_length: "hex_pairs s = Some bs \<Longrightarrow> length bs = length s div 2"
  by (induction s arbitrary: bs rule: hex_pairs.induct) (auto simp: Let_def split: if_splits)

lemma decode_key32_length: "decode_key32 s = Some k \<Longrightarrow> length k = 32"
  by (auto simp: decode_key32_def split: if_splits option.splits dest!: hex_pairs_length)

lemma pub32_length: "pub32 s = Some k \<Longrightarrow> length k = 32"
  by (auto simp: pub32_def split: if_splits option.splits)

lemma length_zero_key [simp]: "length zero_key = 32"
  by (simp add: zero_key_def)

definition peers_ok :: "bytes list \<Rightarrow> bool" where
  "peers_ok pubs \<longleftrightarrow> distinct pubs \<and> length pubs \<le> 256 \<and> list_all (\<lambda>p. length p = 32) pubs"

lemma peer_token_ok: "peer_token pubs name tok = Inr pubs' \<Longrightarrow> peers_ok pubs \<Longrightarrow> peers_ok pubs'"
  by (auto simp: peer_token_def add_server_peer_pub_def peers_ok_def split: if_splits option.splits)

lemma peer_list_ok: "parse_server_peer_list pubs name s = Inr pubs' \<Longrightarrow> peers_ok pubs \<Longrightarrow> peers_ok pubs'"
proof (induction pubs name s rule: parse_server_peer_list.induct)
  case (1 pubs name s)
  let ?p = "dropWhile is_pub_sep s"
  show ?case
  proof (cases "?p = []")
    case True
    then show ?thesis using "1.prems" by (simp add: parse_server_peer_list.simps [of pubs name s])
  next
    case False
    then obtain q where q: "peer_token pubs name (takeWhile (\<lambda>c. \<not> is_pub_sep c) ?p) = Inr q"
      and r: "parse_server_peer_list q name (dropWhile (\<lambda>c. \<not> is_pub_sep c) ?p) = Inr pubs'"
      using "1.prems"(1) unfolding parse_server_peer_list.simps [of pubs name s] Let_def if_not_P [OF False]
      by (auto split: sum.splits)
    show ?thesis by (rule "1.IH" [OF refl False q r peer_token_ok [OF q "1.prems"(2)]])
  qed
qed

definition cps_ok :: "cps_template option list \<Rightarrow> bool" where
  "cps_ok cps \<longleftrightarrow> length cps = 5 \<and> (\<forall>t. Some t \<in> set cps \<longrightarrow> wf_template t)"

lemma cps_ok_update: "cps_ok cps \<Longrightarrow> wf_template t \<Longrightarrow> cps_ok (cps[i := Some t])"
  unfolding cps_ok_def by (auto dest!: set_update_subset_insert [THEN subsetD])

lemma cps_stage_loop_ok: "cps_stage_loop env stage is cps = Inr cps' \<Longrightarrow> cps_ok cps \<Longrightarrow> cps_ok cps'"
  by (induction env stage "is" cps rule: cps_stage_loop.induct)
    (auto simp: return_iff cps_ok_update cps_parse_wf split: option.splits)

lemma load_cps_stage_ok:
  assumes "load_cps_stage env stage pr = Inr pr'" "cps_ok (pr_cps pr)"
  shows "cps_ok (pr_cps pr') \<and> pr' = pr\<lparr>pr_cps := pr_cps pr'\<rparr>"
  using assms cps_stage_loop_ok by (auto simp: load_cps_stage_def return_iff simp del: cps_stage_loop.simps)

section \<open>A configuration the start-up accepts\<close>

text \<open>What a profile of the chain satisfies beyond \<open>wf_profile\<close>.\<close>

definition stage_ok :: "awg_config \<Rightarrow> awg_profile \<Rightarrow> bool" where
  "stage_ok cfg pr \<longleftrightarrow> wf_profile pr \<and> (pr_hp_on pr \<longrightarrow> c_hp_key cfg \<noteq> zero_key) \<and> cps_ok (pr_cps pr)"

lemma fb_hrange_ordered: "fb_hrange env stage suf = Inr r \<Longrightarrow> hrange_ordered r"
  by (auto simp: fb_hrange_def return_iff dest: parse_hrange_ordered)

lemma fb_numbers_cps: "fb_numbers env stage = Inr fb \<Longrightarrow> pr_cps fb = replicate 5 None"
  by (auto simp: fb_numbers_def return_iff zero_profile_def)

lemma cps_ok_none [simp]: "cps_ok (replicate 5 None)"
  by (simp add: cps_ok_def)

lemma parse_fb_stage_ok:
  assumes "parse_fb_stage env cfg stage = Inr (Some fb)" "c_hp_key_set cfg \<longleftrightarrow> c_hp_key cfg \<noteq> zero_key"
  shows "stage_ok cfg fb"
proof -
  obtain a b c where a: "fb_numbers env stage = Inr a" "pr_hp_on a \<longrightarrow> c_hp_key_set cfg"
    and b: "fb_ranges env stage a = Inr b" and c: "load_cps_stage env stage b = Inr c"
    and fb: "fb = config_compute_profile c" and v: "config_validate_profile fb = Inr ()"
    using assms(1) by (auto simp: parse_fb_stage_def return_iff Let_def split: if_splits)
  obtain h1 h2 h3 h4 where h: "fb_hrange env stage ''H1'' = Inr h1" "fb_hrange env stage ''H2'' = Inr h2"
    "fb_hrange env stage ''H3'' = Inr h3" "fb_hrange env stage ''H4'' = Inr h4"
    and b': "b = a\<lparr>pr_h1 := h1, pr_h2 := h2, pr_h3 := h3, pr_h4 := h4\<rparr>"
    using b by (auto simp: fb_ranges_def return_iff)
  have "cps_ok (pr_cps b)" using fb_numbers_cps [OF a(1)] by (simp add: b')
  from load_cps_stage_ok [OF c this] have k: "cps_ok (pr_cps c)" "c = b\<lparr>pr_cps := pr_cps c\<rparr>" by simp_all
  have f: "pr_h1 c = h1" "pr_h2 c = h2" "pr_h3 c = h3" "pr_h4 c = h4" "pr_hp_on c = pr_hp_on a"
    by (subst k(2), simp add: b')+
  show ?thesis using v k(1) a(2) assms(2) h [THEN fb_hrange_ordered]
    by (simp add: stage_ok_def wf_profile_def fb f)
qed

text \<open>Between two stages of the chain.\<close>

definition chain_ok :: "awg_config \<Rightarrow> bool" where
  "chain_ok cfg \<longleftrightarrow> wf_config cfg \<and> c_active_profile cfg = 0 \<and> (c_hp_key_set cfg \<longleftrightarrow> c_hp_key cfg \<noteq> zero_key) \<and>
     list_all (stage_ok cfg) (take (nat (c_profile_count cfg)) (c_profiles cfg))"

lemma chain_ok_add:
  assumes "chain_ok cfg" "stage_ok cfg fb" "c_profile_count cfg = int stage" "stage < 4"
  shows "chain_ok (cfg\<lparr>c_profiles := (c_profiles cfg)[stage := fb], c_profile_count := int stage + 1\<rparr>)"
proof -
  have l: "length (c_profiles cfg) = 4" "1 \<le> stage" using assms(1,3) by (simp_all add: chain_ok_def wf_config_def)
  have t: "take (Suc stage) ((c_profiles cfg)[stage := fb]) = take stage (c_profiles cfg) @ [fb]"
    using l assms(4) by (simp add: take_Suc_conv_app_nth)
  have "profile_at cfg 0 = Some (config_snapshot_profile cfg)"
    using assms(1) by (auto simp: chain_ok_def wf_config_def mirrored_def config_active_profile_def)
  then have "(c_profiles cfg)[stage := fb] ! 0 = config_snapshot_profile cfg"
    using l by (simp add: profile_at_def split: if_splits)
  moreover have "config_snapshot_profile (cfg\<lparr>c_profiles := ps, c_profile_count := n\<rparr>) = config_snapshot_profile cfg" for ps n
    by (simp add: config_snapshot_profile_def)
  moreover have "stage_ok (cfg\<lparr>c_profiles := ps, c_profile_count := n\<rparr>) = stage_ok cfg" for ps n
    by (simp add: fun_eq_iff stage_ok_def)
  moreover have "nat (int stage + 1) = Suc stage" "wf_profile fb" using assms(2) by (simp_all add: stage_ok_def)
  ultimately show ?thesis using assms l t
    by (simp add: chain_ok_def wf_config_def mirrored_def config_active_profile_def profile_at_def)
qed

lemma fb_chain_ok:
  assumes "fb_chain env [k..<4] cfg = Inr cfg'" "chain_ok cfg" "c_profile_count cfg = int k" "k \<le> 4"
  shows "chain_ok cfg' \<and> (\<exists>ps n. cfg' = cfg\<lparr>c_profiles := ps, c_profile_count := n\<rparr>)"
  using assms
proof (induction "4 - k" arbitrary: k cfg)
  case 0
  then have "cfg' = cfg\<lparr>c_profiles := c_profiles cfg, c_profile_count := c_profile_count cfg\<rparr>" by simp
  then show ?case using 0 by (metis add.right_neutral diff_is_0_eq fb_chain.simps(1) nat_le_linear sum.inject(2) upt_eq_Nil_conv)
next
  case (Suc n)
  then have k: "k < 4" "n = 4 - Suc k" "[k..<4] = k # [Suc k..<4]" by (simp_all add: upt_rec)
  then obtain r where r: "parse_fb_stage env cfg k = Inr r"
    and c: "(case r of None \<Rightarrow> Inr cfg | Some fb \<Rightarrow> fb_chain env [Suc k..<4]
      (cfg\<lparr>c_profiles := (c_profiles cfg)[k := fb], c_profile_count := int k + 1\<rparr>)) = Inr cfg'"
    using Suc.prems(1) by (auto simp: return_iff)
  show ?case
  proof (cases r)
    case None
    then have "cfg' = cfg\<lparr>c_profiles := c_profiles cfg, c_profile_count := c_profile_count cfg\<rparr>" using c by simp
    then show ?thesis using None c Suc.prems(2) by (metis option.simps(4) sum.inject(2))
  next
    case (Some fb)
    let ?d = "cfg\<lparr>c_profiles := (c_profiles cfg)[k := fb], c_profile_count := int k + 1\<rparr>"
    have "stage_ok cfg fb" using parse_fb_stage_ok r Some Suc.prems(2) by (auto simp: chain_ok_def)
    then have ok: "chain_ok ?d" by (rule chain_ok_add [OF Suc.prems(2) _ Suc.prems(3) k(1)])
    have "fb_chain env [Suc k..<4] ?d = Inr cfg'" using c Some by simp
    from Suc.hyps(1) [OF k(2) this ok] k(1) obtain ps m where "chain_ok cfg'" "cfg' = ?d\<lparr>c_profiles := ps, c_profile_count := m\<rparr>"
      by auto
    then show ?thesis by auto
  qed
qed

text \<open>The fields \<open>config_compute\<close> shares between the profiles.\<close>

definition shared where
  "shared cfg = (c_server_pub cfg, c_client_pub cfg, c_server_peer_pubs cfg, c_hp_key cfg, c_hp_key_set cfg,
     c_server_peer_mac1keys cfg, c_jc cfg, c_jmin cfg, c_jmax cfg, c_mode cfg)"

lemma shared_steps:
  "shared (config_compute_max_s4 cfg) = shared cfg" "shared (start_chain cfg) = shared cfg"
  "shared (floor_window cfg) = shared cfg" "shared (select_mac1 cfg) = shared cfg"
  "shared (compute_flat cfg) = shared cfg"
  by (simp_all add: shared_def config_compute_max_s4_def start_chain_def floor_window_def select_mac1_def
      compute_flat_def Let_def split: prod.split)

lemma shared_compute: "shared (config_compute cfg) = shared (compute_keys cfg)"
  by (simp add: config_compute_def shared_steps)

lemma compute_shared [simp]:
  "c_server_pub (config_compute cfg) = c_server_pub cfg" "c_client_pub (config_compute cfg) = c_client_pub cfg"
  "c_server_peer_pubs (config_compute cfg) = c_server_peer_pubs cfg" "c_hp_key (config_compute cfg) = c_hp_key cfg"
  "c_hp_key_set (config_compute cfg) \<longleftrightarrow> c_hp_key cfg \<noteq> zero_key"
  "c_server_peer_mac1keys (config_compute cfg) = map compute_mac1_key (c_server_peer_pubs cfg)"
  "c_jc (config_compute cfg) = c_jc cfg" "c_jmin (config_compute cfg) = c_jmin cfg"
  "c_jmax (config_compute cfg) = c_jmax cfg" "c_mode (config_compute cfg) = c_mode cfg"
  using shared_compute [of cfg] by (simp_all add: shared_def compute_keys_def)

lemma compute_primary:
  assumes "c_profiles cfg \<noteq> []" "c_profile_count cfg \<le> 1"
  shows "take (nat (c_profile_count (config_compute cfg))) (c_profiles (config_compute cfg)) =
    [config_compute_profile ((flat_profile cfg)\<lparr>pr_cps := c_cps cfg, pr_rt := c_rt cfg\<rparr>)]"
proof (cases "c_profiles cfg")
  case (Cons p ps)
  then show ?thesis using assms(2) by (simp add: config_compute_def)
qed (simp add: assms(1))

text \<open>The configuration while it is read, before the derived fields.\<close>

definition raw_ok :: "awg_config \<Rightarrow> bool" where
  "raw_ok cfg \<longleftrightarrow> c_profiles cfg = replicate 4 zero_profile \<and> c_profile_count cfg = 0 \<and>
     list_all hrange_ordered [c_h1 cfg, c_h2 cfg, c_h3 cfg, c_h4 cfg] \<and>
     list_all (\<lambda>k. length k = 32) [c_hp_key cfg, c_server_pub cfg, c_client_pub cfg] \<and>
     peers_ok (c_server_peer_pubs cfg) \<and> (c_hp_on cfg \<longrightarrow> c_hp_key cfg \<noteq> zero_key)"

lemma zero_config_ok: "raw_ok (zero_config\<lparr>c_mode := m\<rparr>)"
  by (simp add: raw_ok_def zero_config_def zero_range_def hrange_ordered_def peers_ok_def)

lemma read_numbers_ok: "read_numbers env cfg = Inr c \<Longrightarrow> raw_ok cfg \<Longrightarrow> raw_ok c"
  by (clarsimp simp: read_numbers_def return_iff raw_ok_def)

lemma read_ranges_ok: "read_ranges env cfg = Inr c \<Longrightarrow> raw_ok cfg \<Longrightarrow> raw_ok c"
  by (clarsimp simp: read_ranges_def req_range_def return_iff raw_ok_def parse_hrange_ordered)

lemma read_pubs_ok:
  assumes "read_pubs env cfg = Inr c" "raw_ok cfg" shows "raw_ok c"
proof -
  obtain a b where "pub32 (req env ''AWG_SERVER_PUB'') = Some a"
    and b: "(case env_value env ''AWG_CLIENT_PUB'' of None \<Rightarrow> Inr (c_client_pub cfg) | Some v \<Rightarrow> orE (pub32 v) Bad_client_pub) = Inr b"
    and c: "c = cfg\<lparr>c_server_pub := a, c_client_pub := b\<rparr>"
    using assms(1) by (auto simp: read_pubs_def return_iff)
  then have "length a = 32" by (simp add: pub32_length)
  moreover have "length b = 32"
    using b assms(2) by (auto simp: raw_ok_def return_iff pub32_length split: option.splits)
  ultimately show ?thesis using assms(2) by (simp add: raw_ok_def c)
qed

lemma read_peers_ok:
  assumes "read_peers env file cfg = Inr c" "raw_ok cfg" shows "raw_ok c"
proof (cases "c_mode cfg = AWG_MODE_SERVER")
  case True
  then obtain a b where a: "(case env_value env ''AWG_CLIENT_PUBS'' of None \<Rightarrow> Inr (c_server_peer_pubs cfg)
      | Some v \<Rightarrow> parse_server_peer_list (c_server_peer_pubs cfg) ''AWG_CLIENT_PUBS'' v) = Inr a"
    and b: "(case env_value env ''AWG_CLIENT_PUBS_FILE'' of None \<Rightarrow> Inr a | Some path \<Rightarrow> load_server_peer_file file a path) = Inr b"
    and c: "c = cfg\<lparr>c_server_peer_pubs := b\<rparr>"
    using assms(1) by (auto simp: read_peers_def return_iff)
  have "peers_ok a" using a assms(2) by (auto simp: raw_ok_def split: option.splits dest: peer_list_ok)
  then have "peers_ok b"
    using b by (auto simp: load_server_peer_file_def return_iff split: option.splits dest: peer_list_ok)
  then show ?thesis using assms(2) by (simp add: raw_ok_def c)
qed (use assms in \<open>simp add: read_peers_def\<close>)

lemma read_hp_ok: "read_hp env cfg = Inr c \<Longrightarrow> raw_ok cfg \<Longrightarrow> raw_ok c"
  by (auto simp: read_hp_def return_iff raw_ok_def decode_key32_length split: option.splits)

lemma read_options_ok:
  assumes "read_options env cfg = Inr c" "raw_ok cfg" shows "raw_ok c"
proof -
  obtain s3 s4 d rt dc where d: "read_hp env (cfg\<lparr>c_s3 := s3, c_s4 := s4\<rparr>) = Inr d"
    and c: "c = d\<lparr>c_rt := rt, c_disable_cookies := dc\<rparr>"
    using assms(1) by (auto simp: read_options_def return_iff)
  have "raw_ok (cfg\<lparr>c_s3 := s3, c_s4 := s4\<rparr>)" using assms(2) by (simp add: raw_ok_def)
  from read_hp_ok [OF d this] show ?thesis by (simp add: raw_ok_def c)
qed

lemma finish_primary_ok:
  assumes "finish_primary env cfg = Inr c" "raw_ok cfg"
  shows "chain_ok c" "c_profile_count c = 1" "shared c = shared (compute_keys cfg)" "c_jc cfg > 0 \<longrightarrow> c_jmin cfg \<le> c_jmax cfg"
proof -
  obtain pr where v: "config_validate cfg = Inr ()" and pr: "load_cps_stage env 0 (hd (c_profiles cfg)) = Inr pr"
    and c: "c = config_compute (cfg\<lparr>c_profiles := (c_profiles cfg)[0 := pr], c_cps := pr_cps pr\<rparr>)"
    using assms(1) by (auto simp: finish_primary_def return_iff)
  let ?d = "cfg\<lparr>c_profiles := (c_profiles cfg)[0 := pr], c_cps := pr_cps pr\<rparr>"
  have cps: "cps_ok (pr_cps pr)"
    using load_cps_stage_ok [OF pr] assms(2) by (simp add: raw_ok_def zero_profile_def)
  have fl: "flat_profile ?d = flat_profile cfg" by (simp add: flat_profile_def)
  have "config_validate ?d = config_validate cfg" unfolding config_validate_def fl by simp
  then have d: "config_validate ?d = Inr ()" "length (c_profiles ?d) = 4" "c_profile_count ?d \<le> 1"
    "list_all hrange_ordered [c_h1 ?d, c_h2 ?d, c_h3 ?d, c_h4 ?d]"
    using v assms(2) by (simp_all add: raw_ok_def)
  note wf = config_compute_wf [OF d]
  have p: "take (nat (c_profile_count c)) (c_profiles c) =
      [config_compute_profile ((flat_profile ?d)\<lparr>pr_cps := c_cps ?d, pr_rt := c_rt ?d\<rparr>)]"
    unfolding c using d(2,3) by (intro compute_primary) auto
  have "list_all wf_profile (take (nat (c_profile_count c)) (c_profiles c))" using wf(1) by (simp add: c wf_config_def)
  then have "list_all (stage_ok c) (take (nat (c_profile_count c)) (c_profiles c))"
    unfolding p using cps assms(2) by (simp add: stage_ok_def fl c raw_ok_def) (simp add: flat_profile_def)
  then show "chain_ok c" using wf by (simp add: chain_ok_def c)
  show "c_profile_count c = 1" using assms(2) by (simp add: c config_compute_def raw_ok_def)
  show "shared c = shared (compute_keys cfg)"
    unfolding c shared_compute by (simp add: shared_def compute_keys_def)
  show "c_jc cfg > 0 \<longrightarrow> c_jmin cfg \<le> c_jmax cfg" using v by (auto simp: config_validate_def split: if_splits)
qed

lemma chain_ok_fb_after:
  assumes "chain_ok cfg" shows "chain_ok (cfg\<lparr>c_fb_after := n\<rparr>)"
proof -
  have "stage_ok (cfg\<lparr>c_fb_after := n\<rparr>) = stage_ok cfg" by (simp add: fun_eq_iff stage_ok_def)
  moreover have "config_snapshot_profile (cfg\<lparr>c_fb_after := n\<rparr>) = config_snapshot_profile cfg"
    by (simp add: config_snapshot_profile_def)
  ultimately show ?thesis using assms
    by (auto simp: chain_ok_def wf_config_def mirrored_def config_active_profile_def profile_at_def split: if_splits)
qed

lemma compute_max_s4_result:
  assumes "chain_ok cfg"
  shows "chain_ok (config_compute_max_s4 cfg)" "c_profiles (config_compute_max_s4 cfg) = c_profiles cfg"
    "\<forall>pr \<in> set (take (nat (c_profile_count cfg)) (c_profiles cfg)).
       pr_s4 pr \<le> c_max_s4 (config_compute_max_s4 cfg) \<and> (pr_rt pr \<longrightarrow> c_rt_any (config_compute_max_s4 cfg))"
    "0 \<le> c_max_s4 (config_compute_max_s4 cfg)" "c_max_s4 (config_compute_max_s4 cfg) \<le> 256"
proof -
  let ?ps = "take (nat (c_profile_count cfg)) (c_profiles cfg)"
  have w: "wf_config cfg" "list_all (stage_ok cfg) ?ps" using assms by (simp_all add: chain_ok_def)
  then have n: "c_profile_count cfg > 0" by (simp add: wf_config_def)
  have m: "config_compute_max_s4 cfg =
      cfg\<lparr>c_max_s4 := Max (insert 0 (pr_s4 ` set ?ps)), c_rt_any := \<exists>pr \<in> set ?ps. pr_rt pr\<rparr>"
    using n by (simp add: config_compute_max_s4_def Let_def max_s4_loop_result)
  have "stage_ok (config_compute_max_s4 cfg) = stage_ok cfg" unfolding m by (simp add: fun_eq_iff stage_ok_def)
  moreover have "wf_config (config_compute_max_s4 cfg)"
    using w(1) by (auto simp: wf_config_def mirrored_def config_active_profile_def profile_at_def split: if_splits)
  ultimately show "chain_ok (config_compute_max_s4 cfg)"
    using assms by (simp add: chain_ok_def) (simp add: m)
  show "c_profiles (config_compute_max_s4 cfg) = c_profiles cfg" by simp
  show "\<forall>pr \<in> set ?ps. pr_s4 pr \<le> c_max_s4 (config_compute_max_s4 cfg) \<and> (pr_rt pr \<longrightarrow> c_rt_any (config_compute_max_s4 cfg))"
    "0 \<le> c_max_s4 (config_compute_max_s4 cfg)" unfolding m by auto
  have "\<forall>pr \<in> set ?ps. pr_s4 pr \<le> 256"
    using w(2) wf_profileD(8) by (auto simp: list_all_iff stage_ok_def)
  then show "c_max_s4 (config_compute_max_s4 cfg) \<le> 256" unfolding m by simp
qed

text \<open>
  C26. Start-up establishes what the packet paths rely on.  Whatever the environment holds, a
  configuration that gets past every check is well formed (validated profiles with ordered,
  disjoint H ranges and their derived fields, the primary one active); the buffers' headroom
  covers the S4 of every profile of the chain and is at most 256 bytes; header protection is on
  only with a key; the I-packet templates are well formed; the keys are 32 bytes long; the peers
  are at most 256, pairwise different, each with its MAC1 key; the junk sizes are ordered; and
  the fallback probe waits at least five seconds.
\<close>

theorem main_config_establishes:
  assumes "main_config env file = Inr cfg"
  shows "wf_config cfg \<and> c_active_profile cfg = 0 \<and>
    (\<forall>pr \<in> set (take (nat (c_profile_count cfg)) (c_profiles cfg)).
       pr_s4 pr \<le> c_max_s4 cfg \<and> (pr_rt pr \<longrightarrow> c_rt_any cfg) \<and> (pr_hp_on pr \<longrightarrow> c_hp_key cfg \<noteq> zero_key) \<and>
       (\<forall>t. Some t \<in> set (pr_cps pr) \<longrightarrow> wf_template t)) \<and>
    0 \<le> c_max_s4 cfg \<and> c_max_s4 cfg \<le> 256 \<and>
    list_all (\<lambda>k. length k = 32) (c_hp_key cfg # c_server_pub cfg # c_client_pub cfg # c_server_peer_pubs cfg) \<and>
    distinct (c_server_peer_pubs cfg) \<and> length (c_server_peer_pubs cfg) \<le> 256 \<and>
    c_server_peer_mac1keys cfg = map compute_mac1_key (c_server_peer_pubs cfg) \<and>
    (0 < c_jc cfg \<longrightarrow> c_jmin cfg \<le> c_jmax cfg) \<and> 5 \<le> c_fb_after cfg"
proof -
  obtain c1 c2 c3 c4 c5 c6 n c7 where
    c1: "read_numbers env (zero_config\<lparr>c_mode := read_mode env\<rparr>) = Inr c1" and c2: "read_ranges env c1 = Inr c2"
    and c3: "read_pubs env c2 = Inr c3" and c4: "read_peers env file c3 = Inr c4"
    and c5: "read_options env c4 = Inr c5" and c6: "finish_primary env c5 = Inr c6"
    and n: "read_fb_after env = Inr n" and c7: "fb_chain env [1, 2, 3] (c6\<lparr>c_fb_after := n\<rparr>) = Inr c7"
    and cfg: "cfg = config_compute_max_s4 c7"
    using assms unfolding main_config_def return_iff by auto
  have raw: "raw_ok c5"
    by (rule read_options_ok [OF c5 read_peers_ok [OF c4 read_pubs_ok [OF c3 read_ranges_ok [OF c2
          read_numbers_ok [OF c1 zero_config_ok]]]]])
  note p = finish_primary_ok [OF c6 raw]
  have "chain_ok (c6\<lparr>c_fb_after := n\<rparr>)" by (rule chain_ok_fb_after [OF p(1)])
  moreover have "[1, 2, 3] = [1..<4]" by (simp add: upt_rec)
  ultimately obtain ps m where ok: "chain_ok c7" and c7': "c7 = c6\<lparr>c_fb_after := n, c_profiles := ps, c_profile_count := m\<rparr>"
    using fb_chain_ok [of env 1 "c6\<lparr>c_fb_after := n\<rparr>" c7] c7 p(2) by auto
  note r = compute_max_s4_result [OF ok]
  have "shared cfg = shared c6" unfolding cfg shared_steps by (simp add: shared_def c7')
  then have sh: "shared cfg = shared (compute_keys c5)" using p(3) by simp
  have "5 \<le> n" using n by (auto simp: read_fb_after_def env_opt_def return_iff split: option.splits)
  moreover have "c_fb_after cfg = n" by (simp add: cfg c7' config_compute_max_s4_def split: prod.split)
  moreover have "list_all (stage_ok cfg) (take (nat (c_profile_count cfg)) (c_profiles cfg))" "wf_config cfg" "c_active_profile cfg = 0"
    using r(1) by (simp_all add: chain_ok_def cfg)
  ultimately show ?thesis using r(3-5) sh raw p(4)
    by (auto simp: list_all_iff shared_def compute_keys_def stage_ok_def cps_ok_def peers_ok_def raw_ok_def cfg)
qed

text \<open>A client with header protection and one fallback stage without it.\<close>

definition example_env :: env where
  "example_env = map_of
     [(''AWG_LISTEN'', str '':51820''), (''AWG_REMOTE'', str ''vpn.example:443''), (''AWG_JC'', str ''3''),
      (''AWG_JMIN'', str ''10''), (''AWG_JMAX'', str ''50''), (''AWG_S1'', str ''20''), (''AWG_S2'', str ''30''),
      (''AWG_S3'', str ''40''), (''AWG_S4'', str ''16''), (''AWG_H1'', str ''100-199''), (''AWG_H2'', str ''200-299''),
      (''AWG_H3'', str ''300-399''), (''AWG_H4'', str ''400-499''),
      (''AWG_SERVER_PUB'', concat (replicate 10 (str ''AQEB'')) @ str ''AQE=''),
      (''AWG_CLIENT_PUB'', concat (replicate 10 (str ''AQEB'')) @ str ''AQE=''),
      (''AWG_HEADER_PROTECTION_KEY'', concat (replicate 32 (str ''5a''))),
      (''AWG_FB_H1'', str ''1''), (''AWG_FB_H2'', str ''2''), (''AWG_FB_H3'', str ''3''), (''AWG_FB_H4'', str ''4''),
      (''AWG_FB_S1'', str ''0''), (''AWG_FB_S2'', str ''0''),
      (''AWG_CPU_C2S'', str ''1''), (''AWG_CPU_S2C'', str ''9''), (''AWG_RT'', str ''99''), (''AWG_SPIN'', str ''auto''),
      (''AWG_RPS'', str ''f''), (''AWG_PORT_ROTATE'', str ''30m-2h'')]"

definition example_raw :: awg_config where
  "example_raw = zero_config
     \<lparr>c_jc := 3, c_jmin := 10, c_jmax := 50, c_s1 := 20, c_s2 := 30, c_s3 := 40, c_s4 := 16,
      c_h1 := \<lparr>h_min = 100, h_max = 199\<rparr>, c_h2 := \<lparr>h_min = 200, h_max = 299\<rparr>,
      c_h3 := \<lparr>h_min = 300, h_max = 399\<rparr>, c_h4 := \<lparr>h_min = 400, h_max = 499\<rparr>,
      c_server_pub := replicate 32 1, c_client_pub := replicate 32 1,
      c_hp_key := replicate 32 0x5A, c_hp_key_set := True, c_hp_on := True\<rparr>"

lemma example_read:
  "check_present example_env = Inr ()"
  "bindE (read_numbers example_env (zero_config\<lparr>c_mode := read_mode example_env\<rparr>)) (\<lambda>c.
     bindE (read_ranges example_env c) (\<lambda>c. bindE (read_pubs example_env c) (\<lambda>c.
     bindE (read_peers example_env file c) (read_options example_env)))) = Inr example_raw"
  by code_simp+

lemma example_finish: "\<exists>c. finish_primary example_env example_raw = Inr c"
proof -
  have "config_validate example_raw = Inr ()"
    "load_cps_stage example_env 0 (hd (c_profiles example_raw)) = Inr (hd (c_profiles example_raw))" by code_simp+
  then show ?thesis by (simp add: finish_primary_def bindE_def)
qed

definition example_fb :: awg_profile where
  "example_fb = config_compute_profile (zero_profile
     \<lparr>pr_h1 := \<lparr>h_min = 1, h_max = 1\<rparr>, pr_h2 := \<lparr>h_min = 2, h_max = 2\<rparr>,
      pr_h3 := \<lparr>h_min = 3, h_max = 3\<rparr>, pr_h4 := \<lparr>h_min = 4, h_max = 4\<rparr>\<rparr>)"

lemma example_stages:
  "parse_fb_stage example_env cfg 1 = Inr (Some example_fb)" "parse_fb_stage example_env cfg 2 = Inr None"
proof -
  have "bindE (fb_numbers example_env 1) (\<lambda>fb. bindE (fb_ranges example_env 1 fb) (load_cps_stage example_env 1)) =
      Inr (zero_profile\<lparr>pr_h1 := \<lparr>h_min = 1, h_max = 1\<rparr>, pr_h2 := \<lparr>h_min = 2, h_max = 2\<rparr>,
        pr_h3 := \<lparr>h_min = 3, h_max = 3\<rparr>, pr_h4 := \<lparr>h_min = 4, h_max = 4\<rparr>\<rparr>)"
    "fb_numbers example_env 1 = Inr zero_profile" "config_validate_profile example_fb = Inr ()"
    "env_value example_env (fb_name 1 ''H1'') \<noteq> None" by code_simp+
  moreover have "\<not> pr_hp_on zero_profile" by (simp add: zero_profile_def)
  ultimately show "parse_fb_stage example_env cfg 1 = Inr (Some example_fb)"
    by (auto simp: parse_fb_stage_def bindE_def example_fb_def Let_def split: sum.splits)
  have "env_value example_env (fb_name 2 ''H1'') = None" by code_simp
  then show "parse_fb_stage example_env cfg 2 = Inr None" by (simp add: parse_fb_stage_def)
qed

theorem main_config_establishes_witness:
  "\<exists>cfg. main_config example_env (\<lambda>_. None) = Inr cfg \<and> wf_config cfg \<and> c_profile_count cfg = 2 \<and>
     (\<forall>pr \<in> set (take 2 (c_profiles cfg)). pr_s4 pr \<le> c_max_s4 cfg)"
proof -
  obtain c where c: "finish_primary example_env example_raw = Inr c" using example_finish by blast
  have "read_fb_after example_env = Inr 20" by code_simp
  moreover have "fb_chain example_env [1, 2, 3] d =
      Inr (d\<lparr>c_profiles := (c_profiles d)[1 := example_fb], c_profile_count := 2\<rparr>)" for d
    by (simp add: example_stages(1) [unfolded One_nat_def] example_stages(2) bindE_def)
  ultimately have m: "main_config example_env (\<lambda>_. None) = Inr (config_compute_max_s4
      (c\<lparr>c_fb_after := 20, c_profiles := (c_profiles c)[1 := example_fb], c_profile_count := 2\<rparr>))"
    using example_read(1) example_read(2) [of "\<lambda>_. None"] c
    by (auto simp: main_config_def bindE_def simp del: fb_chain.simps split: sum.splits)
  from main_config_establishes [OF m] m show ?thesis by simp
qed

section \<open>The settings the start-up accepts\<close>

lemma rps_text_length: "length (rps_text m) \<le> 8"
  using length_dropWhile_le [of "\<lambda>d. d = 0" "map (\<lambda>sh. drop_bit sh m AND 0xF) [28, 24, 20, 16, 12, 8, 4, 0]"]
  by (simp only: rps_text_def rps_digits_eq) simp

lemma fit_rps_length:
  assumes "fit_rps a b rps = (rps', f)" "length rps \<le> 15" shows "length rps' \<le> 15"
proof -
  have "length (rps_text m) \<le> 15" for m using rps_text_length [of m] by simp
  then show ?thesis using assms by (auto simp: fit_rps_def Let_def split: prod.splits if_splits)
qed

lemma perf_fit_hw_shape:
  assumes "perf_fit_hw t ncpu allowed wide = (t', f)" "length (t_rps_mask t) \<le> 15"
  shows "\<exists>a b r m. t' = t\<lparr>t_cpu_c2s := a, t_cpu_s2c := b, t_rt_prio := r, t_rps_mask := m\<rparr> \<and> length m \<le> 15 \<and>
    (r = t_rt_prio t \<or> r = 0) \<and> \<not> core_bad allowed a \<and> \<not> core_bad allowed b"
proof -
  consider (off) "t_cpu_c2s t < 0" "t_cpu_s2c t < 0" "t_rt_prio t \<le> 0" "t_rps_mask t = []"
    | (weak) "\<not> (t_cpu_c2s t < 0 \<and> t_cpu_s2c t < 0 \<and> t_rt_prio t \<le> 0 \<and> t_rps_mask t = [])" "\<not> hw_strong ncpu wide"
    | (strong) "\<not> (t_cpu_c2s t < 0 \<and> t_cpu_s2c t < 0 \<and> t_rt_prio t \<le> 0 \<and> t_rps_mask t = [])" "hw_strong ncpu wide"
    by blast
  then show ?thesis
  proof cases
    case off
    then have "t' = t" using assms(1) by (simp add: perf_fit_hw_def)
    then show ?thesis using off assms(2)
      by - (rule exI [of _ "t_cpu_c2s t"], rule exI [of _ "t_cpu_s2c t"], rule exI [of _ "t_rt_prio t"],
          rule exI [of _ "t_rps_mask t"], simp add: core_bad_iff)
  next
    case weak
    then have "t' = t\<lparr>t_cpu_c2s := -1, t_cpu_s2c := -1, t_rt_prio := 0, t_rps_mask := []\<rparr>"
      using assms(1) unfolding perf_fit_hw_def by (auto split: if_splits)
    then show ?thesis by - (rule exI [of _ "-1"], rule exI [of _ "-1"], rule exI [of _ 0], rule exI [of _ "[]"], simp add: core_bad_iff)
  next
    case strong
    define c where "c = (if core_bad allowed (t_cpu_c2s t) then -1 else t_cpu_c2s t)"
    define d where "d = (if core_bad allowed (t_cpu_s2c t) then -1 else t_cpu_s2c t)"
    obtain rps g where fit: "fit_rps c d (t_rps_mask t) = (rps, g)" by (cases "fit_rps c d (t_rps_mask t)")
    have "t' = t\<lparr>t_cpu_c2s := c, t_cpu_s2c := d, t_rps_mask := rps\<rparr>"
      using assms(1) strong unfolding perf_fit_hw_def Let_def c_def [symmetric] d_def [symmetric] fit
      by (simp_all only: if_False not_True_eq_False prod.case prod.inject)
    moreover have "\<not> core_bad allowed c" "\<not> core_bad allowed d" by (auto simp: c_def d_def core_bad_iff)
    ultimately show ?thesis using fit_rps_length [OF fit assms(2)]
      by - (rule exI [of _ c], rule exI [of _ d], rule exI [of _ "t_rt_prio t"], rule exI [of _ rps], simp)
  qed
qed

text \<open>What the readers of the settings deliver.\<close>

lemma rot_spans:
  "read_rot_time env = (lo, hi) \<Longrightarrow> (lo, hi) = (0, 0) \<or> (lo \<noteq> 0 \<and> lo \<le> hi \<and> unat hi \<le> 4294967280)"
  "read_rot_mb env = (lo, hi) \<Longrightarrow> (lo, hi) = (0, 0) \<or> (lo \<noteq> 0 \<and> lo \<le> hi)"
  using rot_parse_span_order rot_parse_span_time
  by (auto simp: read_rot_time_def read_rot_mb_def split: option.splits if_splits)

lemma clamp_bounds: "lo \<le> hi \<Longrightarrow> lo \<le> clamp lo hi v \<and> clamp lo hi v \<le> hi"
  by (auto simp: clamp_def Let_def)

definition settings_ok :: "awg_tuning \<Rightarrow> bool" where
  "settings_ok t \<longleftrightarrow> 0 \<le> t_dns_refresh t \<and> 0 \<le> t_he_delay t \<and> t_he_delay t \<le> 5000 \<and>
     0 \<le> t_rt_prio t \<and> t_rt_prio t \<le> 50 \<and> length (t_rps_mask t) \<le> 15 \<and> t_log_level t \<le> 3 \<and>
     (t_spin_auto t \<longrightarrow> t_spin_us t = 200) \<and> -1 \<le> t_rot_soft t \<and> t_rot_soft t \<le> 1 \<and>
     ((t_rot_t_lo t, t_rot_t_hi t) = (0, 0) \<or> t_rot_t_lo t \<noteq> 0 \<and> t_rot_t_lo t \<le> t_rot_t_hi t \<and> unat (t_rot_t_hi t) \<le> 4294967280) \<and>
     ((t_rot_mb_lo t, t_rot_mb_hi t) = (0, 0) \<or> t_rot_mb_lo t \<noteq> 0 \<and> t_rot_mb_lo t \<le> t_rot_mb_hi t)"

lemma read_spin_range: "read_spin env = Inr (us, auto) \<Longrightarrow> auto \<Longrightarrow> us = 200"
  by (auto simp: read_spin_def return_iff split: option.splits if_splits)

lemma read_rot_soft_range: "read_rot_soft env = Inr n \<Longrightarrow> -1 \<le> n \<and> n \<le> 1"
  by (auto simp: read_rot_soft_def return_iff split: option.splits if_splits)

lemma env_clamped: "env_opt env name (map_option (clamp lo hi) \<circ> parse_int_str) d = Inr v \<Longrightarrow> lo \<le> d \<Longrightarrow> d \<le> hi \<Longrightarrow> lo \<le> v \<and> v \<le> hi"
  using clamp_bounds [of lo hi] by (auto simp: env_opt_def return_iff split: option.splits)

lemma read_log_level_range: "read_log_level env \<le> 3"
  by (auto simp: read_log_level_def split: option.splits)

lemma read_settings_ok:
  assumes "read_settings env = Inr t" shows "settings_ok t"
proof -
  obtain timeout dns soft he sb src c2s s2c busy spin no_gro no_gso rt stats no_df where
    "read_rot_soft env = Inr soft" and he: "env_opt env ''AWG_HE_DELAY'' (map_option (clamp 0 5000) \<circ> parse_int_str) 250 = Inr he"
    and sp: "read_spin env = Inr spin" and rt: "env_opt env ''AWG_RT'' (map_option (clamp 0 50) \<circ> parse_int_str) 0 = Inr rt"
    and t: "t = \<lparr>t_timeout = timeout, t_dns_refresh = (if dns < 0 then 0 else dns),
            t_rot_t_lo = fst (read_rot_time env), t_rot_t_hi = snd (read_rot_time env),
            t_rot_mb_lo = fst (read_rot_mb env), t_rot_mb_hi = snd (read_rot_mb env),
            t_rot_soft = soft, t_he_delay = he,
            t_state_file = (case env ''AWG_STATE_FILE'' of None \<Rightarrow> str ''/etc/awg-proxy.state'' | Some v \<Rightarrow> v),
            t_log_level = read_log_level env, t_socket_buf = fst sb, t_socket_buf_auto = snd sb,
            t_src_port = src, t_cpu_c2s = c2s, t_cpu_s2c = s2c, t_busy_poll = busy,
            t_spin_us = fst spin, t_spin_auto = snd spin, t_no_gro = no_gro, t_no_gso = no_gso,
            t_rt_prio = rt,
            t_rps_mask = (case env_value env ''AWG_RPS'' of None \<Rightarrow> [] | Some v \<Rightarrow> take 15 v),
            t_no_df = no_df, t_stats_interval = stats\<rparr>"
    using assms unfolding read_settings_def return_iff sum.inject by blast
  moreover obtain lo hi mlo mhi where "read_rot_time env = (lo, hi)" "read_rot_mb env = (mlo, mhi)" by fastforce
  moreover have "snd spin \<longrightarrow> fst spin = 200" using read_spin_range [of env] sp by (cases spin) auto
  ultimately show ?thesis
    using rot_spans [of env] read_rot_soft_range env_clamped [OF he] env_clamped [OF rt] read_log_level_range
    by (simp add: settings_ok_def split: option.split)
qed

lemma settings_ok_update:
  assumes "settings_ok t" "length m \<le> 15" "r = t_rt_prio t \<or> r = 0"
  shows "settings_ok (t\<lparr>t_cpu_c2s := x, t_cpu_s2c := y, t_rt_prio := r, t_rps_mask := m\<rparr>)"
  using assms(3,1,2) by (elim disjE) (simp_all add: settings_ok_def)

lemma core_ok_iff: "\<not> core_bad allowed x \<longleftrightarrow> x < 0 \<or> x < 32 \<and> bit allowed (nat x)"
  by (auto simp: core_bad_iff)

lemma finish_shape:
  assumes "settings_ok t2"
  shows "\<exists>b s. (let t = (if strong \<and> t_socket_buf_auto t2 then t2\<lparr>t_socket_buf_auto := False\<rparr> else t2)
      in if t_rot_soft t < 0 then t\<lparr>t_rot_soft := of_bool strong\<rparr> else t) =
    t2\<lparr>t_socket_buf_auto := b, t_rot_soft := s\<rparr> \<and> s \<in> {0, 1}"
proof -
  have "-1 \<le> t_rot_soft t2" "t_rot_soft t2 \<le> 1" using assms by (simp_all add: settings_ok_def)
  then have "(if t_rot_soft t2 < 0 then of_bool strong else t_rot_soft t2) \<in> {0, 1}" by auto
  then show ?thesis
    by - (rule exI [of _ "t_socket_buf_auto t2 \<and> \<not> strong"],
        rule exI [of _ "if t_rot_soft t2 < 0 then of_bool strong else t_rot_soft t2"], simp add: Let_def)
qed

text \<open>
  The settings that are read and not checked: they reach the proxy as the environment gives
  them, in the range of \<^verbatim>\<open>int\<close> whose overflow the reader would have stopped at.
\<close>

lemma int_digits_range: "int_digits v s = Some n \<Longrightarrow> 0 \<le> v \<Longrightarrow> v \<le> 2147483647 \<Longrightarrow> 0 \<le> n \<and> n \<le> 2147483647"
proof (induction v s rule: int_digits.induct)
  case (2 v c s)
  show ?case
  proof (cases "48 \<le> c \<and> c \<le> 57")
    case True
    define v' where "v' = v * 10 + (uint c - 48)"
    have "0 \<le> uint c - 48" using True by (simp add: word_le_def)
    then have "0 \<le> v'" using "2.prems"(2) by (simp add: v'_def)
    moreover have "\<not> v' > 2147483647" "int_digits v' s = Some n"
      using "2.prems"(1) True by (auto simp: v'_def Let_def split: if_splits)
    ultimately show ?thesis using "2.IH" [OF True v'_def] by simp
  next
    case False
    then have "n = v" using "2.prems"(1) by auto
    then show ?thesis using "2.prems" by simp
  qed
qed simp

lemma parse_int_str_range: "parse_int_str s = Some n \<Longrightarrow> \<bar>n\<bar> \<le> 2147483647"
proof -
  assume n: "parse_int_str s = Some n"
  have "\<exists>m r. int_digits 0 r = Some m \<and> (n = m \<or> n = - m)"
    using n by (cases s) (auto simp: parse_int_str_def simp del: int_digits.simps split: if_splits)
  then show ?thesis using int_digits_range [of 0] by fastforce
qed

lemma env_int_range: "env_int env name d = Inr n \<Longrightarrow> \<bar>d\<bar> \<le> 2147483647 \<Longrightarrow> \<bar>n\<bar> \<le> 2147483647"
  using parse_int_str_range by (auto simp: env_int_def env_opt_def return_iff split: option.splits)

definition passed_on :: "env \<Rightarrow> awg_tuning \<Rightarrow> bool" where
  "passed_on env t \<longleftrightarrow>
     env_int env ''AWG_TIMEOUT'' 60 = Inr (t_timeout t) \<and> env_int env ''AWG_STATS'' 0 = Inr (t_stats_interval t) \<and>
     env_int env ''AWG_BUSY_POLL'' 0 = Inr (t_busy_poll t) \<and> env_int env ''AWG_NO_GRO'' 0 = Inr (t_no_gro t) \<and>
     env_int env ''AWG_NO_GSO'' 0 = Inr (t_no_gso t) \<and> env_int env ''AWG_NO_DF'' 0 = Inr (t_no_df t) \<and>
     read_src_port env = Inr (t_src_port t) \<and> read_spin env = Inr (t_spin_us t, t_spin_auto t) \<and>
     (\<exists>auto. read_socket_buf env = Inr (t_socket_buf t, auto))"

lemma read_settings_passed_on:
  assumes "read_settings env = Inr t" shows "passed_on env t"
proof -
  obtain sb spin where "read_socket_buf env = Inr sb" "t_socket_buf t = fst sb"
    "read_spin env = Inr spin" "t_spin_us t = fst spin" "t_spin_auto t = snd spin"
    using assms unfolding read_settings_def return_iff by auto
  moreover have "env_int env ''AWG_TIMEOUT'' 60 = Inr (t_timeout t)" "env_int env ''AWG_STATS'' 0 = Inr (t_stats_interval t)"
    "env_int env ''AWG_BUSY_POLL'' 0 = Inr (t_busy_poll t)" "env_int env ''AWG_NO_GRO'' 0 = Inr (t_no_gro t)"
    "env_int env ''AWG_NO_GSO'' 0 = Inr (t_no_gso t)" "env_int env ''AWG_NO_DF'' 0 = Inr (t_no_df t)"
    "read_src_port env = Inr (t_src_port t)"
    using assms unfolding read_settings_def return_iff by auto
  ultimately show ?thesis by (cases sb; cases spin) (simp add: passed_on_def)
qed

lemma passed_on_cong:
  assumes "passed_on env t"
  shows "passed_on env (t\<lparr>t_cpu_c2s := a, t_cpu_s2c := b, t_rt_prio := r, t_rps_mask := m\<rparr>)"
    "passed_on env (t\<lparr>t_rt_prio := r\<rparr>)" "passed_on env (t\<lparr>t_socket_buf_auto := c, t_rot_soft := u\<rparr>)"
  using assms by (simp_all add: passed_on_def)

lemma passed_on_range:
  assumes "passed_on env t"
  shows "list_all (\<lambda>n. \<bar>n\<bar> \<le> 2147483647)
    [t_timeout t, t_stats_interval t, t_busy_poll t, t_no_gro t, t_no_gso t, t_no_df t, t_src_port t, t_spin_us t, t_socket_buf t]"
proof -
  have "\<bar>t_src_port t\<bar> \<le> 2147483647" "\<bar>t_spin_us t\<bar> \<le> 2147483647" "\<bar>t_socket_buf t\<bar> \<le> 2147483647"
    using assms parse_int_str_range
    by (auto simp: passed_on_def read_src_port_def read_spin_def read_socket_buf_def return_iff split: option.splits if_splits)
  moreover have "\<bar>t_timeout t\<bar> \<le> 2147483647" "\<bar>t_stats_interval t\<bar> \<le> 2147483647" "\<bar>t_busy_poll t\<bar> \<le> 2147483647"
    "\<bar>t_no_gro t\<bar> \<le> 2147483647" "\<bar>t_no_gso t\<bar> \<le> 2147483647" "\<bar>t_no_df t\<bar> \<le> 2147483647"
    using assms env_int_range [of env "''AWG_TIMEOUT''" 60 "t_timeout t"] env_int_range [of env "''AWG_STATS''" 0 "t_stats_interval t"]
      env_int_range [of env "''AWG_BUSY_POLL''" 0 "t_busy_poll t"] env_int_range [of env "''AWG_NO_GRO''" 0 "t_no_gro t"]
      env_int_range [of env "''AWG_NO_GSO''" 0 "t_no_gso t"] env_int_range [of env "''AWG_NO_DF''" 0 "t_no_df t"]
    by (simp_all add: passed_on_def)
  ultimately show ?thesis by simp
qed

text \<open>
  C35. The settings the proxy runs with.  Those that are checked end in their range: the interval
  of the name check is not negative, the head start of IPv4 is at
  most five seconds, the log level is one of the four, a self-tuning spin starts on its rung of
  200 microseconds; the rotation spans are off or ordered and small enough for the schedule's
  arithmetic; real-time priority is at most 50 and never combined with spinning; the RPS mask
  fits its array; threads are pinned only to cores the process may use; and the choice of moving
  ports under load has been made.  The others are what the environment says, unchecked but for the
  range of a C integer: the timeout, the statistics interval (both may be negative), busy
  polling, a manual spin, the source port, the buffer size and the three switches of the offloads.
\<close>

theorem main_settings_ranges:
  assumes "main_settings env affinity wide = Inr t"
  shows "0 \<le> t_dns_refresh t \<and> 0 \<le> t_he_delay t \<and> t_he_delay t \<le> 5000 \<and> t_log_level t \<le> 3 \<and>
    (t_spin_auto t \<longrightarrow> t_spin_us t = 200) \<and>
    ((t_rot_t_lo t, t_rot_t_hi t) = (0, 0) \<or> t_rot_t_lo t \<noteq> 0 \<and> t_rot_t_lo t \<le> t_rot_t_hi t \<and> unat (t_rot_t_hi t) \<le> 4294967280) \<and>
    ((t_rot_mb_lo t, t_rot_mb_hi t) = (0, 0) \<or> t_rot_mb_lo t \<noteq> 0 \<and> t_rot_mb_lo t \<le> t_rot_mb_hi t) \<and>
    0 \<le> t_rt_prio t \<and> t_rt_prio t \<le> 50 \<and> \<not> (0 < t_rt_prio t \<and> (0 < t_spin_us t \<or> t_spin_auto t)) \<and>
    length (t_rps_mask t) \<le> 15 \<and> t_rot_soft t \<in> {0, 1} \<and>
    (\<forall>ncpu allowed. affinity = Some (ncpu, allowed) \<and> 0 < ncpu \<longrightarrow>
       (\<forall>cpu \<in> {t_cpu_c2s t, t_cpu_s2c t}. cpu < 0 \<or> cpu < 32 \<and> bit allowed (nat cpu))) \<and>
    passed_on env t \<and>
    list_all (\<lambda>n. \<bar>n\<bar> \<le> 2147483647)
      [t_timeout t, t_stats_interval t, t_busy_poll t, t_no_gro t, t_no_gso t, t_no_df t, t_src_port t, t_spin_us t, t_socket_buf t]"
proof -
  obtain t0 where t0: "read_settings env = Inr t0" and t: "t = finish_settings affinity wide t0"
    using assms by (auto simp: main_settings_def return_iff)
  define t1 where "t1 = (if t_rt_prio t0 > 0 \<and> (t_spin_us t0 > 0 \<or> t_spin_auto t0) then t0\<lparr>t_rt_prio := 0\<rparr> else t0)"
  have ok: "settings_ok t1" "\<not> (0 < t_rt_prio t1 \<and> (0 < t_spin_us t1 \<or> t_spin_auto t1))"
    using read_settings_ok [OF t0] by (auto simp: t1_def settings_ok_def)
  have on: "passed_on env t1" using read_settings_passed_on [OF t0] passed_on_cong(2) by (simp add: t1_def)
  obtain t2 strong where t2: "fit_perf_to_hardware affinity wide t1 = (t2, strong)" by fastforce
  have fit: "passed_on env t2 \<and> settings_ok t2 \<and> \<not> (0 < t_rt_prio t2 \<and> (0 < t_spin_us t2 \<or> t_spin_auto t2)) \<and>
    (\<forall>ncpu allowed. affinity = Some (ncpu, allowed) \<and> 0 < ncpu \<longrightarrow>
       (\<forall>cpu \<in> {t_cpu_c2s t2, t_cpu_s2c t2}. cpu < 0 \<or> cpu < 32 \<and> bit allowed (nat cpu)))"
  proof (cases "\<exists>ncpu allowed. affinity = Some (ncpu, allowed) \<and> 0 < ncpu")
    case True
    then obtain ncpu allowed where a: "affinity = Some (ncpu, allowed)" "0 < ncpu" by blast
    obtain f where "perf_fit_hw t1 ncpu allowed wide = (t2, f)"
      using t2 a by (cases "perf_fit_hw t1 ncpu allowed wide") (simp add: fit_perf_to_hardware_def)
    moreover have "length (t_rps_mask t1) \<le> 15" using ok(1) by (simp add: settings_ok_def)
    ultimately obtain x y r m where "t2 = t1\<lparr>t_cpu_c2s := x, t_cpu_s2c := y, t_rt_prio := r, t_rps_mask := m\<rparr>"
      "length m \<le> 15" "r = t_rt_prio t1 \<or> r = 0" "\<not> core_bad allowed x" "\<not> core_bad allowed y"
      using perf_fit_hw_shape by blast
    then have "settings_ok t2" "\<not> (0 < t_rt_prio t2 \<and> (0 < t_spin_us t2 \<or> t_spin_auto t2))"
      "t_cpu_c2s t2 = x" "t_cpu_s2c t2 = y" using ok settings_ok_update by (simp_all, auto)
    moreover have "passed_on env t2" using passed_on_cong(1) [OF on] \<open>t2 = _\<close> by simp
    ultimately show ?thesis using a \<open>\<not> core_bad allowed x\<close> \<open>\<not> core_bad allowed y\<close> by (simp add: core_ok_iff)
  next
    case False
    then have "t2 = t1" using t2 by (auto simp: fit_perf_to_hardware_def split: option.splits if_splits)
    then show ?thesis using ok on False by blast
  qed
  obtain b u where u: "t = t2\<lparr>t_socket_buf_auto := b, t_rot_soft := u\<rparr>" "u \<in> {0, 1}"
    using finish_shape [of t2 strong] fit unfolding t finish_settings_def Let_def t1_def [symmetric] t2 prod.case by blast
  have e: "t_dns_refresh t = t_dns_refresh t2" "t_he_delay t = t_he_delay t2" "t_log_level t = t_log_level t2"
    "t_spin_auto t = t_spin_auto t2" "t_spin_us t = t_spin_us t2" "t_rot_t_lo t = t_rot_t_lo t2" "t_rot_t_hi t = t_rot_t_hi t2"
    "t_rot_mb_lo t = t_rot_mb_lo t2" "t_rot_mb_hi t = t_rot_mb_hi t2" "t_rt_prio t = t_rt_prio t2"
    "t_rps_mask t = t_rps_mask t2" "t_cpu_c2s t = t_cpu_c2s t2" "t_cpu_s2c t = t_cpu_s2c t2" "t_rot_soft t = u"
    by (simp_all add: u(1))
  have p: "passed_on env t" unfolding u(1) using fit passed_on_cong(3) by blast
  have main: "settings_ok t2" "\<not> (0 < t_rt_prio t2 \<and> (0 < t_spin_us t2 \<or> t_spin_auto t2))"
    "\<forall>ncpu allowed. affinity = Some (ncpu, allowed) \<and> 0 < ncpu \<longrightarrow>
       (\<forall>cpu \<in> {t_cpu_c2s t2, t_cpu_s2c t2}. cpu < 0 \<or> cpu < 32 \<and> bit allowed (nat cpu))"
    using fit by blast+
  note ranges = passed_on_range [OF p]
  show ?thesis
    by (intro conjI p ranges) (use main u(2) e in \<open>simp_all add: settings_ok_def\<close>)
qed

definition example_settings :: awg_tuning where
  "example_settings = example_tuning
     \<lparr>t_state_file := str ''/etc/awg-proxy.state'', t_socket_buf_auto := False, t_cpu_s2c := -1,
      t_spin_us := 200, t_spin_auto := True, t_rt_prio := 0, t_rps_mask := str ''d''\<rparr>"

theorem main_settings_ranges_witness:
  "main_settings example_env (Some (4, 15)) True = Inr example_settings \<and>
   t_rot_t_lo example_settings \<le> t_rot_t_hi example_settings \<and> t_rot_soft example_settings \<in> {0, 1}"
proof -
  have t: "main_settings example_env (Some (4, 15)) True = Inr example_settings" by code_simp
  from main_settings_ranges [OF t] have "t_rot_soft example_settings \<in> {0, 1}"
    "(t_rot_t_lo example_settings, t_rot_t_hi example_settings) = (0, 0) \<or> t_rot_t_lo example_settings \<le> t_rot_t_hi example_settings"
    by blast+
  with t show ?thesis by auto
qed

section \<open>Keys\<close>

text \<open>The textual forms of a key, for the specification.\<close>

definition hex_encode :: "bytes \<Rightarrow> bytes" where
  "hex_encode bs = concat (map (\<lambda>b. [hex_char (ucast (drop_bit 4 b)), hex_char (ucast (b AND 0xF))]) bs)"

lemma hex_nibble_char [simp]: "d < 16 \<Longrightarrow> hex_nibble (hex_char d) = uint d"
  using hex_val_char [of d] by (simp add: hex_nibble_def hex_val_def)

lemma byte_nibbles: "push_bit 4 (ucast (ucast (drop_bit 4 b) :: u32)) OR ucast (ucast (b AND 0xF) :: u32) = (b :: u8)"
proof -
  have f: "(0xF :: u8) = Bit_Operations.mask 4" by (simp add: mask_eq_exp_minus_1)
  show ?thesis unfolding f by (rule u8_bits_eqI) (simp_all add: bit_simps)
qed

lemma nibbles_small: "(ucast (drop_bit 4 (b :: u8)) :: u32) < 16" "(ucast (b AND 0xF) :: u32) < 16"
proof -
  have "uint b < 256" using uint_lt2p [of b] by simp
  then have "0 \<le> uint b div 16" "uint b div 16 < 16" by (simp_all add: pos_imp_zdiv_nonneg_iff)
  then show "(ucast (drop_bit 4 b) :: u32) < 16"
    by (simp add: word_less_alt unsigned_ucast_eq drop_bit_eq_div uint_div_distrib take_bit_int_eq_self)
  have "uint (b AND 0xF) < 16" using and_mask_less' [of 4 b] by (simp add: mask_eq_exp_minus_1 word_less_alt)
  then show "(ucast (b AND 0xF) :: u32) < 16" by (simp add: word_less_alt unsigned_ucast_eq take_bit_int_eq_self)
qed

lemma hex_pairs_encode: "hex_pairs (hex_encode bs) = Some bs"
  by (induction bs) (simp_all add: hex_encode_def Let_def nibbles_small byte_nibbles)

lemma length_hex_encode: "length (hex_encode bs) = 2 * length bs"
  by (induction bs) (simp_all add: hex_encode_def)

text \<open>
  Reading a key: the 64 hexadecimal digits of the UAPI form and the 43 or 44 characters of the
  base64 form of a 32-byte key both give the key back.
\<close>

theorem decode_key32_roundtrip:
  assumes "length k = 32" "n \<le> 1"
  shows "decode_key32 (hex_encode k) = Some k \<and> decode_key32 (base64_encode k @ replicate n 61) = Some k"
  using assms base64_decode_encode [of k 32 n]
  by (simp add: decode_key32_def length_hex_encode hex_pairs_encode length_base64_encode)

theorem decode_key32_roundtrip_witness:
  "decode_key32 (hex_encode (replicate 32 0x5A)) = Some (replicate 32 0x5A) \<and>
   decode_key32 (base64_encode (replicate 32 0x5A) @ [61]) = Some (replicate 32 0x5A)"
  using decode_key32_roundtrip [of "replicate 32 0x5A" 1] by simp

text \<open>The names of the variables fit the 32-byte buffers they are built in, and no two stages share one.\<close>

lemma fb_name_fits:
  assumes "stage < 4" "length suffix \<le> 15" shows "length (fb_name stage suffix) < 32"
  using assms by (simp add: fb_name_def)

text \<open>
  A number too large for \<open>int\<close> overflows while it is read; one digit less never does.
\<close>

lemma int_digits_exact: "length s \<le> n \<Longrightarrow> 0 \<le> v \<Longrightarrow> (v + 1) * 10 ^ n \<le> 2147483648 \<Longrightarrow> int_digits v s \<noteq> None"
proof (induction s arbitrary: v n)
  case (Cons c s)
  then obtain m where n: "n = Suc m" by (cases n) auto
  show ?case
  proof (cases "48 \<le> c \<and> c \<le> 57")
    case True
    then have c: "0 \<le> uint c - 48" "uint c - 48 \<le> 9" by (simp_all add: word_le_def)
    define w where "w = v * 10 + (uint c - 48)"
    have "(w + 1) * 10 ^ m \<le> ((v + 1) * 10) * 10 ^ m" using c by (intro mult_right_mono) (simp_all add: w_def)
    also have "\<dots> = (v + 1) * 10 ^ n" by (simp add: n)
    finally have w: "(w + 1) * 10 ^ m \<le> 2147483648" "0 \<le> w" using Cons.prems c by (simp_all only: w_def)
    moreover have "w + 1 \<le> (w + 1) * 10 ^ m" using w(2) by simp
    ultimately have "w \<le> 2147483647" by linarith
    then show ?thesis using True Cons.IH [of m w] Cons.prems n w by (simp add: w_def Let_def)
  next
    case False
    then show ?thesis by auto
  qed
qed simp

text \<open>
  Numbers of up to nine digits, signed or not, are read without overflow; the reader has no
  range check, and ten digits can overflow.
\<close>

theorem parse_int_str_overflow:
  "(length s \<le> 9 \<longrightarrow> parse_int_str s \<noteq> None) \<and> parse_int_str (str ''2147483648'') = None"
proof -
  have "parse_int_str s \<noteq> None" if "length s \<le> 9"
    using that int_digits_exact [of s 9 0] int_digits_exact [of "tl s" 9 0]
    by (cases s) (auto simp: parse_int_str_def)
  moreover have "parse_int_str (str ''2147483648'') = None" by code_simp
  ultimately show ?thesis by blast
qed

theorem parse_int_str_overflow_witness:
  "parse_int_str (str ''-42'') = Some (-42) \<and> parse_int_str (str ''-42'') \<noteq> None"
proof -
  have "parse_int_str (str ''-42'') = Some (-42)" by code_simp
  moreover have "length (str ''-42'') \<le> 9" by (simp add: str_def)
  ultimately show ?thesis using parse_int_str_overflow [of "str ''-42''"] by blast
qed

end
