(* ===== verification/Watchdog.thy ===== *)
theory Watchdog
  imports Startup
begin

text \<open>
  The supervision of the connection in the main loop of \<^verbatim>\<open>src/src/proxy.c\<close> (\<open>proxy_run\<close>), once
  per five-second tick of its timer: probing of the fallback profiles, the silence watchdog, port
  hopping, the periodic DNS check and the receive buffers of the two sockets.  A tick reads and
  clears the flags the I/O threads raise; these readings, the descriptor of the remote socket and
  the outcome of the DNS check are the inputs of the model, and what the tick does to the rest of
  the program is a list of effects.  The theorems: the watchdog never fires on silence alone and
  every reconnect has a named cause, an
  unanswered handshake always leads to a reconnect in time, and the fallback probe goes round all
  profiles while the remote is silent and stays where it answers.
\<close>

section \<open>State\<close>

text \<open>The constants \<open>proxy_run\<close> derives from the configuration before its loop.\<close>

record watch_cfg =
  wc_checks_needed :: int
  wc_hop_checks :: int
  wc_fb_enabled :: bool
  wc_fb_checks :: int
  wc_dns_checks :: int

definition at_least_1 :: "int \<Rightarrow> int" where
  "at_least_1 n = (if n < 1 then 1 else n)"

definition watch_setup :: "awg_config \<Rightarrow> awg_tuning \<Rightarrow> u32 \<Rightarrow> bool \<Rightarrow> watch_cfg" where
  "watch_setup cfg t ports_total host_is_literal =
     \<lparr>wc_checks_needed = at_least_1 ((if t_timeout t > 0 then t_timeout t else 180) sdiv 5),
      wc_hop_checks = (if ports_total > 1 then 3 else 0),
      wc_fb_enabled = (c_profile_count cfg > 1 \<and> c_mode cfg = AWG_MODE_NORMAL),
      wc_fb_checks = at_least_1 (if c_fb_after cfg > 0 then c_fb_after cfg sdiv 5 else 4),
      wc_dns_checks = (if t_dns_refresh t > 0 \<and> \<not> host_is_literal then at_least_1 (t_dns_refresh t sdiv 5) else 0)\<rparr>"

record watch =
  w_cfg :: awg_config
  w_silent_ticks :: int
  w_init_unanswered :: bool
  w_hop_rounds :: int
  w_fb_silent :: int
  w_dns_tick :: int
  w_dns_miss :: int

definition watch_start :: "awg_config \<Rightarrow> watch" where
  "watch_start cfg =
     \<lparr>w_cfg = cfg, w_silent_ticks = 0, w_init_unanswered = False, w_hop_rounds = 0, w_fb_silent = 0,
      w_dns_tick = 0, w_dns_miss = 0\<rparr>"

text \<open>
  The readings of a tick: \<open>last_active\<close>, \<open>last_remote_rx\<close> and \<open>client_init\<close> as exchanged, the
  remote socket, \<open>reconnect_needed\<close> when the DNS check looks at it, and the result of that check
  (\<open>0\<close> still listed, \<open>1\<close> gone, \<open>-1\<close> unknown, which a busy lock gives too).
\<close>

record reading =
  rd_active :: bool
  rd_remote_rx :: bool
  rd_init :: bool
  rd_fd :: "nat option"
  rd_reconnect :: bool
  rd_dns :: int

datatype effect = Switch int | He_reset | Remote_dead | Reconnect nat

text \<open>\<open>reconnect_needed\<close> and the shutdown of the socket, when there is one.\<close>

definition force_reconnect :: "reading \<Rightarrow> effect list" where
  "force_reconnect r = (case rd_fd r of None \<Rightarrow> [] | Some fd \<Rightarrow> [Reconnect fd])"

section \<open>The parts of a tick\<close>

definition next_profile :: "awg_config \<Rightarrow> int" where
  "next_profile cfg =
     (let next = c_active_profile cfg + 1 in if next \<ge> c_profile_count cfg then 0 else next)"

text \<open>\<open>None\<close> when the switch would read outside the array of profiles.\<close>

definition fb_tick :: "watch_cfg \<Rightarrow> reading \<Rightarrow> watch \<Rightarrow> (watch \<times> effect list) option" where
  "fb_tick wc r w =
     (if \<not> wc_fb_enabled wc then Some (w, [])
      else if rd_remote_rx r then Some (w\<lparr>w_fb_silent := 0\<rparr>, [])
      else if rd_active r
      then if w_fb_silent w + 1 \<ge> wc_fb_checks wc
           then case config_apply_profile (w_cfg w) (next_profile (w_cfg w)) of
                  None \<Rightarrow> None
                | Some cfg \<Rightarrow>
                    Some (w\<lparr>w_cfg := cfg, w_fb_silent := 0, w_silent_ticks := 0, w_init_unanswered := False\<rparr>,
                          Switch (next_profile (w_cfg w)) # force_reconnect r)
           else Some (w\<lparr>w_fb_silent := w_fb_silent w + 1\<rparr>, [])
      else Some (w, []))"

text \<open>The counters of the silent run, before the two verdicts.\<close>

definition count_silence :: "watch_cfg \<Rightarrow> reading \<Rightarrow> watch \<Rightarrow> watch" where
  "count_silence wc r w =
     w\<lparr>w_init_unanswered := w_init_unanswered w \<or> rd_init r,
       w_silent_ticks := (if w_silent_ticks w < wc_checks_needed wc then w_silent_ticks w + 1 else w_silent_ticks w)\<rparr>"

definition hop_tick :: "watch_cfg \<Rightarrow> reading \<Rightarrow> watch \<Rightarrow> watch \<times> effect list" where
  "hop_tick wc r w =
     (let rounds = w_hop_rounds w + 1;
          long = rounds * wc_hop_checks wc \<ge> wc_checks_needed wc
      in (w\<lparr>w_hop_rounds := (if long then 0 else rounds), w_silent_ticks := 0, w_init_unanswered := False\<rparr>,
          (if long then [He_reset] else []) @ [Remote_dead] @ force_reconnect r))"

definition silence_tick :: "watch_cfg \<Rightarrow> reading \<Rightarrow> watch \<Rightarrow> watch \<times> effect list" where
  "silence_tick wc r w =
     (if rd_remote_rx r
      then (w\<lparr>w_silent_ticks := 0, w_init_unanswered := False, w_hop_rounds := 0\<rparr>, [])
      else let w = count_silence wc r w
           in if wc_hop_checks wc \<noteq> 0 \<and> w_init_unanswered w \<and> w_silent_ticks w \<ge> wc_hop_checks wc
              then hop_tick wc r w
              else if w_silent_ticks w \<ge> wc_checks_needed wc \<and> w_init_unanswered w
              then (w\<lparr>w_silent_ticks := 0, w_init_unanswered := False\<rparr>,
                    [He_reset, Remote_dead] @ force_reconnect r)
              else (w, []))"

definition dns_tick :: "watch_cfg \<Rightarrow> reading \<Rightarrow> watch \<Rightarrow> watch \<times> effect list" where
  "dns_tick wc r w =
     (if wc_dns_checks wc > 0
      then if w_dns_tick w + 1 \<ge> wc_dns_checks wc
           then let w = w\<lparr>w_dns_tick := 0\<rparr>
                in case rd_fd r of
                     None \<Rightarrow> (w, [])
                   | Some fd \<Rightarrow>
                       if rd_reconnect r then (w, [])
                       else if rd_dns r = 1
                       then if w_dns_miss w + 1 \<ge> 2 then (w\<lparr>w_dns_miss := 0\<rparr>, [Reconnect fd])
                            else (w\<lparr>w_dns_miss := w_dns_miss w + 1\<rparr>, [])
                       else if rd_dns r = 0 then (w\<lparr>w_dns_miss := 0\<rparr>, [])
                       else (w, [])
           else (w\<lparr>w_dns_tick := w_dns_tick w + 1\<rparr>, [])
      else (w, []))"

definition watch_tick :: "watch_cfg \<Rightarrow> reading \<Rightarrow> watch \<Rightarrow> (watch \<times> effect list) option" where
  "watch_tick wc r w =
     do { (w, e1) \<leftarrow> fb_tick wc r w;
          let (w, e2) = silence_tick wc r w;
          let (w, e3) = dns_tick wc r w;
          Some (w, e1 @ e2 @ e3) }"

fun watch_run :: "watch_cfg \<Rightarrow> reading list \<Rightarrow> watch \<Rightarrow> (watch \<times> effect list) option" where
  "watch_run wc [] w = Some (w, [])"
| "watch_run wc (r # rs) w =
     do { (w, e) \<leftarrow> watch_tick wc r w;
          (w, es) \<leftarrow> watch_run wc rs w;
          Some (w, e @ es) }"

section \<open>The receive buffers\<close>

record rb_state =
  rbs_l :: rb_ctl
  rbs_r :: rb_ctl
  rbs_remote :: int
  rbs_fd :: "nat option"
  rbs_moved :: bool

text \<open>
  The buffers' part of a tick: the new state and the sizes set, by socket.  The counters of the
  two sockets are arguments.
\<close>

definition rb_auto_tick :: "int \<Rightarrow> nat \<Rightarrow> u32 \<Rightarrow> u32 \<Rightarrow> nat option \<Rightarrow> rb_state \<Rightarrow> rb_state \<times> (nat \<times> int) list" where
  "rb_auto_tick cap listen_fd rx_l rx_r fd s =
     (let (l, nl) = rb_step (rbs_l s) rx_l 5 cap;
          (c, nr) = rb_step (rbs_r s) rx_r 5 cap;
          s = s\<lparr>rbs_l := l, rbs_r := c, rbs_moved := rbs_moved s \<or> nl \<noteq> 0,
                rbs_remote := (if nr \<noteq> 0 then nr else rbs_remote s)\<rparr>;
          set_l = (if nl \<noteq> 0 then [(listen_fd, nl)] else [])
      in case fd of
           None \<Rightarrow> (s, set_l)
         | Some f \<Rightarrow>
             if nr \<noteq> 0 \<or> rbs_fd s \<noteq> Some f
             then (s\<lparr>rbs_fd := Some f, rbs_moved := rbs_moved s \<or> nr \<noteq> 0\<rparr>, set_l @ [(f, rbs_remote s)])
             else (s, set_l))"

section \<open>Facts on a tick\<close>

text \<open>The silent ticks after which an unanswered handshake ends the connection.\<close>

definition patience :: "watch_cfg \<Rightarrow> int" where
  "patience wc = (if wc_hop_checks wc \<noteq> 0 then min (wc_hop_checks wc) (wc_checks_needed wc) else wc_checks_needed wc)"

definition wc_ok :: "watch_cfg \<Rightarrow> bool" where
  "wc_ok wc \<longleftrightarrow> 1 \<le> wc_checks_needed wc \<and> 0 \<le> wc_hop_checks wc \<and> 1 \<le> wc_fb_checks wc"

definition w_inv :: "watch_cfg \<Rightarrow> watch \<Rightarrow> bool" where
  "w_inv wc w \<longleftrightarrow> wf_config (w_cfg w) \<and> 0 \<le> w_silent_ticks w \<and> w_silent_ticks w \<le> wc_checks_needed wc \<and>
     0 \<le> w_fb_silent w \<and> w_fb_silent w < wc_fb_checks wc"

lemma watch_setup_ok: "wc_ok (watch_setup cfg t ports lit)"
  by (simp add: wc_ok_def watch_setup_def at_least_1_def)

lemma next_profile_mod:
  assumes "wf_config cfg"
  shows "next_profile cfg = (c_active_profile cfg + 1) mod c_profile_count cfg"
    and "0 \<le> next_profile cfg" "next_profile cfg < c_profile_count cfg"
proof -
  have a: "0 \<le> c_active_profile cfg" "c_active_profile cfg < c_profile_count cfg"
    using assms by (simp_all add: wf_config_def)
  show "next_profile cfg = (c_active_profile cfg + 1) mod c_profile_count cfg"
  proof (cases "c_active_profile cfg + 1 = c_profile_count cfg")
    case False
    then show ?thesis using a by (simp add: next_profile_def Let_def)
  qed (simp add: next_profile_def)
  show "0 \<le> next_profile cfg" "next_profile cfg < c_profile_count cfg" using a by (simp_all add: next_profile_def Let_def)
qed

lemma switch_ok:
  assumes "wf_config cfg"
  shows "\<exists>cfg'. config_apply_profile cfg (next_profile cfg) = Some cfg' \<and> wf_config cfg' \<and>
    c_active_profile cfg' = next_profile cfg \<and> c_profile_count cfg' = c_profile_count cfg"
proof -
  from apply_profile_switch [OF assms next_profile_mod(2,3) [OF assms]]
  obtain cfg' where c: "config_apply_profile cfg (next_profile cfg) = Some cfg'" "wf_config cfg'"
    "c_active_profile cfg' = next_profile cfg" by blast
  moreover from c(1) have "c_profile_count cfg' = c_profile_count cfg" by (auto simp: config_apply_profile_def)
  ultimately show ?thesis by blast
qed

text \<open>The fallback part: defined, and without an effect it leaves the silence counters alone.\<close>

lemma fb_tick_ok:
  assumes "w_inv wc w" "wc_ok wc"
  obtains w1 e1 where "fb_tick wc r w = Some (w1, e1)" "w_inv wc w1"
    "e1 = [] \<and> w_silent_ticks w1 = w_silent_ticks w \<and> w_init_unanswered w1 = w_init_unanswered w \<and> w_cfg w1 = w_cfg w \<or>
     e1 = Switch (next_profile (w_cfg w)) # force_reconnect r \<and> w_silent_ticks w1 = 0 \<and> \<not> w_init_unanswered w1"
    "c_profile_count (w_cfg w1) = c_profile_count (w_cfg w)"
proof -
  have i: "wf_config (w_cfg w)" "w_fb_silent w < wc_fb_checks wc" "0 \<le> w_fb_silent w" "0 \<le> w_silent_ticks w"
    "w_silent_ticks w \<le> wc_checks_needed wc" "1 \<le> wc_fb_checks wc" "1 \<le> wc_checks_needed wc"
    using assms by (simp_all add: w_inv_def wc_ok_def)
  obtain cfg' where c: "config_apply_profile (w_cfg w) (next_profile (w_cfg w)) = Some cfg'" "wf_config cfg'"
    "c_profile_count cfg' = c_profile_count (w_cfg w)" using switch_ok [OF i(1)] by blast
  consider "\<not> wc_fb_enabled wc" | "wc_fb_enabled wc" "rd_remote_rx r" | "wc_fb_enabled wc" "\<not> rd_remote_rx r" "\<not> rd_active r"
    | "wc_fb_enabled wc" "\<not> rd_remote_rx r" "rd_active r" "w_fb_silent w + 1 < wc_fb_checks wc"
    | "wc_fb_enabled wc" "\<not> rd_remote_rx r" "rd_active r" "\<not> w_fb_silent w + 1 < wc_fb_checks wc" by blast
  then have "\<exists>w1 e1. fb_tick wc r w = Some (w1, e1) \<and> w_inv wc w1 \<and>
    (e1 = [] \<and> w_silent_ticks w1 = w_silent_ticks w \<and> w_init_unanswered w1 = w_init_unanswered w \<and> w_cfg w1 = w_cfg w \<or>
     e1 = Switch (next_profile (w_cfg w)) # force_reconnect r \<and> w_silent_ticks w1 = 0 \<and> \<not> w_init_unanswered w1) \<and>
    c_profile_count (w_cfg w1) = c_profile_count (w_cfg w)"
    by cases (use i c in \<open>simp_all add: fb_tick_def w_inv_def\<close>)
  then show thesis using that by blast
qed

lemma silence_tick_inv:
  assumes "w_inv wc w" "wc_ok wc"
  shows "w_inv wc (fst (silence_tick wc r w))" "w_cfg (fst (silence_tick wc r w)) = w_cfg w"
    "w_fb_silent (fst (silence_tick wc r w)) = w_fb_silent w"
  using assms by (simp_all add: silence_tick_def hop_tick_def count_silence_def w_inv_def wc_ok_def Let_def)

lemma dns_tick_fields:
  "w_cfg (fst (dns_tick wc r w)) = w_cfg w" "w_silent_ticks (fst (dns_tick wc r w)) = w_silent_ticks w"
  "w_init_unanswered (fst (dns_tick wc r w)) = w_init_unanswered w" "w_fb_silent (fst (dns_tick wc r w)) = w_fb_silent w"
  "set (snd (dns_tick wc r w)) \<subseteq> range Reconnect"
  by (auto simp: dns_tick_def Let_def split: option.splits)

lemma watch_tick_eq:
  assumes "fb_tick wc r w = Some (w1, e1)"
  shows "watch_tick wc r w = Some (fst (dns_tick wc r (fst (silence_tick wc r w1))),
    e1 @ snd (silence_tick wc r w1) @ snd (dns_tick wc r (fst (silence_tick wc r w1))))"
  using assms by (simp add: watch_tick_def split: prod.split)

lemma watch_tick_inv:
  assumes "w_inv wc w" "wc_ok wc"
  shows "\<exists>w' e. watch_tick wc r w = Some (w', e) \<and> w_inv wc w' \<and> c_profile_count (w_cfg w') = c_profile_count (w_cfg w)"
proof -
  obtain w1 e1 where f: "fb_tick wc r w = Some (w1, e1)" "w_inv wc w1" "c_profile_count (w_cfg w1) = c_profile_count (w_cfg w)"
    using fb_tick_ok [OF assms] by metis
  let ?w2 = "fst (silence_tick wc r w1)"
  have "w_inv wc (fst (dns_tick wc r ?w2))"
    using silence_tick_inv(1) [OF f(2) assms(2)] dns_tick_fields [of wc r ?w2] by (simp add: w_inv_def)
  then show ?thesis unfolding watch_tick_eq [OF f(1)]
    using f(3) silence_tick_inv(2) [OF f(2) assms(2)] dns_tick_fields(1) [of wc r ?w2] by simp
qed

lemma watch_run_inv:
  assumes "w_inv wc w" "wc_ok wc"
  shows "\<exists>w' es. watch_run wc rs w = Some (w', es) \<and> w_inv wc w'"
  using assms(1)
proof (induction rs arbitrary: w)
  case (Cons r rs)
  obtain w1 e where t: "watch_tick wc r w = Some (w1, e)" "w_inv wc w1"
    using watch_tick_inv [OF Cons.prems assms(2)] by blast
  from Cons.IH [OF t(2)] obtain w' es where "watch_run wc rs w1 = Some (w', es)" "w_inv wc w'" by blast
  then show ?case by (simp add: t)
qed simp

section \<open>An unanswered handshake\<close>

text \<open>One silent tick with a handshake open: a reconnect, or the count goes on.\<close>

lemma silent_tick_progress:
  assumes "w_inv wc w" "wc_ok wc" "\<not> rd_remote_rx r" "rd_fd r = Some fd" "w_init_unanswered w \<or> rd_init r"
    and "watch_tick wc r w = Some (w', e)"
  shows "Reconnect fd \<in> set e \<or>
    (w_init_unanswered w' \<and> w_silent_ticks w' = w_silent_ticks w + 1 \<and> w_silent_ticks w' < patience wc)"
proof -
  obtain w1 e1 where f: "fb_tick wc r w = Some (w1, e1)" "w_inv wc w1"
    and c: "e1 = [] \<and> w_silent_ticks w1 = w_silent_ticks w \<and> w_init_unanswered w1 = w_init_unanswered w \<and> w_cfg w1 = w_cfg w \<or>
     e1 = Switch (next_profile (w_cfg w)) # force_reconnect r \<and> w_silent_ticks w1 = 0 \<and> \<not> w_init_unanswered w1"
    using fb_tick_ok [OF assms(1,2)] by metis
  let ?s = "silence_tick wc r w1"
  have t: "w' = fst (dns_tick wc r (fst ?s))" "set e = set e1 \<union> set (snd ?s) \<union> set (snd (dns_tick wc r (fst ?s)))"
    using assms(6) watch_tick_eq [OF f(1)] by auto
  show ?thesis
  proof (cases "e1 = []")
    case False
    then show ?thesis using c assms(4) t(2) by (auto simp: force_reconnect_def)
  next
    case True
    then have u: "w_silent_ticks w1 = w_silent_ticks w" "w_init_unanswered w1 \<or> rd_init r" using c assms(5) by auto
    have b: "w_silent_ticks w \<le> wc_checks_needed wc" "1 \<le> wc_checks_needed wc" using assms(1,2) by (simp_all add: w_inv_def wc_ok_def)
    have "Reconnect fd \<in> set (snd ?s) \<or> (w_init_unanswered (fst ?s) \<and>
        w_silent_ticks (fst ?s) = w_silent_ticks w + 1 \<and> w_silent_ticks (fst ?s) < patience wc)"
      using assms(3,4) u b
      by (auto simp: silence_tick_def hop_tick_def count_silence_def force_reconnect_def patience_def Let_def)
    then show ?thesis using t dns_tick_fields [of wc r "fst ?s"] by auto
  qed
qed

lemma silent_run_reconnects:
  assumes "w_inv wc w" "wc_ok wc" "\<forall>r \<in> set rs. \<not> rd_remote_rx r \<and> rd_fd r \<noteq> None" "rs \<noteq> []"
    and "w_init_unanswered w \<or> rd_init (hd rs)" "patience wc \<le> w_silent_ticks w + int (length rs)"
    and "watch_run wc rs w = Some (w', es)"
  shows "\<exists>fd. Reconnect fd \<in> set es"
  using assms(1,3-7)
proof (induction rs arbitrary: w es)
  case (Cons r rs)
  obtain w1 e es' where t: "watch_tick wc r w = Some (w1, e)" and k: "watch_run wc rs w1 = Some (w', es')" and es: "es = e @ es'"
    using Cons.prems(6) by (auto split: Option.bind_splits)
  obtain fd where fd: "rd_fd r = Some fd" "\<not> rd_remote_rx r" using Cons.prems(2) by auto
  have i: "w_inv wc w1" using watch_tick_inv [OF Cons.prems(1) assms(2), of r] t by auto
  from silent_tick_progress [OF Cons.prems(1) assms(2) fd(2,1) _ t] Cons.prems(4)
  consider "Reconnect fd \<in> set e" | "w_init_unanswered w1" "w_silent_ticks w1 = w_silent_ticks w + 1" "w_silent_ticks w1 < patience wc"
    by auto
  then show ?case
  proof cases
    case 1
    then show ?thesis using es by auto
  next
    case 2
    then have "patience wc \<le> w_silent_ticks w1 + int (length rs)" "rs \<noteq> []" using Cons.prems(5) by auto
    then have "\<exists>fd. Reconnect fd \<in> set es'" using Cons.IH [OF i _ _ _ _ k] Cons.prems(2) 2(1) by simp
    then show ?thesis using es by auto
  qed
qed simp

text \<open>
  C30. A wedged tunnel is noticed.  Once the client has sent a handshake and the remote stays silent,
  a reconnect is forced before the silence has lasted \<open>AWG_TIMEOUT\<close>, and before three ticks
  when the remote has several ports, whatever the fallback probe and the DNS check do meanwhile.
\<close>

theorem unanswered_handshake_reconnects:
  assumes "wf_config cfg" "wc = watch_setup cfg t ports lit"
    and "\<forall>r \<in> set rs. \<not> rd_remote_rx r \<and> rd_fd r \<noteq> None" "rs \<noteq> []" "rd_init (hd rs)" "patience wc \<le> int (length rs)"
  shows "5 * patience wc \<le> max 5 (if 0 < t_timeout t then t_timeout t else 180) \<and> (1 < ports \<longrightarrow> patience wc \<le> 3) \<and>
    (\<exists>w es fd. watch_run wc rs (watch_start cfg) = Some (w, es) \<and> Reconnect fd \<in> set es)"
proof -
  have ok: "wc_ok wc" unfolding assms(2) by (rule watch_setup_ok)
  have i: "w_inv wc (watch_start cfg)" using assms(1) ok by (simp add: w_inv_def wc_ok_def watch_start_def)
  obtain w es where r: "watch_run wc rs (watch_start cfg) = Some (w, es)" using watch_run_inv [OF i ok] by blast
  have "\<exists>fd. Reconnect fd \<in> set es"
    by (rule silent_run_reconnects [OF i ok assms(3,4) _ _ r]) (use assms(5,6) in \<open>simp_all add: watch_start_def\<close>)
  moreover have "5 * wc_checks_needed wc \<le> max 5 (if 0 < t_timeout t then t_timeout t else 180)"
    by (auto simp: assms(2) watch_setup_def at_least_1_def sdiv_pos)
  moreover have "patience wc \<le> wc_checks_needed wc" "1 < ports \<longrightarrow> patience wc \<le> 3"
    by (auto simp: patience_def assms(2) watch_setup_def)
  ultimately show ?thesis using r by fastforce
qed

text \<open>A client whose handshake goes unanswered on a remote with two ports.\<close>

definition silent_reading :: reading where
  "silent_reading = \<lparr>rd_active = True, rd_remote_rx = False, rd_init = True, rd_fd = Some 5, rd_reconnect = False, rd_dns = 0\<rparr>"

theorem unanswered_handshake_reconnects_witness:
  "patience (watch_setup example_config example_tuning 2 False) = 3 \<and>
   (\<exists>w es fd. watch_run (watch_setup example_config example_tuning 2 False) (replicate 3 silent_reading)
      (watch_start example_config) = Some (w, es) \<and> Reconnect fd \<in> set es)"
proof -
  have p: "patience (watch_setup example_config example_tuning 2 False) = 3"
    by (simp add: patience_def watch_setup_def at_least_1_def example_tuning_def sdiv_pos)
  from unanswered_handshake_reconnects [OF wf_example_config refl, where rs = "replicate 3 silent_reading" and t = example_tuning
      and ports = 2 and lit = False] p show ?thesis by (simp add: silent_reading_def)
qed

section \<open>Silence alone\<close>

lemma watch_run_snoc:
  "watch_run wc (rs @ [r]) w = do { (w, es) \<leftarrow> watch_run wc rs w; (w, e) \<leftarrow> watch_tick wc r w; Some (w, es @ e) }"
  by (induction rs arbitrary: w) (auto split: Option.bind_splits)

text \<open>What the counters stand for: the silent ticks at the end of the run so far.\<close>

definition counts :: "reading list \<Rightarrow> watch \<Rightarrow> bool" where
  "counts rs w \<longleftrightarrow> (\<exists>pre run. rs = pre @ run \<and> (\<forall>r \<in> set run. \<not> rd_remote_rx r) \<and>
     w_silent_ticks w \<le> int (length run) \<and> (w_init_unanswered w \<longrightarrow> (\<exists>r \<in> set run. rd_init r)))"

lemma counts_zero: "w_silent_ticks w = 0 \<Longrightarrow> \<not> w_init_unanswered w \<Longrightarrow> counts rs w"
  unfolding counts_def by (rule exI [of _ rs], rule exI [of _ "[]"]) simp

lemma counts_silence:
  assumes "counts rs w" "\<not> rd_remote_rx r"
  shows "counts (rs @ [r]) (count_silence wc r w)"
proof -
  obtain pre run where n: "rs = pre @ run" "\<forall>r \<in> set run. \<not> rd_remote_rx r" "w_silent_ticks w \<le> int (length run)"
    "w_init_unanswered w \<longrightarrow> (\<exists>r \<in> set run. rd_init r)" using assms(1) unfolding counts_def by blast
  show ?thesis unfolding counts_def
    by (rule exI [of _ pre], rule exI [of _ "run @ [r]"]) (use n assms(2) in \<open>auto simp: count_silence_def\<close>)
qed

lemma counts_cong: "w_silent_ticks w' = w_silent_ticks w \<Longrightarrow> w_init_unanswered w' = w_init_unanswered w \<Longrightarrow> counts rs w' = counts rs w"
  by (simp add: counts_def)

text \<open>The silence part keeps the count, and gives its verdict only on a count that warrants it.\<close>

lemma silence_tick_counts:
  assumes "counts rs w" "1 \<le> wc_checks_needed wc"
  shows "counts (rs @ [r]) (fst (silence_tick wc r w))"
    and "x \<in> {He_reset, Remote_dead} \<Longrightarrow> x \<in> set (snd (silence_tick wc r w)) \<Longrightarrow>
      \<exists>pre run. rs @ [r] = pre @ run \<and> (\<forall>r \<in> set run. \<not> rd_remote_rx r) \<and> (\<exists>r \<in> set run. rd_init r) \<and>
        patience wc \<le> int (length run)"
proof -
  let ?c = "count_silence wc r w"
  consider (rx) "rd_remote_rx r"
    | (hop) "\<not> rd_remote_rx r" "wc_hop_checks wc \<noteq> 0" "w_init_unanswered ?c" "wc_hop_checks wc \<le> w_silent_ticks ?c"
    | (dead) "\<not> rd_remote_rx r" "\<not> (wc_hop_checks wc \<noteq> 0 \<and> w_init_unanswered ?c \<and> wc_hop_checks wc \<le> w_silent_ticks ?c)"
        "wc_checks_needed wc \<le> w_silent_ticks ?c" "w_init_unanswered ?c"
    | (go) "\<not> rd_remote_rx r" "\<not> (wc_hop_checks wc \<noteq> 0 \<and> w_init_unanswered ?c \<and> wc_hop_checks wc \<le> w_silent_ticks ?c)"
        "\<not> (wc_checks_needed wc \<le> w_silent_ticks ?c \<and> w_init_unanswered ?c)" by blast
  note cases = this
  from cases show "counts (rs @ [r]) (fst (silence_tick wc r w))"
  proof cases
    case go
    then have "silence_tick wc r w = (?c, [])" by (auto simp: silence_tick_def Let_def)
    then show ?thesis using counts_silence [OF assms(1) go(1)] by simp
  qed (auto simp: silence_tick_def hop_tick_def Let_def intro!: counts_zero)
  assume x: "x \<in> {He_reset, Remote_dead}" "x \<in> set (snd (silence_tick wc r w))"
  have "\<not> rd_remote_rx r" "w_init_unanswered ?c" "patience wc \<le> w_silent_ticks ?c"
    using x cases by (auto simp: silence_tick_def Let_def patience_def split: if_splits)
  note v = this
  obtain pre run where "rs @ [r] = pre @ run" "\<forall>r \<in> set run. \<not> rd_remote_rx r" "w_silent_ticks ?c \<le> int (length run)"
    "\<exists>r \<in> set run. rd_init r"
    using counts_silence [OF assms(1) v(1), of wc] v(2) unfolding counts_def by blast
  then show "\<exists>pre run. rs @ [r] = pre @ run \<and> (\<forall>r \<in> set run. \<not> rd_remote_rx r) \<and> (\<exists>r \<in> set run. rd_init r) \<and>
        patience wc \<le> int (length run)"
    using order.trans [OF v(3)] by blast
qed

lemma fb_tick_counts:
  assumes "counts rs w" "w_inv wc w" "wc_ok wc" "fb_tick wc r w = Some (w1, e1)"
  shows "counts rs w1" "set e1 \<inter> {He_reset, Remote_dead} = {}" "w_inv wc w1"
proof -
  obtain w2 e2 where f: "fb_tick wc r w = Some (w2, e2)" "w_inv wc w2"
    and c: "e2 = [] \<and> w_silent_ticks w2 = w_silent_ticks w \<and> w_init_unanswered w2 = w_init_unanswered w \<and> w_cfg w2 = w_cfg w \<or>
     e2 = Switch (next_profile (w_cfg w)) # force_reconnect r \<and> w_silent_ticks w2 = 0 \<and> \<not> w_init_unanswered w2"
    using fb_tick_ok [OF assms(2,3)] by metis
  have e: "w2 = w1" "e2 = e1" using f(1) assms(4) by simp_all
  show "counts rs w1" using c assms(1) counts_zero counts_cong unfolding e by blast
  show "set e1 \<inter> {He_reset, Remote_dead} = {}" using c unfolding e by (auto simp: force_reconnect_def split: option.splits)
  show "w_inv wc w1" using f(2) e by simp
qed

lemma watch_tick_counts:
  assumes "counts rs w" "w_inv wc w" "wc_ok wc" "watch_tick wc r w = Some (w', e)"
  shows "counts (rs @ [r]) w'"
    and "x \<in> {He_reset, Remote_dead} \<Longrightarrow> x \<in> set e \<Longrightarrow>
      \<exists>pre run. rs @ [r] = pre @ run \<and> (\<forall>r \<in> set run. \<not> rd_remote_rx r) \<and> (\<exists>r \<in> set run. rd_init r) \<and>
        patience wc \<le> int (length run)"
proof -
  obtain w1 e1 where f: "fb_tick wc r w = Some (w1, e1)" using fb_tick_ok [OF assms(2,3)] by metis
  note fc = fb_tick_counts [OF assms(1-3) f]
  have c: "1 \<le> wc_checks_needed wc" using assms(3) by (simp add: wc_ok_def)
  let ?s = "silence_tick wc r w1"
  have t: "w' = fst (dns_tick wc r (fst ?s))" "set e = set e1 \<union> set (snd ?s) \<union> set (snd (dns_tick wc r (fst ?s)))"
    using assms(4) watch_tick_eq [OF f] by auto
  show "counts (rs @ [r]) w'"
    using silence_tick_counts(1) [OF fc(1) c] dns_tick_fields(2,3) [of wc r "fst ?s"] counts_cong unfolding t(1) by metis
  assume x: "x \<in> {He_reset, Remote_dead}" "x \<in> set e"
  then have "x \<in> set (snd ?s)" using t(2) fc(2) dns_tick_fields(5) [of wc r "fst ?s"] by auto
  then show "\<exists>pre run. rs @ [r] = pre @ run \<and> (\<forall>r \<in> set run. \<not> rd_remote_rx r) \<and> (\<exists>r \<in> set run. rd_init r) \<and>
        patience wc \<le> int (length run)" by (rule silence_tick_counts(2) [OF fc(1) c x(1)])
qed

lemma watch_run_counts:
  assumes "wf_config cfg" "wc_ok wc" "watch_run wc rs (watch_start cfg) = Some (w, es)"
  shows "counts rs w \<and> w_inv wc w"
  using assms(3)
proof (induction rs arbitrary: w es rule: rev_induct)
  case Nil
  have "w_inv wc (watch_start cfg)" using assms by (simp add: w_inv_def wc_ok_def watch_start_def)
  then show ?case using Nil counts_zero [of w] by (auto simp: watch_start_def)
next
  case (snoc r rs)
  then obtain w0 es0 e where r: "watch_run wc rs (watch_start cfg) = Some (w0, es0)" and t: "watch_tick wc r w0 = Some (w, e)"
    by (auto simp: watch_run_snoc split: Option.bind_splits)
  have "counts rs w0" "w_inv wc w0" using snoc.IH [OF r] by simp_all
  then show ?case using watch_tick_counts(1) [OF _ _ assms(2) t] watch_tick_inv [OF _ assms(2), of w0 r] t by auto
qed

text \<open>The kinds of effect that are counted.\<close>

fun is_Reconnect :: "effect \<Rightarrow> bool" where
  "is_Reconnect (Reconnect fd) = True"
| "is_Reconnect _ = False"

fun is_Switch :: "effect \<Rightarrow> bool" where
  "is_Switch (Switch k) = True"
| "is_Switch _ = False"

text \<open>Where the effects of a tick come from, one lemma per part.\<close>

lemma fb_tick_effects:
  "fb_tick wc r w = Some (w1, e1) \<Longrightarrow> e1 = [] \<or>
     wc_fb_enabled wc \<and> rd_active r \<and> \<not> rd_remote_rx r \<and> e1 = Switch (next_profile (w_cfg w)) # force_reconnect r"
  by (auto simp: fb_tick_def split: if_splits option.splits)

lemma silence_tick_effects:
  "snd (silence_tick wc r w) = [] \<or>
     (\<exists>h. set h \<subseteq> {He_reset} \<and> snd (silence_tick wc r w) = h @ Remote_dead # force_reconnect r)"
  by (auto simp: silence_tick_def hop_tick_def Let_def)

lemma dns_tick_effects:
  "snd (dns_tick wc r w) = [] \<or>
     wc_dns_checks wc > 0 \<and> \<not> rd_reconnect r \<and> rd_dns r = 1 \<and> (\<exists>fd. rd_fd r = Some fd \<and> snd (dns_tick wc r w) = [Reconnect fd])"
  by (auto simp: dns_tick_def Let_def split: option.splits)

lemma force_reconnect_effects:
  "Switch k \<notin> set (force_reconnect r)" "He_reset \<notin> set (force_reconnect r)" "Remote_dead \<notin> set (force_reconnect r)"
  "Reconnect fd \<in> set (force_reconnect r) \<longleftrightarrow> rd_fd r = Some fd"
  "length (filter is_Reconnect (force_reconnect r)) \<le> 1" "filter is_Switch (force_reconnect r) = []"
  "filter (\<lambda>x. x = Remote_dead) (force_reconnect r) = []"
  by (auto simp: force_reconnect_def split: option.split)

lemma hop_effects:
  "set h \<subseteq> {He_reset} \<Longrightarrow> filter is_Reconnect h = [] \<and> filter is_Switch h = [] \<and> filter (\<lambda>x. x = Remote_dead) h = []"
  by (induction h) auto

lemma watch_tick_effects:
  assumes "watch_tick wc r w = Some (w', e)" "w_inv wc w" "wc_ok wc"
  shows "Reconnect fd \<in> set e \<Longrightarrow> rd_fd r = Some fd \<and>
      (Remote_dead \<in> set e \<or> (\<exists>k. Switch k \<in> set e) \<or> wc_dns_checks wc > 0 \<and> \<not> rd_reconnect r \<and> rd_dns r = 1)"
    "Switch k \<in> set e \<Longrightarrow> wc_fb_enabled wc \<and> rd_active r \<and> \<not> rd_remote_rx r"
    "length (filter is_Reconnect e) \<le> length (filter is_Switch e) + length (filter (\<lambda>x. x = Remote_dead) e) + (if rd_dns r = 1 then 1 else 0)"
proof -
  obtain w1 e1 where f: "fb_tick wc r w = Some (w1, e1)" using fb_tick_ok [OF assms(2,3)] by metis
  define e2 where "e2 = snd (silence_tick wc r w1)"
  define e3 where "e3 = snd (dns_tick wc r (fst (silence_tick wc r w1)))"
  have e: "e = e1 @ e2 @ e3" using assms(1) watch_tick_eq [OF f] by (simp add: e2_def e3_def)
  have 1: "e1 = [] \<or> wc_fb_enabled wc \<and> rd_active r \<and> \<not> rd_remote_rx r \<and> e1 = Switch (next_profile (w_cfg w)) # force_reconnect r"
    by (rule fb_tick_effects [OF f])
  have 2: "e2 = [] \<or> (\<exists>h. set h \<subseteq> {He_reset} \<and> e2 = h @ Remote_dead # force_reconnect r)"
    unfolding e2_def by (rule silence_tick_effects)
  have 3: "e3 = [] \<or> wc_dns_checks wc > 0 \<and> \<not> rd_reconnect r \<and> rd_dns r = 1 \<and> (\<exists>fd. rd_fd r = Some fd \<and> e3 = [Reconnect fd])"
    unfolding e3_def by (rule dns_tick_effects)
  note F = force_reconnect_effects [where r = r]
  have r1: "Reconnect fd \<in> set e1 \<Longrightarrow> rd_fd r = Some fd \<and> (\<exists>k. Switch k \<in> set e1)" using 1 F(4) by fastforce
  have r2: "Reconnect fd \<in> set e2 \<Longrightarrow> rd_fd r = Some fd \<and> Remote_dead \<in> set e2" using 2 F(4) by fastforce
  have r3: "Reconnect fd \<in> set e3 \<Longrightarrow> rd_fd r = Some fd \<and> wc_dns_checks wc > 0 \<and> \<not> rd_reconnect r \<and> rd_dns r = 1"
    using 3 by fastforce
  have s1: "Switch k \<in> set e1 \<Longrightarrow> wc_fb_enabled wc \<and> rd_active r \<and> \<not> rd_remote_rx r" using 1 by fastforce
  have s2: "Switch k \<notin> set e2" using 2 F(1) by fastforce
  have s3: "Switch k \<notin> set e3" using 3 by fastforce
  show "Reconnect fd \<in> set e \<Longrightarrow> rd_fd r = Some fd \<and>
      (Remote_dead \<in> set e \<or> (\<exists>k. Switch k \<in> set e) \<or> wc_dns_checks wc > 0 \<and> \<not> rd_reconnect r \<and> rd_dns r = 1)"
    using r1 r2 r3 unfolding e by auto
  show "Switch k \<in> set e \<Longrightarrow> wc_fb_enabled wc \<and> rd_active r \<and> \<not> rd_remote_rx r"
    using s1 s2 s3 unfolding e by auto
  have "length (filter is_Reconnect e1) \<le> length (filter is_Switch e1)" using 1 F(5) by auto
  moreover have "length (filter is_Reconnect e2) \<le> length (filter (\<lambda>x. x = Remote_dead) e2)"
    using 2 F(5) hop_effects by auto
  moreover have "length (filter is_Reconnect e3) \<le> (if rd_dns r = 1 then 1 else 0)" using 3 by auto
  ultimately show "length (filter is_Reconnect e) \<le>
      length (filter is_Switch e) + length (filter (\<lambda>x. x = Remote_dead) e) + (if rd_dns r = 1 then 1 else 0)"
    unfolding e by simp
qed

text \<open>
  C31. Silence alone is not a fault, tick by tick after any run from the start.  When the watchdog
  declares the remote dead or drops the learned address family, the remote has been silent for
  as many ticks as the patience says, and the client sent a handshake during that stretch.  Every
  reconnect has one of three causes, and there are no more of them than causes: such a verdict,
  a switch of the fallback probe (several profiles, the client active and the remote silent),
  or the name check reporting that the address is gone.  So a tunnel on which no handshake was started is left
  alone, whatever its silence, on every tick without fallback activity and without that report.
\<close>

theorem idle_tunnel_not_reconnected:
  assumes "wf_config cfg" "wc = watch_setup cfg t ports lit"
    and "watch_run wc rs (watch_start cfg) = Some (w, es)" "watch_tick wc r w = Some (w', e)"
  shows "(He_reset \<in> set e \<or> Remote_dead \<in> set e \<longrightarrow>
      (\<exists>pre run. rs @ [r] = pre @ run \<and> (\<forall>r \<in> set run. \<not> rd_remote_rx r) \<and> (\<exists>r \<in> set run. rd_init r) \<and>
        patience wc \<le> int (length run))) \<and>
    (\<forall>fd. Reconnect fd \<in> set e \<longrightarrow> rd_fd r = Some fd \<and>
      (Remote_dead \<in> set e \<or> (\<exists>k. Switch k \<in> set e) \<or> wc_dns_checks wc > 0 \<and> \<not> rd_reconnect r \<and> rd_dns r = 1)) \<and>
    (\<forall>k. Switch k \<in> set e \<longrightarrow> wc_fb_enabled wc \<and> rd_active r \<and> \<not> rd_remote_rx r) \<and>
    length (filter is_Reconnect e) \<le>
      length (filter is_Switch e) + length (filter (\<lambda>x. x = Remote_dead) e) + (if rd_dns r = 1 then 1 else 0) \<and>
    ((\<forall>x \<in> set (rs @ [r]). \<not> rd_init x) \<and> \<not> (wc_fb_enabled wc \<and> rd_active r \<and> \<not> rd_remote_rx r) \<and> rd_dns r \<noteq> 1 \<longrightarrow> e = [])"
proof -
  have ok: "wc_ok wc" unfolding assms(2) by (rule watch_setup_ok)
  have inv: "counts rs w" "w_inv wc w" using watch_run_counts [OF assms(1) ok assms(3)] by simp_all
  note E = watch_tick_effects [OF assms(4) inv(2) ok]
  have V: "\<exists>pre run. rs @ [r] = pre @ run \<and> (\<forall>r \<in> set run. \<not> rd_remote_rx r) \<and> (\<exists>r \<in> set run. rd_init r) \<and>
      patience wc \<le> int (length run)" if "He_reset \<in> set e \<or> Remote_dead \<in> set e"
    using watch_tick_counts(2) [OF inv ok assms(4)] that by blast
  have idle: "e = []" if q: "\<forall>x \<in> set (rs @ [r]). \<not> rd_init x"
    "\<not> (wc_fb_enabled wc \<and> rd_active r \<and> \<not> rd_remote_rx r)" "rd_dns r \<noteq> 1"
  proof -
    have no: "He_reset \<notin> set e" "Remote_dead \<notin> set e"
    proof -
      have False if v: "He_reset \<in> set e \<or> Remote_dead \<in> set e"
      proof -
        obtain pre run x where x: "rs @ [r] = pre @ run" "x \<in> set run" "rd_init x" using V [OF v] by blast
        then have "x \<in> set (rs @ [r])" unfolding x(1) by simp
        then show False using q(1) x(3) by blast
      qed
      then show "He_reset \<notin> set e" "Remote_dead \<notin> set e" by blast+
    qed
    have "Switch k \<notin> set e" "Reconnect fd \<notin> set e" for k fd using E(1,2) no q(2,3) by blast+
    then have "x \<notin> set e" for x using no by (cases x) auto
    then show ?thesis by (cases e) auto
  qed
  show ?thesis using V E idle by blast
qed

text \<open>A client that is active on a silent connection and starts no handshake.\<close>

definition idle_reading :: reading where
  "idle_reading = silent_reading\<lparr>rd_init := False\<rparr>"

theorem idle_tunnel_not_reconnected_witness:
  "\<exists>w es w' e w''. watch_run (watch_setup example_config example_tuning 2 False) (replicate 2 silent_reading) (watch_start example_config) = Some (w, es) \<and>
     watch_tick (watch_setup example_config example_tuning 2 False) silent_reading w = Some (w', e) \<and> Remote_dead \<in> set e \<and>
     (\<exists>pre run. replicate 2 silent_reading @ [silent_reading] = pre @ run \<and> (\<exists>r \<in> set run. rd_init r) \<and> 3 \<le> length run) \<and>
     watch_tick (watch_setup example_config example_tuning 2 False) idle_reading (watch_start example_config) = Some (w'', [])"
proof -
  define wc where "wc = watch_setup example_config example_tuning 2 False"
  have p: "patience wc = 3" "wc_fb_enabled wc = False" "wc_dns_checks wc = 12" "wc_hop_checks wc = 3" "wc_checks_needed wc = 12"
    using wf_example_config
    by (simp_all add: wc_def patience_def watch_setup_def at_least_1_def example_tuning_def sdiv_pos example_config_def
        config_compute_def start_chain_def example_input_def mirror_profile_def)
  have "\<exists>w es. watch_run wc (replicate 2 silent_reading) (watch_start example_config) = Some (w, es) \<and>
      w_silent_ticks w = 2 \<and> w_init_unanswered w \<and> w_dns_tick w = 2"
    by (simp add: numeral_2_eq_2 watch_tick_def fb_tick_def silence_tick_def dns_tick_def count_silence_def watch_start_def
        silent_reading_def p Let_def)
  then obtain w es where w: "watch_run wc (replicate 2 silent_reading) (watch_start example_config) = Some (w, es)"
    "w_silent_ticks w = 2" "w_init_unanswered w" "w_dns_tick w = 2" by blast
  then have "\<exists>w' e. watch_tick wc silent_reading w = Some (w', e) \<and> Remote_dead \<in> set e"
    by (simp add: watch_tick_def fb_tick_def silence_tick_def dns_tick_def hop_tick_def count_silence_def silent_reading_def p Let_def)
  then obtain w' e where t: "watch_tick wc silent_reading w = Some (w', e)" "Remote_dead \<in> set e" by blast
  from idle_tunnel_not_reconnected [OF wf_example_config wc_def w(1) t(1)] t(2)
  obtain pre run where "replicate 2 silent_reading @ [silent_reading] = pre @ run" "\<exists>r \<in> set run. rd_init r" "3 \<le> length run"
    by (auto simp: p)
  moreover have "\<exists>w''. watch_tick wc idle_reading (watch_start example_config) = Some (w'', [])"
  proof -
    have ok: "wc_ok wc" unfolding wc_def by (rule watch_setup_ok)
    then have inv: "wc_ok wc" "w_inv wc (watch_start example_config)"
      using wf_example_config by (simp_all add: w_inv_def wc_ok_def watch_start_def)
    obtain w'' e' where i: "watch_tick wc idle_reading (watch_start example_config) = Some (w'', e')"
      using watch_tick_inv [of wc "watch_start example_config" idle_reading] inv by blast
    have "e' = []" using idle_tunnel_not_reconnected [OF wf_example_config wc_def, of "[]"] i
      by (simp add: idle_reading_def silent_reading_def p)
    then show ?thesis using i by blast
  qed
  ultimately show ?thesis using w(1) t unfolding wc_def by blast
qed

section \<open>The fallback probe\<close>

lemma fb_tick_probe:
  assumes "w_inv wc w" "wc_ok wc" "wc_fb_enabled wc" "\<not> rd_remote_rx r" "rd_active r" "fb_tick wc r w = Some (w', e)"
  shows "c_active_profile (w_cfg w') =
      (c_active_profile (w_cfg w) + (w_fb_silent w + 1) div wc_fb_checks wc) mod c_profile_count (w_cfg w)"
    and "w_fb_silent w' = (w_fb_silent w + 1) mod wc_fb_checks wc"
proof -
  have i: "wf_config (w_cfg w)" "0 \<le> w_fb_silent w" "w_fb_silent w < wc_fb_checks wc" "1 \<le> wc_fb_checks wc"
    using assms by (simp_all add: w_inv_def wc_ok_def)
  obtain cfg' where c: "config_apply_profile (w_cfg w) (next_profile (w_cfg w)) = Some cfg'"
    "c_active_profile cfg' = next_profile (w_cfg w)" using switch_ok [OF i(1)] by blast
  have a: "0 \<le> c_active_profile (w_cfg w)" "c_active_profile (w_cfg w) < c_profile_count (w_cfg w)"
    using i(1) by (simp_all add: wf_config_def)
  consider "w_fb_silent w + 1 < wc_fb_checks wc" | "w_fb_silent w + 1 = wc_fb_checks wc" using i by linarith
  then have "c_active_profile (w_cfg w') =
      (c_active_profile (w_cfg w) + (w_fb_silent w + 1) div wc_fb_checks wc) mod c_profile_count (w_cfg w) \<and>
    w_fb_silent w' = (w_fb_silent w + 1) mod wc_fb_checks wc"
  proof cases
    case 1
    then have "w' = w\<lparr>w_fb_silent := w_fb_silent w + 1\<rparr>" using assms by (simp add: fb_tick_def)
    then show ?thesis using 1 i a by simp
  next
    case 2
    then have "w' = w\<lparr>w_cfg := cfg', w_fb_silent := 0, w_silent_ticks := 0, w_init_unanswered := False\<rparr>"
      using assms c by (simp add: fb_tick_def)
    then show ?thesis using 2 i c(2) next_profile_mod(1) [OF i(1)] by simp
  qed
  then show "c_active_profile (w_cfg w') =
      (c_active_profile (w_cfg w) + (w_fb_silent w + 1) div wc_fb_checks wc) mod c_profile_count (w_cfg w)"
    and "w_fb_silent w' = (w_fb_silent w + 1) mod wc_fb_checks wc" by simp_all
qed

lemma watch_tick_probe:
  assumes "w_inv wc w" "wc_ok wc" "wc_fb_enabled wc" "watch_tick wc r w = Some (w', e)"
  shows "\<not> rd_remote_rx r \<Longrightarrow> rd_active r \<Longrightarrow> c_active_profile (w_cfg w') =
      (c_active_profile (w_cfg w) + (w_fb_silent w + 1) div wc_fb_checks wc) mod c_profile_count (w_cfg w) \<and>
      w_fb_silent w' = (w_fb_silent w + 1) mod wc_fb_checks wc"
    and "rd_remote_rx r \<Longrightarrow> w_cfg w' = w_cfg w \<and> w_fb_silent w' = 0"
proof -
  obtain w1 e1 where f: "fb_tick wc r w = Some (w1, e1)" "w_inv wc w1" using fb_tick_ok [OF assms(1,2)] by metis
  let ?w2 = "fst (silence_tick wc r w1)"
  have "w' = fst (dns_tick wc r ?w2)" using assms(4) watch_tick_eq [OF f(1)] by simp
  then have e: "w_cfg w' = w_cfg w1" "w_fb_silent w' = w_fb_silent w1"
    using dns_tick_fields(1,4) [of wc r ?w2] silence_tick_inv(2,3) [OF f(2) assms(2)] by simp_all
  show "\<not> rd_remote_rx r \<Longrightarrow> rd_active r \<Longrightarrow> c_active_profile (w_cfg w') =
      (c_active_profile (w_cfg w) + (w_fb_silent w + 1) div wc_fb_checks wc) mod c_profile_count (w_cfg w) \<and>
      w_fb_silent w' = (w_fb_silent w + 1) mod wc_fb_checks wc"
    unfolding e using fb_tick_probe [OF assms(1-3) _ _ f(1)] by simp
  show "rd_remote_rx r \<Longrightarrow> w_cfg w' = w_cfg w \<and> w_fb_silent w' = 0"
    unfolding e using f(1) assms(3) by (auto simp: fb_tick_def)
qed

lemma div_rounds:
  assumes "0 < (k :: int)"
  shows "(m div k) + ((m mod k) + n) div k = (m + n) div k"
proof -
  have "m + n = (m mod k + n) + k * (m div k)" by (simp add: algebra_simps)
  then show ?thesis using assms by (metis add.commute div_mult_self2 less_irrefl)
qed

lemma watch_run_probe:
  assumes "w_inv wc w" "wc_ok wc" "wc_fb_enabled wc" "\<forall>r \<in> set rs. \<not> rd_remote_rx r \<and> rd_active r"
  shows "\<exists>w' es. watch_run wc rs w = Some (w', es) \<and> w_inv wc w' \<and>
    c_active_profile (w_cfg w') = (c_active_profile (w_cfg w) + (w_fb_silent w + int (length rs)) div wc_fb_checks wc) mod c_profile_count (w_cfg w)"
  using assms(1,4)
proof (induction rs arbitrary: w)
  case Nil
  then show ?case by (simp add: w_inv_def wf_config_def)
next
  case (Cons r rs)
  obtain w1 e where t: "watch_tick wc r w = Some (w1, e)" and i: "w_inv wc w1" and n: "c_profile_count (w_cfg w1) = c_profile_count (w_cfg w)"
    using watch_tick_inv [OF Cons.prems(1) assms(2)] by blast
  have k: "0 < wc_fb_checks wc" using assms(2) by (simp add: wc_ok_def)
  have q: "\<not> rd_remote_rx r" "rd_active r" "\<forall>r \<in> set rs. \<not> rd_remote_rx r \<and> rd_active r" using Cons.prems(2) by simp_all
  note p = watch_tick_probe(1) [OF Cons.prems(1) assms(2,3) t q(1,2)]
  obtain w' es where r: "watch_run wc rs w1 = Some (w', es)" "w_inv wc w'"
    and a: "c_active_profile (w_cfg w') = (c_active_profile (w_cfg w1) + (w_fb_silent w1 + int (length rs)) div wc_fb_checks wc) mod c_profile_count (w_cfg w1)"
    using Cons.IH [OF i q(3)] by blast
  have "c_active_profile (w_cfg w') = (c_active_profile (w_cfg w) + (w_fb_silent w + 1) div wc_fb_checks wc +
      ((w_fb_silent w + 1) mod wc_fb_checks wc + int (length rs)) div wc_fb_checks wc) mod c_profile_count (w_cfg w)"
    unfolding a n p [THEN conjunct1] p [THEN conjunct2] by (rule mod_add_left_eq)
  also have "\<dots> = (c_active_profile (w_cfg w) + (w_fb_silent w + 1 + int (length rs)) div wc_fb_checks wc) mod c_profile_count (w_cfg w)"
    unfolding add.assoc div_rounds [OF k] by (simp only: add.assoc)
  also have "w_fb_silent w + 1 + int (length rs) = w_fb_silent w + int (length (r # rs))" by simp
  finally have f: "c_active_profile (w_cfg w') =
    (c_active_profile (w_cfg w) + (w_fb_silent w + int (length (r # rs))) div wc_fb_checks wc) mod c_profile_count (w_cfg w)" .
  have "watch_run wc (r # rs) w = Some (w', e @ es)" using t r(1) by simp
  then show ?case using r(2) f by blast
qed

text \<open>
  C32. The fallback probe.  While the client sends and the remote stays silent, the profile moves on
  one stage every \<open>fb_after\<close> seconds and round the chain, so every profile gets its turn; the
  configuration stays well formed, and a packet from the remote keeps the profile it came on.
\<close>

theorem fallback_probe_rounds:
  assumes "wf_config cfg" "wc = watch_setup cfg t ports lit" "c_profile_count cfg > 1" "c_mode cfg = AWG_MODE_NORMAL"
    and "\<forall>r \<in> set rs. \<not> rd_remote_rx r \<and> rd_active r"
  shows "\<exists>w es. watch_run wc rs (watch_start cfg) = Some (w, es) \<and> wf_config (w_cfg w) \<and>
    c_active_profile (w_cfg w) = (c_active_profile cfg + int (length rs) div wc_fb_checks wc) mod c_profile_count cfg \<and>
    (\<forall>r w' e. rd_remote_rx r \<and> watch_tick wc r w = Some (w', e) \<longrightarrow> w_cfg w' = w_cfg w)"
proof -
  have ok: "wc_ok wc" unfolding assms(2) by (rule watch_setup_ok)
  have i: "w_inv wc (watch_start cfg)" using assms(1) ok by (simp add: w_inv_def wc_ok_def watch_start_def)
  have en: "wc_fb_enabled wc" using assms(3,4) by (simp add: assms(2) watch_setup_def)
  from watch_run_probe [OF i ok en assms(5)] obtain w es where r: "watch_run wc rs (watch_start cfg) = Some (w, es)"
    "w_inv wc w" "c_active_profile (w_cfg w) = (c_active_profile cfg + int (length rs) div wc_fb_checks wc) mod c_profile_count cfg"
    by (auto simp: watch_start_def)
  then show ?thesis using watch_tick_probe(2) [OF r(2) ok en] by (auto simp: w_inv_def)
qed

definition two_stage_config :: awg_config where
  "two_stage_config = example_config\<lparr>c_profile_count := 2, c_mode := AWG_MODE_NORMAL, c_fb_after := 10\<rparr>"

lemma wf_two_stage: "wf_config two_stage_config"
proof -
  obtain p where ps: "c_profiles example_config = [p, example_profile, example_profile, example_profile]"
    by (simp add: example_config_def config_compute_def example_input_def mirror_profile_def eval_nat_numeral)
  have n: "c_profile_count example_config = 1"
    by (simp add: example_config_def config_compute_def example_input_def mirror_profile_def)
  have "config_snapshot_profile two_stage_config = config_snapshot_profile example_config"
    by (simp add: two_stage_config_def config_snapshot_profile_def)
  then show ?thesis using wf_example_config wf_example_profile
    by (auto simp: wf_config_def mirrored_def config_active_profile_def profile_at_def ps n two_stage_config_def)
qed

theorem fallback_probe_rounds_witness:
  "\<exists>w es. watch_run (watch_setup two_stage_config example_tuning 1 False) (replicate 2 silent_reading) (watch_start two_stage_config) = Some (w, es) \<and>
     c_active_profile (w_cfg w) = 1"
proof -
  have a: "c_active_profile two_stage_config = 0" "c_profile_count two_stage_config = 2" "c_mode two_stage_config = AWG_MODE_NORMAL"
    using config_compute_wf(3) [OF example_input_ok] by (simp_all add: two_stage_config_def example_config_def)
  have "wc_fb_checks (watch_setup two_stage_config example_tuning 1 False) = 2"
    by (simp add: watch_setup_def at_least_1_def two_stage_config_def sdiv_pos)
  with fallback_probe_rounds [OF wf_two_stage refl, where rs = "replicate 2 silent_reading" and t = example_tuning
      and ports = 1 and lit = False] a
  show ?thesis by (auto simp: silent_reading_def)
qed

end
