(* ===== verification/Wire_Format.thy ===== *)
theory Wire_Format
  imports Config
begin

text \<open>
  The AmneziaWG wire format on byte lists, without buffers.  The first part models the padding
  helpers of \<^verbatim>\<open>src/src/transform.c\<close> (\<open>mix64\<close>, \<open>fill_padding\<close>, \<open>trailer_len\<close>).  The second part is the
  abstract specification the packet transformation is proved against: a datagram is padding,
  a message with a replaced type field (and MAC1 recomputed over it), encrypted under header
  protection, and an optional trailer.  \<open>wire_encode\<close> builds such a datagram, \<open>wire_decode\<close>
  recognises one by size and type value, in the order handshake slots first, transport last.
  The theorems are the round trips between the two, and that distinct seeds give distinct
  header-protection nonces.
\<close>

section \<open>Padding and trailers\<close>

definition mix64 :: "u64 \<Rightarrow> u64" where
  "mix64 x =
     (let x = x + 0x9E3779B97F4A7C15;
          x = (x XOR drop_bit 30 x) * 0xBF58476D1CE4E5B9;
          x = (x XOR drop_bit 27 x) * 0x94D049BB133111EB
      in x XOR drop_bit 31 x)"

definition fill_padding :: "int \<Rightarrow> u64 \<Rightarrow> bytes" where
  "fill_padding len seed = fst (fastrand_fill (fastrand_init (mix64 seed)) (nat len))"

definition trailer_len :: "awg_config \<Rightarrow> awg_profile \<Rightarrow> int \<Rightarrow> u64 \<Rightarrow> int" where
  "trailer_len cfg pr sz seed =
     (if \<not> pr_rt pr then 0
      else let win = c_udp_window cfg;
               win = (if win > 1500 then 1500 else win)
           in if sint win \<le> sz then 0
              else sint (ucast (mix64 (seed XOR 0x7A11E45) mod
                                ucast (word_of_int (sint win - sz) :: u32)) :: u32))"

section \<open>Message kinds\<close>

datatype msg_kind = Init | Response | Cookie | Transport

fun kind_type :: "msg_kind \<Rightarrow> u32" where
  "kind_type Init = WG_HANDSHAKE_INIT"
| "kind_type Response = WG_HANDSHAKE_RESPONSE"
| "kind_type Cookie = WG_COOKIE_REPLY"
| "kind_type Transport = WG_TRANSPORT_DATA"

fun kind_range :: "awg_profile \<Rightarrow> msg_kind \<Rightarrow> hrange" where
  "kind_range pr Init = pr_h1 pr"
| "kind_range pr Response = pr_h2 pr"
| "kind_range pr Cookie = pr_h3 pr"
| "kind_range pr Transport = pr_h4 pr"

fun kind_pad :: "awg_profile \<Rightarrow> msg_kind \<Rightarrow> int" where
  "kind_pad pr Init = pr_s1 pr"
| "kind_pad pr Response = pr_s2 pr"
| "kind_pad pr Cookie = pr_s3 pr"
| "kind_pad pr Transport = pr_s4 pr"

text \<open>What is mixed into the random value, so that the kinds draw different paddings.\<close>

fun kind_salt :: "msg_kind \<Rightarrow> u64" where
  "kind_salt Init = 0"
| "kind_salt Response = 0x12345"
| "kind_salt Cookie = 0x67890"
| "kind_salt Transport = 0xABCDE"

text \<open>The size of a message of the kind: exact for handshakes, minimal for transport.\<close>

fun kind_size :: "msg_kind \<Rightarrow> nat" where
  "kind_size Init = 148"
| "kind_size Response = 92"
| "kind_size Cookie = 64"
| "kind_size Transport = 32"

definition fits_kind :: "msg_kind \<Rightarrow> nat \<Rightarrow> bool" where
  "fits_kind k n \<longleftrightarrow> (if k = Transport then kind_size k \<le> n else n = kind_size k)"

definition classify :: "bytes \<Rightarrow> msg_kind option" where
  "classify m =
     (if length m < 4 then None
      else find (\<lambda>k. read32_le (take 4 m) = kind_type k \<and> fits_kind k (length m))
             [Init, Response, Cookie, Transport])"

section \<open>Frames\<close>

definition set_type :: "u32 \<Rightarrow> bytes \<Rightarrow> bytes" where
  "set_type v m = write32_le v @ drop 4 m"

fun remac :: "msg_kind \<Rightarrow> bytes option \<Rightarrow> bytes \<Rightarrow> bytes" where
  "remac Init (Some key) m = init_mac.set_mac key m"
| "remac Response (Some key) m = resp_mac.set_mac key m"
| "remac _ _ m = m"

text \<open>How much of the message header protection encrypts.\<close>

definition protected_len :: "msg_kind \<Rightarrow> nat" where
  "protected_len k = (if k = Transport then 16 else kind_size k)"

definition protect :: "bool \<Rightarrow> bytes \<Rightarrow> bytes \<Rightarrow> msg_kind \<Rightarrow> bytes \<Rightarrow> bytes" where
  "protect hp key nonce k m =
     (if hp then chacha20_xor key nonce (take (protected_len k) m) @ drop (protected_len k) m else m)"

definition frame :: "awg_config \<Rightarrow> awg_profile \<Rightarrow> msg_kind \<Rightarrow> bytes \<Rightarrow> bytes \<Rightarrow> bytes \<Rightarrow> bytes" where
  "frame cfg pr k pad m trailer =
     pad @ protect (pr_hp_on pr) (c_hp_key cfg) (take 12 pad) k m @ trailer"

text \<open>
  The datagram the proxy sends for message \<open>m\<close> of kind \<open>k\<close> with type value \<open>v\<close>, random value
  \<open>rand\<close> and MAC1 key \<open>mk\<close>.
\<close>

definition wire_trailer :: "awg_config \<Rightarrow> awg_profile \<Rightarrow> msg_kind \<Rightarrow> u64 \<Rightarrow> nat \<Rightarrow> bytes" where
  "wire_trailer cfg pr k seed n =
     (if k = Transport then []
      else fill_padding (trailer_len cfg pr (kind_pad pr k + int n) seed) (seed XOR 0xFEED1))"

definition wire_encode :: "awg_config \<Rightarrow> awg_profile \<Rightarrow> msg_kind \<Rightarrow> bytes option \<Rightarrow> u32 \<Rightarrow> u64 \<Rightarrow> bytes \<Rightarrow> bytes" where
  "wire_encode cfg pr k mk v rand m =
     (let seed = rand XOR kind_salt k
      in frame cfg pr k (fill_padding (kind_pad pr k) seed) (remac k mk (set_type v m))
           (wire_trailer cfg pr k seed (length m)))"

text \<open>The first keystream block of a received datagram and the mask it puts on the type.\<close>

definition recv_block :: "awg_config \<Rightarrow> bytes \<Rightarrow> bytes" where
  "recv_block cfg d = chacha20_block (c_hp_key cfg) (take 12 d) 0"

definition type_mask :: "awg_config \<Rightarrow> awg_profile \<Rightarrow> bytes \<Rightarrow> u32" where
  "type_mask cfg pr d = (if pr_hp_on pr then read32_le (take 4 (recv_block cfg d)) else 0)"

definition size_matches :: "awg_profile \<Rightarrow> msg_kind \<Rightarrow> nat \<Rightarrow> bool" where
  "size_matches pr k n \<longleftrightarrow>
     (let total = kind_pad pr k + int (kind_size k)
      in if k = Transport then total \<le> int n else int n = total \<or> pr_rt pr \<and> total < int n)"

definition type_at :: "awg_config \<Rightarrow> awg_profile \<Rightarrow> msg_kind \<Rightarrow> bytes \<Rightarrow> u32" where
  "type_at cfg pr k d = read32_le (take 4 (drop (nat (kind_pad pr k)) d)) XOR type_mask cfg pr d"

definition claims :: "awg_config \<Rightarrow> awg_profile \<Rightarrow> bytes \<Rightarrow> msg_kind \<Rightarrow> bool" where
  "claims cfg pr d k \<longleftrightarrow>
     size_matches pr k (length d) \<and> hrange_contains (kind_range pr k) (type_at cfg pr k d)"

definition payload :: "awg_profile \<Rightarrow> msg_kind \<Rightarrow> bytes \<Rightarrow> bytes" where
  "payload pr k d =
     (let b = drop (nat (kind_pad pr k)) d in if k = Transport then b else take (kind_size k) b)"

definition open_frame :: "awg_config \<Rightarrow> awg_profile \<Rightarrow> msg_kind \<Rightarrow> bytes \<Rightarrow> bytes" where
  "open_frame cfg pr k d =
     remac k (c_mac1key_in cfg)
       (set_type (kind_type k) (protect (pr_hp_on pr) (c_hp_key cfg) (take 12 d) k (payload pr k d)))"

definition wire_decode :: "awg_config \<Rightarrow> awg_profile \<Rightarrow> bytes \<Rightarrow> (msg_kind \<times> bytes) option" where
  "wire_decode cfg pr d =
     (if length d < 4 then None
      else if pr_h4_noop pr \<and> read32_le (take 4 d) = WG_TRANSPORT_DATA \<and> 32 \<le> length d
      then Some (Transport, d)
      else if pr_hp_on pr \<and> length d < 12 then None
      else map_option (\<lambda>k. (k, open_frame cfg pr k d))
             (find (claims cfg pr d) [Init, Response, Cookie, Transport]))"

section \<open>Mixing is a bijection, seeds determine paddings\<close>

lemma odd_mult_inj:
  assumes "a * b = (1 :: u64)" "x * a = y * a"
  shows "x = y"
proof -
  have "x * (a * b) = y * (a * b)" using assms(2) by (metis mult.assoc)
  then show ?thesis using assms(1) by simp
qed

lemma mix64_inj:
  assumes "mix64 x = mix64 y"
  shows "x = y"
proof -
  note eq = assms [unfolded mix64_def Let_def]
  note eq = xor_shr_inj [OF _ eq, simplified]
  have inv: "0x94D049BB133111EB * 0x319642B2D24D8EC3 = (1 :: u64)" "0xBF58476D1CE4E5B9 * 0x96DE1B173F119089 = (1 :: u64)"
    by simp_all
  note eq = odd_mult_inj [OF inv(1) eq]
  note eq = xor_shr_inj [OF _ eq, simplified]
  note eq = odd_mult_inj [OF inv(2) eq]
  note eq = xor_shr_inj [OF _ eq, simplified]
  then show ?thesis by simp
qed

lemma length_fill_padding [simp]: "length (fill_padding len seed) = nat len"
  by (simp add: fill_padding_def)

lemma fill_padding_0 [simp]: "fill_padding 0 seed = []"
  by (simp add: fill_padding_def fastrand_fill.simps)

lemma trailer_len_bounds:
  assumes "0 \<le> sz" "sz \<le> 1500"
  shows "0 \<le> trailer_len cfg pr sz seed" "sz + trailer_len cfg pr sz seed \<le> 1500"
    "trailer_len cfg pr sz seed \<noteq> 0 \<Longrightarrow> pr_rt pr \<and> sz + trailer_len cfg pr sz seed < uint (c_udp_window cfg)"
proof -
  define win where "win = (if c_udp_window cfg > 1500 then 1500 else c_udp_window cfg)"
  have w1: "win \<le> 1500" "win \<le> c_udp_window cfg" by (auto simp: win_def)
  have "uint win \<le> 1500" "uint win \<le> uint (c_udp_window cfg)"
    using w1 by (simp_all add: word_le_def)
  then have sw: "sint win = uint win" by (intro sint_small) simp
  have "0 \<le> trailer_len cfg pr sz seed \<and> sz + trailer_len cfg pr sz seed \<le> 1500 \<and>
      (trailer_len cfg pr sz seed \<noteq> 0 \<longrightarrow> pr_rt pr \<and> sz + trailer_len cfg pr sz seed < uint (c_udp_window cfg))"
  proof (cases "\<not> pr_rt pr \<or> sint win \<le> sz")
    case True
    then have "trailer_len cfg pr sz seed = 0" by (auto simp: trailer_len_def win_def Let_def)
    then show ?thesis using assms by simp
  next
    case False
    define d where "d = sint win - sz"
    have d: "0 < d" "d \<le> 1500" "sz + d \<le> 1500" "sz + d \<le> uint (c_udp_window cfg)"
      using False assms sw \<open>uint win \<le> 1500\<close> \<open>uint win \<le> uint (c_udp_window cfg)\<close> by (auto simp: d_def)
    let ?x = "mix64 (seed XOR 0x7A11E45)"
    define r where "r = uint ?x mod d"
    have r: "0 \<le> r" "r < d" using d(1) by (simp_all add: r_def)
    have "uint (ucast (word_of_int d :: u32) :: u64) = d"
      using d by (simp add: unsigned_ucast_eq uint_word_of_int take_bit_int_eq_self)
    then have "uint (?x mod ucast (word_of_int d :: u32)) = r" by (simp add: uint_mod r_def)
    then have "uint (ucast (?x mod ucast (word_of_int d :: u32)) :: u32) = r"
      using r d by (simp add: unsigned_ucast_eq take_bit_int_eq_self)
    then have "sint (ucast (?x mod ucast (word_of_int d :: u32)) :: u32) = r"
      using r d sint_small [of "ucast (?x mod ucast (word_of_int d :: u32))"] by simp
    then have "trailer_len cfg pr sz seed = r"
      using False by (simp add: trailer_len_def win_def [symmetric] d_def Let_def)
    then show ?thesis using r d False by simp
  qed
  then show "0 \<le> trailer_len cfg pr sz seed" "sz + trailer_len cfg pr sz seed \<le> 1500"
    "trailer_len cfg pr sz seed \<noteq> 0 \<Longrightarrow> pr_rt pr \<and> sz + trailer_len cfg pr sz seed < uint (c_udp_window cfg)"
    by auto
qed

section \<open>Messages and frames\<close>

lemma length_set_type: "4 \<le> length m \<Longrightarrow> length (set_type v m) = length m"
  by (simp add: set_type_def)

lemma take4_set_type [simp]: "take 4 (set_type v m) = write32_le v"
  by (simp add: set_type_def)

lemma set_type_twice [simp]: "set_type v (set_type w m) = set_type v m"
  by (simp add: set_type_def)

lemma set_type_same: "4 \<le> length m \<Longrightarrow> read32_le (take 4 m) = v \<Longrightarrow> set_type v m = m"
  using write_read32 [of "take 4 m"] by (auto simp: set_type_def)

lemma length_remac: "fits_kind k (length m) \<Longrightarrow> length (remac k mk m) = length m"
  by (cases k; cases mk)
    (simp_all add: fits_kind_def init_mac.length_set_mac resp_mac.length_set_mac)

lemma take4_remac: "fits_kind k (length m) \<Longrightarrow> take 4 (remac k mk m) = take 4 m"
  by (cases k; cases mk)
    (simp_all add: fits_kind_def init_mac.set_mac_head resp_mac.set_mac_head)

text \<open>Recomputing under another type value discards what an earlier recomputation stored.\<close>

lemma remac_set_type_remac:
  assumes "fits_kind k (length m)"
  shows "remac k (Some key) (set_type t (remac k mk (set_type v m))) = remac k (Some key) (set_type t m)"
  using assms
  by (cases k; cases mk)
    (simp_all add: fits_kind_def set_type_def init_mac.set_mac_def resp_mac.set_mac_def min_def)

lemma remac_None [simp]: "remac k None m = m"
  by (cases k) simp_all

text \<open>A message that carries the MAC1 of its key is a fixed point.\<close>

definition authentic :: "msg_kind \<Rightarrow> bytes option \<Rightarrow> bytes \<Rightarrow> bool" where
  "authentic k mk m \<longleftrightarrow> remac k mk m = m"

lemma fits_kind_ge: "fits_kind k n \<Longrightarrow> 32 \<le> n \<and> kind_size k \<le> n \<and> protected_len k \<le> n \<and> 4 \<le> protected_len k"
  by (cases k) (auto simp: fits_kind_def protected_len_def)

lemma length_protect [simp]: "length (protect hp key nonce k m) = length m"
  by (simp add: protect_def min_def)

lemma protect_protect: "protect hp key nonce k (protect hp key nonce k m) = m"
  by (cases "length m \<le> protected_len k") (simp_all add: protect_def chacha20_xor_involutive)

lemma take4_protect:
  assumes "fits_kind k (length m)"
  shows "take 4 (protect hp key nonce k m) =
    (if hp then take 4 (chacha20_xor key nonce (take (protected_len k) m)) else take 4 m)"
  using fits_kind_ge [OF assms] by (simp add: protect_def)

lemma type_of_protected:
  assumes "fits_kind k (length m)"
  shows "read32_le (take 4 (protect hp key nonce k m)) XOR
      (if hp then read32_le (take 4 (chacha20_block key nonce 0)) else 0) = read32_le (take 4 m)"
  using fits_kind_ge [OF assms] hp.type_mask [of "take (protected_len k) m" key nonce]
  by (simp add: take4_protect [OF assms] min_def)

lemma kind_pad_bounds:
  assumes "wf_profile pr"
  shows "0 \<le> kind_pad pr k" "kind_pad pr k + int (kind_size k) \<le> 1500" "pr_hp_on pr \<Longrightarrow> 12 \<le> kind_pad pr k"
    "hrange_ordered (kind_range pr k)"
  using wf_profileD [OF assms] by (cases k; simp)+

section \<open>Recognising a frame\<close>

text \<open>
  Slots the receiver tries before the one for kind \<open>k\<close>.  A frame is captured when one of them
  claims it, or when the identity shortcut takes a padded handshake for a transport packet.
\<close>

fun earlier :: "msg_kind \<Rightarrow> msg_kind list" where
  "earlier Init = []"
| "earlier Response = [Init]"
| "earlier Cookie = [Init, Response]"
| "earlier Transport = [Init, Response, Cookie]"

definition shortcut :: "awg_profile \<Rightarrow> bytes \<Rightarrow> bool" where
  "shortcut pr d \<longleftrightarrow> pr_h4_noop pr \<and> read32_le (take 4 d) = WG_TRANSPORT_DATA \<and> 32 \<le> length d"

definition captured :: "awg_config \<Rightarrow> awg_profile \<Rightarrow> msg_kind \<Rightarrow> bytes \<Rightarrow> bool" where
  "captured cfg pr k d \<longleftrightarrow>
     (if shortcut pr d then k \<noteq> Transport else list_ex (claims cfg pr d) (earlier k))"

lemma find_slot:
  assumes "claims cfg pr d k" "\<not> list_ex (claims cfg pr d) (earlier k)"
  shows "find (claims cfg pr d) [Init, Response, Cookie, Transport] = Some k"
  using assms by (cases k) auto

text \<open>What a conforming sender may put around a message of kind \<open>k\<close>.\<close>

definition well_framed :: "awg_profile \<Rightarrow> msg_kind \<Rightarrow> bytes \<Rightarrow> bytes \<Rightarrow> bytes \<Rightarrow> bool" where
  "well_framed pr k pad m tr \<longleftrightarrow>
     int (length pad) = kind_pad pr k \<and> fits_kind k (length m) \<and>
     (tr \<noteq> [] \<longrightarrow> pr_rt pr \<and> k \<noteq> Transport) \<and>
     hrange_contains (kind_range pr k) (read32_le (take 4 m))"

definition frame_of :: "awg_config \<Rightarrow> awg_profile \<Rightarrow> msg_kind \<Rightarrow> bytes \<Rightarrow> bytes \<Rightarrow> bytes \<Rightarrow> bytes \<Rightarrow> bool" where
  "frame_of cfg pr k pad m tr d \<longleftrightarrow>
     wf_profile pr \<and> well_framed pr k pad m tr \<and> d = frame cfg pr k pad m tr"

lemma frame_ofD:
  assumes "frame_of cfg pr k pad m tr d"
  shows "wf_profile pr" "well_framed pr k pad m tr" "d = frame cfg pr k pad m tr"
    "int (length pad) = kind_pad pr k" "nat (kind_pad pr k) = length pad" "fits_kind k (length m)"
    "length d = length pad + length m + length tr"
  using assms by (auto simp: frame_of_def well_framed_def frame_def)

lemma frame_nonce: "frame_of cfg pr k pad m tr d \<Longrightarrow> pr_hp_on pr \<Longrightarrow> take 12 d = take 12 pad"
  using kind_pad_bounds(3) [of pr k] frame_ofD [of cfg pr k pad m tr d] by (simp add: frame_def)

lemma frame_payload:
  assumes "frame_of cfg pr k pad m tr d"
  shows "payload pr k d = protect (pr_hp_on pr) (c_hp_key cfg) (take 12 pad) k m"
  using frame_ofD [OF assms]
  by (cases "k = Transport") (auto simp: payload_def frame_def well_framed_def fits_kind_def Let_def)

lemma frame_open:
  assumes "frame_of cfg pr k pad m tr d"
  shows "open_frame cfg pr k d = remac k (c_mac1key_in cfg) (set_type (kind_type k) m)"
proof -
  have "protect (pr_hp_on pr) (c_hp_key cfg) (take 12 d) k x = protect (pr_hp_on pr) (c_hp_key cfg) (take 12 pad) k x" for x
    using frame_nonce [OF assms] by (auto simp: protect_def)
  then show ?thesis by (simp add: open_frame_def frame_payload [OF assms] protect_protect)
qed

text \<open>Read at the padding of its own kind, the type is the message's.\<close>

lemma frame_type_at:
  assumes f: "frame_of cfg pr k pad m tr d" and "kind_pad pr j = kind_pad pr k"
  shows "type_at cfg pr j d = read32_le (take 4 m)"
proof -
  let ?e = "protect (pr_hp_on pr) (c_hp_key cfg) (take 12 pad) k m"
  note fit = frame_ofD(6) [OF f]
  then have "take 4 (drop (nat (kind_pad pr j)) d) = take 4 ?e"
    using assms(2) frame_ofD [OF f] fits_kind_ge [OF fit] by (simp add: frame_def)
  moreover have "type_mask cfg pr d =
      (if pr_hp_on pr then read32_le (take 4 (chacha20_block (c_hp_key cfg) (take 12 pad) 0)) else 0)"
    using frame_nonce [OF f] by (simp add: type_mask_def recv_block_def)
  ultimately show ?thesis
    using type_of_protected [OF fit, of "pr_hp_on pr" "c_hp_key cfg" "take 12 pad"]
    unfolding type_at_def by simp
qed

lemma frame_claimed:
  assumes "frame_of cfg pr k pad m tr d"
  shows "claims cfg pr d k"
proof -
  note D = frame_ofD [OF assms]
  have "size_matches pr k (length d)"
    using D(2,4,6,7)
    by (cases "k = Transport") (auto simp: size_matches_def well_framed_def fits_kind_def Let_def)
  then show ?thesis
    using D(2) frame_type_at [OF assms, of k] by (simp add: claims_def well_framed_def)
qed

lemma frame_long: "frame_of cfg pr k pad m tr d \<Longrightarrow> 32 \<le> length d"
  using fits_kind_ge [of k "length m"] frame_ofD [of cfg pr k pad m tr d] by auto

lemma frame_decode_slot:
  assumes f: "frame_of cfg pr k pad m tr d"
    and "\<not> shortcut pr d" "\<not> list_ex (claims cfg pr d) (earlier k)"
  shows "wire_decode cfg pr d = Some (k, remac k (c_mac1key_in cfg) (set_type (kind_type k) m))"
proof -
  have "\<not> (pr_h4_noop pr \<and> read32_le (take 4 d) = WG_TRANSPORT_DATA \<and> 32 \<le> length d)"
    using assms(2) by (simp add: shortcut_def)
  then show ?thesis
    using frame_long [OF f] find_slot [OF frame_claimed [OF f] assms(3)]
    by (auto simp: wire_decode_def frame_open [OF f])
qed

lemma frame_decode_shortcut:
  assumes f: "frame_of cfg pr k pad m tr d" and "shortcut pr d" "k = Transport"
  shows "wire_decode cfg pr d = Some (k, set_type (kind_type k) m)"
proof -
  note D = frame_ofD [OF f]
  have noop: "pr_s4 pr = 0" "\<not> pr_hp_on pr"
    using assms(2) wf_profile_derived(2) [OF D(1)] by (auto simp: shortcut_def)
  then have "d = m" using assms(3) D by (auto simp: frame_def protect_def well_framed_def)
  moreover have "wire_decode cfg pr d = Some (Transport, d)"
    using assms(2) frame_long [OF f] by (simp add: wire_decode_def shortcut_def)
  ultimately show ?thesis
    using assms(2,3) frame_long [OF f] set_type_same [of m 4] by (simp add: shortcut_def)
qed

lemma frame_decode:
  assumes "frame_of cfg pr k pad m tr d" "\<not> captured cfg pr k d"
  shows "wire_decode cfg pr d = Some (k, remac k (c_mac1key_in cfg) (set_type (kind_type k) m))"
  using assms frame_decode_slot [OF assms(1)] frame_decode_shortcut [OF assms(1)]
  by (cases "shortcut pr d") (auto simp: captured_def)

text \<open>
  A slot cannot claim a frame of another kind when both read the type at the same offset,
  or, without trailers, when the sizes differ.
\<close>

lemma other_slot_same_pad:
  assumes f: "frame_of cfg pr k pad m tr d" and "kind_pad pr j = kind_pad pr k" "j \<noteq> k"
  shows "\<not> claims cfg pr d j"
proof -
  have "hrange_contains (kind_range pr k) (read32_le (take 4 m))"
    using frame_ofD(2) [OF f] by (simp add: well_framed_def)
  then have "\<not> hrange_contains (kind_range pr j) (read32_le (take 4 m))"
    using wf_profile_disjoint [OF frame_ofD(1) [OF f], of "read32_le (take 4 m)"] assms(3)
    by (cases j; cases k) auto
  then show ?thesis using frame_type_at [OF f assms(2)] by (simp add: claims_def)
qed

lemma other_slot_size:
  "\<not> pr_rt pr \<Longrightarrow> j \<noteq> Transport \<Longrightarrow> int (length d) \<noteq> kind_pad pr j + int (kind_size j) \<Longrightarrow> \<not> claims cfg pr d j"
  by (simp add: claims_def size_matches_def Let_def)

section \<open>Frames the proxy sends\<close>

lemma frame_cong: "c_hp_key cfg = c_hp_key cfg' \<Longrightarrow> frame cfg pr k pad m tr = frame cfg' pr k pad m tr"
  by (simp add: frame_def)

lemma classify_Some:
  assumes "classify m = Some k"
  shows "read32_le (take 4 m) = kind_type k" "fits_kind k (length m)"
  using assms by (auto simp: classify_def split: if_splits)

lemma fits_set_type: "fits_kind k (length m) \<Longrightarrow> fits_kind k (length (set_type v m))"
  using fits_kind_ge [of k "length m"] by (simp add: length_set_type)

lemma length_wire_trailer:
  "length (wire_trailer cfg pr k seed n) =
     (if k = Transport then 0 else nat (trailer_len cfg pr (kind_pad pr k + int n) seed))"
  by (simp add: wire_trailer_def)

lemma wire_encode_frame:
  assumes "wf_profile pr" "fits_kind k (length m)" "hrange_contains (kind_range pr k) v"
    and "c_hp_key cfg = c_hp_key cfg'"
  shows "frame_of cfg' pr k (fill_padding (kind_pad pr k) (rand XOR kind_salt k)) (remac k mk (set_type v m))
    (wire_trailer cfg pr k (rand XOR kind_salt k) (length m)) (wire_encode cfg pr k mk v rand m)"
proof -
  let ?seed = "rand XOR kind_salt k" and ?m = "remac k mk (set_type v m)"
  note fit = fits_set_type [OF assms(2), of v]
  have len: "length ?m = length m" "take 4 ?m = write32_le v"
    using fits_kind_ge [OF assms(2)] by (simp_all add: length_remac [OF fit] take4_remac [OF fit] length_set_type)
  have "wire_trailer cfg pr k ?seed (length m) \<noteq> [] \<Longrightarrow> pr_rt pr \<and> k \<noteq> Transport"
    by (auto simp: wire_trailer_def trailer_len_def split: if_splits)
  then have "well_framed pr k (fill_padding (kind_pad pr k) ?seed) ?m (wire_trailer cfg pr k ?seed (length m))"
    using assms(2,3) kind_pad_bounds(1) [OF assms(1), of k] len by (auto simp: well_framed_def)
  then show ?thesis
    using assms(1) frame_cong [OF assms(4)] by (simp add: frame_of_def wire_encode_def Let_def)
qed

text \<open>What the receiver's MAC1 step makes of the sender's.\<close>

lemma remac_through:
  assumes "fits_kind k (length m)" "read32_le (take 4 m) = kind_type k"
    and "kin = None \<Longrightarrow> mk = None" "authentic k kin m"
  shows "remac k kin (set_type (kind_type k) (remac k mk (set_type v m))) = m"
proof -
  have same: "set_type (kind_type k) m = m"
    using fits_kind_ge [OF assms(1)] assms(2) by (intro set_type_same) auto
  show ?thesis
  proof (cases kin)
    case None
    then show ?thesis using assms(3) same by simp
  next
    case (Some key)
    then show ?thesis using assms(4) remac_set_type_remac [OF assms(1)] same by (simp add: authentic_def)
  qed
qed

lemma wire_roundtrip_kind:
  assumes "wf_profile pr" "classify m = Some k" "hrange_pick (kind_range pr k) rand = Some v"
    and "c_hp_key cfg = c_hp_key cfg'"
    and "c_mac1key_in cfg' = None \<Longrightarrow> mk = None" "authentic k (c_mac1key_in cfg') m"
    and "\<not> captured cfg' pr k (wire_encode cfg pr k mk v rand m)"
  shows "wire_decode cfg' pr (wire_encode cfg pr k mk v rand m) = Some (k, m)"
proof -
  have v: "hrange_contains (kind_range pr k) v"
    using hrange_pick_contains [OF kind_pad_bounds(4) [OF assms(1)], of k rand] assms(3) by simp
  note c = classify_Some [OF assms(2)]
  show ?thesis
    using frame_decode [OF wire_encode_frame [OF assms(1) c(2) v assms(4)] assms(7)]
      remac_through [OF c(2,1) assms(5,6)] by simp
qed

definition equal_paddings :: "awg_profile \<Rightarrow> bool" where
  "equal_paddings pr \<longleftrightarrow> pr_s1 pr = pr_s4 pr \<and> pr_s2 pr = pr_s4 pr \<and> pr_s3 pr = pr_s4 pr"

definition distinct_totals :: "awg_profile \<Rightarrow> bool" where
  "distinct_totals pr \<longleftrightarrow>
     pr_init_total pr \<noteq> pr_resp_total pr \<and> pr_init_total pr \<noteq> pr_cookie_total pr \<and>
     pr_resp_total pr \<noteq> pr_cookie_total pr"

lemma equal_paddings_pad: "equal_paddings pr \<Longrightarrow> kind_pad pr j = pr_s4 pr"
  by (cases j) (simp_all add: equal_paddings_def)

lemma not_captured_equal:
  assumes f: "frame_of cfg pr k pad m tr d" and "equal_paddings pr"
  shows "\<not> captured cfg pr k d"
proof (cases "shortcut pr d")
  case True
  have "k = Transport"
  proof (rule ccontr)
    assume "k \<noteq> Transport"
    have "pr_s4 pr = 0" "\<not> pr_hp_on pr" and h4: "h_min (pr_h4 pr) = 4" "h_max (pr_h4 pr) = 4"
      using True wf_profile_derived(2) [OF frame_ofD(1) [OF f]] by (auto simp: shortcut_def)
    then have "take 4 d = take 4 m"
      using frame_ofD [OF f] equal_paddings_pad [OF assms(2)] fits_kind_ge [of k "length m"]
      by (auto simp: frame_def protect_def)
    then have "hrange_contains (pr_h4 pr) (read32_le (take 4 m))"
      using True h4 by (simp add: shortcut_def hrange_contains_def)
    then show False
      using frame_ofD(2) [OF f] \<open>k \<noteq> Transport\<close> wf_profile_disjoint [OF frame_ofD(1) [OF f], of "read32_le (take 4 m)"]
      by (cases k) (auto simp: well_framed_def)
  qed
  then show ?thesis using True by (simp add: captured_def)
next
  case False
  have "\<not> claims cfg pr d j" if "j \<noteq> k" for j
    using other_slot_same_pad [OF f _ that] equal_paddings_pad [OF assms(2)] by simp
  then show ?thesis using False by (cases k) (auto simp: captured_def)
qed

lemma not_captured_distinct:
  assumes f: "frame_of cfg pr k pad m tr d" and "\<not> pr_rt pr" "\<not> pr_h4_noop pr" "k \<noteq> Transport" "distinct_totals pr"
  shows "\<not> captured cfg pr k d"
proof -
  note D = frame_ofD [OF f]
  have "int (length d) = kind_pad pr k + int (kind_size k)"
    using D(2,4,7) assms(2,4) by (auto simp: well_framed_def fits_kind_def)
  then have "j \<noteq> Transport \<Longrightarrow> j \<noteq> k \<Longrightarrow> \<not> claims cfg pr d j" for j
    using other_slot_size [OF assms(2)] assms(4,5) wf_profile_derived(3-5) [OF D(1)]
    by (cases j; cases k) (auto simp: distinct_totals_def)
  then show ?thesis using assms(3,4) by (cases k) (auto simp: captured_def shortcut_def)
qed

section \<open>Properties\<close>

text \<open>
  The wire format is lossless: whatever kind of WireGuard message the sending proxy
  obfuscates, a receiving proxy with the same profile and header-protection key recovers
  exactly that message, for every random value, provided no earlier slot of the receiver
  captures the datagram, the message carries the MAC1 the receiver checks against, and a
  sender that rewrites MAC1 faces a receiver that rewrites it back.
\<close>

theorem wire_roundtrip:
  assumes "wf_profile pr" "classify m = Some k" "hrange_pick (kind_range pr k) rand = Some v"
    and "c_hp_key cfg = c_hp_key cfg'"
    and "c_mac1key_in cfg' = None \<Longrightarrow> mk = None" "authentic k (c_mac1key_in cfg') m"
    and "\<not> captured cfg' pr k (wire_encode cfg pr k mk v rand m)"
  shows "wire_decode cfg' pr (wire_encode cfg pr k mk v rand m) = Some (k, m)"
  by (rule wire_roundtrip_kind [OF assms])

text \<open>A v3.1 profile with one padding for all kinds, and an initiation with a valid MAC1.\<close>

definition uniform_profile :: awg_profile where
  "uniform_profile = config_compute_profile
     (example_profile\<lparr>pr_s1 := 16, pr_s2 := 16, pr_s3 := 16, pr_s4 := 16\<rparr>)"

definition sample_init :: bytes where
  "sample_init = remac Init (c_mac1key_in example_config) (write32_le 1 @ replicate 144 0)"

lemma wf_uniform_profile: "wf_profile uniform_profile" "equal_paddings uniform_profile"
  by (simp_all add: wf_profile_def config_validate_profile_def uniform_profile_def example_profile_def
      hrange_overlaps_def hrange_ordered_def equal_paddings_def)

lemma example_config_mac: "c_mac1key_in example_config = Some (compute_mac1_key (replicate 32 1))"
proof -
  have "\<not> list_all (\<lambda>b. b = (0 :: u8)) (replicate 32 1)" "list_all (\<lambda>b. b = (0 :: u8)) (replicate 32 0)"
    by (simp_all add: list_all_iff)
  then have "replicate 32 (1 :: u8) \<noteq> replicate 32 0" by metis
  then show ?thesis
    by (simp add: example_config_def example_input_def config_compute_def config_compute_max_s4_def
        start_chain_def floor_window_def select_mac1_def compute_flat_def compute_keys_def mirror_profile_def
        zero_key_def Let_def split: prod.split)
qed

lemma sample_init_ok: "classify sample_init = Some Init" "authentic Init (c_mac1key_in example_config) sample_init"
proof -
  let ?m = "write32_le 1 @ replicate 144 (0 :: u8)"
  have fit: "fits_kind Init (length ?m)" by (simp add: fits_kind_def)
  have t: "length sample_init = 148" "take 4 sample_init = write32_le 1"
    unfolding sample_init_def using take4_remac [OF fit] by (simp_all only: length_remac [OF fit]) simp_all
  show "classify sample_init = Some Init"
    unfolding classify_def t by (simp add: fits_kind_def)
  show "authentic Init (c_mac1key_in example_config) sample_init"
    by (simp add: authentic_def sample_init_def example_config_mac init_mac.set_mac_idem del: put_le.simps)
qed

theorem wire_roundtrip_witness:
  "\<exists>v. wire_decode example_config uniform_profile
      (wire_encode example_config uniform_profile Init (Some rfc_key) v 0xDEADBEEF sample_init) = Some (Init, sample_init)"
proof -
  note wf = wf_uniform_profile
  obtain v where v: "hrange_pick (kind_range uniform_profile Init) 0xDEADBEEF = Some v"
    "hrange_contains (kind_range uniform_profile Init) v"
    using hrange_pick_contains [OF kind_pad_bounds(4) [OF wf(1)]] by blast
  have "\<not> captured example_config uniform_profile Init
      (wire_encode example_config uniform_profile Init (Some rfc_key) v 0xDEADBEEF sample_init)"
    by (rule not_captured_equal [OF wire_encode_frame [OF wf(1) classify_Some(2) [OF sample_init_ok(1)] v(2) refl] wf(2)])
  from wire_roundtrip [OF wf(1) sample_init_ok(1) v(1) refl _ sample_init_ok(2) this]
  show ?thesis by (auto simp: example_config_mac)
qed

text \<open>
  No datagram is captured by a wrong slot when all paddings are equal (any message kind,
  with or without header protection and trailers), nor, for handshake messages without
  trailers, when the three handshake totals differ and transport packets are not passed
  unchanged.  Under either condition the round trip is unconditional.
\<close>

theorem wire_roundtrip_unambiguous:
  assumes "wf_profile pr" "classify m = Some k" "hrange_pick (kind_range pr k) rand = Some v"
    and "c_hp_key cfg = c_hp_key cfg'"
    and "c_mac1key_in cfg' = None \<Longrightarrow> mk = None" "authentic k (c_mac1key_in cfg') m"
    and "equal_paddings pr \<or> \<not> pr_rt pr \<and> \<not> pr_h4_noop pr \<and> k \<noteq> Transport \<and> distinct_totals pr"
  shows "\<not> captured cfg' pr k (wire_encode cfg pr k mk v rand m) \<and>
    wire_decode cfg' pr (wire_encode cfg pr k mk v rand m) = Some (k, m)"
proof -
  have v: "hrange_contains (kind_range pr k) v"
    using hrange_pick_contains [OF kind_pad_bounds(4) [OF assms(1)], of k rand] assms(3) by simp
  note f = wire_encode_frame [OF assms(1) classify_Some(2) [OF assms(2)] v assms(4)]
  have "\<not> captured cfg' pr k (wire_encode cfg pr k mk v rand m)"
    using assms(7) not_captured_equal [OF f] not_captured_distinct [OF f] by blast
  with wire_roundtrip_kind [OF assms(1-6)] show ?thesis by blast
qed

theorem wire_roundtrip_unambiguous_witness:
  "\<exists>v. wire_decode example_config uniform_profile
      (wire_encode example_config uniform_profile Init (Some rfc_key) v 7 sample_init) = Some (Init, sample_init)"
proof -
  note wf = wf_uniform_profile
  obtain v where v: "hrange_pick (kind_range uniform_profile Init) 7 = Some v"
    using hrange_pick_contains [OF kind_pad_bounds(4) [OF wf(1)]] by blast
  have "c_mac1key_in example_config = None \<Longrightarrow> Some rfc_key = None" by (simp add: example_config_mac)
  from wire_roundtrip_unambiguous [OF wf(1) sample_init_ok(1) v refl this sample_init_ok(2)] wf(2)
  show ?thesis by blast
qed

text \<open>
  C20. Header-protection nonces are fresh: two paddings of at least 12 bytes that begin with
  the same nonce come from the same seed, except that the two seeds mixing to 0 and 1 share
  a stream (the generator replaces a zero state by one).
\<close>

theorem padding_nonce_fresh:
  assumes "12 \<le> len" "12 \<le> len'" "take 12 (fill_padding len x) = take 12 (fill_padding len' y)"
  shows "x = y \<or> {mix64 x, mix64 y} = {0, 1}"
proof -
  have "fastrand_init (mix64 x) = fastrand_init (mix64 y)"
    by (rule fastrand_fill_prefix_inj [of 12 "nat len" "nat len'"]) (use assms in \<open>auto simp: fill_padding_def\<close>)
  then have "mix64 x = mix64 y \<or> {mix64 x, mix64 y} = {0, 1}"
    by (simp add: fastrand_init_def doubleton_eq_iff split: if_splits)
  then show ?thesis using mix64_inj by blast
qed

text \<open>The exceptional pair: these two seeds mix to 0 and to 1.\<close>

lemma mix64_exceptions: "mix64 0x61C8864680B583EB = 0" "mix64 0xF8364607E9C949BD = 1"
proof -
  show "mix64 0x61C8864680B583EB = 0" by (simp add: mix64_def)
  have steps: "0xF8364607E9C949BD + 0x9E3779B97F4A7C15 = (0x966DBFC16913C5D2 :: u64)"
    "(0x966DBFC16913C5D2 XOR drop_bit 30 0x966DBFC16913C5D2) * 0xBF58476D1CE4E5B9 = (0x319642B4E085D85F :: u64)"
    "(0x319642B4E085D85F XOR drop_bit 27 0x319642B4E085D85F) * 0x94D049BB133111EB = (0x1 :: u64)"
    "0x1 XOR drop_bit 31 0x1 = (1 :: u64)"
    by (simp_all add: drop_bit_eq_div)
  show "mix64 0xF8364607E9C949BD = 1" unfolding mix64_def Let_def steps ..
qed

theorem padding_nonce_fresh_witness:
  "take 12 (fill_padding 16 0x61C8864680B583EB) = take 12 (fill_padding 16 0xF8364607E9C949BD) \<and>
   {mix64 0x61C8864680B583EB, mix64 0xF8364607E9C949BD} = {0, 1}"
proof -
  have eq: "take 12 (fill_padding 16 0x61C8864680B583EB) = take 12 (fill_padding 16 0xF8364607E9C949BD)"
    by (simp add: fill_padding_def fastrand_init_def mix64_exceptions)
  from padding_nonce_fresh [OF _ _ eq] eq show ?thesis by simp
qed

text \<open>
  Sizes on the wire: a sent handshake is at least padding plus message, fits the
  1500-byte packet buffer, grows only in profiles with trailers and then stays below the
  largest datagram seen; a transport packet grows by exactly the padding.
\<close>

theorem wire_encode_length:
  assumes "wf_profile pr" "classify m = Some k"
    and d_def: "d = wire_encode cfg pr k mk v rand m" and base_def: "base = kind_pad pr k + int (length m)"
  shows "base \<le> int (length d) \<and> (k = Transport \<longrightarrow> int (length d) = base) \<and>
    (k \<noteq> Transport \<longrightarrow> int (length d) \<le> 1500) \<and>
    (int (length d) \<noteq> base \<longrightarrow> pr_rt pr \<and> int (length d) < uint (c_udp_window cfg))"
proof -
  note fit = classify_Some(2) [OF assms(2)]
  have len: "length (remac k mk (set_type v m)) = length m"
    using fits_kind_ge [OF fit] length_remac [OF fits_set_type [OF fit, of v]] by (simp add: length_set_type)
  have pad: "0 \<le> kind_pad pr k" by (rule kind_pad_bounds(1) [OF assms(1)])
  show ?thesis
  proof (cases "k = Transport")
    case True
    then show ?thesis using len pad
      by (simp add: d_def base_def wire_encode_def frame_def wire_trailer_def Let_def)
  next
    case False
    then have b: "0 \<le> base" "base \<le> 1500"
      using fit pad kind_pad_bounds(2) [OF assms(1), of k] by (auto simp: base_def fits_kind_def)
    have "int (length d) = base + trailer_len cfg pr base (rand XOR kind_salt k)"
      using False len pad trailer_len_bounds(1) [OF b]
      by (simp add: d_def base_def wire_encode_def frame_def length_wire_trailer Let_def)
    then show ?thesis using trailer_len_bounds [OF b, of cfg pr "rand XOR kind_salt k"] False by auto
  qed
qed

theorem wire_encode_length_witness:
  "164 \<le> length (wire_encode example_config uniform_profile Init None 100 9 sample_init) \<and>
   length (wire_encode example_config uniform_profile Init None 100 9 sample_init) \<le> 1500"
proof -
  have "length sample_init = 148"
    using classify_Some(2) [OF sample_init_ok(1)] by (simp add: fits_kind_def)
  then show ?thesis
    using wire_encode_length [OF wf_uniform_profile(1) sample_init_ok(1) refl refl, of example_config None 100 9]
    by (simp add: uniform_profile_def)
qed

end
