(* ===== verification/Transform.thy ===== *)
theory Transform
  imports Wire_Format
begin

text \<open>
  The packet transformation of \<^verbatim>\<open>src/src/transform.c\<close> on buffers: the outbound direction rewrites a
  WireGuard packet in place, with headroom before it and room for a trailer behind it, or
  copies a handshake into the static buffer \<open>hs_buf\<close> when the headroom is too small; the inbound
  direction recognises and restores a packet in place.  Every access goes through \<open>rd\<close> and
  \<open>wr\<close>, so \<open>None\<close> is an access outside a buffer (or an empty H range).  A returned pointer is
  a value of \<open>out_ptr\<close>: an offset into the caller's buffer, the static buffer, or \<open>NULL\<close>.  The
  refinement theorems show that both directions stay inside their buffers for every
  well-formed profile and compute \<open>wire_encode\<close> and \<open>wire_decode\<close>.
\<close>

section \<open>Outbound\<close>

datatype out_ptr = PBuf int | PHs | PNull

record out_result =
  o_buf :: bytes
  o_hs :: bytes
  o_ptr :: out_ptr
  o_len :: int
  o_junk :: bool

definition append_trailer :: "awg_config \<Rightarrow> awg_profile \<Rightarrow> bytes \<Rightarrow> int \<Rightarrow> int \<Rightarrow> u64 \<Rightarrow> (bytes \<times> int) option" where
  "append_trailer cfg pr mem off sz seed =
     (let tl = trailer_len cfg pr sz seed
      in if tl > 0
         then do { mem \<leftarrow> wr mem (off + sz) (fill_padding tl (seed XOR 0xFEED1)); Some (mem, sz + tl) }
         else Some (mem, sz + tl))"

text \<open>
  \<open>fill_padding(out, s, seed); if (hp) chacha20_xor(cfg->hp_key, out, out + s, plen);\<close> in the
  memory that \<open>out\<close> points into.
\<close>

definition pad_and_protect :: "awg_config \<Rightarrow> awg_profile \<Rightarrow> bytes \<Rightarrow> int \<Rightarrow> int \<Rightarrow> int \<Rightarrow> u64 \<Rightarrow> bytes option" where
  "pad_and_protect cfg pr mem out s plen seed =
     do { mem \<leftarrow> wr mem out (fill_padding s seed);
          if pr_hp_on pr
          then do { nonce \<leftarrow> rd mem out 12;
                    m \<leftarrow> rd mem (out + s) plen;
                    wr mem (out + s) (chacha20_xor (c_hp_key cfg) nonce m) }
          else Some mem }"

text \<open>The tail the three handshake branches share: \<open>s\<close> is the padding, \<open>n\<close> the message size.\<close>

definition emit_handshake :: "awg_config \<Rightarrow> awg_profile \<Rightarrow> int \<Rightarrow> int \<Rightarrow> u64 \<Rightarrow> bytes \<Rightarrow> int \<Rightarrow> bytes
    \<Rightarrow> (bytes \<times> bytes \<times> out_ptr \<times> int) option" where
  "emit_handshake cfg pr s n seed buf dataoff hs =
     (if s > 0 then
        if dataoff \<ge> s then
          do { buf \<leftarrow> pad_and_protect cfg pr buf (dataoff - s) s n seed;
               (buf, len) \<leftarrow> append_trailer cfg pr buf (dataoff - s) (s + n) seed;
               Some (buf, hs, PBuf (dataoff - s), len) }
        else
          do { m \<leftarrow> rd buf dataoff n;
               hs \<leftarrow> wr hs s m;
               hs \<leftarrow> pad_and_protect cfg pr hs 0 s n seed;
               (hs, len) \<leftarrow> append_trailer cfg pr hs 0 (s + n) seed;
               Some (buf, hs, PHs, len) }
      else
        do { (buf, len) \<leftarrow> append_trailer cfg pr buf dataoff n seed;
             Some (buf, hs, PBuf dataoff, len) })"

definition transform_outbound_profile ::
    "bytes \<Rightarrow> bytes \<Rightarrow> int \<Rightarrow> int \<Rightarrow> awg_config \<Rightarrow> awg_profile \<Rightarrow> bytes option \<Rightarrow> u64 \<Rightarrow> out_result option" where
  "transform_outbound_profile buf hs dataoff n cfg pr mac1key_out rand_val =
     (let out_key = (case mac1key_out of Some key \<Rightarrow> Some key | None \<Rightarrow> c_mac1key_out cfg);
          pass = Some \<lparr>o_buf = buf, o_hs = hs, o_ptr = PBuf dataoff, o_len = n, o_junk = False\<rparr>
      in if n < 4 then pass
      else do {
        t \<leftarrow> rd buf dataoff 4;
        let msgType = read32_le t;
        if msgType = WG_HANDSHAKE_INIT \<and> n = WG_INIT_SIZE then do {
          h \<leftarrow> hrange_pick (pr_h1 pr) rand_val;
          buf \<leftarrow> wr buf dataoff (write32_le h);
          buf \<leftarrow> (case out_key of Some key \<Rightarrow> recompute_mac1 buf dataoff key | None \<Rightarrow> Some buf);
          (buf, hs, ptr, len) \<leftarrow> emit_handshake cfg pr (pr_s1 pr) n rand_val buf dataoff hs;
          Some \<lparr>o_buf = buf, o_hs = hs, o_ptr = ptr, o_len = len,
                o_junk = (c_jc cfg > 0 \<or> list_ex (\<lambda>c. c \<noteq> None) (pr_cps pr))\<rparr> }
        else if msgType = WG_HANDSHAKE_RESPONSE \<and> n = WG_RESP_SIZE then do {
          h \<leftarrow> hrange_pick (pr_h2 pr) rand_val;
          buf \<leftarrow> wr buf dataoff (write32_le h);
          buf \<leftarrow> (case out_key of Some key \<Rightarrow> recompute_mac1_response buf dataoff key | None \<Rightarrow> Some buf);
          (buf, hs, ptr, len) \<leftarrow> emit_handshake cfg pr (pr_s2 pr) n (rand_val XOR 0x12345) buf dataoff hs;
          Some \<lparr>o_buf = buf, o_hs = hs, o_ptr = ptr, o_len = len, o_junk = False\<rparr> }
        else if msgType = WG_COOKIE_REPLY \<and> n = WG_COOKIE_SIZE then
          if c_disable_cookies cfg
          then Some \<lparr>o_buf = buf, o_hs = hs, o_ptr = PNull, o_len = 0, o_junk = False\<rparr>
          else do {
            h \<leftarrow> hrange_pick (pr_h3 pr) rand_val;
            buf \<leftarrow> wr buf dataoff (write32_le h);
            (buf, hs, ptr, len) \<leftarrow> emit_handshake cfg pr (pr_s3 pr) n (rand_val XOR 0x67890) buf dataoff hs;
            Some \<lparr>o_buf = buf, o_hs = hs, o_ptr = ptr, o_len = len, o_junk = False\<rparr> }
        else if msgType = WG_TRANSPORT_DATA \<and> n \<ge> WG_TRANSPORT_MIN then
          if pr_h4_noop pr then pass
          else do {
            h \<leftarrow> (if h_min (pr_h4 pr) = h_max (pr_h4 pr) then Some (pr_h4_fixed pr)
                  else hrange_pick (pr_h4 pr) rand_val);
            buf \<leftarrow> wr buf dataoff (write32_le h);
            if pr_s4 pr > 0 \<and> dataoff \<ge> pr_s4 pr
            then do {
              buf \<leftarrow> pad_and_protect cfg pr buf (dataoff - pr_s4 pr) (pr_s4 pr) AWG_HP_TRANSPORT_HDR
                       (rand_val XOR 0xABCDE);
              Some \<lparr>o_buf = buf, o_hs = hs, o_ptr = PBuf (dataoff - pr_s4 pr), o_len = pr_s4 pr + n, o_junk = False\<rparr> }
            else Some \<lparr>o_buf = buf, o_hs = hs, o_ptr = PBuf dataoff, o_len = n, o_junk = False\<rparr> }
        else pass })"

definition transform_outbound_with_mac1 ::
    "bytes \<Rightarrow> bytes \<Rightarrow> int \<Rightarrow> int \<Rightarrow> awg_config \<Rightarrow> bytes option \<Rightarrow> u64 \<Rightarrow> out_result option" where
  "transform_outbound_with_mac1 buf hs dataoff n cfg mac1key_out rand_val =
     do { pr \<leftarrow> config_active_profile cfg;
          transform_outbound_profile buf hs dataoff n cfg pr mac1key_out rand_val }"

definition transform_outbound ::
    "bytes \<Rightarrow> bytes \<Rightarrow> int \<Rightarrow> int \<Rightarrow> awg_config \<Rightarrow> u64 \<Rightarrow> out_result option" where
  "transform_outbound buf hs dataoff n cfg rand_val =
     do { pr \<leftarrow> config_active_profile cfg;
          transform_outbound_profile buf hs dataoff n cfg pr None rand_val }"

section \<open>Inbound\<close>

record awg_hp_ks =
  ks_block :: bytes
  ks_valid :: bool

definition hp_recv_ks :: "awg_config \<Rightarrow> bytes \<Rightarrow> awg_hp_ks \<Rightarrow> awg_hp_ks option" where
  "hp_recv_ks cfg pkt ks =
     (if \<not> ks_valid ks
      then do { nonce \<leftarrow> rd pkt 0 12; Some \<lparr>ks_block = chacha20_block (c_hp_key cfg) nonce 0, ks_valid = True\<rparr> }
      else Some ks)"

text \<open>
  One handshake slot of the size-based dispatch.  The result is \<open>Some None\<close> when the slot does
  not match; \<open>mac\<close> is the MAC1 step of the slot.
\<close>

definition inbound_slot ::
    "awg_config \<Rightarrow> awg_profile \<Rightarrow> bool \<Rightarrow> u32 \<Rightarrow> (bytes \<Rightarrow> int \<Rightarrow> bytes option) \<Rightarrow> int \<Rightarrow> int \<Rightarrow> int \<Rightarrow> hrange \<Rightarrow> u32
     \<Rightarrow> bytes \<Rightarrow> int \<Rightarrow> (bytes \<times> int \<times> int) option option" where
  "inbound_slot cfg pr kstream tmask mac expect s sz h typ buf n =
     (if n = expect \<or> pr_rt pr \<and> n > expect then do {
        t \<leftarrow> rd buf s 4;
        if hrange_contains h (read32_le t XOR tmask) then do {
          buf \<leftarrow> (if kstream
                  then do { nonce \<leftarrow> rd buf 0 12; m \<leftarrow> rd buf s sz;
                            wr buf s (chacha20_xor (c_hp_key cfg) nonce m) }
                  else Some buf);
          buf \<leftarrow> wr buf s (write32_le typ);
          buf \<leftarrow> mac buf s;
          Some (Some (buf, s, sz)) }
        else Some None }
      else Some None)"

definition inbound_transport ::
    "awg_profile \<Rightarrow> bytes option \<Rightarrow> u32 \<Rightarrow> bytes \<Rightarrow> int \<Rightarrow> (bytes \<times> int \<times> int) option option" where
  "inbound_transport pr kstream tmask buf n =
     (if n \<ge> pr_s4 pr + WG_TRANSPORT_MIN then do {
        t \<leftarrow> rd buf (pr_s4 pr) 4;
        if hrange_contains (pr_h4 pr) (read32_le t XOR tmask) then do {
          buf \<leftarrow> (case kstream of
                    Some ks \<Rightarrow> do { m \<leftarrow> rd buf (pr_s4 pr) AWG_HP_TRANSPORT_HDR;
                                    wr buf (pr_s4 pr) (chacha20_xor_ks m ks) }
                  | None \<Rightarrow> Some buf);
          buf \<leftarrow> wr buf (pr_s4 pr) (write32_le WG_TRANSPORT_DATA);
          Some (Some (buf, pr_s4 pr, n - pr_s4 pr)) }
        else Some None }
      else Some None)"

definition mac_init :: "awg_config \<Rightarrow> bytes \<Rightarrow> int \<Rightarrow> bytes option" where
  "mac_init cfg buf off = (case c_mac1key_in cfg of Some key \<Rightarrow> recompute_mac1 buf off key | None \<Rightarrow> Some buf)"

definition mac_resp :: "awg_config \<Rightarrow> bytes \<Rightarrow> int \<Rightarrow> bytes option" where
  "mac_resp cfg buf off = (case c_mac1key_in cfg of Some key \<Rightarrow> recompute_mac1_response buf off key | None \<Rightarrow> Some buf)"

text \<open>The slots in the order of the code; the first that matches decides.\<close>

definition inbound_slots ::
    "awg_config \<Rightarrow> awg_profile \<Rightarrow> bytes option \<Rightarrow> u32 \<Rightarrow> bytes \<Rightarrow> int \<Rightarrow> (bytes \<times> int \<times> int) option option" where
  "inbound_slots cfg pr kstream tmask buf n =
     do { r \<leftarrow> inbound_slot cfg pr (kstream \<noteq> None) tmask (mac_init cfg) (pr_init_total pr) (pr_s1 pr)
                 WG_INIT_SIZE (pr_h1 pr) WG_HANDSHAKE_INIT buf n;
          if r \<noteq> None then Some r else do {
          r \<leftarrow> inbound_slot cfg pr (kstream \<noteq> None) tmask (mac_resp cfg) (pr_resp_total pr) (pr_s2 pr)
                 WG_RESP_SIZE (pr_h2 pr) WG_HANDSHAKE_RESPONSE buf n;
          if r \<noteq> None then Some r else do {
          r \<leftarrow> inbound_slot cfg pr (kstream \<noteq> None) tmask (\<lambda>buf off. Some buf) (pr_cookie_total pr) (pr_s3 pr)
                 WG_COOKIE_SIZE (pr_h3 pr) WG_COOKIE_REPLY buf n;
          if r \<noteq> None then Some r else inbound_transport pr kstream tmask buf n } } }"

text \<open>
  The result is the buffer, the keystream cache (\<open>None\<close> when the caller passed \<open>NULL\<close>) and,
  when the packet is accepted, the offset and length of the restored message.
\<close>

definition transform_inbound_profile ::
    "bytes \<Rightarrow> int \<Rightarrow> awg_config \<Rightarrow> awg_profile \<Rightarrow> awg_hp_ks option
     \<Rightarrow> (bytes \<times> awg_hp_ks option \<times> (int \<times> int) option) option" where
  "transform_inbound_profile buf n cfg pr ks =
     (if n < 4 then Some (buf, ks, None)
      else do {
        identity \<leftarrow> (if pr_h4_noop pr
                     then do { t \<leftarrow> rd buf 0 4; Some (read32_le t = WG_TRANSPORT_DATA \<and> n \<ge> WG_TRANSPORT_MIN) }
                     else Some False);
        if identity then Some (buf, ks, Some (0, n))
        else if pr_hp_on pr \<and> n < AWG_HP_MIN_PADDING then Some (buf, ks, None)
        else do {
          (kstream, ks) \<leftarrow>
            (if pr_hp_on pr
             then do { c \<leftarrow> hp_recv_ks cfg buf (case ks of Some c \<Rightarrow> c | None \<Rightarrow> \<lparr>ks_block = [], ks_valid = False\<rparr>);
                       Some (Some (ks_block c), map_option (\<lambda>_. c) ks) }
             else Some (None, ks));
          r \<leftarrow> inbound_slots cfg pr kstream (case kstream of Some b \<Rightarrow> read32_le (take 4 b) | None \<Rightarrow> 0) buf n;
          Some (case r of Some (buf, off, len) \<Rightarrow> (buf, ks, Some (off, len)) | None \<Rightarrow> (buf, ks, None)) } })"

definition transform_inbound :: "bytes \<Rightarrow> int \<Rightarrow> awg_config \<Rightarrow> (bytes \<times> (int \<times> int) option) option" where
  "transform_inbound buf n cfg =
     do { pr \<leftarrow> config_active_profile cfg;
          (buf, ks, r) \<leftarrow> transform_inbound_profile buf n cfg pr None;
          Some (buf, r) }"

section \<open>Server-side peer resolution and junk\<close>

fun resolve_loop :: "bytes list \<Rightarrow> int \<Rightarrow> bytes \<Rightarrow> bytes \<Rightarrow> int" where
  "resolve_loop [] i covered field = -1"
| "resolve_loop (key # ks) i covered field =
     (if blake2s_128mac key covered = Some field then i else resolve_loop ks (i + 1) covered field)"

definition config_server_resolve_peer_for_response :: "awg_config \<Rightarrow> bytes \<Rightarrow> int" where
  "config_server_resolve_peer_for_response cfg m =
     (if length m \<noteq> 92 \<or> read32_le (take 4 m) \<noteq> WG_HANDSHAKE_RESPONSE then -1
      else resolve_loop (c_server_peer_mac1keys cfg) 0 (take 60 m) (take 16 (drop 60 m)))"

definition config_server_resolve_peer_for_init :: "awg_config \<Rightarrow> bytes \<Rightarrow> int" where
  "config_server_resolve_peer_for_init cfg m =
     (if length m \<noteq> 148 \<or> read32_le (take 4 m) \<noteq> WG_HANDSHAKE_INIT then -1
      else resolve_loop (c_server_peer_mac1keys cfg) 0 (take 116 m) (take 16 (drop 116 m)))"

text \<open>The junk sizes; \<open>None\<close> is a division by zero.\<close>

fun junk_sizes :: "nat \<Rightarrow> int \<Rightarrow> int \<Rightarrow> fastrand \<Rightarrow> int list option" where
  "junk_sizes 0 jmin span r = Some []"
| "junk_sizes (Suc c) jmin span r =
     (if span > 0
      then do { (v, r) \<leftarrow> fastrand_intn r span;
                vs \<leftarrow> junk_sizes c jmin span r;
                Some ((jmin + v) # vs) }
      else do { vs \<leftarrow> junk_sizes c jmin span r; Some (jmin # vs) })"

definition generate_junk :: "awg_config \<Rightarrow> u64 \<Rightarrow> int list option" where
  "generate_junk cfg seed =
     (if c_jc cfg \<le> 0 \<or> c_jmax cfg \<le> 0 then Some []
      else let jmax = c_jmax cfg;
               jmin = (if c_jmin cfg > 0 then c_jmin cfg else 1);
               jmin = (if jmin > jmax then jmax else jmin);
               span = jmax - jmin
           in junk_sizes (nat (c_jc cfg)) jmin span (fastrand_init seed))"

section \<open>Outbound: the steps in memory\<close>

text \<open>The bytes a returned pointer and length denote.\<close>

definition read_out :: "bytes \<Rightarrow> bytes \<Rightarrow> out_ptr \<Rightarrow> int \<Rightarrow> bytes option" where
  "read_out buf hs ptr len =
     (case ptr of PBuf off \<Rightarrow> rd buf off len | PHs \<Rightarrow> rd hs 0 len | PNull \<Rightarrow> None)"

definition datagram :: "out_result \<Rightarrow> bytes option" where
  "datagram r = read_out (o_buf r) (o_hs r) (o_ptr r) (o_len r)"

lemma pad_and_protect_at:
  assumes "mem = p @ x @ m @ q" "int (length x) = s" "out = int (length p)"
    and "plen = int n" "n \<le> length m" "pr_hp_on pr \<Longrightarrow> 12 \<le> s"
  shows "pad_and_protect cfg pr mem out s plen seed =
    Some (p @ fill_padding s seed @
      (if pr_hp_on pr then chacha20_xor (c_hp_key cfg) (take 12 (fill_padding s seed)) (take n m) @ drop n m else m) @ q)"
proof -
  let ?pad = "fill_padding s seed"
  have lp: "length ?pad = length x" using assms(2) by auto
  have w: "wr mem out ?pad = Some (p @ ?pad @ m @ q)"
    unfolding assms(1) by (rule wr_split) (use assms(3) lp in auto)
  show ?thesis
  proof (cases "pr_hp_on pr")
    case False
    then show ?thesis by (simp add: pad_and_protect_def w)
  next
    case True
    have nonce: "rd (p @ ?pad @ m @ q) out 12 = Some (take 12 ?pad)"
      by (rule rd_within) (use assms(2,3,6) True lp in auto)
    have r: "rd (p @ ?pad @ m @ q) (out + s) plen = Some (take n m)"
      using rd_within [of "out + s" "p @ ?pad" plen n m q] assms(2-5) lp by simp
    have w2: "wr (p @ ?pad @ m @ q) (out + s) (chacha20_xor (c_hp_key cfg) (take 12 ?pad) (take n m)) =
        Some (p @ ?pad @ (chacha20_xor (c_hp_key cfg) (take 12 ?pad) (take n m) @ drop n m) @ q)"
      using wr_within [of "out + s" "p @ ?pad" "chacha20_xor (c_hp_key cfg) (take 12 ?pad) (take n m)" m q]
        assms(2,3,5) lp by simp
    show ?thesis using True by (simp add: pad_and_protect_def w nonce r w2)
  qed
qed

lemma append_trailer_at:
  assumes "mem = p @ body @ q" "off = int (length p)" "sz = int (length body)"
    and "sz \<le> 1500" "1500 \<le> sz + int (length q)"
    and tlen_def: "tlen = trailer_len cfg pr sz seed"
  shows "append_trailer cfg pr mem off sz seed =
    Some (p @ body @ fill_padding tlen (seed XOR 0xFEED1) @ drop (nat tlen) q, sz + tlen)"
proof -
  have tlen: "0 \<le> tlen" "sz + tlen \<le> 1500"
    using trailer_len_bounds [of sz] assms(3,4) by (simp_all add: tlen_def)
  have "wr (p @ body @ q) (off + sz) (fill_padding tlen (seed XOR 0xFEED1)) =
      Some (p @ body @ fill_padding tlen (seed XOR 0xFEED1) @ drop (nat tlen) q)"
    using wr_within [of "off + sz" "p @ body" "fill_padding tlen (seed XOR 0xFEED1)" q "[]"] assms(2,3,5) tlen
    by simp
  then show ?thesis using tlen(1) by (auto simp: append_trailer_def assms(1) tlen_def [symmetric] Let_def)
qed

lemma protect_handshake: "k \<noteq> Transport \<Longrightarrow> length m = kind_size k \<Longrightarrow>
    protect hp key nonce k m = (if hp then chacha20_xor key nonce m else m)"
  by (simp add: protect_def protected_len_def)

text \<open>The handshake tail sends the frame, from the caller's buffer or from the static one.\<close>

lemma emit_handshake_frame:
  assumes "wf_profile pr" "k \<noteq> Transport" "length m = kind_size k"
    and "buf = p @ m @ q" "dataoff = int (length p)" "1500 \<le> length m + length q" "length hs = 1500"
  shows "\<exists>buf' hs' ptr len. emit_handshake cfg pr (kind_pad pr k) (int (kind_size k)) seed buf dataoff hs = Some (buf', hs', ptr, len) \<and>
    read_out buf' hs' ptr len = Some (frame cfg pr k (fill_padding (kind_pad pr k) seed) m (wire_trailer cfg pr k seed (length m))) \<and>
    ptr \<noteq> PNull \<and> length buf' = length buf \<and> length hs' = length hs"
proof -
  define s where "s = kind_pad pr k"
  let ?n = "int (kind_size k)" and ?pad = "fill_padding s seed"
  define e where "e = (if pr_hp_on pr then chacha20_xor (c_hp_key cfg) (take 12 ?pad) m else m)"
  define tlen where "tlen = trailer_len cfg pr (s + ?n) seed"
  let ?tr = "fill_padding tlen (seed XOR 0xFEED1)"
  have s: "0 \<le> s" "s + ?n \<le> 1500" "pr_hp_on pr \<Longrightarrow> 12 \<le> s"
    using kind_pad_bounds [OF assms(1), of k] by (simp_all add: s_def)
  have le: "length e = kind_size k" using assms(3) by (simp add: e_def)
  have tlen: "0 \<le> tlen" "s + ?n + tlen \<le> 1500"
    using trailer_len_bounds [of "s + ?n"] s by (simp_all add: tlen_def)
  have fr: "frame cfg pr k ?pad m (wire_trailer cfg pr k seed (length m)) = ?pad @ e @ ?tr"
    using assms(2,3) by (simp add: frame_def protect_handshake e_def wire_trailer_def s_def tlen_def)
  have frlen: "int (length (?pad @ e @ ?tr)) = s + ?n + tlen" using s tlen le by simp
  have pp: "pad_and_protect cfg pr mem out s ?n seed = Some (p' @ ?pad @ e @ q')"
    if "mem = p' @ x @ m @ q'" "int (length x) = s" "out = int (length p')" for mem p' x q' out
    using pad_and_protect_at [OF that refl _ s(3), where cfg = cfg and seed = seed] assms(3) by (simp add: e_def)
  have at: "append_trailer cfg pr (p' @ ?pad @ e @ q') (int (length p')) (s + ?n) seed =
      Some (p' @ (?pad @ e @ ?tr) @ drop (nat tlen) q', s + ?n + tlen)" if "1500 \<le> s + ?n + int (length q')" for p' q'
    using append_trailer_at [of "p' @ ?pad @ e @ q'" p' "?pad @ e" q' "int (length p')" "s + ?n" tlen cfg pr seed] that s le
    by (simp add: tlen_def)
  have rdf: "rd (p' @ (?pad @ e @ ?tr) @ q') (int (length p')) (s + ?n + tlen) = Some (?pad @ e @ ?tr)" for p' q'
    by (rule rd_split) (use frlen in auto)
  consider (zero) "s = 0" | (buf) "0 < s" "s \<le> dataoff" | (hs) "0 < s" "dataoff < s" using s(1) by linarith
  then show ?thesis
  proof cases
    case zero
    then have "e = m" using s(3) by (auto simp: e_def)
    then have "append_trailer cfg pr buf dataoff ?n seed = Some (p @ (?pad @ e @ ?tr) @ drop (nat tlen) q, s + ?n + tlen)"
      using at [of q p] zero assms(3-6) by simp
    then show ?thesis using rdf [of p "drop (nat tlen) q"] fr zero assms(3-6) tlen le \<open>e = m\<close>
      by (simp add: emit_handshake_def read_out_def s_def [symmetric])
  next
    case buf
    define p' x where "p' = take (nat (dataoff - s)) p" and "x = drop (nat (dataoff - s)) p"
    have px: "p = p' @ x" "int (length x) = s" "dataoff - s = int (length p')"
      using buf assms(5) by (simp_all add: p'_def x_def)
    have m: "pad_and_protect cfg pr buf (dataoff - s) s ?n seed = Some (p' @ ?pad @ e @ q)"
      by (rule pp [of _ p' x q]) (use px assms(4) in auto)
    have t: "append_trailer cfg pr (p' @ ?pad @ e @ q) (dataoff - s) (s + ?n) seed =
        Some (p' @ (?pad @ e @ ?tr) @ drop (nat tlen) q, s + ?n + tlen)"
      unfolding px(3) by (rule at) (use assms(3,6) s in auto)
    have em: "emit_handshake cfg pr s ?n seed buf dataoff hs =
        Some (p' @ (?pad @ e @ ?tr) @ drop (nat tlen) q, hs, PBuf (dataoff - s), s + ?n + tlen)"
      using buf by (simp add: emit_handshake_def m t)
    have "read_out (p' @ (?pad @ e @ ?tr) @ drop (nat tlen) q) hs (PBuf (dataoff - s)) (s + ?n + tlen) = Some (?pad @ e @ ?tr)"
      using rdf [of p' "drop (nat tlen) q"] by (simp only: read_out_def px(3) out_ptr.case)
    moreover have "length (p' @ (?pad @ e @ ?tr) @ drop (nat tlen) q) = length buf"
      using px assms(3,4,6) s tlen le by simp
    ultimately show ?thesis using em fr by (simp add: s_def)
  next
    case hs
    define x z where "x = take (nat s) hs" and "z = drop (nat s + kind_size k) hs"
    have xz: "int (length x) = s" "int (length z) = 1500 - s - ?n" using s assms(7) by (auto simp: x_def z_def)
    have "wr hs s m = Some (x @ m @ z)" using s assms(3,7) by (simp add: wr_def x_def z_def)
    moreover have "rd buf dataoff ?n = Some m" unfolding assms(4) by (rule rd_split) (use assms(3,5) in auto)
    moreover have "pad_and_protect cfg pr (x @ m @ z) 0 s ?n seed = Some (?pad @ e @ z)"
      using pp [of "x @ m @ z" "[]" x z 0] xz by simp
    moreover have "append_trailer cfg pr (?pad @ e @ z) 0 (s + ?n) seed =
        Some ((?pad @ e @ ?tr) @ drop (nat tlen) z, s + ?n + tlen)"
      using at [of z "[]"] xz by simp
    ultimately show ?thesis
      using rdf [of "[]" "drop (nat tlen) z"] fr hs assms(7) xz s tlen le
      by (simp add: emit_handshake_def read_out_def s_def [symmetric])
  qed
qed

section \<open>Outbound: refinement\<close>

lemma wr_type: "4 \<le> length m \<Longrightarrow> wr (p @ m @ q) (int (length p)) (write32_le v) = Some (p @ set_type v m @ q)"
  using wr_within [of "int (length p)" p "write32_le v" m q] by (simp add: set_type_def)

lemma mac_step_init:
  assumes "length m = 148"
  shows "(case mk of Some key \<Rightarrow> recompute_mac1 (p @ m @ q) (int (length p)) key | None \<Rightarrow> Some (p @ m @ q)) =
    Some (p @ remac Init mk m @ q)"
  using init_mac.upd_message [of m p q] assms by (cases mk) simp_all

lemma mac_step_resp:
  assumes "length m = 92"
  shows "(case mk of Some key \<Rightarrow> recompute_mac1_response (p @ m @ q) (int (length p)) key | None \<Rightarrow> Some (p @ m @ q)) =
    Some (p @ remac Response mk m @ q)"
  using resp_mac.upd_message [of m p q] assms by (cases mk) simp_all

text \<open>What a handshake branch must produce, for the frame of the rewritten message.\<close>

lemma handshake_frame:
  assumes "wf_profile pr" "k \<noteq> Transport" "fits_kind k (length m)" "1500 \<le> length m + length q" "length hs = 1500"
  shows "\<exists>buf' hs' ptr len. emit_handshake cfg pr (kind_pad pr k) (int (kind_size k)) (rand XOR kind_salt k)
      (p @ remac k mk (set_type v m) @ q) (int (length p)) hs = Some (buf', hs', ptr, len) \<and>
    read_out buf' hs' ptr len = Some (wire_encode cfg pr k mk v rand m) \<and>
    ptr \<noteq> PNull \<and> length buf' = length (p @ m @ q) \<and> length hs' = 1500"
proof -
  have len: "length (remac k mk (set_type v m)) = length m"
    using fits_kind_ge [OF assms(3)] length_remac [OF fits_set_type [OF assms(3), of v]] by (simp add: length_set_type)
  then have "length (remac k mk (set_type v m)) = kind_size k"
    using assms(2,3) by (simp add: fits_kind_def)
  from emit_handshake_frame [OF assms(1,2) this refl refl, of q hs cfg "rand XOR kind_salt k" p] assms(4,5) len
  show ?thesis by (simp add: wire_encode_def Let_def)
qed

text \<open>The transport branch.\<close>

lemma transport_frame:
  assumes "wf_profile pr" "fits_kind Transport (length m)" "pr_s4 pr \<le> int (length p)" "0 < pr_s4 pr"
  shows "\<exists>buf'. pad_and_protect cfg pr (p @ set_type v m @ q) (int (length p) - pr_s4 pr) (pr_s4 pr) 16 (rand XOR 0xABCDE) = Some buf' \<and>
    rd buf' (int (length p) - pr_s4 pr) (pr_s4 pr + int (length m)) = Some (wire_encode cfg pr Transport mk v rand m) \<and>
    length buf' = length (p @ m @ q)"
proof -
  define s p' x where "s = pr_s4 pr" and "p' = take (length p - nat s) p" and "x = drop (length p - nat s) p"
  have px: "p = p' @ x" "int (length x) = s" "int (length p) - s = int (length p')"
    using assms(3,4) by (simp_all add: p'_def x_def s_def)
  let ?m = "set_type v m" and ?pad = "fill_padding s (rand XOR 0xABCDE)"
  have len: "length ?m = length m" "16 \<le> length m"
    using fits_kind_ge [OF assms(2)] by (simp_all add: length_set_type)
  define e where "e = protect (pr_hp_on pr) (c_hp_key cfg) (take 12 ?pad) Transport ?m"
  have e: "e = (if pr_hp_on pr then chacha20_xor (c_hp_key cfg) (take 12 ?pad) (take 16 ?m) @ drop 16 ?m else ?m)"
    by (simp add: e_def protect_def protected_len_def)
  have "pad_and_protect cfg pr (p @ ?m @ q) (int (length p) - s) s 16 (rand XOR 0xABCDE) = Some (p' @ ?pad @ e @ q)"
    unfolding e by (rule pad_and_protect_at [where x = x])
      (use px len wf_profileD(12) [OF assms(1)] in \<open>auto simp: s_def\<close>)
  moreover have "rd (p' @ (?pad @ e) @ q) (int (length p')) (s + int (length m)) = Some (?pad @ e)"
    by (rule rd_split) (use px len in \<open>auto simp: e_def\<close>)
  moreover have "wire_encode cfg pr Transport mk v rand m = ?pad @ e"
    by (simp add: wire_encode_def frame_def e_def wire_trailer_def s_def Let_def)
  moreover have "length (p' @ ?pad @ e @ q) = length (p @ m @ q)" using px len by (simp add: e_def)
  ultimately show ?thesis using px(3) by (simp add: s_def)
qed

lemma transport_frame_plain:
  assumes "wf_profile pr" "fits_kind Transport (length m)" "pr_s4 pr = 0"
  shows "wire_encode cfg pr Transport mk v rand m = set_type v m"
  using wf_profileD(12) [OF assms(1)] assms(3)
  by (auto simp: wire_encode_def frame_def protect_def wire_trailer_def Let_def)

text \<open>The outcome the specification allows for a message.\<close>

definition outbound_spec :: "awg_config \<Rightarrow> awg_profile \<Rightarrow> bytes option \<Rightarrow> u64 \<Rightarrow> bytes \<Rightarrow> out_result \<Rightarrow> bool" where
  "outbound_spec cfg pr mk rand m r \<longleftrightarrow>
     (case classify m of
        None \<Rightarrow> datagram r = Some m \<and> \<not> o_junk r
      | Some k \<Rightarrow>
          (o_junk r \<longleftrightarrow> k = Init \<and> (c_jc cfg > 0 \<or> list_ex (\<lambda>c. c \<noteq> None) (pr_cps pr))) \<and>
          (if k = Cookie \<and> c_disable_cookies cfg then o_ptr r = PNull \<and> o_len r = 0
           else \<exists>v. hrange_pick (kind_range pr k) rand = Some v \<and>
                    datagram r = Some (wire_encode cfg pr k mk v rand m)))"

lemma classify_cases:
  assumes "4 \<le> length m"
  shows "classify m =
    (if read32_le (take 4 m) = 1 \<and> length m = 148 then Some Init
     else if read32_le (take 4 m) = 2 \<and> length m = 92 then Some Response
     else if read32_le (take 4 m) = 3 \<and> length m = 64 then Some Cookie
     else if read32_le (take 4 m) = 4 \<and> 32 \<le> length m then Some Transport else None)"
  using assms by (auto simp: classify_def fits_kind_def)

lemma outbound_pass:
  "datagram \<lparr>o_buf = p @ m @ q, o_hs = hs, o_ptr = PBuf (int (length p)), o_len = int (length m), o_junk = b\<rparr> = Some m"
  by (simp add: datagram_def read_out_def rd_split)

lemma outbound_handshake:
  assumes "wf_profile pr" "classify m = Some k" "k = Init \<or> k = Response \<or> k = Cookie \<and> \<not> c_disable_cookies cfg"
    and "1500 \<le> length m + length q" "length hs = 1500"
    and "mk = (case key of Some k \<Rightarrow> Some k | None \<Rightarrow> c_mac1key_out cfg)"
  shows "\<exists>r. transform_outbound_profile (p @ m @ q) hs (int (length p)) (int (length m)) cfg pr key rand = Some r \<and>
    length (o_buf r) = length (p @ m @ q) \<and> length (o_hs r) = 1500 \<and> outbound_spec cfg pr mk rand m r"
proof -
  note c = classify_Some [OF assms(2)]
  have kT: "k \<noteq> Transport" using assms(3) by auto
  have len: "length m = kind_size k" "4 \<le> length m" using c(2) kT fits_kind_ge [OF c(2)] by (simp_all add: fits_kind_def)
  obtain v where v: "hrange_pick (kind_range pr k) rand = Some v"
    using hrange_pick_contains [OF kind_pad_bounds(4) [OF assms(1)]] by blast
  obtain buf' hs' ptr l where em: "emit_handshake cfg pr (kind_pad pr k) (int (kind_size k)) (rand XOR kind_salt k)
      (p @ remac k mk (set_type v m) @ q) (int (length p)) hs = Some (buf', hs', ptr, l)"
    and out: "read_out buf' hs' ptr l = Some (wire_encode cfg pr k mk v rand m)"
      "length buf' = length (p @ m @ q)" "length hs' = 1500"
    using handshake_frame [OF assms(1) kT c(2) assms(4,5), where cfg = cfg and rand = rand and p = p and mk = mk and v = v]
    by blast
  let ?r = "\<lparr>o_buf = buf', o_hs = hs', o_ptr = ptr, o_len = l,
      o_junk = (k = Init \<and> (c_jc cfg > 0 \<or> list_ex (\<lambda>c. c \<noteq> None) (pr_cps pr)))\<rparr>"
  have rd4: "rd (p @ m @ q) (int (length p)) 4 = Some (take 4 m)" by (rule rd_within) (use len in auto)
  note steps = rd4 wr_type [OF len(2)] c(1)
  have "transform_outbound_profile (p @ m @ q) hs (int (length p)) (int (length m)) cfg pr key rand = Some ?r"
  proof (cases k)
    case Init
    then have "length (set_type v m) = 148" using len by (simp add: length_set_type)
    note mac = mac_step_init [OF this, where mk = mk and p = p and q = q]
    show ?thesis using Init len steps v em mac
      by (simp add: transform_outbound_profile_def assms(6) [symmetric] Let_def)
  next
    case Response
    then have "length (set_type v m) = 92" using len by (simp add: length_set_type)
    note mac = mac_step_resp [OF this, where mk = mk and p = p and q = q]
    show ?thesis using Response len steps v em mac
      by (simp add: transform_outbound_profile_def assms(6) [symmetric] Let_def)
  next
    case Cookie
    then show ?thesis using len steps v em assms(3)
      by (cases mk) (simp_all add: transform_outbound_profile_def Let_def)
  qed (use kT in simp)
  moreover have "outbound_spec cfg pr mk rand m ?r"
    using assms(2,3) v out(1) kT by (auto simp: outbound_spec_def datagram_def)
  ultimately show ?thesis using out by auto
qed

lemma outbound_transport:
  assumes "wf_profile pr" "classify m = Some Transport" "pr_s4 pr \<le> int (length p)" "length hs = 1500"
  shows "\<exists>r. transform_outbound_profile (p @ m @ q) hs (int (length p)) (int (length m)) cfg pr key rand = Some r \<and>
    length (o_buf r) = length (p @ m @ q) \<and> length (o_hs r) = 1500 \<and> outbound_spec cfg pr mk rand m r"
proof -
  note c = classify_Some [OF assms(2)] and D = wf_profile_derived [OF assms(1)]
  have len: "4 \<le> length m" "32 \<le> length m" using fits_kind_ge [OF c(2)] by simp_all
  have rd4: "rd (p @ m @ q) (int (length p)) 4 = Some (take 4 m)" by (rule rd_within) (use len in auto)
  obtain v where v: "hrange_pick (pr_h4 pr) rand = Some v"
    using hrange_pick_contains wf_profileD(16) [OF assms(1)] by blast
  then have pick: "(if h_min (pr_h4 pr) = h_max (pr_h4 pr) then Some (pr_h4_fixed pr) else hrange_pick (pr_h4 pr) rand) = Some v"
    using D(1) by (auto simp: hrange_pick_def split: if_splits)
  note steps = rd4 wr_type [OF len(1)] c(1) pick
  have spec: "outbound_spec cfg pr mk rand m r" if "datagram r = Some (wire_encode cfg pr Transport mk v rand m)" "\<not> o_junk r" for r
    using that assms(2) v by (simp add: outbound_spec_def)
  consider (noop) "pr_h4_noop pr" | (pad) "\<not> pr_h4_noop pr" "0 < pr_s4 pr" | (plain) "\<not> pr_h4_noop pr" "pr_s4 pr = 0"
    using wf_profileD(7) [OF assms(1)] by linarith
  then show ?thesis
  proof cases
    case noop
    then have "v = 4" "wire_encode cfg pr Transport mk v rand m = m"
      using v D(2) transport_frame_plain [OF assms(1) c(2)] set_type_same [OF len(1), of 4] c(1)
      by (auto simp: hrange_pick_def)
    then show ?thesis using noop steps len spec assms(4) outbound_pass
      by (simp add: transform_outbound_profile_def Let_def)
  next
    case pad
    obtain buf' where b: "pad_and_protect cfg pr (p @ set_type v m @ q) (int (length p) - pr_s4 pr) (pr_s4 pr) 16 (rand XOR 0xABCDE) = Some buf'"
      "rd buf' (int (length p) - pr_s4 pr) (pr_s4 pr + int (length m)) = Some (wire_encode cfg pr Transport mk v rand m)"
      "length buf' = length (p @ m @ q)"
      using transport_frame [OF assms(1) c(2) assms(3) pad(2)] by blast
    let ?r = "\<lparr>o_buf = buf', o_hs = hs, o_ptr = PBuf (int (length p) - pr_s4 pr), o_len = pr_s4 pr + int (length m), o_junk = False\<rparr>"
    have "transform_outbound_profile (p @ m @ q) hs (int (length p)) (int (length m)) cfg pr key rand = Some ?r"
      using pad steps len b assms(3) by (simp add: transform_outbound_profile_def Let_def)
    then show ?thesis using spec [of ?r] b assms(4) by (simp add: datagram_def read_out_def)
  next
    case plain
    let ?r = "\<lparr>o_buf = p @ set_type v m @ q, o_hs = hs, o_ptr = PBuf (int (length p)), o_len = int (length m), o_junk = False\<rparr>"
    have "transform_outbound_profile (p @ m @ q) hs (int (length p)) (int (length m)) cfg pr key rand = Some ?r"
      using plain steps len by (simp add: transform_outbound_profile_def Let_def)
    then show ?thesis
      using spec [of ?r] plain transport_frame_plain [OF assms(1) c(2)] assms(4) len outbound_pass [of p "set_type v m" q hs False]
      by (simp add: length_set_type)
  qed
qed

lemma outbound_other:
  assumes "classify m = None \<or> classify m = Some Cookie \<and> c_disable_cookies cfg" "length hs = 1500"
  shows "\<exists>r. transform_outbound_profile (p @ m @ q) hs (int (length p)) (int (length m)) cfg pr key rand = Some r \<and>
    length (o_buf r) = length (p @ m @ q) \<and> length (o_hs r) = 1500 \<and> outbound_spec cfg pr mk rand m r"
proof (cases "length m < 4")
  case True
  then show ?thesis using assms outbound_pass [of p m q hs False]
    by (simp add: transform_outbound_profile_def outbound_spec_def classify_def)
next
  case False
  have "rd (p @ m @ q) (int (length p)) 4 = Some (take 4 m)" by (rule rd_within) (use False in auto)
  moreover have "length m = 148 \<longleftrightarrow> int (length m) = 148" "length m = 92 \<longleftrightarrow> int (length m) = 92"
    "length m = 64 \<longleftrightarrow> int (length m) = 64" "32 \<le> length m \<longleftrightarrow> 32 \<le> int (length m)"
    by linarith+
  ultimately show ?thesis using assms False outbound_pass [of p m q hs False] classify_cases [of m]
    by (auto simp: transform_outbound_profile_def outbound_spec_def Let_def split: if_splits)
qed

section \<open>Inbound: refinement\<close>

text \<open>The buffer after a slot has restored its message in place.\<close>

definition restored :: "awg_config \<Rightarrow> awg_profile \<Rightarrow> msg_kind \<Rightarrow> bytes \<Rightarrow> bytes \<Rightarrow> bytes" where
  "restored cfg pr k d rest =
     (let s = nat (kind_pad pr k); m = open_frame cfg pr k d
      in take s d @ m @ drop (s + length m) d @ rest)"

lemma size_matches_parts:
  assumes "wf_profile pr" "size_matches pr k (length d)"
  obtains pad b t where "d = pad @ b @ t" "int (length pad) = kind_pad pr k" "b = payload pr k d"
    "fits_kind k (length b)" "t = drop (nat (kind_pad pr k) + length b) d"
proof -
  let ?s = "nat (kind_pad pr k)" and ?b = "payload pr k d"
  have s: "0 \<le> kind_pad pr k" by (rule kind_pad_bounds(1) [OF assms(1)])
  have le: "?s + kind_size k \<le> length d"
    using assms(2) s by (cases "k = Transport") (auto simp: size_matches_def Let_def)
  then have b: "?b = (if k = Transport then drop ?s d else take (kind_size k) (drop ?s d))"
    "fits_kind k (length ?b)"
    by (auto simp: payload_def fits_kind_def Let_def)
  have "drop ?s d = ?b @ drop (?s + length ?b) d"
    using b le by (cases "k = Transport") (auto simp: fits_kind_def add.commute append_take_drop_id drop_drop [symmetric] simp del: drop_drop)
  then have "d = take ?s d @ ?b @ drop (?s + length ?b) d" by (metis append_take_drop_id)
  moreover have "int (length (take ?s d)) = kind_pad pr k" using le s by simp
  ultimately show ?thesis using that b(2) by blast
qed

lemma restored_parts:
  assumes "d = pad @ b @ t" "int (length pad) = kind_pad pr k" "length (open_frame cfg pr k d) = length b"
  shows "restored cfg pr k d rest = pad @ open_frame cfg pr k d @ t @ rest"
proof -
  have "nat (kind_pad pr k) = length pad" using assms(2) by auto
  then show ?thesis using assms(3) by (simp add: restored_def Let_def) (simp add: assms(1))
qed

lemma length_open_frame:
  assumes "fits_kind k (length (payload pr k d))"
  shows "length (open_frame cfg pr k d) = length (payload pr k d)"
proof -
  have "fits_kind k (length (set_type t (protect hp key n k (payload pr k d))))" for t hp key n
    by (rule fits_set_type) (use assms in simp)
  then show ?thesis using fits_kind_ge [OF assms] by (simp add: open_frame_def length_remac length_set_type)
qed

lemma inbound_slot_refines:
  assumes wf: "wf_profile pr" and k: "k \<noteq> Transport" and hp: "pr_hp_on pr \<Longrightarrow> 12 \<le> length d"
    and mac: "\<And>p m q. length m = kind_size k \<Longrightarrow> M (p @ m @ q) (int (length p)) = Some (p @ remac k (c_mac1key_in cfg) m @ q)"
  shows "inbound_slot cfg pr (pr_hp_on pr) (type_mask cfg pr d) M (kind_pad pr k + int (kind_size k)) (kind_pad pr k)
      (int (kind_size k)) (kind_range pr k) (kind_type k) (d @ rest) (int (length d)) =
    Some (if claims cfg pr d k then Some (restored cfg pr k d rest, kind_pad pr k, int (kind_size k)) else None)"
proof (cases "size_matches pr k (length d)")
  case False
  then show ?thesis using k
    by (auto simp: inbound_slot_def claims_def size_matches_def Let_def)
next
  case True
  obtain pad b t where d: "d = pad @ b @ t" and pad: "int (length pad) = kind_pad pr k"
    and b: "b = payload pr k d" "fits_kind k (length b)"
    using size_matches_parts [OF wf True] by blast
  have size: "length b = kind_size k" "4 \<le> length b"
    using b(2) k fits_kind_ge [OF b(2)] by (simp_all add: fits_kind_def)
  have nat: "nat (kind_pad pr k) = length pad" using pad by auto
  have cond: "int (length d) = kind_pad pr k + int (kind_size k) \<or> pr_rt pr \<and> int (length d) > kind_pad pr k + int (kind_size k)"
    using True k by (simp add: size_matches_def Let_def)
  have r4: "rd (d @ rest) (kind_pad pr k) 4 = Some (take 4 b)"
    using rd_within [of "kind_pad pr k" pad 4 4 b "t @ rest"] pad size by (simp add: d)
  have ty: "type_at cfg pr k d = read32_le (take 4 b) XOR type_mask cfg pr d"
    using size nat by (simp add: type_at_def) (simp add: d)
  define e where "e = protect (pr_hp_on pr) (c_hp_key cfg) (take 12 d) k b"
  have e: "e = (if pr_hp_on pr then chacha20_xor (c_hp_key cfg) (take 12 d) b else b)" "length e = kind_size k"
    using protect_handshake [OF k size(1)] size by (simp_all add: e_def)
  have nonce: "pr_hp_on pr \<Longrightarrow> rd (d @ rest) 0 12 = Some (take 12 d)"
    using rd_within [of 0 "[]" 12 12 d rest] hp by simp
  have rb: "rd (d @ rest) (kind_pad pr k) (int (kind_size k)) = Some b"
    using rd_split [of "kind_pad pr k" pad "int (kind_size k)" b "t @ rest"] pad size by (simp add: d)
  have wb: "wr (d @ rest) (kind_pad pr k) x = Some (pad @ x @ t @ rest)" if "length x = kind_size k" for x
    using wr_split [of "kind_pad pr k" pad x b "t @ rest"] pad size that by (simp add: d)
  have dec: "(if pr_hp_on pr then do { nonce \<leftarrow> rd (d @ rest) 0 12; m \<leftarrow> rd (d @ rest) (kind_pad pr k) (int (kind_size k));
        wr (d @ rest) (kind_pad pr k) (chacha20_xor (c_hp_key cfg) nonce m) } else Some (d @ rest)) = Some (pad @ e @ t @ rest)"
    using e wb [of e] nonce rb by (auto simp: d)
  have ty2: "wr (pad @ e @ t @ rest) (kind_pad pr k) (write32_le (kind_type k)) = Some (pad @ set_type (kind_type k) e @ t @ rest)"
    using wr_type [of e pad "t @ rest"] pad e(2) size by simp
  have m3: "M (pad @ set_type (kind_type k) e @ t @ rest) (kind_pad pr k) =
      Some (pad @ open_frame cfg pr k d @ t @ rest)"
    using mac [of "set_type (kind_type k) e" pad "t @ rest"] pad e(2) size
    by (simp add: length_set_type open_frame_def b(1) [symmetric] e_def [symmetric])
  have len: "length (open_frame cfg pr k d) = length b"
    using length_open_frame [of k pr d cfg] b by simp
  show ?thesis
    using cond r4 ty dec ty2 m3 restored_parts [OF d pad len, of rest] True
    by (simp add: inbound_slot_def claims_def)
qed

lemma inbound_transport_refines:
  assumes wf: "wf_profile pr" and ks: "ks = (if pr_hp_on pr then Some (recv_block cfg d) else None)"
  shows "inbound_transport pr ks (type_mask cfg pr d) (d @ rest) (int (length d)) =
    Some (if claims cfg pr d Transport
          then Some (restored cfg pr Transport d rest, pr_s4 pr, int (length d) - pr_s4 pr) else None)"
proof (cases "size_matches pr Transport (length d)")
  case False
  then show ?thesis
    by (auto simp: inbound_transport_def claims_def size_matches_def Let_def)
next
  case True
  obtain pad b t where d: "d = pad @ b @ t" and pad: "int (length pad) = kind_pad pr Transport"
    and b: "b = payload pr Transport d" "fits_kind Transport (length b)" and "t = drop (nat (kind_pad pr Transport) + length b) d"
    using size_matches_parts [OF wf True] by blast
  have nat: "nat (pr_s4 pr) = length pad" and pad': "pr_s4 pr = int (length pad)" using pad by auto
  then have t: "t = []" using b(1) \<open>t = _\<close> by (simp add: payload_def)
  have size: "32 \<le> length b" "4 \<le> length b" using fits_kind_ge [OF b(2)] by auto
  have r4: "rd (d @ rest) (pr_s4 pr) 4 = Some (take 4 b)"
    using rd_within [of "pr_s4 pr" pad 4 4 b rest] pad' size by (simp add: d t)
  have ty: "type_at cfg pr Transport d = read32_le (take 4 b) XOR type_mask cfg pr d"
    using size nat by (simp add: type_at_def) (simp add: d)
  define e where "e = protect (pr_hp_on pr) (c_hp_key cfg) (take 12 d) Transport b"
  have le: "length e = length b" by (simp add: e_def)
  have r16: "rd (d @ rest) (pr_s4 pr) 16 = Some (take 16 b)"
    using rd_within [of "pr_s4 pr" pad 16 16 b rest] pad' size by (simp add: d t)
  have x: "pr_hp_on pr \<Longrightarrow> chacha20_xor_ks (take 16 b) (recv_block cfg d) @ drop 16 b = e"
    using size by (simp add: e_def protect_def protected_len_def chacha20_xor_ks_def recv_block_def hp.crypt_block)
  have w16: "wr (d @ rest) (pr_s4 pr) y = Some (pad @ (y @ drop 16 b) @ rest)" if "length y = 16" for y
    using wr_within [of "pr_s4 pr" pad y b rest] pad' size that by (simp add: d t)
  have l16: "length (chacha20_xor_ks (take 16 b) (recv_block cfg d)) = 16"
    using size by (simp add: chacha20_xor_ks_def recv_block_def)
  have dec: "(case ks of Some ks \<Rightarrow> do { m \<leftarrow> rd (d @ rest) (pr_s4 pr) 16; wr (d @ rest) (pr_s4 pr) (chacha20_xor_ks m ks) }
      | None \<Rightarrow> Some (d @ rest)) = Some (pad @ e @ rest)"
    using w16 [OF l16] x r16 by (cases "pr_hp_on pr") (simp_all add: ks e_def protect_def d t)
  have ty2: "wr (pad @ e @ rest) (pr_s4 pr) (write32_le 4) = Some (pad @ set_type 4 e @ rest)"
    using wr_type [of e pad rest] pad' le size by simp
  have op: "open_frame cfg pr Transport d = set_type 4 e"
    by (simp add: open_frame_def b(1) [symmetric] e_def)
  have len: "length (open_frame cfg pr Transport d) = length b"
    using length_open_frame [of Transport pr d cfg] b by simp
  have "restored cfg pr Transport d rest = pad @ set_type 4 e @ rest"
    using restored_parts [OF d pad len, of rest] op t by simp
  then show ?thesis
    using r4 ty dec ty2 True
    by (simp add: inbound_transport_def claims_def size_matches_def Let_def)
qed

text \<open>All four slots: the first that claims the datagram restores its message.\<close>

lemma claims_fits:
  assumes "wf_profile pr" "claims cfg pr d k"
  shows "fits_kind k (length (payload pr k d))"
  using size_matches_parts [OF assms(1)] assms(2) by (metis claims_def)

lemma length_open_claimed:
  assumes "wf_profile pr" "claims cfg pr d k"
  shows "int (length (open_frame cfg pr k d)) =
    (if k = Transport then int (length d) - pr_s4 pr else int (kind_size k))"
proof -
  note fit = claims_fits [OF assms]
  have "length (open_frame cfg pr k d) = length (payload pr k d)" by (rule length_open_frame [OF fit])
  then show ?thesis
    using fit assms(2) wf_profileD(7) [OF assms(1)]
    by (auto simp: fits_kind_def payload_def claims_def size_matches_def Let_def)
qed

lemma inbound_slots_refines:
  assumes wf: "wf_profile pr" and hp: "pr_hp_on pr \<Longrightarrow> 12 \<le> length d"
    and ks: "ks = (if pr_hp_on pr then Some (recv_block cfg d) else None)"
  shows "inbound_slots cfg pr ks (type_mask cfg pr d) (d @ rest) (int (length d)) =
    Some (map_option (\<lambda>k. (restored cfg pr k d rest, kind_pad pr k, int (length (open_frame cfg pr k d))))
      (find (claims cfg pr d) [Init, Response, Cookie, Transport]))"
proof -
  have hpks: "(ks \<noteq> None) = pr_hp_on pr" by (simp add: ks)
  note D = wf_profile_derived(3-5) [OF wf] and L = length_open_claimed [OF wf]
  have i: "inbound_slot cfg pr (pr_hp_on pr) (type_mask cfg pr d) (mac_init cfg) (pr_init_total pr) (pr_s1 pr) 148 (pr_h1 pr) 1
      (d @ rest) (int (length d)) = Some (if claims cfg pr d Init then Some (restored cfg pr Init d rest, pr_s1 pr, 148) else None)"
    using inbound_slot_refines [OF wf, of Init d "mac_init cfg" cfg rest] hp mac_step_init
    by (simp add: D mac_init_def)
  have r: "inbound_slot cfg pr (pr_hp_on pr) (type_mask cfg pr d) (mac_resp cfg) (pr_resp_total pr) (pr_s2 pr) 92 (pr_h2 pr) 2
      (d @ rest) (int (length d)) = Some (if claims cfg pr d Response then Some (restored cfg pr Response d rest, pr_s2 pr, 92) else None)"
    using inbound_slot_refines [OF wf, of Response d "mac_resp cfg" cfg rest] hp mac_step_resp
    by (simp add: D mac_resp_def)
  have c: "inbound_slot cfg pr (pr_hp_on pr) (type_mask cfg pr d) (\<lambda>buf off. Some buf) (pr_cookie_total pr) (pr_s3 pr) 64 (pr_h3 pr) 3
      (d @ rest) (int (length d)) = Some (if claims cfg pr d Cookie then Some (restored cfg pr Cookie d rest, pr_s3 pr, 64) else None)"
    using inbound_slot_refines [OF wf, of Cookie d "\<lambda>buf off. Some buf" cfg rest] hp
    by (simp add: D)
  note t = inbound_transport_refines [OF wf ks, of rest]
  show ?thesis
    unfolding inbound_slots_def hpks i r c t bind.bind_lunit using L by (simp add: i r c t)
qed

text \<open>A cached keystream block is only reused for the datagram it was computed for.\<close>

definition cache_ok :: "awg_config \<Rightarrow> bytes \<Rightarrow> awg_hp_ks option \<Rightarrow> bool" where
  "cache_ok cfg d ks \<longleftrightarrow> (case ks of Some c \<Rightarrow> ks_valid c \<longrightarrow> ks_block c = recv_block cfg d | None \<Rightarrow> True)"

lemma hp_recv_ks_block:
  assumes "12 \<le> length d" "cache_ok cfg d (Some c)"
  shows "\<exists>c'. hp_recv_ks cfg (d @ rest) c = Some c' \<and> ks_block c' = recv_block cfg d \<and> ks_valid c'"
proof -
  have "rd (d @ rest) 0 12 = Some (take 12 d)"
    using rd_within [of 0 "[]" 12 12 d rest] assms(1) by simp
  then show ?thesis using assms(2) by (auto simp: hp_recv_ks_def cache_ok_def recv_block_def)
qed

lemma inbound_stream:
  assumes "pr_hp_on pr \<Longrightarrow> 12 \<le> length d" "cache_ok cfg d ks"
  shows "\<exists>ks'. (if pr_hp_on pr
      then do { c \<leftarrow> hp_recv_ks cfg (d @ rest) (case ks of Some c \<Rightarrow> c | None \<Rightarrow> \<lparr>ks_block = [], ks_valid = False\<rparr>);
                Some (Some (ks_block c), map_option (\<lambda>_. c) ks) }
      else Some (None, ks)) = Some (if pr_hp_on pr then Some (recv_block cfg d) else None, ks') \<and> cache_ok cfg d ks'"
proof (cases "pr_hp_on pr")
  case True
  have "cache_ok cfg d (Some (case ks of Some c \<Rightarrow> c | None \<Rightarrow> \<lparr>ks_block = [], ks_valid = False\<rparr>))"
    using assms(2) by (auto simp: cache_ok_def split: option.splits)
  from hp_recv_ks_block [OF _ this, of rest] True assms show ?thesis
    by (auto simp: cache_ok_def split: option.splits)
qed (use assms in auto)

lemma restored_message:
  assumes "wf_profile pr" "claims cfg pr d k"
  shows "rd (restored cfg pr k d rest) (kind_pad pr k) (int (length (open_frame cfg pr k d))) = Some (open_frame cfg pr k d)"
    and "length (restored cfg pr k d rest) = length (d @ rest)"
    and "drop (length d) (restored cfg pr k d rest) = rest"
proof -
  obtain pad b t where d: "d = pad @ b @ t" and pad: "int (length pad) = kind_pad pr k"
    and b: "b = payload pr k d" "fits_kind k (length b)"
    using size_matches_parts [OF assms(1)] assms(2) by (metis claims_def)
  have len: "length (open_frame cfg pr k d) = length b" using length_open_frame [of k pr d cfg] b by simp
  note r = restored_parts [OF d pad len, of rest]
  show "rd (restored cfg pr k d rest) (kind_pad pr k) (int (length (open_frame cfg pr k d))) = Some (open_frame cfg pr k d)"
    unfolding r by (rule rd_split) (use pad in auto)
  show "length (restored cfg pr k d rest) = length (d @ rest)" unfolding r using len by (simp add: d)
  show "drop (length d) (restored cfg pr k d rest) = rest" unfolding r using len by (simp add: d)
qed

lemma claimed_inside:
  assumes "wf_profile pr" "claims cfg pr d k"
  shows "0 \<le> kind_pad pr k" "kind_pad pr k + int (length (open_frame cfg pr k d)) \<le> int (length d)"
proof -
  obtain pad b t where d: "d = pad @ b @ t" and pad: "int (length pad) = kind_pad pr k"
    and b: "b = payload pr k d" "fits_kind k (length b)"
    using size_matches_parts [OF assms(1)] assms(2) by (metis claims_def)
  have "length (open_frame cfg pr k d) = length b" using length_open_frame [of k pr d cfg] b by simp
  then have "int (length pad) + int (length (open_frame cfg pr k d)) \<le> int (length d)" by (simp add: d)
  then show "0 \<le> kind_pad pr k" "kind_pad pr k + int (length (open_frame cfg pr k d)) \<le> int (length d)"
    using pad by simp_all
qed

text \<open>A packet is transformed in place: nothing after it changes, and the result lies inside it.\<close>

definition in_place :: "bytes \<Rightarrow> bytes \<Rightarrow> bytes \<Rightarrow> (int \<times> int) option \<Rightarrow> bool" where
  "in_place d rest buf' res \<longleftrightarrow>
     length buf' = length (d @ rest) \<and> drop (length d) buf' = rest \<and>
     (case res of None \<Rightarrow> True | Some (off, len) \<Rightarrow> 0 \<le> off \<and> off + len \<le> int (length d))"

lemma in_place_length: "in_place d rest buf' res \<Longrightarrow> length buf' = length (d @ rest)"
  by (simp add: in_place_def)

text \<open>The inbound function against \<open>wire_decode\<close>, in the form the properties use.\<close>

lemma inbound_refines:
  assumes wf: "wf_profile pr" and cache: "cache_ok cfg d ks"
  shows "\<exists>buf' ks' res. transform_inbound_profile (d @ rest) (int (length d)) cfg pr ks = Some (buf', ks', res) \<and>
    cache_ok cfg d ks' \<and> in_place d rest buf' res \<and>
    (case wire_decode cfg pr d of
       None \<Rightarrow> res = None \<and> buf' = d @ rest
     | Some (k, m) \<Rightarrow> \<exists>off. res = Some (off, int (length m)) \<and> rd buf' off (int (length m)) = Some m)"
proof -
  let ?id = "pr_h4_noop pr \<and> read32_le (take 4 d) = 4 \<and> 32 \<le> length d"
  consider (short) "length d < 4" | (id) "4 \<le> length d" ?id | (hp) "4 \<le> length d" "\<not> ?id" "pr_hp_on pr" "length d < 12"
    | (slots) "4 \<le> length d" "\<not> ?id" "pr_hp_on pr \<Longrightarrow> 12 \<le> length d" by linarith
  then show ?thesis
  proof cases
    case short
    then show ?thesis using cache by (simp add: transform_inbound_profile_def wire_decode_def in_place_def)
  next
    case id
    have "rd (d @ rest) 0 4 = Some (take 4 d)" "rd (d @ rest) 0 (int (length d)) = Some d"
      using rd_within [of 0 "[]" 4 4 d rest] rd_split [of 0 "[]" "int (length d)" d rest] id(1) by simp_all
    then show ?thesis using id cache by (simp add: transform_inbound_profile_def wire_decode_def in_place_def)
  next
    case hp
    have "rd (d @ rest) 0 4 = Some (take 4 d)" using rd_within [of 0 "[]" 4 4 d rest] hp(1) by simp
    then show ?thesis using hp cache by (auto simp: transform_inbound_profile_def wire_decode_def in_place_def)
  next
    case slots
    have r4: "rd (d @ rest) 0 4 = Some (take 4 d)" using rd_within [of 0 "[]" 4 4 d rest] slots(1) by simp
    obtain ks' where st: "(if pr_hp_on pr
      then do { c \<leftarrow> hp_recv_ks cfg (d @ rest) (case ks of Some c \<Rightarrow> c | None \<Rightarrow> \<lparr>ks_block = [], ks_valid = False\<rparr>);
                Some (Some (ks_block c), map_option (\<lambda>_. c) ks) }
      else Some (None, ks)) = Some (if pr_hp_on pr then Some (recv_block cfg d) else None, ks')" "cache_ok cfg d ks'"
      using inbound_stream [OF slots(3) cache, where rest = rest] by blast
    define f where "f = find (claims cfg pr d) [Init, Response, Cookie, Transport]"
    have tm: "(case (if pr_hp_on pr then Some (recv_block cfg d) else None) of Some b \<Rightarrow> read32_le (take 4 b) | None \<Rightarrow> 0) = type_mask cfg pr d"
      by (simp add: type_mask_def)
    have gate: "\<not> (pr_hp_on pr \<and> int (length d) < 12)" "\<not> int (length d) < 4" using slots by auto
    have ident: "(if pr_h4_noop pr then do { t \<leftarrow> rd (d @ rest) 0 4; Some (read32_le t = 4 \<and> int (length d) \<ge> 32) } else Some False) = Some False"
      using slots(2) r4 by auto
    have tr: "transform_inbound_profile (d @ rest) (int (length d)) cfg pr ks =
        Some (case f of None \<Rightarrow> (d @ rest, ks', None)
          | Some k \<Rightarrow> (restored cfg pr k d rest, ks', Some (kind_pad pr k, int (length (open_frame cfg pr k d)))))"
      unfolding transform_inbound_profile_def st(1) ident
      using gate inbound_slots_refines [OF wf slots(3) refl, of cfg rest, folded f_def] tm
      by (simp split: option.split) blast
    have dec: "wire_decode cfg pr d = map_option (\<lambda>k. (k, open_frame cfg pr k d)) f"
      using slots by (auto simp: wire_decode_def f_def)
    show ?thesis
    proof (cases f)
      case None
      then show ?thesis using tr dec st(2) by (simp add: in_place_def)
    next
      case (Some k)
      then have "claims cfg pr d k" by (auto simp: f_def split: if_splits)
      note m = restored_message [OF wf this, of rest] claimed_inside [OF wf this]
      show ?thesis using tr dec st(2) m Some by (simp add: in_place_def)
    qed
  qed
qed

section \<open>Peer resolution and junk sizes\<close>

lemma authentic_init: "length m = 148 \<Longrightarrow> authentic Init (Some key) m \<longleftrightarrow> mac128 key (take 116 m) = take 16 (drop 116 m)"
  using init_mac.set_mac_fixed [of m key] by (simp add: authentic_def)

lemma authentic_resp: "length m = 92 \<Longrightarrow> authentic Response (Some key) m \<longleftrightarrow> mac128 key (take 60 m) = take 16 (drop 60 m)"
  using resp_mac.set_mac_fixed [of m key] by (simp add: authentic_def)

text \<open>The first index whose key verifies.\<close>

fun first_index :: "('a \<Rightarrow> bool) \<Rightarrow> 'a list \<Rightarrow> nat option" where
  "first_index P [] = None"
| "first_index P (x # xs) = (if P x then Some 0 else map_option Suc (first_index P xs))"

lemma first_index_Some:
  "first_index P xs = Some i \<longleftrightarrow> i < length xs \<and> P (xs ! i) \<and> (\<forall>j < i. \<not> P (xs ! j))"
proof (induction xs arbitrary: i)
  case (Cons x xs)
  then show ?case by (cases i) (auto simp: less_Suc_eq_0_disj)
qed simp

lemma first_index_None: "first_index P xs = None \<longleftrightarrow> (\<forall>x \<in> set xs. \<not> P x)"
  by (induction xs) auto

lemma resolve_loop_first:
  assumes "length c < 2 ^ 31"
  shows "resolve_loop ks i c f =
     (case first_index (\<lambda>key. mac128 key c = f) ks of None \<Rightarrow> -1 | Some j \<Rightarrow> i + int j)"
  by (induction ks arbitrary: i) (auto simp: blake2s_128mac_mac128 [OF assms] split: option.splits)

lemma junk_sizes_range:
  assumes "0 \<le> span" "span < 2 ^ 31"
  shows "\<exists>vs. junk_sizes c jmin span r = Some vs \<and> length vs = c \<and>
    list_all (\<lambda>v. jmin \<le> v \<and> v \<le> jmin + (if span > 0 then span - 1 else 0)) vs"
proof (induction c arbitrary: r)
  case (Suc c)
  show ?case
  proof (cases "span > 0")
    case True
    obtain v where "fastrand_intn r span = Some (v, xorshift r)" "0 \<le> v" "v < span"
      using fastrand_intn_range [OF True assms(2)] by blast
    then show ?thesis using Suc.IH [of "xorshift r"] True by auto
  next
    case False
    then show ?thesis using Suc.IH [of r] by auto
  qed
qed simp

lemma sum_list_le_bound: "list_all (\<lambda>v. v \<le> (b :: int)) vs \<Longrightarrow> sum_list vs \<le> int (length vs) * b"
  by (induction vs) (auto simp: algebra_simps)

text \<open>All branches together.\<close>

lemma transform_outbound_safe:
  assumes "wf_profile pr" "pr_s4 pr \<le> dataoff" "dataoff + 1500 \<le> int (length buf)" "length hs = 1500"
    and "0 \<le> n" "dataoff + n \<le> int (length buf)" "m = take (nat n) (drop (nat dataoff) buf)"
    and "mk = (case key of Some k \<Rightarrow> Some k | None \<Rightarrow> c_mac1key_out cfg)"
  shows "\<exists>r. transform_outbound_profile buf hs dataoff n cfg pr key rand = Some r \<and>
    length (o_buf r) = length buf \<and> length (o_hs r) = 1500 \<and> outbound_spec cfg pr mk rand m r"
proof -
  have off: "0 \<le> dataoff" using assms(2) wf_profileD(7) [OF assms(1)] by linarith
  have "nat dataoff + nat n \<le> length buf" using assms(3,5,6) off by linarith
  from buf_split3 [OF this] obtain p m' q where b: "buf = p @ m' @ q" "length p = nat dataoff" "length m' = nat n"
    "length q = length buf - (nat dataoff + nat n)" .
  then have m: "m' = m" "dataoff = int (length p)" "n = int (length m)" "1500 \<le> length m + length q"
    using assms(3,5,6,7) off by auto
  note hs = outbound_handshake [OF assms(1) _ _ m(4) assms(4,8), of _ p rand]
    and tr = outbound_transport [OF assms(1) _ _ assms(4), of m p q cfg key rand mk]
    and other = outbound_other [OF _ assms(4), of m cfg p q pr key rand mk]
  have "\<exists>r. transform_outbound_profile (p @ m @ q) hs (int (length p)) (int (length m)) cfg pr key rand = Some r \<and>
    length (o_buf r) = length (p @ m @ q) \<and> length (o_hs r) = 1500 \<and> outbound_spec cfg pr mk rand m r"
  proof (cases "classify m")
    case None
    then show ?thesis by (intro other) simp
  next
    case (Some k)
    show ?thesis
    proof (cases k)
      case Transport
      then show ?thesis using Some assms(2) m(2) by (intro tr) simp_all
    next
      case Cookie
      then show ?thesis using Some hs [OF Some] other by (cases "c_disable_cookies cfg") simp_all
    qed (use hs [OF Some] in simp_all)
  qed
  then show ?thesis using b(1) m(1-3) by simp
qed

section \<open>Properties\<close>

text \<open>
  C2. Outbound safety and refinement: for a well-formed profile whose transport padding fits
  the headroom, a buffer with 1500 bytes from the packet on and any packet it holds,
  the outbound transformation never leaves its buffers; a message WireGuard knows goes
  out as its wire encoding (a cookie reply is dropped when cookies are disabled), anything
  else unchanged, and junk is requested exactly before an initiation when configured.
\<close>

theorem transform_outbound_refines:
  assumes "wf_profile pr" "pr_s4 pr \<le> dataoff" "dataoff + 1500 \<le> int (length buf)" "length hs = 1500"
    and "0 \<le> n" "dataoff + n \<le> int (length buf)" "m = take (nat n) (drop (nat dataoff) buf)"
    and "mk = (case key of Some k \<Rightarrow> Some k | None \<Rightarrow> c_mac1key_out cfg)"
  shows "\<exists>r. transform_outbound_profile buf hs dataoff n cfg pr key rand = Some r \<and>
    length (o_buf r) = length buf \<and> length (o_hs r) = 1500 \<and> outbound_spec cfg pr mk rand m r"
  by (rule transform_outbound_safe [OF assms])

theorem transform_outbound_refines_witness:
  "\<exists>r. transform_outbound_profile (replicate 16 0 @ sample_init @ replicate 1352 0) (replicate 1500 0) 16 148
      example_config uniform_profile None 7 = Some r \<and>
    outbound_spec example_config uniform_profile (c_mac1key_out example_config) 7 sample_init r"
proof -
  have l: "length sample_init = 148"
    using classify_Some(2) [OF sample_init_ok(1)] by (simp add: fits_kind_def)
  have "sample_init = take (nat 148) (drop (nat 16) (replicate 16 0 @ sample_init @ replicate 1352 0))" using l by simp
  from transform_outbound_refines [OF wf_uniform_profile(1) _ _ _ _ _ this refl,
      where hs = "replicate 1500 0" and key = None and cfg = example_config and rand = 7] l
  show ?thesis by (simp add: uniform_profile_def) blast
qed

text \<open>
  C3. Inbound safety and refinement: for a well-formed profile, any received datagram and any
  bytes behind it in the buffer, the inbound transformation never leaves the buffer, restores
  in place exactly the message \<open>wire_decode\<close> specifies, leaves the buffer untouched when it
  rejects the datagram (so the next profile of the chain can be tried), and keeps the
  keystream cache consistent.
\<close>

theorem transform_inbound_refines:
  assumes "wf_profile pr" "cache_ok cfg d ks"
  shows "\<exists>buf' ks' res. transform_inbound_profile (d @ rest) (int (length d)) cfg pr ks = Some (buf', ks', res) \<and>
    cache_ok cfg d ks' \<and> in_place d rest buf' res \<and>
    (case wire_decode cfg pr d of
       None \<Rightarrow> res = None \<and> buf' = d @ rest
     | Some (k, m) \<Rightarrow> \<exists>off. res = Some (off, int (length m)) \<and> rd buf' off (int (length m)) = Some m)"
  by (rule inbound_refines [OF assms])

theorem transform_inbound_refines_witness:
  "cache_ok example_config [1, 2, 3] None \<and>
   (\<exists>buf' ks' res. transform_inbound_profile ([1, 2, 3] @ replicate 97 0) (int (length [1 :: u8, 2, 3])) example_config uniform_profile None
      = Some (buf', ks', res) \<and> res = None \<and> buf' = [1, 2, 3] @ replicate 97 0)"
proof -
  have c: "cache_ok example_config [1, 2, 3] None" by (simp add: cache_ok_def)
  have "wire_decode example_config uniform_profile [1, 2, 3] = None" by (simp add: wire_decode_def)
  with transform_inbound_refines [OF wf_uniform_profile(1) c, of "replicate 97 0"] c show ?thesis
    by (simp only: option.case) blast
qed

text \<open>
  Peer resolution: the hub names the peer of a handshake initiation or response exactly
  when the message has the right shape and its MAC1 verifies under a peer's key, and it names
  the first such peer.
\<close>

theorem resolve_peer_exact:
  "config_server_resolve_peer_for_init cfg m =
     (case (if length m = 148 \<and> read32_le (take 4 m) = 1
            then first_index (\<lambda>key. authentic Init (Some key) m) (c_server_peer_mac1keys cfg) else None)
      of None \<Rightarrow> -1 | Some i \<Rightarrow> int i) \<and>
   config_server_resolve_peer_for_response cfg m =
     (case (if length m = 92 \<and> read32_le (take 4 m) = 2
            then first_index (\<lambda>key. authentic Response (Some key) m) (c_server_peer_mac1keys cfg) else None)
      of None \<Rightarrow> -1 | Some i \<Rightarrow> int i)"
  by (simp add: config_server_resolve_peer_for_init_def config_server_resolve_peer_for_response_def
      resolve_loop_first authentic_init authentic_resp split: option.split)

text \<open>
  Junk sizes: the draw always succeeds, gives one size per junk packet, at least one byte,
  between Jmin and Jmax (below Jmax when the range is not a single value), and the sizes together fit the
  junk buffer of Jc times Jmax bytes, even for a Jmin that was never validated.
\<close>

theorem generate_junk_fits:
  assumes "c_jmax cfg < 2 ^ 31"
  shows "\<exists>sizes. generate_junk cfg seed = Some sizes \<and>
    length sizes = (if c_jc cfg \<le> 0 \<or> c_jmax cfg \<le> 0 then 0 else nat (c_jc cfg)) \<and>
    list_all (\<lambda>v. 1 \<le> v \<and> min (c_jmin cfg) (c_jmax cfg) \<le> v \<and> v \<le> c_jmax cfg \<and>
      (max 1 (c_jmin cfg) < c_jmax cfg \<longrightarrow> v < c_jmax cfg)) sizes \<and>
    sum_list sizes \<le> max 0 (c_jc cfg * c_jmax cfg)"
proof (cases "c_jc cfg \<le> 0 \<or> c_jmax cfg \<le> 0")
  case True
  then show ?thesis by (simp add: generate_junk_def)
next
  case False
  define jmin where "jmin = (let j = (if c_jmin cfg > 0 then c_jmin cfg else 1) in if j > c_jmax cfg then c_jmax cfg else j)"
  let ?span = "c_jmax cfg - jmin"
  have j: "1 \<le> jmin" "jmin \<le> c_jmax cfg" using False by (auto simp: jmin_def Let_def)
  obtain vs where vs: "junk_sizes (nat (c_jc cfg)) jmin ?span (fastrand_init seed) = Some vs" "length vs = nat (c_jc cfg)"
    "list_all (\<lambda>v. jmin \<le> v \<and> v \<le> jmin + (if ?span > 0 then ?span - 1 else 0)) vs"
    using junk_sizes_range [of ?span "nat (c_jc cfg)" jmin "fastrand_init seed"] j assms by auto
  have all: "list_all (\<lambda>v. 1 \<le> v \<and> min (c_jmin cfg) (c_jmax cfg) \<le> v \<and> v \<le> c_jmax cfg \<and>
      (max 1 (c_jmin cfg) < c_jmax cfg \<longrightarrow> v < c_jmax cfg)) vs"
    using vs(3) j by (auto simp: list_all_iff jmin_def Let_def split: if_splits)
  then have "sum_list vs \<le> int (length vs) * c_jmax cfg"
    by (intro sum_list_le_bound) (auto simp: list_all_iff)
  moreover have "generate_junk cfg seed = Some vs"
    using False vs(1) by (simp add: generate_junk_def jmin_def Let_def)
  ultimately show ?thesis using False vs(2) all by auto
qed

theorem generate_junk_fits_witness:
  "\<exists>sizes. generate_junk example_config 42 = Some sizes \<and> length sizes = 3 \<and> sum_list sizes \<le> 150"
proof -
  have "c_jc example_config = 3" "c_jmax example_config = 50"
    by (simp_all add: example_config_def config_compute_def config_compute_max_s4_def start_chain_def floor_window_def
        select_mac1_def compute_flat_def compute_keys_def example_input_def mirror_profile_def Let_def split: prod.split)
  then show ?thesis using generate_junk_fits [of example_config 42] by auto
qed

end
