(* ===== verification/Sessions.thy ===== *)
theory Sessions
  imports Transform
begin

text \<open>
  The client addresses and the session table of \<^verbatim>\<open>src/src/proxy.h\<close> (server and reverse mode), the
  per-source profile cache and the address helpers of \<^verbatim>\<open>src/src/proxy.c\<close>.  The table is an array
  of 4096 entries with open addressing over four probes; a second array maps the index our
  WireGuard chose to a slot.  Both are lists here and a pointer to an entry is its slot number.
  The theorems give the map laws of the table (through the locale \<open>session_table\<close>), the effect
  of retiring a client that moved, and that following one refines a specification that knows only
  its address and the newest counter, so that a replayed or leaping counter never moves a session.
\<close>

section \<open>Client addresses\<close>

text \<open>The last component of \<open>V6\<close> is flow label and scope, which no comparison looks at.\<close>

datatype cliaddr = V4 (a_v4: u32) (a_port: u16) | V6 (a_v6: bytes) (a_port: u16) (a_meta: u64)

definition cliaddr_eq :: "cliaddr \<Rightarrow> cliaddr \<Rightarrow> bool" where
  "cliaddr_eq a b =
     (case (a, b) of
        (V6 x p _, V6 y q _) \<Rightarrow> p = q \<and> x = y
      | (V4 x p, V4 y q) \<Rightarrow> p = q \<and> x = y
      | _ \<Rightarrow> False)"

definition cliaddr_len :: "cliaddr \<Rightarrow> nat" where
  "cliaddr_len a = (case a of V6 _ _ _ \<Rightarrow> 28 | V4 _ _ \<Rightarrow> 16)"

definition cliaddr_port :: "cliaddr \<Rightarrow> u16" where
  "cliaddr_port a = (case a of V6 _ p _ \<Rightarrow> p | V4 _ p \<Rightarrow> p)"

text \<open>\<open>sa_addr_eq\<close>: the address bytes only.\<close>

definition sa_addr_eq :: "cliaddr \<Rightarrow> cliaddr \<Rightarrow> bool" where
  "sa_addr_eq a b =
     (case (a, b) of (V4 x _, V4 y _) \<Rightarrow> x = y | (V6 x _ _, V6 y _ _) \<Rightarrow> x = y | _ \<Rightarrow> False)"

text \<open>\<open>htons\<close> on a little-endian machine swaps the two bytes.\<close>

definition htons :: "u16 \<Rightarrow> u16" where
  "htons p = push_bit 8 p OR drop_bit 8 p"

definition sa_set_port :: "cliaddr \<Rightarrow> u16 \<Rightarrow> cliaddr" where
  "sa_set_port a port = (case a of V6 x _ m \<Rightarrow> V6 x (htons port) m | V4 x _ \<Rightarrow> V4 x (htons port))"

section \<open>The profile cache\<close>

definition prof_cache_key :: "cliaddr \<Rightarrow> u32" where
  "prof_cache_key a =
     (let k = (case a of
                 V6 x p _ \<Rightarrow> read32_le (take 4 x) XOR read32_le (take 4 (drop 4 x)) XOR
                   read32_le (take 4 (drop 8 x)) XOR read32_le (take 4 (drop 12 x)) XOR
                   push_bit 16 (ucast p) XOR ucast p
               | V4 x p \<Rightarrow> x XOR push_bit 16 (ucast p) XOR ucast p)
      in if k \<noteq> 0 then k else 1)"

record prof_cache_entry =
  pc_key :: u32
  pc_prof :: u8

definition prof_cache_slot :: "u32 \<Rightarrow> nat" where
  "prof_cache_slot k = unat ((k XOR drop_bit 16 k) AND 63)"

definition profile_for_addr :: "awg_config \<Rightarrow> prof_cache_entry list \<Rightarrow> cliaddr \<Rightarrow> int" where
  "profile_for_addr cfg cache a =
     (if c_profile_count cfg = 1 then 0
      else let k = prof_cache_key a; e = cache ! prof_cache_slot k
           in if pc_key e = k then uint (pc_prof e) else c_active_profile cfg)"

definition profile_remember :: "prof_cache_entry list \<Rightarrow> cliaddr \<Rightarrow> int \<Rightarrow> prof_cache_entry list" where
  "profile_remember cache a prof =
     (let k = prof_cache_key a
      in cache[prof_cache_slot k := \<lparr>pc_key = k, pc_prof = word_of_int prof\<rparr>])"

section \<open>The session table\<close>

record session_entry =
  se_sender_index :: u32
  se_addr :: cliaddr
  se_server_index :: u32
  se_peer_slot :: int
  se_prof :: int
  se_valid :: bool
  se_ctr_sidx :: u32
  se_ctr_next :: u64

record sessions =
  ss_entries :: "session_entry list"
  ss_sidx_map :: "u32 list"

abbreviation (input) SESSION_TABLE_SIZE :: nat where "SESSION_TABLE_SIZE \<equiv> 4096"

definition session_slot :: "u32 \<Rightarrow> nat" where
  "session_slot index = unat (index AND 0xFFF)"

definition probe :: "u32 \<Rightarrow> nat list" where
  "probe index = map (\<lambda>i. unat (((index AND 0xFFF) + word_of_nat i) AND 0xFFF)) [0..<4]"

definition session_get_entry :: "sessions \<Rightarrow> u32 \<Rightarrow> nat option" where
  "session_get_entry p index =
     find (\<lambda>s. se_valid (ss_entries p ! s) \<and> se_sender_index (ss_entries p ! s) = index) (probe index)"

definition session_put_prof :: "sessions \<Rightarrow> u32 \<Rightarrow> cliaddr \<Rightarrow> int \<Rightarrow> sessions \<times> nat" where
  "session_put_prof p index addr prof =
     (let fresh = (\<lambda>e. e\<lparr>se_sender_index := index, se_addr := addr, se_peer_slot := -1,
                         se_server_index := 0, se_prof := prof, se_valid := True\<rparr>);
          refresh = (\<lambda>e. e\<lparr>se_sender_index := index, se_addr := addr, se_prof := prof, se_valid := True\<rparr>)
      in case find (\<lambda>s. \<not> se_valid (ss_entries p ! s) \<or> se_sender_index (ss_entries p ! s) = index) (probe index) of
           Some s \<Rightarrow>
             (let e = ss_entries p ! s;
                  preserve_peer = (se_valid e \<and> se_sender_index e = index)
              in (p\<lparr>ss_entries := (ss_entries p)[s := (if preserve_peer then refresh e else fresh e)]\<rparr>, s))
         | None \<Rightarrow>
             (let s = session_slot index
              in (p\<lparr>ss_entries := (ss_entries p)[s := fresh (ss_entries p ! s)]\<rparr>, s)))"

definition session_put :: "sessions \<Rightarrow> u32 \<Rightarrow> cliaddr \<Rightarrow> sessions" where
  "session_put p index addr = fst (session_put_prof p index addr 0)"

definition session_get :: "sessions \<Rightarrow> u32 \<Rightarrow> cliaddr option" where
  "session_get p index = map_option (\<lambda>s. se_addr (ss_entries p ! s)) (session_get_entry p index)"

definition session_set_peer_slot :: "sessions \<Rightarrow> nat option \<Rightarrow> int \<Rightarrow> sessions" where
  "session_set_peer_slot p entry peer_slot =
     (case entry of
        Some s \<Rightarrow> p\<lparr>ss_entries := (ss_entries p)[s := (ss_entries p ! s)\<lparr>se_peer_slot := peer_slot\<rparr>]\<rparr>
      | None \<Rightarrow> p)"

definition session_get_peer_slot :: "sessions \<Rightarrow> nat option \<Rightarrow> int" where
  "session_get_peer_slot p entry = (case entry of Some s \<Rightarrow> se_peer_slot (ss_entries p ! s) | None \<Rightarrow> -1)"

text \<open>The scan for a sole client: \<open>found\<close> is the first live slot seen.\<close>

fun sole_scan :: "session_entry list \<Rightarrow> nat \<Rightarrow> (nat \<times> cliaddr) option \<Rightarrow> nat option" where
  "sole_scan [] i found = map_option fst found"
| "sole_scan (e # es) i found =
     (if \<not> se_valid e then sole_scan es (i + 1) found
      else case found of
             None \<Rightarrow> sole_scan es (i + 1) (Some (i, se_addr e))
           | Some (j, a) \<Rightarrow> (if \<not> cliaddr_eq a (se_addr e) then None else sole_scan es (i + 1) found))"

definition session_find_sole_entry :: "sessions \<Rightarrow> nat option" where
  "session_find_sole_entry p = sole_scan (ss_entries p) 0 None"

definition session_find_sole_client :: "sessions \<Rightarrow> cliaddr option" where
  "session_find_sole_client p = map_option (\<lambda>s. se_addr (ss_entries p ! s)) (session_find_sole_entry p)"

definition session_find_by_peer :: "sessions \<Rightarrow> int \<Rightarrow> nat option" where
  "session_find_by_peer p peer_slot =
     (if peer_slot < 0 then None
      else first_index (\<lambda>e. se_valid e \<and> se_peer_slot e = peer_slot) (ss_entries p))"

definition session_drop_moved_peer :: "sessions \<Rightarrow> int \<Rightarrow> cliaddr option \<Rightarrow> sessions" where
  "session_drop_moved_peer p peer_slot cur =
     (case cur of
        None \<Rightarrow> p
      | Some cur \<Rightarrow>
          if peer_slot < 0 then p
          else p\<lparr>ss_entries := map (\<lambda>e. if \<not> se_valid e then e
                                       else if se_peer_slot e \<noteq> peer_slot then e
                                       else if cliaddr_eq (se_addr e) cur then e
                                       else e\<lparr>se_valid := False\<rparr>) (ss_entries p)\<rparr>)"

definition session_set_server_index :: "sessions \<Rightarrow> nat option \<Rightarrow> u32 \<Rightarrow> sessions" where
  "session_set_server_index p e sidx =
     (case e of
        None \<Rightarrow> p
      | Some s \<Rightarrow>
          if sidx = 0 then p
          else p\<lparr>ss_entries := (ss_entries p)[s := (ss_entries p ! s)\<lparr>se_server_index := sidx\<rparr>],
                 ss_sidx_map := (ss_sidx_map p)[session_slot sidx := word_of_nat s + 1]\<rparr>)"

definition session_get_by_server_index :: "sessions \<Rightarrow> u32 \<Rightarrow> nat option" where
  "session_get_by_server_index p sidx =
     (if sidx = 0 then None
      else let ref = ss_sidx_map p ! session_slot sidx
           in if ref = 0 then None
              else let s = unat (ref - 1); e = ss_entries p ! s
                   in if \<not> se_valid e \<or> se_server_index e \<noteq> sidx then None else Some s)"

definition SESSION_CTR_LEAP :: u64 where "SESSION_CTR_LEAP = push_bit 24 1"

definition session_follow_client :: "sessions \<Rightarrow> u32 \<Rightarrow> cliaddr \<Rightarrow> u64 \<Rightarrow> sessions \<times> bool" where
  "session_follow_client p sidx from_addr ctr =
     (case session_get_by_server_index p sidx of
        None \<Rightarrow> (p, False)
      | Some s \<Rightarrow>
          (let e = ss_entries p ! s;
               e = (if se_ctr_sidx e \<noteq> sidx then e\<lparr>se_ctr_sidx := sidx, se_ctr_next := 0\<rparr> else e);
               p = p\<lparr>ss_entries := (ss_entries p)[s := e]\<rparr>;
               nxt = se_ctr_next e
           in if nxt \<noteq> 0 \<and> (ctr < nxt \<or> ctr - nxt > SESSION_CTR_LEAP) then (p, False)
              else
                (let e = e\<lparr>se_ctr_next := ctr + 1\<rparr>;
                     p = p\<lparr>ss_entries := (ss_entries p)[s := e]\<rparr>
                 in if cliaddr_eq (se_addr e) from_addr then (p, False)
                    else (p\<lparr>ss_entries := map (\<lambda>x. if se_valid x \<and> cliaddr_eq (se_addr x) (se_addr e)
                                                then x\<lparr>se_addr := from_addr\<rparr> else x) (ss_entries p)\<rparr>, True))))"

section \<open>Probing\<close>

lemma and_table_mask: "unat ((x :: u32) AND 0xFFF) = unat x mod 4096"
proof -
  have m: "(0xFFF :: u32) = mask 12" by (simp add: mask_eq_exp_minus_1)
  show ?thesis unfolding m by (simp add: take_bit_eq_mask [symmetric] unsigned_take_bit_eq take_bit_eq_mod unat_mod)
qed

lemma session_slot_less [simp]: "session_slot index < 4096"
  by (simp add: session_slot_def and_table_mask)

lemma probe_nat: "probe index = map (\<lambda>i. (session_slot index + i) mod 4096) [0..<4]"
proof -
  have "unat (((index AND 0xFFF) + word_of_nat i) AND 0xFFF) = (session_slot index + i) mod 4096" if "i < 4" for i
  proof -
    have "unat ((index AND 0xFFF) + word_of_nat i) = session_slot index + i"
      using that session_slot_less [of index] by (subst unat_plus_if') (simp add: session_slot_def unat_of_nat)
    then show ?thesis by (simp add: and_table_mask)
  qed
  then show ?thesis by (simp add: probe_def)
qed

lemma probe_set: "s \<in> set (probe index) \<Longrightarrow> s < 4096"
  by (auto simp: probe_nat)

lemma probe_Cons: "\<exists>ps. probe index = session_slot index # ps"
  by (simp add: probe_nat upt_conv_Cons)

lemma wrap_once: "a < (4096 :: nat) \<Longrightarrow> i < 4 \<Longrightarrow> (a + i) mod 4096 = (if a + i < 4096 then a + i else a + i - 4096)"
  by (simp add: le_mod_geq)

lemma distinct_probe: "distinct (probe index)"
proof -
  have "inj_on (\<lambda>i. (session_slot index + i) mod 4096) {0..<4}"
    using session_slot_less [of index] by (intro inj_onI) (auto simp: wrap_once split: if_splits)
  then show ?thesis by (simp add: probe_nat distinct_map)
qed

lemma find_SomeD:
  "find P xs = Some x \<Longrightarrow> \<exists>ys zs. xs = ys @ x # zs \<and> P x \<and> (\<forall>y \<in> set ys. \<not> P y)"
proof (induction xs)
  case (Cons a xs)
  show ?case
  proof (cases "P a")
    case True
    then show ?thesis using Cons.prems by (intro exI [of _ "[]"] exI [of _ xs]) auto
  next
    case False
    then obtain ys zs where "xs = ys @ x # zs" "P x" "\<forall>y \<in> set ys. \<not> P y" using Cons by auto
    then show ?thesis using False by (intro exI [of _ "a # ys"] exI [of _ zs]) auto
  qed
qed simp

section \<open>Well-formed tables and the map laws\<close>

definition wf_sessions :: "sessions \<Rightarrow> bool" where
  "wf_sessions p \<longleftrightarrow>
     length (ss_entries p) = SESSION_TABLE_SIZE \<and> length (ss_sidx_map p) = SESSION_TABLE_SIZE \<and>
     list_all (\<lambda>r. unat r \<le> SESSION_TABLE_SIZE) (ss_sidx_map p)"

text \<open>Does a new index find a place without evicting another session?\<close>

definition has_room :: "sessions \<Rightarrow> u32 \<Rightarrow> bool" where
  "has_room p index \<longleftrightarrow>
     list_ex (\<lambda>s. \<not> se_valid (ss_entries p ! s) \<or> se_sender_index (ss_entries p ! s) = index) (probe index)"

text \<open>What a lookup gives its caller: address, profile and peer of the session.\<close>

definition session_lookup :: "sessions \<Rightarrow> u32 \<Rightarrow> (cliaddr \<times> int) option" where
  "session_lookup p index =
     map_option (\<lambda>s. (se_addr (ss_entries p ! s), se_prof (ss_entries p ! s))) (session_get_entry p index)"

definition session_insert :: "sessions \<Rightarrow> u32 \<Rightarrow> cliaddr \<times> int \<Rightarrow> sessions" where
  "session_insert p index v = fst (session_put_prof p index (fst v) (snd v))"

text \<open>The slot a put chooses, and what it stores there.\<close>

lemma session_put_slot:
  obtains s e where "session_put_prof p index addr prof = (p\<lparr>ss_entries := (ss_entries p)[s := e]\<rparr>, s)"
    "s \<in> set (probe index)" "se_valid e" "se_sender_index e = index" "se_addr e = addr" "se_prof e = prof"
    "\<exists>ys zs. probe index = ys @ s # zs \<and> (\<forall>y \<in> set ys. se_valid (ss_entries p ! y) \<and> se_sender_index (ss_entries p ! y) \<noteq> index)"
    "has_room p index \<Longrightarrow> \<not> se_valid (ss_entries p ! s) \<or> se_sender_index (ss_entries p ! s) = index"
    "\<not> has_room p index \<Longrightarrow> s = session_slot index"
proof -
  let ?P = "\<lambda>s. \<not> se_valid (ss_entries p ! s) \<or> se_sender_index (ss_entries p ! s) = index"
  show ?thesis
  proof (cases "find ?P (probe index)")
    case None
    then have "\<not> has_room p index" by (auto simp: has_room_def find_None_iff list_ex_iff)
    moreover obtain ps where pr: "probe index = session_slot index # ps" using probe_Cons by blast
    moreover have "\<exists>ys zs. probe index = ys @ session_slot index # zs \<and>
        (\<forall>y \<in> set ys. se_valid (ss_entries p ! y) \<and> se_sender_index (ss_entries p ! y) \<noteq> index)"
      by (intro exI [of _ "[]"] exI [of _ ps]) (simp add: pr)
    moreover have "session_put_prof p index addr prof = (p\<lparr>ss_entries := (ss_entries p)[session_slot index :=
        (ss_entries p ! session_slot index)\<lparr>se_sender_index := index, se_addr := addr, se_peer_slot := -1,
          se_server_index := 0, se_prof := prof, se_valid := True\<rparr>]\<rparr>, session_slot index)"
      unfolding session_put_prof_def None by (simp add: Let_def)
    ultimately show ?thesis by (intro that) (assumption | force)+
  next
    case (Some s)
    obtain ys zs where split: "probe index = ys @ s # zs" "?P s" "\<forall>y \<in> set ys. \<not> ?P y"
      using find_SomeD [OF Some] by blast
    define e where "e = (if se_valid (ss_entries p ! s) \<and> se_sender_index (ss_entries p ! s) = index
      then (ss_entries p ! s)\<lparr>se_sender_index := index, se_addr := addr, se_prof := prof, se_valid := True\<rparr>
      else (ss_entries p ! s)\<lparr>se_sender_index := index, se_addr := addr, se_peer_slot := -1,
          se_server_index := 0, se_prof := prof, se_valid := True\<rparr>)"
    have "session_put_prof p index addr prof = (p\<lparr>ss_entries := (ss_entries p)[s := e]\<rparr>, s)"
      unfolding session_put_prof_def Some by (simp add: e_def Let_def)
    moreover have "has_room p index" using split by (auto simp: has_room_def)
    ultimately show ?thesis using split by (intro that [of s e]) (auto simp: e_def)
  qed
qed

lemma find_skip: "(\<And>y. y \<in> set ys \<Longrightarrow> \<not> P y) \<Longrightarrow> P x \<Longrightarrow> find P (ys @ x # zs) = Some x"
  by (induction ys) auto

lemma find_congr: "(\<And>x. x \<in> set xs \<Longrightarrow> P x = Q x) \<Longrightarrow> find P xs = find Q xs"
  by (induction xs) auto

lemma session_get_put_entry:
  assumes "wf_sessions p" "session_put_prof p index addr prof = (p', s)"
  shows "session_get_entry p' index = Some s" "s < 4096" "se_addr (ss_entries p' ! s) = addr"
    "se_prof (ss_entries p' ! s) = prof"
proof -
  obtain t e where put: "session_put_prof p index addr prof = (p\<lparr>ss_entries := (ss_entries p)[t := e]\<rparr>, t)"
    and t: "t \<in> set (probe index)" and e: "se_valid e" "se_sender_index e = index" "se_addr e = addr" "se_prof e = prof"
    and sp: "\<exists>ys zs. probe index = ys @ t # zs \<and> (\<forall>y \<in> set ys. se_valid (ss_entries p ! y) \<and> se_sender_index (ss_entries p ! y) \<noteq> index)"
    by (rule session_put_slot)
  have t': "t < 4096" using probe_set [OF t] .
  have eq: "p' = p\<lparr>ss_entries := (ss_entries p)[t := e]\<rparr>" "s = t" using put assms(2) by simp_all
  have at: "ss_entries p' ! t = e" using t' assms(1) by (simp add: eq wf_sessions_def)
  obtain ys zs where ys: "probe index = ys @ t # zs"
    "\<forall>y \<in> set ys. se_valid (ss_entries p ! y) \<and> se_sender_index (ss_entries p ! y) \<noteq> index" using sp by blast
  have "t \<notin> set ys" using distinct_probe [of index] ys(1) by simp
  then have "\<not> (se_valid (ss_entries p' ! y) \<and> se_sender_index (ss_entries p' ! y) = index)" if "y \<in> set ys" for y
    using that ys(2) by (metis eq(1) nth_list_update_neq sessions.select_convs(1) sessions.surjective sessions.update_convs(1))
  then show "session_get_entry p' index = Some s"
    unfolding session_get_entry_def ys(1) eq(2) by (intro find_skip) (use at e in auto)
  show "s < 4096" "se_addr (ss_entries p' ! s) = addr" "se_prof (ss_entries p' ! s) = prof"
    using t' at e eq by simp_all
qed

lemma session_get_put_other:
  assumes "wf_sessions p" "has_room p index" "j \<noteq> index" "session_put_prof p index addr prof = (p', s)"
  shows "session_get_entry p' j = session_get_entry p j"
    and "session_get_entry p j = Some u \<Longrightarrow> ss_entries p' ! u = ss_entries p ! u"
proof -
  obtain t e where put: "session_put_prof p index addr prof = (p\<lparr>ss_entries := (ss_entries p)[t := e]\<rparr>, t)"
    and t: "t \<in> set (probe index)" and e: "se_sender_index e = index"
    and free: "has_room p index \<Longrightarrow> \<not> se_valid (ss_entries p ! t) \<or> se_sender_index (ss_entries p ! t) = index"
    by (rule session_put_slot) blast
  have t': "t < 4096" using probe_set [OF t] .
  have eq: "p' = p\<lparr>ss_entries := (ss_entries p)[t := e]\<rparr>" using put assms(4) by simp
  have len: "length (ss_entries p) = 4096" using assms(1) by (simp add: wf_sessions_def)
  have "(se_valid (ss_entries p' ! x) \<and> se_sender_index (ss_entries p' ! x) = j) =
      (se_valid (ss_entries p ! x) \<and> se_sender_index (ss_entries p ! x) = j)" for x
    using free [OF assms(2)] e assms(3) t' len by (cases "x = t") (auto simp: eq)
  then show "session_get_entry p' j = session_get_entry p j"
    unfolding session_get_entry_def by (intro find_congr) simp
  assume "session_get_entry p j = Some u"
  then have "se_valid (ss_entries p ! u) \<and> se_sender_index (ss_entries p ! u) = j"
    unfolding session_get_entry_def using find_SomeD by fast
  then have "u \<noteq> t" using free [OF assms(2)] assms(3) by auto
  then show "ss_entries p' ! u = ss_entries p ! u" by (simp add: eq)
qed

lemma wf_put: "wf_sessions p \<Longrightarrow> wf_sessions (fst (session_put_prof p index addr prof))"
  by (rule session_put_slot [of p index addr prof]) (simp add: wf_sessions_def)

text \<open>
  The contract the packet paths rely on: a stored session is found again, a store that finds
  room disturbs no other session.  Inside the locale: after any run of stores that find room,
  a lookup returns the last value stored under its index.
\<close>

locale session_table =
  fixes inv :: "'s \<Rightarrow> bool" and look :: "'s \<Rightarrow> u32 \<Rightarrow> 'v option"
    and store :: "'s \<Rightarrow> u32 \<Rightarrow> 'v \<Rightarrow> 's" and room :: "'s \<Rightarrow> u32 \<Rightarrow> bool"
  assumes inv_store: "inv s \<Longrightarrow> inv (store s i v)"
    and look_same: "inv s \<Longrightarrow> look (store s i v) i = Some v"
    and look_other: "inv s \<Longrightarrow> room s i \<Longrightarrow> j \<noteq> i \<Longrightarrow> look (store s i v) j = look s j"
begin

primrec store_all :: "'s \<Rightarrow> (u32 \<times> 'v) list \<Rightarrow> 's" where
  "store_all s [] = s"
| "store_all s (kv # kvs) = store_all (store s (fst kv) (snd kv)) kvs"

primrec roomy :: "'s \<Rightarrow> (u32 \<times> 'v) list \<Rightarrow> bool" where
  "roomy s [] = True"
| "roomy s (kv # kvs) = (room s (fst kv) \<and> roomy (store s (fst kv) (snd kv)) kvs)"

lemma store_all_inv: "inv s \<Longrightarrow> inv (store_all s kvs)"
  by (induction kvs arbitrary: s) (simp_all add: inv_store)

lemma look_store_all:
  assumes "inv s" "roomy s kvs"
  shows "look (store_all s kvs) j = (case map_of (rev kvs) j of Some v \<Rightarrow> Some v | None \<Rightarrow> look s j)"
  using assms
proof (induction kvs arbitrary: s)
  case (Cons kv kvs)
  have "look (store s (fst kv) (snd kv)) j = (if j = fst kv then Some (snd kv) else look s j)"
    using Cons.prems by (simp add: look_same look_other)
  then show ?case
    using Cons.IH [of "store s (fst kv) (snd kv)"] Cons.prems
    by (simp add: inv_store map_add_def split: option.split)
qed simp

end

interpretation st: session_table wf_sessions session_lookup session_insert has_room
proof unfold_locales
  fix p i and v :: "cliaddr \<times> int"
  assume wf: "wf_sessions p"
  show "wf_sessions (session_insert p i v)" using wf_put [OF wf] by (simp add: session_insert_def)
  show "session_lookup (session_insert p i v) i = Some v"
    using session_get_put_entry [OF wf, of i "fst v" "snd v"]
    by (cases "session_put_prof p i (fst v) (snd v)") (auto simp: session_lookup_def session_insert_def)
next
  fix p i j and v :: "cliaddr \<times> int"
  assume wf: "wf_sessions p" and room: "has_room p i" "j \<noteq> i"
  obtain p' s where put: "session_put_prof p i (fst v) (snd v) = (p', s)" by fastforce
  show "session_lookup (session_insert p i v) j = session_lookup p j"
    using session_get_put_other [OF wf room put]
    by (cases "session_get_entry p j") (simp_all add: session_lookup_def session_insert_def put)
qed

section \<open>Clients that move\<close>

lemma cliaddr_eq_refl [simp]: "cliaddr_eq a a"
  by (cases a) (simp_all add: cliaddr_eq_def)

lemma cliaddr_eq_sym: "cliaddr_eq a b = cliaddr_eq b a"
  by (cases a; cases b) (auto simp: cliaddr_eq_def)

lemma cliaddr_eq_trans: "cliaddr_eq a b \<Longrightarrow> cliaddr_eq b c \<Longrightarrow> cliaddr_eq a c"
  by (cases a; cases b; cases c) (auto simp: cliaddr_eq_def)

lemma session_by_sidx:
  assumes "wf_sessions p" "session_get_by_server_index p sidx = Some s"
  shows "s < 4096" "se_valid (ss_entries p ! s)" "se_server_index (ss_entries p ! s) = sidx" "sidx \<noteq> 0"
    "s = unat (ss_sidx_map p ! session_slot sidx - 1)" "ss_sidx_map p ! session_slot sidx \<noteq> 0"
proof -
  let ?ref = "ss_sidx_map p ! session_slot sidx"
  have s: "s = unat (?ref - 1)" "?ref \<noteq> 0" "se_valid (ss_entries p ! s)" "se_server_index (ss_entries p ! s) = sidx" "sidx \<noteq> 0"
    using assms(2) by (auto simp: session_get_by_server_index_def Let_def split: if_splits)
  have "unat ?ref \<le> 4096" using assms(1) by (simp add: wf_sessions_def list_all_length)
  moreover have "unat (?ref - 1) = unat ?ref - 1" using s(2) by (simp add: unat_minus_one)
  moreover have "0 < unat ?ref" using s(2) by (simp add: unat_gt_0)
  ultimately show "s < 4096" using s(1) by linarith
  show "se_valid (ss_entries p ! s)" "se_server_index (ss_entries p ! s) = sidx" "sidx \<noteq> 0"
    "s = unat (?ref - 1)" "?ref \<noteq> 0" by fact+
qed

text \<open>The next counter a session accepts, 0 when it has carried none.\<close>

definition session_next :: "sessions \<Rightarrow> nat \<Rightarrow> u32 \<Rightarrow> u64" where
  "session_next p s sidx =
     (let e = ss_entries p ! s in if se_ctr_sidx e = sidx then se_ctr_next e else 0)"

definition ctr_ok :: "u64 \<Rightarrow> u64 \<Rightarrow> bool" where
  "ctr_ok nxt ctr \<longleftrightarrow> nxt = 0 \<or> nxt \<le> ctr \<and> ctr - nxt \<le> SESSION_CTR_LEAP"

definition move_entries :: "cliaddr \<Rightarrow> cliaddr \<Rightarrow> session_entry list \<Rightarrow> session_entry list" where
  "move_entries old new es =
     map (\<lambda>x. if se_valid x \<and> cliaddr_eq (se_addr x) old then x\<lparr>se_addr := new\<rparr> else x) es"

text \<open>The three outcomes of \<open>session_follow_client\<close> on a known session.\<close>

lemma follow_cases:
  assumes "wf_sessions p" "session_get_by_server_index p sidx = Some s"
  defines "nxt \<equiv> session_next p s sidx" and "e \<equiv> ss_entries p ! s"
  shows "session_follow_client p sidx a ctr =
    (if \<not> ctr_ok nxt ctr
     then (p\<lparr>ss_entries := (ss_entries p)[s := e\<lparr>se_ctr_sidx := sidx, se_ctr_next := nxt\<rparr>]\<rparr>, False)
     else let es = (ss_entries p)[s := e\<lparr>se_ctr_sidx := sidx, se_ctr_next := ctr + 1\<rparr>]
          in if cliaddr_eq (se_addr e) a then (p\<lparr>ss_entries := es\<rparr>, False)
             else (p\<lparr>ss_entries := move_entries (se_addr e) a es\<rparr>, True))"
proof -
  have ok: "(nxt \<noteq> 0 \<and> (ctr < nxt \<or> ctr - nxt > SESSION_CTR_LEAP)) \<longleftrightarrow> \<not> ctr_ok nxt ctr"
    by (auto simp: ctr_ok_def not_le)
  have e1: "(if se_ctr_sidx e \<noteq> sidx then e\<lparr>se_ctr_sidx := sidx, se_ctr_next := 0\<rparr> else e) =
      e\<lparr>se_ctr_sidx := sidx, se_ctr_next := nxt\<rparr>"
    by (auto simp: nxt_def e_def session_next_def)
  show ?thesis
    unfolding session_follow_client_def assms(2) option.case Let_def e_def [symmetric] e1
    by (simp add: ok move_entries_def)
qed

lemma move_entries_nth:
  "s < length es \<Longrightarrow> move_entries old new es ! s =
     (if se_valid (es ! s) \<and> cliaddr_eq (se_addr (es ! s)) old then (es ! s)\<lparr>se_addr := new\<rparr> else es ! s)"
  by (simp add: move_entries_def)

lemma length_move_entries [simp]: "length (move_entries old new es) = length es"
  by (simp add: move_entries_def)

lemma follow_keeps:
  assumes "wf_sessions p" "session_get_by_server_index p sidx = Some s"
    and "session_follow_client p sidx a ctr = (p', moved)"
  shows "wf_sessions p'" "session_get_by_server_index p' sidx = Some s"
    "session_next p' s sidx = (if ctr_ok (session_next p s sidx) ctr then ctr + 1 else session_next p s sidx)"
    "moved \<Longrightarrow> ctr_ok (session_next p s sidx) ctr"
proof -
  note S = session_by_sidx [OF assms(1,2)] and F = follow_cases [OF assms(1,2), of a ctr]
  have len: "length (ss_entries p) = 4096" using assms(1) by (simp add: wf_sessions_def)
  have m: "ss_sidx_map p' = ss_sidx_map p" "length (ss_entries p') = length (ss_entries p)"
    and e: "se_valid (ss_entries p' ! s)" "se_server_index (ss_entries p' ! s) = sidx"
      "se_ctr_sidx (ss_entries p' ! s) = sidx"
      "se_ctr_next (ss_entries p' ! s) = (if ctr_ok (session_next p s sidx) ctr then ctr + 1 else session_next p s sidx)"
    and "moved \<Longrightarrow> ctr_ok (session_next p s sidx) ctr"
    using F assms(3) S(1-3) len by (auto simp: Let_def move_entries_nth split: if_splits)
  then show "moved \<Longrightarrow> ctr_ok (session_next p s sidx) ctr" by blast
  show "wf_sessions p'" using assms(1) m by (simp add: wf_sessions_def)
  show "session_get_by_server_index p' sidx = Some s"
    using S e m by (simp add: session_get_by_server_index_def)
  show "session_next p' s sidx = (if ctr_ok (session_next p s sidx) ctr then ctr + 1 else session_next p s sidx)"
    using e by (simp add: session_next_def)
qed

lemma follow_unknown: "session_get_by_server_index p sidx = None \<Longrightarrow> session_follow_client p sidx a ctr = (p, False)"
  by (simp add: session_follow_client_def)

text \<open>
  Following a client over a run of packets, and its specification.  The specification knows the
  address of the session and the newest counter it accepted, and nothing else: a packet is
  fresh when its counter is newer and no more than the permitted leap ahead; a fresh packet
  becomes the newest whatever address it comes from, and moves the session when that address is
  another one.  It yields whether each packet moved the session, the accepted counters, and the
  final address and newest counter.
\<close>

fun follow_run :: "sessions \<Rightarrow> u32 \<Rightarrow> (cliaddr \<times> u64) list \<Rightarrow> bool list \<times> sessions" where
  "follow_run p sidx [] = ([], p)"
| "follow_run p sidx ((a, ctr) # pkts) =
     (let (p, moved) = session_follow_client p sidx a ctr; (ms, p) = follow_run p sidx pkts in (moved # ms, p))"

definition fresh_counter :: "u64 option \<Rightarrow> u64 \<Rightarrow> bool" where
  "fresh_counter newest ctr =
     (case newest of None \<Rightarrow> True | Some c \<Rightarrow> unat c < unat ctr \<and> unat ctr \<le> unat c + 1 + 2 ^ 24)"

fun follow_spec :: "cliaddr \<Rightarrow> u64 option \<Rightarrow> (cliaddr \<times> u64) list \<Rightarrow> bool list \<times> u64 list \<times> cliaddr \<times> u64 option" where
  "follow_spec addr newest [] = ([], [], addr, newest)"
| "follow_spec addr newest ((a, ctr) # pkts) =
     (if fresh_counter newest ctr
      then let (ms, acc, fin) = follow_spec (if cliaddr_eq addr a then addr else a) (Some ctr) pkts
           in ((\<not> cliaddr_eq addr a) # ms, ctr # acc, fin)
      else let (ms, acc, fin) = follow_spec addr newest pkts in (False # ms, acc, fin))"

text \<open>The stored counter is the successor of the newest one, with zero for none yet.\<close>

definition newest_counter :: "u64 \<Rightarrow> u64 option" where
  "newest_counter nxt = (if nxt = 0 then None else Some (nxt - 1))"

lemma word_less_succ: "(x :: u64) + 1 \<noteq> 0 \<Longrightarrow> x < x + 1"
  by (metis add.commute unatSuc lessI word_less_nat_alt)

lemma newest_counter_succ: "ctr + 1 \<noteq> 0 \<Longrightarrow> newest_counter (ctr + 1) = Some ctr"
  by (simp add: newest_counter_def)

lemma fresh_counter_ok: "fresh_counter (newest_counter nxt) ctr \<longleftrightarrow> ctr_ok nxt ctr"
proof (cases "nxt = 0")
  case False
  have pred: "unat (nxt - 1) + 1 = unat nxt"
    using False by (metis Suc_eq_plus1 diff_add_cancel add.commute unatSuc)
  have leap: "unat SESSION_CTR_LEAP = 2 ^ 24" by (simp add: SESSION_CTR_LEAP_def push_bit_eq_mult)
  have "nxt \<le> ctr \<Longrightarrow> unat (ctr - nxt) = unat ctr - unat nxt" by (simp add: unat_sub)
  then show ?thesis
    using False pred leap by (auto simp: fresh_counter_def newest_counter_def ctr_ok_def word_le_nat_alt)
qed (simp add: fresh_counter_def newest_counter_def ctr_ok_def)

lemma follow_address:
  assumes "wf_sessions p" "session_get_by_server_index p sidx = Some s"
    and "session_follow_client p sidx a ctr = (p', moved)"
  shows "moved \<longleftrightarrow> ctr_ok (session_next p s sidx) ctr \<and> \<not> cliaddr_eq (se_addr (ss_entries p ! s)) a"
    "se_addr (ss_entries p' ! s) = (if moved then a else se_addr (ss_entries p ! s))"
proof -
  note S = session_by_sidx [OF assms(1,2)] and F = follow_cases [OF assms(1,2), of a ctr]
  have len: "length (ss_entries p) = 4096" using assms(1) by (simp add: wf_sessions_def)
  show "moved \<longleftrightarrow> ctr_ok (session_next p s sidx) ctr \<and> \<not> cliaddr_eq (se_addr (ss_entries p ! s)) a"
    "se_addr (ss_entries p' ! s) = (if moved then a else se_addr (ss_entries p ! s))"
    using F assms(3) S(1-3) len by (auto simp: Let_def move_entries_nth split: if_splits)
qed

lemma follow_run_spec:
  assumes "wf_sessions p" "session_get_by_server_index p sidx = Some s"
    and "list_all (\<lambda>(a, ctr). ctr + 1 \<noteq> 0) pkts" "follow_run p sidx pkts = (ms, p')"
  shows "wf_sessions p' \<and> session_get_by_server_index p' sidx = Some s \<and>
    (\<exists>acc. follow_spec (se_addr (ss_entries p ! s)) (newest_counter (session_next p s sidx)) pkts =
       (ms, acc, se_addr (ss_entries p' ! s), newest_counter (session_next p' s sidx)))"
  using assms
proof (induction pkts arbitrary: p ms)
  case (Cons pkt pkts)
  obtain a ctr where pkt: "pkt = (a, ctr)" by fastforce
  obtain p1 moved where f: "session_follow_client p sidx a ctr = (p1, moved)" by fastforce
  note K = follow_keeps [OF Cons.prems(1,2) f] and A = follow_address [OF Cons.prems(1,2) f]
  obtain ms1 where r: "follow_run p1 sidx pkts = (ms1, p')" "ms = moved # ms1"
    using Cons.prems(4) f by (auto simp: pkt Let_def split: prod.splits)
  have c: "ctr + 1 \<noteq> 0" "list_all (\<lambda>(a, ctr). ctr + 1 \<noteq> 0) pkts" using Cons.prems(3) by (simp_all add: pkt)
  obtain acc where IH: "wf_sessions p'" "session_get_by_server_index p' sidx = Some s"
    "follow_spec (se_addr (ss_entries p1 ! s)) (newest_counter (session_next p1 s sidx)) pkts =
       (ms1, acc, se_addr (ss_entries p' ! s), newest_counter (session_next p' s sidx))"
    using Cons.IH [OF K(1,2) c(2) r(1)] by blast
  show ?case
  proof (cases "ctr_ok (session_next p s sidx) ctr")
    case True
    then have "se_addr (ss_entries p1 ! s) = (if cliaddr_eq (se_addr (ss_entries p ! s)) a then se_addr (ss_entries p ! s) else a)"
      "newest_counter (session_next p1 s sidx) = Some ctr" "moved \<longleftrightarrow> \<not> cliaddr_eq (se_addr (ss_entries p ! s)) a"
      using A K(3) newest_counter_succ [OF c(1)] by auto
    then show ?thesis using IH True r(2) by (simp add: pkt fresh_counter_ok)
  next
    case False
    then have "se_addr (ss_entries p1 ! s) = se_addr (ss_entries p ! s)" "session_next p1 s sidx = session_next p s sidx" "\<not> moved"
      using A K(3) by auto
    then show ?thesis using IH False r(2) by (simp add: pkt fresh_counter_ok)
  qed
qed simp

lemma follow_spec_increasing:
  "follow_spec addr newest pkts = (ms, acc, fin) \<Longrightarrow>
     sorted_wrt (<) acc \<and> (\<forall>c \<in> set acc. case newest of None \<Rightarrow> True | Some n \<Rightarrow> n < c)"
proof (induction addr newest pkts arbitrary: ms acc rule: follow_spec.induct)
  case (2 addr newest a ctr pkts)
  show ?case
  proof (cases "fresh_counter newest ctr")
    case True
    obtain ms1 acc1 where r: "follow_spec (if cliaddr_eq addr a then addr else a) (Some ctr) pkts = (ms1, acc1, fin)" "acc = ctr # acc1"
      using "2.prems" True by (auto simp: Let_def split: prod.splits)
    have IH: "sorted_wrt (<) acc1" "\<forall>c \<in> set acc1. ctr < c" using "2.IH"(1) [OF True r(1)] by auto
    have new: "n < ctr" if "newest = Some n" for n using True that by (simp add: fresh_counter_def word_less_nat_alt)
    show ?thesis
    proof (cases newest)
      case (Some n)
      have "n < c" if "ctr < c" for c using new [OF Some] that by order
      then show ?thesis using IH new [OF Some] Some r(2) by auto
    qed (use IH r(2) in auto)
  next
    case False
    obtain ms1 where r: "follow_spec addr newest pkts = (ms1, acc, fin)"
      using "2.prems" False by (auto simp: Let_def split: prod.splits)
    show ?thesis using "2.IH"(2) [OF False r] .
  qed
qed simp

section \<open>Scans\<close>

lemma sole_scan_Some_found:
  "sole_scan es i (Some (j, a)) = (if list_all (\<lambda>e. se_valid e \<longrightarrow> cliaddr_eq a (se_addr e)) es then Some j else None)"
  by (induction es arbitrary: i) auto

lemma sole_scan_exact:
  "sole_scan es i None =
     (case first_index se_valid es of
        None \<Rightarrow> None
      | Some j \<Rightarrow> if list_all (\<lambda>e. se_valid e \<longrightarrow> cliaddr_eq (se_addr (es ! j)) (se_addr e)) es then Some (i + j) else None)"
proof (induction es arbitrary: i)
  case (Cons e es)
  then show ?case by (cases "se_valid e") (auto simp: sole_scan_Some_found split: option.splits)
qed simp

lemma drop_entries_nth:
  assumes "0 \<le> peer" "s < length (ss_entries p)"
  shows "ss_entries (session_drop_moved_peer p peer (Some cur)) ! s =
    (let e = ss_entries p ! s
     in if se_valid e \<and> se_peer_slot e = peer \<and> \<not> cliaddr_eq (se_addr e) cur then e\<lparr>se_valid := False\<rparr> else e)"
  using assms by (simp add: session_drop_moved_peer_def Let_def)

section \<open>Properties\<close>

definition empty_entry :: session_entry where
  "empty_entry = \<lparr>se_sender_index = 0, se_addr = V4 0 0, se_server_index = 0, se_peer_slot = 0,
     se_prof = 0, se_valid = False, se_ctr_sidx = 0, se_ctr_next = 0\<rparr>"

definition empty_sessions :: sessions where
  "empty_sessions = \<lparr>ss_entries = replicate 4096 empty_entry, ss_sidx_map = replicate 4096 0\<rparr>"

lemma wf_empty_sessions [simp]: "wf_sessions empty_sessions"
  by (simp add: wf_sessions_def empty_sessions_def list_all_iff)

lemma empty_room [simp]: "has_room empty_sessions index"
proof -
  obtain ps where "probe index = session_slot index # ps" using probe_Cons by blast
  then show ?thesis by (simp add: has_room_def empty_sessions_def empty_entry_def)
qed

text \<open>
  C22. The session table is a map while it has room: after any sequence of insertions that each
  find a free or matching slot among the four probes, a lookup returns the address and profile
  stored last under its index, and what was there before for all other indices.
\<close>

theorem session_table_is_map:
  assumes "wf_sessions p" "st.roomy p kvs"
  shows "session_lookup (st.store_all p kvs) j =
    (case map_of (rev kvs) j of Some v \<Rightarrow> Some v | None \<Rightarrow> session_lookup p j)"
  by (rule st.look_store_all [OF assms])

theorem session_table_is_map_witness:
  "session_lookup (st.store_all empty_sessions [(5, V4 1 2, 0)]) 5 = Some (V4 1 2, 0)"
proof -
  have "st.roomy empty_sessions [(5, V4 1 2, 0)]" by simp
  from session_table_is_map [OF wf_empty_sessions this, of 5] show ?thesis by simp
qed

text \<open>
  An eviction is local: an insertion that finds no room overwrites the session in the first
  probed slot and no other entry of the table, and the new session is found.
\<close>

theorem session_eviction_local:
  assumes "wf_sessions p" "\<not> has_room p index" "session_put_prof p index addr prof = (p', s)"
  shows "s = session_slot index \<and> session_lookup p' index = Some (addr, prof) \<and>
    (\<forall>t. t \<noteq> s \<longrightarrow> ss_entries p' ! t = ss_entries p ! t)"
proof -
  obtain t e where put: "session_put_prof p index addr prof = (p\<lparr>ss_entries := (ss_entries p)[t := e]\<rparr>, t)"
    and t: "\<not> has_room p index \<Longrightarrow> t = session_slot index"
    by (rule session_put_slot) blast
  then have "p' = p\<lparr>ss_entries := (ss_entries p)[t := e]\<rparr>" "s = t" using assms(3) by simp_all
  then show ?thesis
    using t [OF assms(2)] session_get_put_entry [OF assms(1,3)] by (simp add: session_lookup_def)
qed

definition full_sessions :: sessions where
  "full_sessions = \<lparr>ss_entries = replicate 4096 (empty_entry\<lparr>se_valid := True, se_sender_index := 9\<rparr>),
     ss_sidx_map = replicate 4096 0\<rparr>"

theorem session_eviction_local_witness:
  "\<not> has_room full_sessions 5 \<and> session_lookup (fst (session_put_prof full_sessions 5 (V4 1 2) 0)) 5 = Some (V4 1 2, 0)"
proof -
  have wf: "wf_sessions full_sessions" by (simp add: wf_sessions_def full_sessions_def list_all_iff)
  have nr: "\<not> has_room full_sessions 5"
    using probe_set [of _ 5] by (auto simp: has_room_def full_sessions_def list_ex_iff)
  obtain p' s where put: "session_put_prof full_sessions 5 (V4 1 2) 0 = (p', s)" by fastforce
  from session_eviction_local [OF wf nr put] nr put show ?thesis by simp
qed

text \<open>
  C23. Following a client that moves refines its specification over every run of transport packets
  for a known session (whose counters stay below the last 64-bit value): the packets that move
  the session, its final address and its newest counter are those of the specification, in which
  every packet with a fresh counter counts, also those from the address the session is at.  The
  accepted counters are strictly increasing, so a copy or a straggler of a counter that was
  accepted already, from whatever address, never moves the session again.
\<close>

theorem follow_client_monotone:
  assumes "wf_sessions p" "session_get_by_server_index p sidx = Some s"
    and "list_all (\<lambda>(a, ctr). ctr + 1 \<noteq> 0) pkts" "follow_run p sidx pkts = (ms, p')"
  shows "\<exists>acc. follow_spec (se_addr (ss_entries p ! s)) (newest_counter (session_next p s sidx)) pkts =
      (ms, acc, se_addr (ss_entries p' ! s), newest_counter (session_next p' s sidx)) \<and>
    sorted_wrt (<) acc \<and>
    (\<forall>c \<in> set acc. case newest_counter (session_next p s sidx) of None \<Rightarrow> True | Some n \<Rightarrow> n < c) \<and>
    session_get_by_server_index p' sidx = Some s"
  using follow_run_spec [OF assms] follow_spec_increasing by blast

definition one_session :: sessions where
  "one_session = session_set_server_index (session_put empty_sessions 5 (V4 1 2)) (Some 5) 77"

lemma one_session_ok:
  "wf_sessions one_session" "session_get_by_server_index one_session 77 = Some 5"
  "session_next one_session 5 77 = 0" "se_addr (ss_entries one_session ! 5) = V4 1 2"
  "ss_entries one_session ! 5 = empty_entry\<lparr>se_sender_index := 5, se_addr := V4 1 2,
     se_peer_slot := -1, se_valid := True, se_server_index := 77\<rparr>"
proof -
  have p5: "probe 5 = [5, 6, 7, 8]" by (simp add: probe_def upt_conv_Cons)
  have put: "session_put empty_sessions 5 (V4 1 2) =
      empty_sessions\<lparr>ss_entries := (replicate 4096 empty_entry)[5 := empty_entry\<lparr>se_sender_index := 5, se_addr := V4 1 2,
        se_peer_slot := -1, se_valid := True\<rparr>]\<rparr>"
    by (simp add: session_put_def session_put_prof_def p5 empty_sessions_def empty_entry_def Let_def)
  have slot: "session_slot 77 = 77" by (simp add: session_slot_def)
  show "wf_sessions one_session"
    using wf_put [OF wf_empty_sessions, of 5 "V4 1 2" 0]
    by (auto simp: one_session_def session_set_server_index_def session_put_def wf_sessions_def list_all_iff
        dest!: set_update_subset_insert [THEN subsetD])
  show e: "ss_entries one_session ! 5 = empty_entry\<lparr>se_sender_index := 5, se_addr := V4 1 2,
        se_peer_slot := -1, se_valid := True, se_server_index := 77\<rparr>"
    by (simp add: one_session_def put session_set_server_index_def)
  then show "se_addr (ss_entries one_session ! 5) = V4 1 2" "session_next one_session 5 77 = 0"
    by (simp_all add: session_next_def empty_entry_def)
  have "ss_sidx_map one_session ! 77 = 6"
    by (simp add: one_session_def put session_set_server_index_def slot) (simp add: empty_sessions_def)
  then show "session_get_by_server_index one_session 77 = Some 5"
    by (simp add: session_get_by_server_index_def slot e Let_def)
qed

text \<open>
  A client moves from port 2 to port 3 with counter 10, sends counter 11 from there, and a copy of
  11 that left the old port arrives late: the session stays at the new port.
\<close>

theorem follow_client_monotone_witness:
  "list_all (\<lambda>(a, ctr). ctr + 1 \<noteq> 0) [(V4 1 3, 10), (V4 1 3, 11), (V4 1 2, 11 :: u64)] \<and>
   (\<exists>p'. follow_run one_session 77 [(V4 1 3, 10), (V4 1 3, 11), (V4 1 2, 11)] = ([True, False, False], p') \<and>
      se_addr (ss_entries p' ! 5) = V4 1 3 \<and> newest_counter (session_next p' 5 77) = Some 11)"
proof -
  let ?pkts = "[(V4 1 3, 10), (V4 1 3, 11), (V4 1 2, 11 :: u64)]"
  obtain ms p' where r: "follow_run one_session 77 ?pkts = (ms, p')" by fastforce
  have c: "list_all (\<lambda>(a, ctr). ctr + 1 \<noteq> 0) ?pkts" by simp
  have "follow_spec (V4 1 2) (newest_counter 0) ?pkts = ([True, False, False], [10, 11], V4 1 3, Some 11)"
    by (simp add: newest_counter_def fresh_counter_def cliaddr_eq_def)
  with follow_client_monotone [OF one_session_ok(1,2) c r] c r show ?thesis
    by (simp add: one_session_ok(3,4))
qed

text \<open>
  Following a client: when a fresh counter arrives from a new address, every live entry at
  the old address moves to the new one, no live entry stays behind, and all other entries keep
  their address; the counter becomes the session's newest.
\<close>

theorem follow_client_moves_all:
  assumes "wf_sessions p" "session_get_by_server_index p sidx = Some s"
    and "ctr_ok (session_next p s sidx) ctr" "\<not> cliaddr_eq (se_addr (ss_entries p ! s)) a"
    and "session_follow_client p sidx a ctr = (p', moved)" "t < 4096"
  shows "moved \<and> session_next p' s sidx = ctr + 1 \<and>
    se_valid (ss_entries p' ! t) = se_valid (ss_entries p ! t) \<and>
    se_addr (ss_entries p' ! t) =
      (if se_valid (ss_entries p ! t) \<and> cliaddr_eq (se_addr (ss_entries p ! t)) (se_addr (ss_entries p ! s))
       then a else se_addr (ss_entries p ! t)) \<and>
    (se_valid (ss_entries p' ! t) \<longrightarrow> \<not> cliaddr_eq (se_addr (ss_entries p' ! t)) (se_addr (ss_entries p ! s)))"
proof -
  note S = session_by_sidx [OF assms(1,2)] and F = follow_cases [OF assms(1,2), of a ctr]
  have len: "length (ss_entries p) = 4096" using assms(1) by (simp add: wf_sessions_def)
  have "moved" "p' = p\<lparr>ss_entries := move_entries (se_addr (ss_entries p ! s)) a
      ((ss_entries p)[s := (ss_entries p ! s)\<lparr>se_ctr_sidx := sidx, se_ctr_next := ctr + 1\<rparr>])\<rparr>"
    using F assms(3-5) by (auto simp: Let_def)
  moreover have "session_next p' s sidx = ctr + 1" using follow_keeps(3) [OF assms(1,2,5)] assms(3) by simp
  ultimately show ?thesis
    using assms(4,6) S(1,2) len cliaddr_eq_sym by (cases "t = s") (auto simp: move_entries_nth)
qed

theorem follow_client_moves_all_witness:
  "se_addr (ss_entries (fst (session_follow_client one_session 77 (V4 1 3) 10)) ! 5) = V4 1 3"
proof -
  note o = one_session_ok
  have ok: "ctr_ok (session_next one_session 5 77) 10" "\<not> cliaddr_eq (se_addr (ss_entries one_session ! 5)) (V4 1 3)"
    by (simp_all add: o(3,4) ctr_ok_def cliaddr_eq_def)
  obtain p' moved where f: "session_follow_client one_session 77 (V4 1 3) 10 = (p', moved)" by fastforce
  from follow_client_moves_all [OF o(1,2) ok f, of 5] f o(5) show ?thesis by (simp add: empty_entry_def)
qed

lemma find_sole_iff:
  "session_find_sole_entry p = Some s \<longleftrightarrow>
     s < length (ss_entries p) \<and> se_valid (ss_entries p ! s) \<and> (\<forall>t < s. \<not> se_valid (ss_entries p ! t)) \<and>
     (\<forall>t < length (ss_entries p). se_valid (ss_entries p ! t) \<longrightarrow> cliaddr_eq (se_addr (ss_entries p ! s)) (se_addr (ss_entries p ! t)))"
proof -
  have "session_find_sole_entry p = Some s \<longleftrightarrow>
      first_index se_valid (ss_entries p) = Some s \<and>
      list_all (\<lambda>e. se_valid e \<longrightarrow> cliaddr_eq (se_addr (ss_entries p ! s)) (se_addr e)) (ss_entries p)"
    by (auto simp: session_find_sole_entry_def sole_scan_exact split: option.splits if_splits)
  then show ?thesis by (auto simp: first_index_Some list_all_length)
qed

lemma first_valid_exists:
  assumes "t < length es" "se_valid (es ! t)"
  shows "\<exists>s. first_index se_valid es = Some s"
  using assms first_index_None [of se_valid es] by (cases "first_index se_valid es") auto

text \<open>
  Retiring a moved peer makes it the sole client again: if every live entry belongs to the
  peer a handshake has just identified at its current address, and it has an entry there, then
  after \<open>session_drop_moved_peer\<close> the live entries are exactly those at the current address
  and the scan for a sole client, which server-initiated handshakes depend on, finds it.
\<close>

theorem drop_moved_peer_sole:
  assumes "0 \<le> peer" "t < length (ss_entries p)" "se_valid (ss_entries p ! t)" "cliaddr_eq (se_addr (ss_entries p ! t)) cur"
    and "\<And>u. u < length (ss_entries p) \<Longrightarrow> se_valid (ss_entries p ! u) \<Longrightarrow> se_peer_slot (ss_entries p ! u) = peer"
  shows "\<exists>a. session_find_sole_client (session_drop_moved_peer p peer (Some cur)) = Some a \<and> cliaddr_eq a cur"
proof -
  let ?p = "session_drop_moved_peer p peer (Some cur)"
  have len: "length (ss_entries ?p) = length (ss_entries p)" by (simp add: session_drop_moved_peer_def)
  have live: "se_valid (ss_entries ?p ! u) \<longleftrightarrow> se_valid (ss_entries p ! u) \<and> cliaddr_eq (se_addr (ss_entries p ! u)) cur"
    "se_addr (ss_entries ?p ! u) = se_addr (ss_entries p ! u)" if "u < length (ss_entries p)" for u
    using assms(5) [OF that] drop_entries_nth [OF assms(1) that] by (auto simp: Let_def)
  obtain s where s: "first_index se_valid (ss_entries ?p) = Some s"
    using first_valid_exists [of t "ss_entries ?p"] assms(2-4) live(1) [OF assms(2)] len by auto
  then have f: "s < length (ss_entries p)" "se_valid (ss_entries ?p ! s)" "\<forall>u < s. \<not> se_valid (ss_entries ?p ! u)"
    by (auto simp: first_index_Some len)
  have at: "cliaddr_eq (se_addr (ss_entries ?p ! s)) cur" using live [OF f(1)] f(2) by simp
  have "session_find_sole_entry ?p = Some s"
    unfolding find_sole_iff len using f at live cliaddr_eq_sym cliaddr_eq_trans by metis
  then show ?thesis using at by (simp add: session_find_sole_client_def)
qed

theorem drop_moved_peer_sole_witness:
  "\<exists>a. session_find_sole_client (session_drop_moved_peer
     \<lparr>ss_entries = [empty_entry\<lparr>se_valid := True, se_addr := V4 1 1\<rparr>, empty_entry\<lparr>se_valid := True, se_addr := V4 2 2\<rparr>],
      ss_sidx_map = []\<rparr> 0 (Some (V4 2 2))) = Some a \<and> cliaddr_eq a (V4 2 2)"
  by (rule drop_moved_peer_sole [where t = 1]) (auto simp: empty_entry_def cliaddr_eq_def less_Suc_eq numeral_2_eq_2)

text \<open>
  A limit of the table: two sessions that share their probe sequence are stored, the peer
  of the first moves and its entry is retired; storing the second session again, as every
  handshake does, then creates another live entry for the same index in the freed slot, without
  the server index, and leaves the old entry behind.
\<close>

definition crowded :: sessions where
  "crowded = session_put (session_put empty_sessions 4101 (V4 7 7)) 5 (V4 1 2)"

definition retired :: sessions where
  "retired = session_drop_moved_peer
     (session_set_peer_slot (session_set_server_index crowded (Some 6) 77) (Some 5) 0) 0 (Some (V4 8 8))"

lemma probe_5: "probe 5 = [5, 6, 7, 8]" "probe 4101 = [5, 6, 7, 8]"
  by (simp_all add: probe_def upt_conv_Cons)

lemma crowded_entries: "ss_entries crowded = (replicate 4096 empty_entry)
    [5 := empty_entry\<lparr>se_sender_index := 4101, se_addr := V4 7 7, se_peer_slot := -1, se_valid := True\<rparr>,
     6 := empty_entry\<lparr>se_sender_index := 5, se_addr := V4 1 2, se_peer_slot := -1, se_valid := True\<rparr>]"
  by (simp add: crowded_def session_put_def session_put_prof_def probe_5 empty_sessions_def empty_entry_def Let_def)

lemma retired_entries:
  "length (ss_entries retired) = 4096"
  "\<not> se_valid (ss_entries retired ! 5)"
  "ss_entries retired ! 6 = empty_entry\<lparr>se_sender_index := 5, se_addr := V4 1 2, se_peer_slot := -1, se_valid := True, se_server_index := 77\<rparr>"
proof -
  let ?q = "session_set_peer_slot (session_set_server_index crowded (Some 6) 77) (Some 5) 0"
  have q: "length (ss_entries ?q) = 4096"
    "ss_entries ?q ! 5 = empty_entry\<lparr>se_sender_index := 4101, se_addr := V4 7 7, se_peer_slot := 0, se_valid := True\<rparr>"
    "ss_entries ?q ! 6 = empty_entry\<lparr>se_sender_index := 5, se_addr := V4 1 2, se_peer_slot := -1, se_valid := True, se_server_index := 77\<rparr>"
    by (simp_all add: session_set_peer_slot_def session_set_server_index_def crowded_entries)
  show "length (ss_entries retired) = 4096" using q(1) by (simp add: retired_def session_drop_moved_peer_def)
  show "\<not> se_valid (ss_entries retired ! 5)"
    "ss_entries retired ! 6 = empty_entry\<lparr>se_sender_index := 5, se_addr := V4 1 2, se_peer_slot := -1, se_valid := True, se_server_index := 77\<rparr>"
    unfolding retired_def using q by (simp_all add: drop_entries_nth Let_def cliaddr_eq_def empty_entry_def)
qed

theorem session_put_can_duplicate:
  "\<exists>p' s t. session_get_entry retired 5 = Some t \<and> session_put_prof retired 5 (V4 1 2) 0 = (p', s) \<and> s \<noteq> t \<and>
     se_valid (ss_entries p' ! s) \<and> se_sender_index (ss_entries p' ! s) = 5 \<and>
     se_valid (ss_entries p' ! t) \<and> se_sender_index (ss_entries p' ! t) = 5 \<and>
     se_server_index (ss_entries p' ! t) = 77 \<and> se_server_index (ss_entries p' ! s) = 0"
proof -
  note R = retired_entries
  have get: "session_get_entry retired 5 = Some 6" using R(2,3) by (simp add: session_get_entry_def probe_5)
  obtain e where put: "session_put_prof retired 5 (V4 1 2) 0 = (retired\<lparr>ss_entries := (ss_entries retired)[5 := e]\<rparr>, 5)"
    "se_valid e" "se_sender_index e = 5" "se_server_index e = 0"
    using R(2) by (auto simp: session_put_prof_def probe_5 Let_def)
  show ?thesis by (intro exI conjI, rule get, rule put) (use R put in simp_all)
qed

end
