(* ===== verification/Datapath.thy ===== *)
theory Datapath
  imports Sessions
begin

text \<open>
  The packet path of a proxy in front of a WireGuard client (\<open>AWG_MODE_NORMAL\<close>), from
  \<^verbatim>\<open>src/src/proxy.c\<close>: the per-profile rings of precomputed H4 values, the junk train before a
  handshake initiation, the client-to-server batch loop with its transport fast path, and the
  server-to-client packet handler.  A batch keeps pointers to packets (\<open>iov\<close>: a receive slot or
  the static handshake buffer, an offset and a length) and reads them only when it is flushed,
  so a packet overwritten while it is pending would go out wrong.  What leaves the proxy is a
  list of \<open>action\<close>s.  A thread's handling of one packet is one step: what another thread does
  in between is not modelled.  Log lines and the address-family and port-move copies of a
  datagram are not part of the step.
\<close>

section \<open>State\<close>

abbreviation (input) H4_RING_SIZE :: nat where "H4_RING_SIZE \<equiv> 4096"
abbreviation (input) BATCH_SIZE :: nat where "BATCH_SIZE \<equiv> 32"
abbreviation (input) BUF_SIZE :: nat where "BUF_SIZE \<equiv> 1500"

record proxy =
  px_cfg :: awg_config
  px_h4_ring :: "u32 list list"
  px_h4_idx :: "u16 list"
  px_rng :: fastrand
  px_rng_c2s :: fastrand
  px_rng_s2c :: fastrand
  px_cs_c2s :: csprng
  px_cs_s2c :: csprng
  px_cps_counter :: u32
  px_junk_buf :: bytes
  px_prof_cache :: "prof_cache_entry list"
  px_sessions :: sessions
  px_listen_v6 :: bool
  px_has_client :: bool
  px_client_addr :: cliaddr
  px_client_init :: bool
  px_fe_init_seen :: bool
  px_fe_init_sent :: bool
  px_fe_resp_received :: bool
  px_fe_resp_sent :: bool
  px_fe_transport_c2s :: bool
  px_fe_transport_s2c :: bool

section \<open>The rings of H4 values\<close>

fun ring_draw :: "nat \<Rightarrow> hrange \<Rightarrow> fastrand \<Rightarrow> (u32 list \<times> fastrand) option" where
  "ring_draw 0 h4 rng = Some ([], rng)"
| "ring_draw (Suc c) h4 rng =
     (let (x, rng) = fastrand_u64 rng
      in do { v \<leftarrow> hrange_pick h4 x;
              (vs, rng) \<leftarrow> ring_draw c h4 rng;
              Some (v # vs, rng) })"

definition fill_h4_ring :: "proxy \<Rightarrow> int \<Rightarrow> proxy option" where
  "fill_h4_ring p prof =
     do { pr \<leftarrow> profile_at (px_cfg p) prof;
          let h4 = pr_h4 pr;
          if h_min h4 = h_max h4
          then Some (p\<lparr>px_h4_ring := (px_h4_ring p)[nat prof := replicate H4_RING_SIZE (h_min h4)]\<rparr>)
          else do { (vs, rng) \<leftarrow> ring_draw H4_RING_SIZE h4 (px_rng p);
                    Some (p\<lparr>px_h4_ring := (px_h4_ring p)[nat prof := vs], px_rng := rng\<rparr>) } }"

fun fill_rings_from :: "nat \<Rightarrow> int \<Rightarrow> proxy \<Rightarrow> proxy option" where
  "fill_rings_from 0 i p = Some p"
| "fill_rings_from (Suc c) i p = do { p \<leftarrow> fill_h4_ring p i; fill_rings_from c (i + 1) p }"

definition fill_h4_rings :: "proxy \<Rightarrow> proxy option" where
  "fill_h4_rings p = fill_rings_from (nat (c_profile_count (px_cfg p))) 0 p"

text \<open>\<open>None\<close> is an index outside the rings.\<close>

definition pick_h4_prof :: "proxy \<Rightarrow> int \<Rightarrow> (u32 \<times> proxy) option" where
  "pick_h4_prof p prof =
     (if prof < 0 \<or> int (length (px_h4_ring p)) \<le> prof \<or> int (length (px_h4_idx p)) \<le> prof then None
      else let idx = px_h4_idx p ! nat prof; ring = px_h4_ring p ! nat prof
           in if length ring \<le> unat idx then None
              else let v = ring ! unat idx;
                       idx = (idx + 1) AND 4095;
                       p = p\<lparr>px_h4_idx := (px_h4_idx p)[nat prof := idx]\<rparr>
                   in do { p \<leftarrow> (if idx = 0 then fill_h4_ring p prof else Some p); Some (v, p) })"

definition pick_h4 :: "proxy \<Rightarrow> (u32 \<times> proxy) option" where
  "pick_h4 p = pick_h4_prof p (c_active_profile (px_cfg p))"

definition switch_profile :: "proxy \<Rightarrow> int \<Rightarrow> proxy option" where
  "switch_profile p idx = do { cfg \<leftarrow> config_apply_profile (px_cfg p) idx; Some (p\<lparr>px_cfg := cfg\<rparr>) }"

section \<open>The junk train\<close>

text \<open>\<open>size_t\<close> arithmetic; \<open>size_max\<close> is \<open>SIZE_MAX\<close> of the platform.\<close>

definition checked_mul_size :: "nat \<Rightarrow> nat \<Rightarrow> nat \<Rightarrow> nat option" where
  "checked_mul_size size_max a b =
     (if a \<noteq> 0 \<and> b > size_max div a then None else Some (a * b mod (size_max + 1)))"

definition to_size :: "nat \<Rightarrow> int \<Rightarrow> nat" where
  "to_size size_max i = nat (i mod (int size_max + 1))"

definition junk_layout_sizes :: "nat \<Rightarrow> awg_config \<Rightarrow> (nat \<times> nat) option" where
  "junk_layout_sizes size_max cfg =
     do { junk_bytes \<leftarrow> checked_mul_size size_max (to_size size_max (c_jc cfg)) (to_size size_max (c_jmax cfg));
          sizes_bytes \<leftarrow> checked_mul_size size_max (to_size size_max (c_jc cfg)) 4;
          Some (junk_bytes, sizes_bytes) }"

text \<open>The junk packets, consecutive parts of the junk buffer.\<close>

fun cut_junk :: "bytes \<Rightarrow> int \<Rightarrow> int list \<Rightarrow> bytes list option" where
  "cut_junk junk off [] = Some []"
| "cut_junk junk off (sz # szs) =
     do { pkt \<leftarrow> rd junk off sz; pkts \<leftarrow> cut_junk junk (off + sz) szs; Some (pkt # pkts) }"

text \<open>
  The datagrams sent before a handshake initiation, with the counter, generator and junk buffer
  afterwards.  \<open>clk\<close> gives the readings of the clock.
\<close>

definition junk_train ::
    "nat \<Rightarrow> (nat \<Rightarrow> nat \<Rightarrow> u32) \<Rightarrow> awg_config \<Rightarrow> u32 \<Rightarrow> csprng \<Rightarrow> bytes \<Rightarrow> (bytes list \<times> u32 \<times> csprng \<times> bytes) option" where
  "junk_train size_max clk cfg counter cs junk_buf =
     do { (cps, counter, cs) \<leftarrow> cps_generate_all (c_cps cfg) counter clk cs;
          if c_jc cfg > 0 \<and> c_jmax cfg > 0
          then (case junk_layout_sizes size_max cfg of
                  None \<Rightarrow> Some (cps, counter, cs, junk_buf)
                | Some (junk_bytes, _) \<Rightarrow>
                    (let (seed, cs) = csprng_fill cs 8;
                         (bs, cs) = csprng_fill cs junk_bytes;
                         junk_buf = bs @ drop (length bs) junk_buf
                     in do { sizes \<leftarrow> generate_junk cfg (get_le seed);
                             junk \<leftarrow> cut_junk junk_buf 0 sizes;
                             Some (cps @ junk, counter, cs, junk_buf) }))
          else Some (cps, counter, cs, junk_buf) }"

definition send_junk_and_cps :: "nat \<Rightarrow> (nat \<Rightarrow> nat \<Rightarrow> u32) \<Rightarrow> proxy \<Rightarrow> (bytes list \<times> proxy) option" where
  "send_junk_and_cps size_max clk p =
     do { (pkts, counter, cs, junk_buf) \<leftarrow>
            junk_train size_max clk (px_cfg p) (px_cps_counter p) (px_cs_c2s p) (px_junk_buf p);
          Some (pkts, p\<lparr>px_cps_counter := counter, px_cs_c2s := cs, px_junk_buf := junk_buf\<rparr>) }"

definition send_junk_and_cps_to :: "nat \<Rightarrow> (nat \<Rightarrow> nat \<Rightarrow> u32) \<Rightarrow> proxy \<Rightarrow> (bytes list \<times> proxy) option" where
  "send_junk_and_cps_to size_max clk p =
     do { (pkts, counter, cs, junk_buf) \<leftarrow>
            junk_train size_max clk (px_cfg p) (px_cps_counter p) (px_cs_s2c p) (px_junk_buf p);
          Some (pkts, p\<lparr>px_cps_counter := counter, px_cs_s2c := cs, px_junk_buf := junk_buf\<rparr>) }"

section \<open>Pending datagrams and actions\<close>

record iov =
  iv_slot :: nat
  iv_ptr :: out_ptr
  iv_len :: int

definition iov_read :: "bytes list \<Rightarrow> bytes \<Rightarrow> iov \<Rightarrow> bytes option" where
  "iov_read bufs hs v = read_out (bufs ! iv_slot v) hs (iv_ptr v) (iv_len v)"

datatype action = Flush "bytes list" | Train "bytes list" | Single bytes

text \<open>\<open>note_client_addr\<close>: the new state and whether the client changed.\<close>

definition addr_v6 :: "cliaddr \<Rightarrow> bool" where
  "addr_v6 a = (case a of V6 _ _ _ \<Rightarrow> True | V4 _ _ \<Rightarrow> False)"

definition note_client_addr :: "proxy \<Rightarrow> cliaddr \<Rightarrow> proxy \<times> bool" where
  "note_client_addr p a =
     (if addr_v6 a \<noteq> px_listen_v6 p then (p, False)
      else if px_has_client p \<and> cliaddr_eq (px_client_addr p) a then (p, False)
      else (p\<lparr>px_client_addr := a, px_has_client := True\<rparr>, True))"

section \<open>Client to server\<close>

record c2s_state =
  t_px :: proxy
  t_bufs :: "bytes list"
  t_hs :: bytes
  t_iov :: "iov list"
  t_out :: "action list"
  t_xport :: bool
  t_bytes :: u32

definition flush :: "c2s_state \<Rightarrow> c2s_state option" where
  "flush st =
     (if t_iov st = [] then Some st
      else do { ds \<leftarrow> those (map (iov_read (t_bufs st) (t_hs st)) (t_iov st));
                Some (st\<lparr>t_iov := [], t_out := t_out st @ [Flush ds]\<rparr>) })"

text \<open>
  The transport fast path on one receive buffer: the result is the buffer, the state, and where
  the datagram begins and how long it is.
\<close>

definition c2s_fast :: "int \<Rightarrow> int \<Rightarrow> bool \<Rightarrow> proxy \<Rightarrow> bytes \<Rightarrow> int \<Rightarrow> (bytes \<times> proxy \<times> int \<times> int) option" where
  "c2s_fast prefix s4 hp p buf n =
     do { (buf, p) \<leftarrow>
            (if \<not> c_h4_noop (px_cfg p)
             then do { (h4, p) \<leftarrow> pick_h4 p; buf \<leftarrow> wr buf prefix (write32_le h4); Some (buf, p) }
             else Some (buf, p));
          (buf, p, base, total) \<leftarrow>
            (if s4 > 0
             then (let (pad, rng) = fastrand_fill (px_rng_c2s p) (nat s4)
                   in do { buf \<leftarrow> wr buf (prefix - s4) pad;
                           Some (buf, p\<lparr>px_rng_c2s := rng\<rparr>, prefix - s4, s4 + n) })
             else Some (buf, p, prefix, n));
          buf \<leftarrow> (if hp
                  then do { nonce \<leftarrow> rd buf base 12;
                            m \<leftarrow> rd buf prefix AWG_HP_TRANSPORT_HDR;
                            wr buf prefix (chacha20_xor (c_hp_key (px_cfg p)) nonce m) }
                  else Some buf);
          Some (buf, p\<lparr>px_cfg := awg_window_note (px_cfg p) total\<rparr>, base, total) }"

definition c2s_is_transport :: "int \<Rightarrow> bytes \<Rightarrow> int \<Rightarrow> bool option" where
  "c2s_is_transport prefix buf n =
     (if n \<ge> WG_TRANSPORT_MIN
      then do { t \<leftarrow> rd buf prefix 4; Some (read32_le t = WG_TRANSPORT_DATA) } else Some False)"

text \<open>Remember that the client is trying to bring the tunnel up.\<close>

definition c2s_note_init :: "int \<Rightarrow> bytes \<Rightarrow> int \<Rightarrow> proxy \<Rightarrow> proxy option" where
  "c2s_note_init prefix buf n p =
     (if n \<ge> 4
      then do { t \<leftarrow> rd buf prefix 4;
                Some (if read32_le t = WG_HANDSHAKE_INIT
                      then p\<lparr>px_client_init := True, px_fe_init_seen := True\<rparr> else p) }
      else Some p)"

text \<open>The handshake slow path, after the pending batch has been flushed.\<close>

definition c2s_slow :: "nat \<Rightarrow> (nat \<Rightarrow> nat \<Rightarrow> u32) \<Rightarrow> int \<Rightarrow> nat \<Rightarrow> int \<Rightarrow> c2s_state \<Rightarrow> c2s_state option" where
  "c2s_slow size_max clk prefix i n st =
     do { p \<leftarrow> c2s_note_init prefix (t_bufs st ! i) n (t_px st);
          let (rand, rng) = fastrand_u64 (px_rng_c2s p);
          let p = p\<lparr>px_rng_c2s := rng\<rparr>;
          r \<leftarrow> transform_outbound (t_bufs st ! i) (t_hs st) prefix n (px_cfg p) rand;
          let st = st\<lparr>t_px := p, t_bufs := (t_bufs st)[i := o_buf r], t_hs := o_hs r\<rparr>;
          if o_ptr r = PNull then Some st
          else if o_junk r
          then do { (train, p) \<leftarrow> send_junk_and_cps size_max clk p;
                    d \<leftarrow> datagram r;
                    Some (st\<lparr>t_px := p\<lparr>px_fe_init_sent := True\<rparr>, t_out := t_out st @ [Train train, Single d]\<rparr>) }
          else Some (st\<lparr>t_iov := t_iov st @ [\<lparr>iv_slot = i, iv_ptr = o_ptr r, iv_len = o_len r\<rparr>]\<rparr>) }"

definition c2s_normal_pkt ::
    "nat \<Rightarrow> (nat \<Rightarrow> nat \<Rightarrow> u32) \<Rightarrow> int \<Rightarrow> int \<Rightarrow> bool \<Rightarrow> nat \<Rightarrow> int \<Rightarrow> c2s_state \<Rightarrow> c2s_state option" where
  "c2s_normal_pkt size_max clk prefix s4 hp i n st =
     (if n \<le> 0 then Some st
      else do {
        transport \<leftarrow> c2s_is_transport prefix (t_bufs st ! i) n;
        if transport
        then do { (buf, p, base, total) \<leftarrow> c2s_fast prefix s4 hp (t_px st) (t_bufs st ! i) n;
                  Some (st\<lparr>t_px := p\<lparr>px_fe_transport_c2s := True\<rparr>, t_bufs := (t_bufs st)[i := buf],
                           t_iov := t_iov st @ [\<lparr>iv_slot = i, iv_ptr = PBuf base, iv_len = total\<rparr>],
                           t_xport := True, t_bytes := t_bytes st + word_of_int total\<rparr>) }
        else do { st \<leftarrow> flush st; c2s_slow size_max clk prefix i n st } })"

text \<open>The loop over a batch; \<open>clk\<close> is indexed by the slot as well.\<close>

fun c2s_normal_loop ::
    "nat \<Rightarrow> (nat \<Rightarrow> nat \<Rightarrow> nat \<Rightarrow> u32) \<Rightarrow> int \<Rightarrow> int \<Rightarrow> bool \<Rightarrow> nat \<Rightarrow> int list \<Rightarrow> c2s_state \<Rightarrow> c2s_state option" where
  "c2s_normal_loop size_max clk prefix s4 hp i [] st = Some st"
| "c2s_normal_loop size_max clk prefix s4 hp i (n # ns) st =
     do { st \<leftarrow> c2s_normal_pkt size_max (clk i) prefix s4 hp i n st;
          c2s_normal_loop size_max clk prefix s4 hp (i + 1) ns st }"

definition c2s_normal_batch ::
    "nat \<Rightarrow> (nat \<Rightarrow> nat \<Rightarrow> nat \<Rightarrow> u32) \<Rightarrow> int \<Rightarrow> proxy \<Rightarrow> bytes list \<Rightarrow> bytes \<Rightarrow> int list \<Rightarrow> c2s_state option" where
  "c2s_normal_batch size_max clk prefix p bufs hs ns =
     do { st \<leftarrow> c2s_normal_loop size_max clk prefix (c_s4 (px_cfg p)) (c_hp_on (px_cfg p)) 0 ns
                  \<lparr>t_px = p, t_bufs = bufs, t_hs = hs, t_iov = [], t_out = [], t_xport = False, t_bytes = 0\<rparr>;
          flush st }"

section \<open>Rings hold values of their range\<close>

lemma nth_update_any: "xs[i := x] ! j = (if i = j \<and> j < length xs then x else xs ! j)"
  by (cases "i < length xs") (auto simp: nth_list_update list_update_beyond)

definition ring_ok :: "proxy \<Rightarrow> nat \<Rightarrow> bool" where
  "ring_ok p i \<longleftrightarrow>
     length (px_h4_ring p ! i) = H4_RING_SIZE \<and> unat (px_h4_idx p ! i) < H4_RING_SIZE \<and>
     list_all (hrange_contains (pr_h4 (c_profiles (px_cfg p) ! i))) (px_h4_ring p ! i)"

definition rings_ok :: "proxy \<Rightarrow> bool" where
  "rings_ok p \<longleftrightarrow>
     length (px_h4_ring p) = AWG_MAX_PROFILES \<and> length (px_h4_idx p) = AWG_MAX_PROFILES \<and>
     (\<forall>i < nat (c_profile_count (px_cfg p)). ring_ok p i)"

lemma ring_draw_ok:
  assumes "hrange_ordered h4"
  shows "\<exists>vs rng'. ring_draw c h4 rng = Some (vs, rng') \<and> length vs = c \<and> list_all (hrange_contains h4) vs"
proof (induction c arbitrary: rng)
  case (Suc c)
  obtain x rng1 where x: "fastrand_u64 rng = (x, rng1)" by fastforce
  obtain v where "hrange_pick h4 x = Some v" "hrange_contains h4 v" using hrange_pick_contains [OF assms] by blast
  moreover obtain vs rng' where "ring_draw c h4 rng1 = Some (vs, rng')" "length vs = c" "list_all (hrange_contains h4) vs"
    using Suc.IH by blast
  ultimately show ?case using x by simp
qed simp

lemma profile_in_range:
  assumes "wf_config cfg" "0 \<le> i" "i < c_profile_count cfg"
  shows "profile_at cfg i = Some (c_profiles cfg ! nat i)" "wf_profile (c_profiles cfg ! nat i)" "nat i < 4"
proof -
  obtain pr where pr: "profile_at cfg i = Some pr" "wf_profile pr" using wf_config_profile [OF assms] by blast
  then show "profile_at cfg i = Some (c_profiles cfg ! nat i)" "wf_profile (c_profiles cfg ! nat i)"
    by (auto simp: profile_at_def split: if_splits)
  show "nat i < 4" using assms by (auto simp: wf_config_def nat_less_iff)
qed

lemma fill_h4_ring_ok:
  assumes "wf_config (px_cfg p)" "0 \<le> i" "i < c_profile_count (px_cfg p)"
  shows "\<exists>vs rng. fill_h4_ring p i = Some (p\<lparr>px_h4_ring := (px_h4_ring p)[nat i := vs], px_rng := rng\<rparr>) \<and>
    length vs = H4_RING_SIZE \<and> list_all (hrange_contains (pr_h4 (c_profiles (px_cfg p) ! nat i))) vs"
proof -
  let ?pr = "c_profiles (px_cfg p) ! nat i"
  note P = profile_in_range [OF assms]
  have ord: "hrange_ordered (pr_h4 ?pr)" using wf_profileD(16) [OF P(2)] .
  show ?thesis
  proof (cases "h_min (pr_h4 ?pr) = h_max (pr_h4 ?pr)")
    case True
    then show ?thesis
      by (intro exI [of _ "replicate 4096 (h_min (pr_h4 ?pr))"] exI [of _ "px_rng p"])
        (simp add: fill_h4_ring_def P(1) list_all_iff hrange_contains_def)
  next
    case False
    obtain vs rng where "ring_draw 4096 (pr_h4 ?pr) (px_rng p) = Some (vs, rng)" "length vs = 4096"
      "list_all (hrange_contains (pr_h4 ?pr)) vs"
      using ring_draw_ok [OF ord] by blast
    then show ?thesis using False by (simp add: fill_h4_ring_def P(1)) metis
  qed
qed

lemma ring_step: "unat ((x + 1) AND 4095 :: u16) < 4096"
proof -
  have "(x + 1) AND 4095 \<le> 4095" by (rule word_and_le1)
  then have "unat ((x + 1) AND 4095) \<le> unat (4095 :: u16)" by (simp only: word_le_nat_alt)
  then show ?thesis by simp
qed

text \<open>What picking a value changes, and what it keeps.\<close>

definition ring_change :: "proxy \<Rightarrow> proxy \<Rightarrow> bool" where
  "ring_change p p' \<longleftrightarrow> (\<exists>ring idx rng. p' = p\<lparr>px_h4_ring := ring, px_h4_idx := idx, px_rng := rng\<rparr>)"

lemma rings_okD:
  assumes "rings_ok p" "0 \<le> prof" "prof < c_profile_count (px_cfg p)"
  shows "ring_ok p (nat prof)" "length (px_h4_ring p) = 4" "length (px_h4_idx p) = 4"
  using assms by (auto simp: rings_ok_def)

lemma pick_h4_prof_ok:
  assumes wf: "wf_config (px_cfg p)" and R: "rings_ok p" and prof: "0 \<le> prof" "prof < c_profile_count (px_cfg p)"
  shows "\<exists>v p'. pick_h4_prof p prof = Some (v, p') \<and>
    hrange_contains (pr_h4 (c_profiles (px_cfg p) ! nat prof)) v \<and> rings_ok p' \<and> ring_change p p'"
proof -
  note D = rings_okD [OF R prof] and P = profile_in_range [OF wf prof]
  define idx where "idx = (px_h4_idx p ! nat prof + 1) AND 4095"
  define q where "q = p\<lparr>px_h4_idx := (px_h4_idx p)[nat prof := idx]\<rparr>"
  let ?v = "px_h4_ring p ! nat prof ! unat (px_h4_idx p ! nat prof)"
  have v: "hrange_contains (pr_h4 (c_profiles (px_cfg p) ! nat prof)) ?v"
    using D(1) by (simp add: ring_ok_def list_all_length)
  have q: "rings_ok q" "ring_change p q"
  proof -
    show "rings_ok q" using R ring_step [of "px_h4_idx p ! nat prof", folded idx_def]
      by (auto simp: rings_ok_def ring_ok_def q_def nth_update_any)
    have "q = p\<lparr>px_h4_ring := px_h4_ring p, px_h4_idx := (px_h4_idx p)[nat prof := idx], px_rng := px_rng p\<rparr>"
      by (simp add: q_def)
    then show "ring_change p q" unfolding ring_change_def by blast
  qed
  have bounds: "\<not> (prof < 0 \<or> int (length (px_h4_ring p)) \<le> prof \<or> int (length (px_h4_idx p)) \<le> prof)"
    "\<not> length (px_h4_ring p ! nat prof) \<le> unat (px_h4_idx p ! nat prof)"
    using D P(3) prof(1) by (auto simp: ring_ok_def)
  show ?thesis
  proof (cases "idx = 0")
    case False
    then have "pick_h4_prof p prof = Some (?v, q)" using bounds
      unfolding pick_h4_prof_def by (simp add: Let_def q_def idx_def)
    then show ?thesis using v q by blast
  next
    case True
    obtain vs rng where f: "fill_h4_ring q prof = Some (q\<lparr>px_h4_ring := (px_h4_ring q)[nat prof := vs], px_rng := rng\<rparr>)"
      "length vs = 4096" "list_all (hrange_contains (pr_h4 (c_profiles (px_cfg q) ! nat prof))) vs"
      using fill_h4_ring_ok [of q prof] wf prof by (auto simp: q_def)
    let ?q' = "q\<lparr>px_h4_ring := (px_h4_ring q)[nat prof := vs], px_rng := rng\<rparr>"
    have "pick_h4_prof p prof = Some (?v, ?q')" using bounds True f(1)
      unfolding pick_h4_prof_def by (simp add: Let_def q_def idx_def)
    moreover have "rings_ok ?q'" using q(1) f(2,3) by (auto simp: rings_ok_def ring_ok_def nth_update_any)
    moreover have "?q' = p\<lparr>px_h4_ring := (px_h4_ring p)[nat prof := vs], px_h4_idx := (px_h4_idx p)[nat prof := idx], px_rng := rng\<rparr>"
      by (simp add: q_def)
    then have "ring_change p ?q'" unfolding ring_change_def by blast
    ultimately show ?thesis using v by blast
  qed
qed

section \<open>What a packet step keeps of the configuration\<close>

definition cfg_grown :: "awg_config \<Rightarrow> awg_config \<Rightarrow> bool" where
  "cfg_grown cfg cfg' \<longleftrightarrow> (\<exists>w. c_udp_window cfg \<le> w \<and> cfg' = cfg\<lparr>c_udp_window := w\<rparr>)"

lemma cfg_grown_refl [simp]: "cfg_grown cfg cfg"
  unfolding cfg_grown_def by (rule exI [of _ "c_udp_window cfg"]) simp

lemma cfg_grown_trans:
  assumes "cfg_grown a b" "cfg_grown b c"
  shows "cfg_grown a c"
proof -
  obtain w w' where "c_udp_window a \<le> w" "b = a\<lparr>c_udp_window := w\<rparr>" "c_udp_window b \<le> w'" "c = b\<lparr>c_udp_window := w'\<rparr>"
    using assms by (auto simp only: cfg_grown_def)
  then have "c_udp_window a \<le> w'" "c = a\<lparr>c_udp_window := w'\<rparr>" by simp_all
  then show ?thesis unfolding cfg_grown_def by blast
qed

lemma cfg_grown_note: "cfg_grown cfg (awg_window_note cfg sz)"
proof -
  have "cfg_grown cfg (cfg\<lparr>c_udp_window := w\<rparr>)" if "c_udp_window cfg < w" for w
    unfolding cfg_grown_def using that by (intro exI [of _ w]) simp
  then show ?thesis by (simp add: awg_window_note_def)
qed

lemma cfg_grown_fields:
  assumes "cfg_grown cfg cfg'"
  shows "c_profiles cfg' = c_profiles cfg" "c_profile_count cfg' = c_profile_count cfg"
    "c_active_profile cfg' = c_active_profile cfg" "config_snapshot_profile cfg' = config_snapshot_profile cfg"
    "c_hp_key cfg' = c_hp_key cfg" "c_mac1key_out cfg' = c_mac1key_out cfg" "c_mac1key_in cfg' = c_mac1key_in cfg"
    "c_disable_cookies cfg' = c_disable_cookies cfg" "c_jc cfg' = c_jc cfg" "c_jmax cfg' = c_jmax cfg" "c_jmin cfg' = c_jmin cfg"
    "c_cps cfg' = c_cps cfg" "c_s4 cfg' = c_s4 cfg" "c_hp_on cfg' = c_hp_on cfg" "c_mode cfg' = c_mode cfg"
    "c_server_peer_mac1keys cfg' = c_server_peer_mac1keys cfg" "c_h4_noop cfg' = c_h4_noop cfg"
    "c_udp_window cfg \<le> c_udp_window cfg'"
  using assms by (auto simp: cfg_grown_def config_snapshot_profile_def)

lemma cfg_grown_wf: "cfg_grown cfg cfg' \<Longrightarrow> wf_config cfg \<Longrightarrow> wf_config cfg'"
  using cfg_grown_fields(18) [of cfg cfg'] order_trans [of 500 "c_udp_window cfg" "c_udp_window cfg'"]
  unfolding wf_config_def mirrored_def config_active_profile_def profile_at_def
  by (simp only: cfg_grown_fields) (auto split: if_splits)

text \<open>The invariant of the state a packet step starts from.\<close>

definition px_inv :: "awg_config \<Rightarrow> proxy \<Rightarrow> bool" where
  "px_inv cfg p \<longleftrightarrow> wf_config cfg \<and> cfg_grown cfg (px_cfg p) \<and> rings_ok p"

lemma px_invD:
  assumes "px_inv cfg p"
  shows "wf_config (px_cfg p)" "rings_ok p" "cfg_grown cfg (px_cfg p)" "wf_profile (config_snapshot_profile cfg)"
    "config_active_profile (px_cfg p) = Some (config_snapshot_profile cfg)"
    "0 \<le> c_active_profile (px_cfg p)" "c_active_profile (px_cfg p) < c_profile_count (px_cfg p)"
    "c_profiles (px_cfg p) ! nat (c_active_profile (px_cfg p)) = config_snapshot_profile cfg"
proof -
  have g: "cfg_grown cfg (px_cfg p)" and w: "wf_config cfg" and r: "rings_ok p" using assms by (auto simp: px_inv_def)
  note wf = cfg_grown_wf [OF g w]
  have act: "0 \<le> c_active_profile (px_cfg p)" "c_active_profile (px_cfg p) < c_profile_count (px_cfg p)"
    "mirrored (px_cfg p)" using wf by (auto simp: wf_config_def)
  note P = profile_in_range [OF wf act(1,2)]
  have m: "config_active_profile (px_cfg p) = Some (config_snapshot_profile cfg)"
    using act(3) cfg_grown_fields(4) [OF g] by (simp add: mirrored_def)
  show "wf_config (px_cfg p)" "rings_ok p" "cfg_grown cfg (px_cfg p)" using wf r g .
  show "wf_profile (config_snapshot_profile cfg)" using m P by (simp add: config_active_profile_def)
  show "c_profiles (px_cfg p) ! nat (c_active_profile (px_cfg p)) = config_snapshot_profile cfg"
    using m P by (simp add: config_active_profile_def)
  show "config_active_profile (px_cfg p) = Some (config_snapshot_profile cfg)" by (rule m)
qed (use assms cfg_grown_wf in \<open>auto simp: px_inv_def wf_config_def\<close>)

lemma px_inv_cong:
  "px_h4_ring p' = px_h4_ring p \<Longrightarrow> px_h4_idx p' = px_h4_idx p \<Longrightarrow> cfg_grown (px_cfg p) (px_cfg p') \<Longrightarrow> px_inv cfg p \<Longrightarrow> px_inv cfg p'"
  using cfg_grown_fields(1,2) [of "px_cfg p" "px_cfg p'"] cfg_grown_trans [of cfg "px_cfg p" "px_cfg p'"]
  by (simp add: px_inv_def rings_ok_def ring_ok_def)

section \<open>The junk train\<close>

lemma checked_mul_exact:
  assumes "checked_mul_size size_max a b = Some x"
  shows "x = a * b" "x \<le> size_max"
proof -
  have "a * b \<le> size_max"
  proof (cases "a = 0")
    case False
    then have "b \<le> size_max div a" using assms by (simp add: checked_mul_size_def split: if_splits)
    then have "a * b \<le> a * (size_max div a)" by simp
    then show ?thesis using times_div_less_eq_dividend [of a size_max] by (rule order_trans)
  qed simp
  then show "x = a * b" "x \<le> size_max" using assms by (auto simp: checked_mul_size_def split: if_splits)
qed

lemma cut_junk_ok:
  assumes "list_all (\<lambda>v. 0 \<le> v) szs" "0 \<le> off" "off + sum_list szs \<le> int (length junk)"
  shows "\<exists>pkts. cut_junk junk off szs = Some pkts \<and> map (\<lambda>b. int (length b)) pkts = szs \<and>
    concat pkts = take (nat (sum_list szs)) (drop (nat off) junk)"
  using assms
proof (induction szs arbitrary: off)
  case (Cons sz szs)
  have pos: "0 \<le> sz" "0 \<le> sum_list szs" "list_all (\<lambda>v. 0 \<le> v) szs"
    using Cons.prems(1) by (auto simp: list_all_iff intro: sum_list_nonneg)
  have r: "rd junk off sz = Some (take (nat sz) (drop (nat off) junk))" using Cons.prems pos by (simp add: rd_def)
  obtain pkts where p: "cut_junk junk (off + sz) szs = Some pkts" "map (\<lambda>b. int (length b)) pkts = szs"
    "concat pkts = take (nat (sum_list szs)) (drop (nat (off + sz)) junk)"
    using Cons.IH [of "off + sz"] Cons.prems pos by auto
  have "take (nat sz) (drop (nat off) junk) @ concat pkts = take (nat (sz + sum_list szs)) (drop (nat off) junk)"
    using p(3) pos Cons.prems(2) by (simp add: nat_add_distrib take_add add.commute)
  moreover have "int (length (take (nat sz) (drop (nat off) junk))) = sz" using Cons.prems pos by simp
  ultimately show ?case using r p by simp
qed simp

lemma sint_of_nat_le: "nat (sint (word_of_nat n :: u32)) \<le> n"
proof -
  have "sint (word_of_nat n :: u32) \<le> int n"
  proof (cases "n < 2 ^ 31")
    case True
    then show ?thesis by (simp add: signed_of_nat signed_take_bit_int_eq_self)
  next
    case False
    have "sint (word_of_nat n :: u32) < 2 ^ 31" using sint_lt [of "word_of_nat n :: u32"] by simp
    moreover have "2 ^ 31 \<le> int n" using False by simp
    ultimately show ?thesis by linarith
  qed
  then show ?thesis by simp
qed

lemma length_csprng_fill_le: "length (fst (csprng_fill r len)) \<le> len"
  using sint_of_nat_le [of len] by (simp add: csprng_fill_def chacha20_keystream_def)

text \<open>
  When the train can be built: the CPS templates of the configuration return (templates without
  random letters or digits always do), Jmax is an \<open>int\<close>, and the junk buffer has the size
  \<open>junk_layout_sizes\<close> computes.
\<close>

definition cps_returns :: "awg_config \<Rightarrow> bool" where
  "cps_returns cfg \<longleftrightarrow> (\<forall>counter clk cs. cps_generate_all (c_cps cfg) counter clk cs \<noteq> None)"

definition junk_fits :: "nat \<Rightarrow> awg_config \<Rightarrow> bytes \<Rightarrow> bool" where
  "junk_fits size_max cfg junk_buf \<longleftrightarrow>
     2 ^ 32 \<le> size_max + 1 \<and> c_jc cfg < 2 ^ 31 \<and> c_jmax cfg < 2 ^ 31 \<and>
     (c_jc cfg > 0 \<and> c_jmax cfg > 0 \<longrightarrow> nat (c_jc cfg * c_jmax cfg) \<le> length junk_buf)"

lemma to_size_pos: "0 \<le> i \<Longrightarrow> i < 2 ^ 31 \<Longrightarrow> 2 ^ 32 \<le> size_max + 1 \<Longrightarrow> to_size size_max i = nat i"
  by (simp add: to_size_def)

lemma junk_sizes_total:
  assumes "c_jmax cfg < 2 ^ 31"
  shows "\<exists>sizes. generate_junk cfg seed = Some sizes \<and>
    length sizes = (if c_jc cfg \<le> 0 \<or> c_jmax cfg \<le> 0 then 0 else nat (c_jc cfg)) \<and>
    list_all (\<lambda>v. 1 \<le> v \<and> min (c_jmin cfg) (c_jmax cfg) \<le> v \<and> v \<le> c_jmax cfg) sizes \<and>
    sum_list sizes \<le> max 0 (c_jc cfg * c_jmax cfg)"
proof (cases "c_jc cfg \<le> 0 \<or> c_jmax cfg \<le> 0")
  case True
  then show ?thesis by (simp add: generate_junk_def)
next
  case False
  define jmin where "jmin = (let j = (if c_jmin cfg > 0 then c_jmin cfg else 1) in if j > c_jmax cfg then c_jmax cfg else j)"
  let ?span = "c_jmax cfg - jmin"
  have j: "1 \<le> jmin" "jmin \<le> c_jmax cfg" "min (c_jmin cfg) (c_jmax cfg) \<le> jmin" using False by (auto simp: jmin_def Let_def)
  obtain vs where vs: "junk_sizes (nat (c_jc cfg)) jmin ?span (fastrand_init seed) = Some vs" "length vs = nat (c_jc cfg)"
    "list_all (\<lambda>v. jmin \<le> v \<and> v \<le> jmin + (if ?span > 0 then ?span - 1 else 0)) vs"
    using junk_sizes_range [of ?span "nat (c_jc cfg)" jmin "fastrand_init seed"] j assms by auto
  have all: "list_all (\<lambda>v. 1 \<le> v \<and> min (c_jmin cfg) (c_jmax cfg) \<le> v \<and> v \<le> c_jmax cfg) vs"
    using vs(3) j by (auto simp: list_all_iff split: if_splits)
  then have "sum_list vs \<le> int (length vs) * c_jmax cfg" by (intro sum_list_le_bound) (auto simp: list_all_iff)
  moreover have "generate_junk cfg seed = Some vs" using False vs(1) by (simp add: generate_junk_def jmin_def Let_def)
  ultimately show ?thesis using False vs(2) all by auto
qed

lemma cps_count: "cps_generate_all ts counter clk cs = Some (pkts, counter', cs') \<Longrightarrow> length pkts = length (filter (\<lambda>t. t \<noteq> None) ts)"
  by (induction ts counter clk cs arbitrary: pkts counter' cs' rule: cps_generate_all.induct)
    (auto split: bind_splits)

text \<open>One packet per CPS template, then the junk packets with sizes in the configured range.\<close>

definition train_ok :: "nat \<Rightarrow> awg_config \<Rightarrow> bytes list \<Rightarrow> bool" where
  "train_ok size_max cfg pkts \<longleftrightarrow>
     (\<exists>cps junk. pkts = cps @ junk \<and> length cps = length (filter (\<lambda>t. t \<noteq> None) (c_cps cfg)) \<and>
        length junk = (if c_jc cfg > 0 \<and> c_jmax cfg > 0 \<and> junk_layout_sizes size_max cfg \<noteq> None then nat (c_jc cfg) else 0) \<and>
        list_all (\<lambda>b. b \<noteq> [] \<and> min (c_jmin cfg) (c_jmax cfg) \<le> int (length b) \<and> int (length b) \<le> c_jmax cfg) junk)"

lemma junk_layout_exact:
  assumes "junk_layout_sizes size_max cfg = Some (jb, sb)" "junk_fits size_max cfg junk_buf" "c_jc cfg > 0" "c_jmax cfg > 0"
  shows "int jb = c_jc cfg * c_jmax cfg" "jb \<le> length junk_buf"
proof -
  have ts: "to_size size_max (c_jc cfg) = nat (c_jc cfg)" "to_size size_max (c_jmax cfg) = nat (c_jmax cfg)"
    using assms(2-4) by (auto simp: junk_fits_def intro: to_size_pos)
  have "checked_mul_size size_max (nat (c_jc cfg)) (nat (c_jmax cfg)) = Some jb"
    using assms(1) by (auto simp: junk_layout_sizes_def ts split: bind_splits)
  then have "jb = nat (c_jc cfg) * nat (c_jmax cfg)" by (rule checked_mul_exact)
  then show "int jb = c_jc cfg * c_jmax cfg" using assms(3,4) by simp
  then show "jb \<le> length junk_buf" using assms(2-4) by (auto simp: junk_fits_def)
qed

lemma junk_train_ok:
  assumes "cps_returns cfg" "junk_fits size_max cfg junk_buf"
  shows "\<exists>pkts counter' cs' buf'. junk_train size_max clk cfg counter cs junk_buf = Some (pkts, counter', cs', buf') \<and>
    length buf' = length junk_buf \<and> train_ok size_max cfg pkts"
proof -
  obtain cps c1 cs1 where g: "cps_generate_all (c_cps cfg) counter clk cs = Some (cps, c1, cs1)"
    using assms(1) by (fastforce simp: cps_returns_def)
  note n = cps_count [OF g]
  show ?thesis
  proof (cases "c_jc cfg > 0 \<and> c_jmax cfg > 0 \<and> junk_layout_sizes size_max cfg \<noteq> None")
    case False
    then have "junk_train size_max clk cfg counter cs junk_buf = Some (cps, c1, cs1, junk_buf)"
      by (auto simp: junk_train_def g split: option.split)
    moreover have "train_ok size_max cfg cps"
      unfolding train_ok_def by (intro exI [of _ cps] exI [of _ "[]"]) (use False n in auto)
    ultimately show ?thesis by blast
  next
    case True
    then obtain jb sb where l: "junk_layout_sizes size_max cfg = Some (jb, sb)" by auto
    note jb = junk_layout_exact [OF l assms(2)]
    obtain seed cs2 where c2: "csprng_fill cs1 8 = (seed, cs2)" by fastforce
    obtain bs cs3 where c3: "csprng_fill cs2 jb = (bs, cs3)" by fastforce
    have "length bs \<le> jb" using length_csprng_fill_le [of cs2 jb] c3 by simp
    define buf where "buf = bs @ drop (length bs) junk_buf"
    have lb: "length buf = length junk_buf" using \<open>length bs \<le> jb\<close> jb True by (simp add: buf_def)
    have jm: "c_jmax cfg < 2 ^ 31" using assms(2) by (simp add: junk_fits_def)
    obtain sizes where sz: "generate_junk cfg (get_le seed) = Some sizes" "length sizes = nat (c_jc cfg)"
      "list_all (\<lambda>v. 1 \<le> v \<and> min (c_jmin cfg) (c_jmax cfg) \<le> v \<and> v \<le> c_jmax cfg) sizes"
      "sum_list sizes \<le> max 0 (c_jc cfg * c_jmax cfg)"
      using junk_sizes_total [OF jm, of "get_le seed"] True by auto
    have "sum_list sizes \<le> int (length buf)" using sz(4) jb True lb by linarith
    moreover have "list_all (\<lambda>v. 0 \<le> v) sizes" using sz(3) by (auto simp: list_all_iff)
    ultimately obtain junk where j: "cut_junk buf 0 sizes = Some junk" "map (\<lambda>b. int (length b)) junk = sizes"
      using cut_junk_ok [of sizes 0 buf] by auto
    have "junk_train size_max clk cfg counter cs junk_buf = Some (cps @ junk, c1, cs3, buf)"
      using True l c2 c3 sz(1) j(1) by (simp add: junk_train_def g buf_def)
    moreover have "train_ok size_max cfg (cps @ junk)"
    proof -
      have "length junk = nat (c_jc cfg)" using sz(2) j(2) by (metis length_map)
      moreover have "list_all (\<lambda>b. b \<noteq> [] \<and> min (c_jmin cfg) (c_jmax cfg) \<le> int (length b) \<and> int (length b) \<le> c_jmax cfg) junk"
        using sz(3) unfolding j(2) [symmetric] by (auto simp: list_all_iff)
      ultimately show ?thesis unfolding train_ok_def using True n by (intro exI [of _ cps] exI [of _ junk]) simp
    qed
    ultimately show ?thesis using lb by blast
  qed
qed

section \<open>The transport fast path\<close>

lemma ring_changeD:
  "ring_change p p' \<Longrightarrow> px_cfg p' = px_cfg p \<and> px_rng_c2s p' = px_rng_c2s p \<and> px_rng_s2c p' = px_rng_s2c p \<and>
    px_junk_buf p' = px_junk_buf p \<and> px_sessions p' = px_sessions p"
  by (auto simp: ring_change_def)

text \<open>Padding, type value and header protection written around a message in the middle of a buffer.\<close>

lemma frame_steps:
  assumes "length x = length pad" "16 \<le> length m" "int (length pad) = s"
  shows "wr (p @ x @ m @ q) (int (length p)) pad = Some (p @ pad @ m @ q)"
    and "12 \<le> length pad \<Longrightarrow> rd (p @ pad @ m @ q) (int (length p)) 12 = Some (take 12 pad)"
    and "rd (p @ pad @ m @ q) (int (length p) + s) 16 = Some (take 16 m)"
    and "wr (p @ pad @ m @ q) (int (length p) + s) (chacha20_xor key nonce (take 16 m)) =
      Some (p @ pad @ chacha20_xor key nonce (take 16 m) @ drop 16 m @ q)"
proof -
  show "wr (p @ x @ m @ q) (int (length p)) pad = Some (p @ pad @ m @ q)"
    by (rule wr_split) (use assms in auto)
  show "rd (p @ pad @ m @ q) (int (length p)) 12 = Some (take 12 pad)" if "12 \<le> length pad"
    using rd_within [of "int (length p)" p 12 12 pad "m @ q"] that by simp
  show "rd (p @ pad @ m @ q) (int (length p) + s) 16 = Some (take 16 m)"
    using rd_within [of "int (length p) + s" "p @ pad" 16 16 m q] assms by simp
  show "wr (p @ pad @ m @ q) (int (length p) + s) (chacha20_xor key nonce (take 16 m)) =
      Some (p @ pad @ chacha20_xor key nonce (take 16 m) @ drop 16 m @ q)"
    using wr_within [of "int (length p) + s" "p @ pad" "chacha20_xor key nonce (take 16 m)" m q] assms by simp
qed

text \<open>The datagrams that stand for a message: unknown packets unchanged, the others framed.\<close>

definition wire_form :: "awg_config \<Rightarrow> awg_profile \<Rightarrow> bytes option \<Rightarrow> bytes \<Rightarrow> bytes \<Rightarrow> bool" where
  "wire_form cfg pr mk m d \<longleftrightarrow>
     (case classify m of
        None \<Rightarrow> d = m
      | Some k \<Rightarrow> \<exists>v pad tr. frame_of cfg pr k pad (remac k mk (set_type v m)) tr d)"

lemma h4_pick_ok:
  assumes inv: "px_inv cfg p" and m: "4 \<le> length m" "read32_le (take 4 m) = 4"
  shows "\<exists>v p'. (if \<not> c_h4_noop (px_cfg p)
      then do { (h4, p) \<leftarrow> pick_h4 p; buf \<leftarrow> wr (b @ m @ q) (int (length b)) (write32_le h4); Some (buf, p) }
      else Some (b @ m @ q, p)) = Some (b @ set_type v m @ q, p') \<and>
    hrange_contains (c_h4 cfg) v \<and> px_inv cfg p' \<and> ring_change p p'"
proof -
  note I = px_invD [OF inv]
  have h4: "pr_h4 (config_snapshot_profile cfg) = c_h4 cfg" "c_h4_noop cfg = pr_h4_noop (config_snapshot_profile cfg)"
    "c_h4_noop (px_cfg p) = c_h4_noop cfg"
    using cfg_grown_fields(17) [OF I(3)] by (simp_all add: config_snapshot_profile_def)
  show ?thesis
  proof (cases "c_h4_noop cfg")
    case True
    then have "h_min (c_h4 cfg) = 4" "h_max (c_h4 cfg) = 4"
      using wf_profile_derived(2) [OF I(4)] h4 by simp_all
    then have "hrange_contains (c_h4 cfg) 4" by (simp add: hrange_contains_def)
    moreover have "ring_change p p" unfolding ring_change_def
      by (intro exI [of _ "px_h4_ring p"] exI [of _ "px_h4_idx p"] exI [of _ "px_rng p"]) simp
    ultimately show ?thesis using True inv h4(3) set_type_same [OF m]
      by (intro exI [of _ 4] exI [of _ p]) simp
  next
    case False
    obtain v p' where v: "pick_h4 p = Some (v, p')" "hrange_contains (c_h4 cfg) v" "rings_ok p'" "ring_change p p'"
      using pick_h4_prof_ok [OF I(1,2,6,7)] I(8) h4(1) by (auto simp: pick_h4_def)
    have w: "wr (b @ m @ q) (int (length b)) (write32_le v) = Some (b @ set_type v m @ q)"
      by (rule wr_type [OF m(1)])
    have "px_inv cfg p'" using inv v(3) ring_changeD [OF v(4)] by (simp add: px_inv_def)
    then show ?thesis using False v w h4(3) by (intro exI [of _ v] exI [of _ p']) simp
  qed
qed

lemma c2s_fast_ok:
  assumes inv: "px_inv cfg p" and k: "classify m = Some Transport" and pre: "prefix = int (length b)" "c_s4 cfg \<le> prefix"
  shows "\<exists>buf' p' d. c2s_fast prefix (c_s4 cfg) (c_hp_on cfg) p (b @ m @ q) (int (length m)) =
      Some (buf', p', prefix - c_s4 cfg, c_s4 cfg + int (length m)) \<and>
    length buf' = length (b @ m @ q) \<and> rd buf' (prefix - c_s4 cfg) (c_s4 cfg + int (length m)) = Some d \<and>
    wire_form cfg (config_snapshot_profile cfg) mk m d \<and> px_inv cfg p' \<and> cfg_grown (px_cfg p) (px_cfg p') \<and>
    px_junk_buf p' = px_junk_buf p"
proof -
  let ?pr = "config_snapshot_profile cfg"
  note I = px_invD [OF inv] and c = classify_Some [OF k]
  have len: "32 \<le> length m" "4 \<le> length m" using fits_kind_ge [OF c(2)] by auto
  have s4: "0 \<le> c_s4 cfg" "c_hp_on cfg \<Longrightarrow> 12 \<le> c_s4 cfg" "c_s4 cfg = pr_s4 ?pr" "c_hp_on cfg = pr_hp_on ?pr" "c_h4 cfg = pr_h4 ?pr"
    using wf_profileD(7,12) [OF I(4)] by (auto simp: config_snapshot_profile_def)
  obtain v p1 where h: "(if \<not> c_h4_noop (px_cfg p)
      then do { (h4, p) \<leftarrow> pick_h4 p; buf \<leftarrow> wr (b @ m @ q) (int (length b)) (write32_le h4); Some (buf, p) }
      else Some (b @ m @ q, p)) = Some (b @ set_type v m @ q, p1)"
    and v: "hrange_contains (c_h4 cfg) v" and i1: "px_inv cfg p1" and rc: "ring_change p p1"
    using h4_pick_ok [OF inv len(2), where b = b and q = q] c(1) unfolding kind_type.simps by blast
  have key: "c_hp_key (px_cfg p1) = c_hp_key cfg" using px_invD(3) [OF i1] cfg_grown_fields(5) by auto
  obtain pad rng where pad: "fastrand_fill (px_rng_c2s p1) (nat (c_s4 cfg)) = (pad, rng)" by fastforce
  have lp: "length pad = nat (c_s4 cfg)" using pad length_fastrand_fill [of "px_rng_c2s p1" "nat (c_s4 cfg)"] by simp
  let ?f = "frame cfg ?pr Transport pad (set_type v m) []"
  define x where "x = drop (length b - nat (c_s4 cfg)) b"
  define b' where "b' = take (length b - nat (c_s4 cfg)) b"
  have bx: "b = b' @ x" "length x = length pad" "int (length b') = prefix - c_s4 cfg"
    using pre lp s4(1) by (simp_all add: b'_def x_def)
  define p2 where "p2 = (if 0 < c_s4 cfg then p1\<lparr>px_rng_c2s := rng\<rparr> else p1)"
  define p3 where "p3 = p2\<lparr>px_cfg := awg_window_note (px_cfg p2) (c_s4 cfg + int (length m))\<rparr>"
  have st: "length (set_type v m) = length m" using len by (simp add: length_set_type)
  have fs: "length x = length pad" "16 \<le> length (set_type v m)" "int (length pad) = c_s4 cfg"
    using bx lp s4(1) len st by auto
  note fs = frame_steps [OF fs, where p = b' and q = q]
  have pos: "int (length b) - c_s4 cfg = int (length b')" "int (length b) = int (length b') + c_s4 cfg"
    using bx(3) pre(1) by auto
  have buf: "b @ set_type v m @ q = b' @ x @ set_type v m @ q" using bx(1) by simp
  have "c2s_fast prefix (c_s4 cfg) (c_hp_on cfg) p (b @ m @ q) (int (length m)) =
      Some (b' @ ?f @ q, p3, prefix - c_s4 cfg, c_s4 cfg + int (length m))"
  proof (cases "0 < c_s4 cfg")
    case True
    then have "c_hp_on cfg \<Longrightarrow> 12 \<le> length pad" using s4(2) lp by auto
    then show ?thesis unfolding c2s_fast_def pre(1) h unfolding pos buf
      using True pad key fs s4(4)
      by (cases "c_hp_on cfg") (simp_all add: p2_def p3_def frame_def protect_def protected_len_def)
  next
    case False
    then have "\<not> c_hp_on cfg" "pad = []" "x = []" using s4(2) lp bx(2) by auto
    then show ?thesis unfolding c2s_fast_def pre(1) h
      using False s4 bx(1) by (simp add: p2_def p3_def frame_def protect_def)
  qed
  moreover have "rd (b' @ ?f @ q) (prefix - c_s4 cfg) (c_s4 cfg + int (length m)) = Some ?f"
    by (rule rd_split) (use bx lp s4(1) st in \<open>auto simp: frame_def\<close>)
  moreover have "wire_form cfg ?pr mk m ?f"
    unfolding wire_form_def k option.case frame_of_def
    by (intro exI [of _ v] exI [of _ pad] exI [of _ "[]"])
      (use I(4) v s4 lp c(2) st in \<open>auto simp: well_framed_def\<close>)
  moreover have "px_inv cfg p3" "cfg_grown (px_cfg p) (px_cfg p3)"
  proof -
    show "px_inv cfg p3" by (rule px_inv_cong [OF _ _ _ i1]) (auto simp: p3_def p2_def cfg_grown_note)
    show "cfg_grown (px_cfg p) (px_cfg p3)" using ring_changeD [OF rc] cfg_grown_note [of "px_cfg p"]
      by (auto simp: p3_def p2_def)
  qed
  moreover have "length (b' @ ?f @ q) = length (b @ m @ q)" "px_junk_buf p3 = px_junk_buf p"
    using bx lp st ring_changeD [OF rc] by (simp_all add: frame_def p3_def p2_def)
  ultimately show ?thesis by blast
qed

section \<open>The batch sends every packet, in order, in its own wire form\<close>

text \<open>A pending batch reads its packets when it is flushed; \<open>wire_events\<close> is what has gone out.\<close>

fun wire_events :: "action list \<Rightarrow> (bytes list + bytes) list" where
  "wire_events [] = []"
| "wire_events (Flush ds # as) = map Inr ds @ wire_events as"
| "wire_events (Train ts # as) = Inl ts # wire_events as"
| "wire_events (Single d # as) = Inr d # wire_events as"

lemma wire_events_append [simp]: "wire_events (as @ bs) = wire_events as @ wire_events bs"
  by (induction as rule: wire_events.induct) simp_all

definition junk_wanted :: "awg_config \<Rightarrow> bool" where
  "junk_wanted cfg \<longleftrightarrow> c_jc cfg > 0 \<or> list_ex (\<lambda>c. c \<noteq> None) (c_cps cfg)"

text \<open>The events that a sequence of packets from the client has to cause.\<close>

fun expected :: "nat \<Rightarrow> awg_config \<Rightarrow> bytes list \<Rightarrow> (bytes list + bytes) list \<Rightarrow> bool" where
  "expected size_max cfg [] es \<longleftrightarrow> es = []"
| "expected size_max cfg (m # ms) es \<longleftrightarrow>
     (if m = [] \<or> classify m = Some Cookie \<and> c_disable_cookies cfg then expected size_max cfg ms es
      else if classify m = Some Init \<and> junk_wanted cfg
      then \<exists>ts d es'. es = Inl ts # Inr d # es' \<and> train_ok size_max cfg ts \<and>
             wire_form cfg (config_snapshot_profile cfg) (c_mac1key_out cfg) m d \<and> expected size_max cfg ms es'
      else \<exists>d es'. es = Inr d # es' \<and>
             wire_form cfg (config_snapshot_profile cfg) (c_mac1key_out cfg) m d \<and> expected size_max cfg ms es')"

lemma expected_append:
  "expected size_max cfg ms es \<Longrightarrow> expected size_max cfg ms' es' \<Longrightarrow> expected size_max cfg (ms @ ms') (es @ es')"
proof (induction ms arbitrary: es)
  case (Cons m ms)
  then show ?case by (auto split: if_splits)
qed simp

definition pending :: "c2s_state \<Rightarrow> bytes list option" where
  "pending st = those (map (iov_read (t_bufs st) (t_hs st)) (t_iov st))"

text \<open>
  The discipline of a batch loop, for any invariant \<open>keep\<close> of the proxy state and any relation
  \<open>emits\<close> between packets and the events they have to cause.  After the packets \<open>ms\<close> of the
  first \<open>i\<close> slots, the slots to come are untouched, no pending datagram lies in one of them, and
  what went out together with what is pending is what \<open>ms\<close> has to cause.
\<close>

definition batch_inv :: "(proxy \<Rightarrow> bool) \<Rightarrow> (bytes list \<Rightarrow> (bytes list + bytes) list \<Rightarrow> bool) \<Rightarrow> bytes list \<Rightarrow> nat \<Rightarrow> bytes list \<Rightarrow> c2s_state \<Rightarrow> bool" where
  "batch_inv keep emits bufs i ms st \<longleftrightarrow>
     keep (t_px st) \<and> length (t_hs st) = BUF_SIZE \<and>
     length (t_bufs st) = length bufs \<and> (\<forall>j. i \<le> j \<and> j < length bufs \<longrightarrow> t_bufs st ! j = bufs ! j) \<and>
     list_all (\<lambda>v. iv_slot v < i) (t_iov st) \<and>
     (\<exists>ds. pending st = Some ds \<and> emits ms (wire_events (t_out st) @ map Inr ds))"

lemma those_append: "those (xs @ ys) = do { a \<leftarrow> those xs; b \<leftarrow> those ys; Some (a @ b) }"
proof (induction xs)
  case (Cons x xs)
  then show ?case by (cases x; cases "those xs"; cases "those ys") auto
qed (simp add: bind_eq_Some_conv)

text \<open>Writing slot \<open>i\<close> does not disturb datagrams pending in earlier slots.\<close>

lemma pending_other_slot:
  "list_all (\<lambda>v. iv_slot v < i) vs \<Longrightarrow> map (iov_read (bufs[i := b]) hs) vs = map (iov_read bufs hs) vs"
  by (auto simp: list_all_iff iov_read_def)

lemma batch_invD:
  assumes "batch_inv keep emits bufs i ms st"
  shows "keep (t_px st)" "length (t_hs st) = BUF_SIZE" "length (t_bufs st) = length bufs"
    "i < length bufs \<Longrightarrow> t_bufs st ! i = bufs ! i" "list_all (\<lambda>v. iv_slot v < i) (t_iov st)"
  using assms by (auto simp: batch_inv_def)

locale batch_discipline =
  fixes keep :: "proxy \<Rightarrow> bool" and emits :: "bytes list \<Rightarrow> (bytes list + bytes) list \<Rightarrow> bool"
  assumes emits_append: "emits ms es \<Longrightarrow> emits ms' es' \<Longrightarrow> emits (ms @ ms') (es @ es')"
begin

lemma flush_keeps:
  assumes "batch_inv keep emits bufs i ms st"
  shows "\<exists>st'. flush st = Some st' \<and> batch_inv keep emits bufs i ms st' \<and> t_iov st' = [] \<and>
    t_bufs st' = t_bufs st \<and> t_hs st' = t_hs st \<and> t_px st' = t_px st"
proof (cases "t_iov st = []")
  case True
  then show ?thesis using assms by (simp add: flush_def)
next
  case False
  obtain ds where ds: "pending st = Some ds" "emits ms (wire_events (t_out st) @ map Inr ds)"
    using assms by (auto simp: batch_inv_def)
  let ?st = "st\<lparr>t_iov := [], t_out := t_out st @ [Flush ds]\<rparr>"
  have "flush st = Some ?st" using False ds(1) by (simp add: flush_def pending_def)
  moreover have "batch_inv keep emits bufs i ms ?st" using assms ds(2) by (simp add: batch_inv_def pending_def)
  ultimately show ?thesis by simp
qed

text \<open>A packet that ends up pending in its own slot, without touching the handshake buffer.\<close>

lemma push_keeps:
  assumes inv: "batch_inv keep emits bufs i ms st" and "i < length bufs" "keep p"
    and "rd b off len = Some d" "emits [m] [Inr d]"
    and st': "t_px st' = p" "t_bufs st' = (t_bufs st)[i := b]" "t_hs st' = t_hs st" "t_out st' = t_out st"
      "t_iov st' = t_iov st @ [\<lparr>iv_slot = i, iv_ptr = PBuf off, iv_len = len\<rparr>]"
  shows "batch_inv keep emits bufs (i + 1) (ms @ [m]) st'"
proof -
  obtain ds where ds: "pending st = Some ds" "emits ms (wire_events (t_out st) @ map Inr ds)"
    using inv by (auto simp: batch_inv_def)
  note I = batch_invD [OF inv]
  have "iov_read (t_bufs st') (t_hs st') \<lparr>iv_slot = i, iv_ptr = PBuf off, iv_len = len\<rparr> = Some d"
    using assms(2,4) I(3) st' by (simp add: iov_read_def read_out_def)
  then have "pending st' = Some (ds @ [d])"
    using ds(1) pending_other_slot [OF I(5), of "t_bufs st" b "t_hs st"]
    unfolding pending_def st' by (simp add: those_append del: map_eq_conv)
  moreover have "emits (ms @ [m]) ((wire_events (t_out st) @ map Inr ds) @ [Inr d])"
    by (rule emits_append [OF ds(2) assms(5)])
  moreover have "list_all (\<lambda>v. iv_slot v < i + 1) (t_iov st')" using I(5) by (auto simp: st' list_all_iff less_SucI)
  ultimately show ?thesis using inv assms(3) by (auto simp: batch_inv_def st')
qed

text \<open>With nothing pending, a packet may use the handshake buffer, be sent at once, or be dropped.\<close>

lemma alone_keeps:
  assumes inv: "batch_inv keep emits bufs i ms st" and "i < length bufs" "t_iov st = []" "keep (t_px st')"
    and st': "t_bufs st' = (t_bufs st)[i := b]" "length (t_hs st') = BUF_SIZE"
      "pending st' = Some ds" "list_all (\<lambda>v. iv_slot v = i) (t_iov st')"
      "wire_events (t_out st') = wire_events (t_out st) @ es" "emits [m] (es @ map Inr ds)"
  shows "batch_inv keep emits bufs (i + 1) (ms @ [m]) st'"
proof -
  have "emits ms (wire_events (t_out st))" using inv assms(3) by (auto simp: batch_inv_def pending_def)
  from emits_append [OF this st'(6)] have "emits (ms @ [m]) (wire_events (t_out st') @ map Inr ds)"
    by (simp add: st'(5))
  moreover have "list_all (\<lambda>v. iv_slot v < i + 1) (t_iov st')" using st'(4) by (auto simp: list_all_iff)
  ultimately show ?thesis using inv assms(4) st' by (auto simp: batch_inv_def)
qed

text \<open>An empty packet changes nothing.\<close>

lemma skip_keeps:
  assumes "batch_inv keep emits bufs i ms st" "emits [m] []"
  shows "batch_inv keep emits bufs (i + 1) (ms @ [m]) st"
  using assms emits_append [OF _ assms(2)] by (fastforce simp: batch_inv_def list_all_iff)

end

definition c2s_inv :: "nat \<Rightarrow> awg_config \<Rightarrow> bytes list \<Rightarrow> nat \<Rightarrow> bytes list \<Rightarrow> c2s_state \<Rightarrow> bool" where
  "c2s_inv size_max cfg = batch_inv (\<lambda>p. px_inv cfg p \<and> junk_fits size_max cfg (px_junk_buf p)) (expected size_max cfg)"

interpretation c2s: batch_discipline "\<lambda>p. px_inv cfg p \<and> junk_fits size_max cfg (px_junk_buf p)" "expected size_max cfg"
  for size_max cfg
  by unfold_locales (rule expected_append)

lemma c2s_note_init_ok:
  assumes "int prefix + n \<le> int (length buf)"
  shows "\<exists>p'. c2s_note_init (int prefix) buf n p = Some p' \<and> px_h4_ring p' = px_h4_ring p \<and> px_h4_idx p' = px_h4_idx p \<and>
    px_cfg p' = px_cfg p \<and> px_junk_buf p' = px_junk_buf p"
proof (cases "n \<ge> 4")
  case True
  then obtain t where "rd buf (int prefix) 4 = Some t" using rd_ok [of "int prefix" 4 buf] assms by auto
  then show ?thesis using True by (simp add: c2s_note_init_def)
qed (simp add: c2s_note_init_def)

lemma outbound_wire_form:
  assumes "outbound_spec cfg' pr mk rand m r" "wf_profile pr" "c_hp_key cfg' = c_hp_key cfg"
    and "\<not> (classify m = Some Cookie \<and> c_disable_cookies cfg')"
  shows "\<exists>d. datagram r = Some d \<and> wire_form cfg pr mk m d \<and> o_ptr r \<noteq> PNull"
proof -
  have ptr: "datagram r = Some d \<Longrightarrow> o_ptr r \<noteq> PNull" for d by (auto simp: datagram_def read_out_def)
  show ?thesis
  proof (cases "classify m")
    case None
    then show ?thesis using assms(1) ptr by (simp add: outbound_spec_def wire_form_def)
  next
    case (Some k)
    then obtain v where v: "hrange_pick (kind_range pr k) rand = Some v" "datagram r = Some (wire_encode cfg' pr k mk v rand m)"
      using assms(1,4) by (auto simp: outbound_spec_def split: if_splits)
    have "hrange_contains (kind_range pr k) v"
      using hrange_pick_contains [OF kind_pad_bounds(4) [OF assms(2)], of k rand] v(1) by simp
    note f = wire_encode_frame [OF assms(2) classify_Some(2) [OF Some] this assms(3), where mk = mk and rand = rand]
    then have "wire_form cfg pr mk m (wire_encode cfg' pr k mk v rand m)" using Some unfolding wire_form_def by auto
    then show ?thesis using v(2) ptr by blast
  qed
qed

lemma c2s_slow_ok:
  assumes inv: "c2s_inv size_max cfg bufs i ms st" and empty: "t_iov st = []" and i: "i < length bufs"
    and n: "0 < n" "int prefix + n \<le> int (length (bufs ! i))" "prefix + 1500 \<le> length (bufs ! i)" "c_s4 cfg \<le> int prefix"
    and m: "m = take (nat n) (drop prefix (bufs ! i))" and cps: "cps_returns cfg"
  shows "\<exists>st'. c2s_slow size_max clk (int prefix) i n st = Some st' \<and> c2s_inv size_max cfg bufs (i + 1) (ms @ [m]) st'"
proof -
  let ?pr = "config_snapshot_profile cfg" and ?buf = "bufs ! i"
  note B = batch_invD [OF inv [unfolded c2s_inv_def]]
  have I: "px_inv cfg (t_px st)" "junk_fits size_max cfg (px_junk_buf (t_px st))" "length (t_hs st) = 1500"
    "length (t_bufs st) = length bufs" and buf: "t_bufs st ! i = ?buf"
    using B i by auto
  have m0: "m \<noteq> []" using m n by auto
  obtain p1 where p1: "c2s_note_init (int prefix) ?buf n (t_px st) = Some p1" "px_h4_ring p1 = px_h4_ring (t_px st)"
    "px_h4_idx p1 = px_h4_idx (t_px st)" "px_cfg p1 = px_cfg (t_px st)" "px_junk_buf p1 = px_junk_buf (t_px st)"
    using c2s_note_init_ok [OF n(2)] by blast
  obtain rand rng where rr: "fastrand_u64 (px_rng_c2s p1) = (rand, rng)" by fastforce
  define p2 where "p2 = p1\<lparr>px_rng_c2s := rng\<rparr>"
  have i2: "px_inv cfg p2" by (rule px_inv_cong [OF _ _ _ I(1)]) (simp_all add: p2_def p1)
  note D = px_invD [OF i2] and G = cfg_grown_fields [OF px_invD(3) [OF i2]]
  have s4: "pr_s4 ?pr \<le> int prefix" using n(4) by (simp add: config_snapshot_profile_def)
  have mm: "m = take (nat n) (drop (nat (int prefix)) ?buf)" using m by simp
  have n3: "int prefix + 1500 \<le> int (length ?buf)" using n(3) by simp
  obtain r where r: "transform_outbound_profile ?buf (t_hs st) (int prefix) n (px_cfg p2) ?pr None rand = Some r"
    "length (o_buf r) = length ?buf" "length (o_hs r) = 1500" "outbound_spec (px_cfg p2) ?pr (c_mac1key_out cfg) rand m r"
    using transform_outbound_safe [OF D(4) s4 n3 I(3) less_imp_le [OF n(1)] n(2) mm refl, where key = None and cfg = "px_cfg p2" and rand = rand]
    unfolding option.case G(6) by blast
  have tr: "transform_outbound ?buf (t_hs st) (int prefix) n (px_cfg p2) rand = Some r"
    using r(1) D(5) by (simp add: transform_outbound_def)
  define st1 where "st1 = st\<lparr>t_px := p2, t_bufs := (t_bufs st)[i := o_buf r], t_hs := o_hs r\<rparr>"
  note alone = c2s.alone_keeps [OF inv [unfolded c2s_inv_def] i empty, folded c2s_inv_def, where b = "o_buf r" and m = m]
  have step: "c2s_slow size_max clk (int prefix) i n st =
      (if o_ptr r = PNull then Some st1
       else if o_junk r
       then do { (train, p) \<leftarrow> send_junk_and_cps size_max clk p2; d \<leftarrow> datagram r;
                 Some (st1\<lparr>t_px := p\<lparr>px_fe_init_sent := True\<rparr>, t_out := t_out st1 @ [Train train, Single d]\<rparr>) }
       else Some (st1\<lparr>t_iov := t_iov st1 @ [\<lparr>iv_slot = i, iv_ptr = o_ptr r, iv_len = o_len r\<rparr>]\<rparr>))"
    unfolding c2s_slow_def buf p1(1) using rr tr by (simp add: p2_def st1_def)
  have j2: "junk_fits size_max cfg (px_junk_buf p2)" using I(2) p1(5) by (simp add: p2_def)
  show ?thesis
  proof (cases "classify m = Some Cookie \<and> c_disable_cookies cfg")
    case True
    then have "o_ptr r = PNull" using r(4) G(8) by (simp add: outbound_spec_def)
    moreover have "c2s_inv size_max cfg bufs (i + 1) (ms @ [m]) st1"
      by (rule alone [where ds = "[]" and es = "[]"])
        (use True i2 j2 r(3) empty in \<open>simp_all add: st1_def pending_def\<close>)
    ultimately show ?thesis using step by simp
  next
    case False
    obtain d where d: "datagram r = Some d" "wire_form cfg ?pr (c_mac1key_out cfg) m d" "o_ptr r \<noteq> PNull"
      using outbound_wire_form [OF r(4) D(4) G(5)] False G(8) by auto
    have junk: "o_junk r \<longleftrightarrow> classify m = Some Init \<and> junk_wanted cfg"
    proof -
      have "c_jc (px_cfg p2) = c_jc cfg" "pr_cps ?pr = c_cps cfg" using G by (simp_all add: config_snapshot_profile_def)
      then show ?thesis using r(4) by (cases "classify m") (auto simp: outbound_spec_def junk_wanted_def)
    qed
    show ?thesis
    proof (cases "o_junk r")
      case True
      have jf: "junk_fits size_max (px_cfg p2) (px_junk_buf p2)" "cps_returns (px_cfg p2)"
        using j2 G cps by (simp_all add: junk_fits_def cps_returns_def)
      obtain ts c cs jb where t: "junk_train size_max clk (px_cfg p2) (px_cps_counter p2) (px_cs_c2s p2) (px_junk_buf p2) = Some (ts, c, cs, jb)"
        "length jb = length (px_junk_buf p2)" "train_ok size_max (px_cfg p2) ts"
        using junk_train_ok [OF jf(2,1)] by blast
      let ?p3 = "p2\<lparr>px_cps_counter := c, px_cs_c2s := cs, px_junk_buf := jb, px_fe_init_sent := True\<rparr>"
      let ?st2 = "st1\<lparr>t_px := ?p3, t_out := t_out st1 @ [Train ts, Single d]\<rparr>"
      have "c2s_slow size_max clk (int prefix) i n st = Some ?st2"
        using step True d(1,3) t(1) by (simp add: send_junk_and_cps_def)
      moreover have "train_ok size_max cfg ts" using t(3) unfolding train_ok_def junk_layout_sizes_def G(9-12) .
      moreover have "px_inv cfg ?p3" by (rule px_inv_cong [OF _ _ _ i2]) simp_all
      moreover have "junk_fits size_max cfg jb" using j2 t(2) by (simp add: junk_fits_def)
      ultimately show ?thesis
        by (intro exI [of _ ?st2] conjI alone [where ds = "[]" and es = "[Inl ts, Inr d]"])
          (use d(2) junk True False m0 r(3) empty in \<open>simp_all add: st1_def pending_def\<close>)
    next
      case nj: False
      let ?v = "\<lparr>iv_slot = i, iv_ptr = o_ptr r, iv_len = o_len r\<rparr>"
      have "c2s_slow size_max clk (int prefix) i n st = Some (st1\<lparr>t_iov := [?v]\<rparr>)"
        using step nj d(3) empty by (simp add: st1_def)
      moreover have "pending (st1\<lparr>t_iov := [?v]\<rparr>) = Some [d]"
        using d(1) i I(4) by (simp add: pending_def iov_read_def datagram_def st1_def)
      ultimately show ?thesis
        by (intro exI [of _ "st1\<lparr>t_iov := [?v]\<rparr>"] conjI alone [where ds = "[d]" and es = "[]"])
          (use d(2) junk nj False m0 i2 j2 r(3) in \<open>auto simp: st1_def\<close>)
    qed
  qed
qed

lemma c2s_transport_iff:
  assumes "int prefix + n \<le> int (length buf)" "0 < n" "m = take (nat n) (drop prefix buf)"
  shows "c2s_is_transport (int prefix) buf n = Some (classify m = Some Transport)"
proof (cases "32 \<le> n")
  case True
  have "length m = nat n" using assms by simp
  moreover have "rd buf (int prefix) 4 = Some (take 4 m)" using True assms by (simp add: rd_def min_def)
  ultimately show ?thesis using True classify_cases [of m] by (auto simp: c2s_is_transport_def)
next
  case False
  have "length m < 32" using False assms by auto
  then have "classify m \<noteq> Some Transport" using classify_Some(2) [of m Transport] by (auto simp: fits_kind_def)
  then show ?thesis using False by (simp add: c2s_is_transport_def)
qed

lemma c2s_normal_pkt_ok:
  assumes inv: "c2s_inv size_max cfg bufs i ms st" and i: "i < length bufs"
    and n: "0 \<le> n" "int prefix + n \<le> int (length (bufs ! i))" "prefix + 1500 \<le> length (bufs ! i)" "c_s4 cfg \<le> int prefix"
    and m: "m = take (nat n) (drop prefix (bufs ! i))" and cps: "cps_returns cfg"
  shows "\<exists>st'. c2s_normal_pkt size_max clk (int prefix) (c_s4 cfg) (c_hp_on cfg) i n st = Some st' \<and>
    c2s_inv size_max cfg bufs (i + 1) (ms @ [m]) st'"
proof -
  note B = batch_invD [OF inv [unfolded c2s_inv_def]]
  have I: "px_inv cfg (t_px st)" "junk_fits size_max cfg (px_junk_buf (t_px st))" and buf: "t_bufs st ! i = bufs ! i"
    using B i by auto
  consider (none) "n = 0" | (fast) "0 < n" "classify m = Some Transport" | (slow) "0 < n" "classify m \<noteq> Some Transport"
    using n(1) by linarith
  then show ?thesis
  proof cases
    case none
    then have "expected size_max cfg [m] []" using m by simp
    from c2s.skip_keeps [OF inv [unfolded c2s_inv_def] this] none show ?thesis
      by (simp add: c2s_normal_pkt_def c2s_inv_def)
  next
    case fast
    note tp = c2s_transport_iff [OF n(2) fast(1) m]
    have "prefix + nat n \<le> length (bufs ! i)" using n(1,2) by linarith
    from buf_split3 [OF this] obtain b m' q where b: "bufs ! i = b @ m' @ q" "length b = prefix" "length m' = nat n" .
    have mm: "m' = m" "int (length m) = n" using b m n(1) by auto
    have pre: "int prefix = int (length b)" "c_s4 cfg \<le> int prefix" using b(2) n(4) by auto
    obtain buf' p' d where f: "c2s_fast (int prefix) (c_s4 cfg) (c_hp_on cfg) (t_px st) (bufs ! i) n =
        Some (buf', p', int prefix - c_s4 cfg, c_s4 cfg + n)"
      "rd buf' (int prefix - c_s4 cfg) (c_s4 cfg + n) = Some d"
      "wire_form cfg (config_snapshot_profile cfg) (c_mac1key_out cfg) m d" "px_inv cfg p'" "cfg_grown (px_cfg (t_px st)) (px_cfg p')"
      "px_junk_buf p' = px_junk_buf (t_px st)"
      using c2s_fast_ok [OF I(1) fast(2) pre, where q = q and mk = "c_mac1key_out cfg"] b(1) mm by auto
    define st' where "st' = st\<lparr>t_px := p'\<lparr>px_fe_transport_c2s := True\<rparr>, t_bufs := (t_bufs st)[i := buf'],
        t_iov := t_iov st @ [\<lparr>iv_slot = i, iv_ptr = PBuf (int prefix - c_s4 cfg), iv_len = c_s4 cfg + n\<rparr>],
        t_xport := True, t_bytes := t_bytes st + word_of_int (c_s4 cfg + n)\<rparr>"
    have "c2s_normal_pkt size_max clk (int prefix) (c_s4 cfg) (c_hp_on cfg) i n st = Some st'"
      using fast tp f(1) by (simp add: c2s_normal_pkt_def buf st'_def)
    moreover have "px_inv cfg (p'\<lparr>px_fe_transport_c2s := True\<rparr>)" by (rule px_inv_cong [OF _ _ _ f(4)]) simp_all
    moreover have "c2s_inv size_max cfg bufs (i + 1) (ms @ [m]) st'"
      unfolding c2s_inv_def
      by (rule c2s.push_keeps [OF inv [unfolded c2s_inv_def] i _ f(2), where p = "p'\<lparr>px_fe_transport_c2s := True\<rparr>"])
        (use calculation I(2) f(3,6) fast mm in \<open>auto simp: st'_def\<close>)
    ultimately show ?thesis by blast
  next
    case slow
    note tp = c2s_transport_iff [OF n(2) slow(1) m]
    obtain st1 where s1: "flush st = Some st1" "c2s_inv size_max cfg bufs i ms st1" "t_iov st1 = []"
      using c2s.flush_keeps [OF inv [unfolded c2s_inv_def]] by (auto simp: c2s_inv_def)
    from c2s_slow_ok [OF s1(2,3) i slow(1) n(2-4) m cps, where clk = clk] show ?thesis
      using slow tp s1(1) by (auto simp: c2s_normal_pkt_def buf)
  qed
qed

text \<open>The packets of a batch, and that the receive buffers hold them.\<close>

definition packets :: "nat \<Rightarrow> bytes list \<Rightarrow> int list \<Rightarrow> bytes list" where
  "packets prefix bufs ns = map (\<lambda>(b, n). take (nat n) (drop prefix b)) (zip bufs ns)"

definition batch_ok :: "nat \<Rightarrow> bytes list \<Rightarrow> int list \<Rightarrow> bool" where
  "batch_ok prefix bufs ns \<longleftrightarrow>
     length ns \<le> length bufs \<and>
     list_all (\<lambda>(b, n). 0 \<le> n \<and> int prefix + n \<le> int (length b) \<and> prefix + BUF_SIZE \<le> length b) (zip bufs ns)"

lemma batch_ok_head:
  assumes "batch_ok prefix (drop i bufs) (n # ns)"
  shows "i < length bufs" "0 \<le> n" "int prefix + n \<le> int (length (bufs ! i))" "prefix + 1500 \<le> length (bufs ! i)"
    "batch_ok prefix (drop (i + 1) bufs) ns"
    "packets prefix (drop i bufs) (n # ns) = take (nat n) (drop prefix (bufs ! i)) # packets prefix (drop (i + 1) bufs) ns"
proof -
  have i: "i < length bufs" using assms by (auto simp: batch_ok_def)
  then have d: "drop i bufs = bufs ! i # drop (i + 1) bufs" by (simp add: Cons_nth_drop_Suc)
  show "i < length bufs" by (rule i)
  show "0 \<le> n" "int prefix + n \<le> int (length (bufs ! i))" "prefix + 1500 \<le> length (bufs ! i)"
    "batch_ok prefix (drop (i + 1) bufs) ns"
    "packets prefix (drop i bufs) (n # ns) = take (nat n) (drop prefix (bufs ! i)) # packets prefix (drop (i + 1) bufs) ns"
    using assms unfolding d by (auto simp: batch_ok_def packets_def)
qed

lemma c2s_normal_loop_ok:
  assumes "c2s_inv size_max cfg bufs i ms st" "batch_ok prefix (drop i bufs) ns" "c_s4 cfg \<le> int prefix" "cps_returns cfg"
  shows "\<exists>st'. c2s_normal_loop size_max clk (int prefix) (c_s4 cfg) (c_hp_on cfg) i ns st = Some st' \<and>
    c2s_inv size_max cfg bufs (i + length ns) (ms @ packets prefix (drop i bufs) ns) st'"
  using assms(1,2)
proof (induction ns arbitrary: i ms st)
  case (Cons n ns)
  note H = batch_ok_head [OF Cons.prems(2)]
  obtain st1 where "c2s_normal_pkt size_max (clk i) (int prefix) (c_s4 cfg) (c_hp_on cfg) i n st = Some st1"
    "c2s_inv size_max cfg bufs (i + 1) (ms @ [take (nat n) (drop prefix (bufs ! i))]) st1"
    using c2s_normal_pkt_ok [OF Cons.prems(1) H(1-4) assms(3) refl assms(4)] by blast
  with Cons.IH [OF this(2) H(5)] H(6) show ?case by auto
qed (simp add: packets_def)

section \<open>Properties\<close>

text \<open>
  C4. A batch from the client: for every well-formed configuration, every ring and random state,
  and every batch of packets in the receive buffers, the client-to-server loop stays inside its
  buffers and returns; each packet leaves exactly once, in the order of arrival, framed by the
  active profile (anything WireGuard does not know unchanged), a handshake initiation directly
  behind its junk train when one is configured, and nothing is left pending.  In particular the
  shared handshake buffer is never overwritten while a datagram in it waits to be sent.
\<close>

theorem c2s_normal_batch_delivers:
  assumes "wf_config (px_cfg p)" "rings_ok p" "junk_fits size_max (px_cfg p) (px_junk_buf p)" "cps_returns (px_cfg p)"
    and "length hs = BUF_SIZE" "c_s4 (px_cfg p) \<le> int prefix" "batch_ok prefix bufs ns"
  shows "\<exists>st. c2s_normal_batch size_max clk (int prefix) p bufs hs ns = Some st \<and> t_iov st = [] \<and>
    expected size_max (px_cfg p) (packets prefix bufs ns) (wire_events (t_out st))"
proof -
  let ?st = "\<lparr>t_px = p, t_bufs = bufs, t_hs = hs, t_iov = [], t_out = [], t_xport = False, t_bytes = 0\<rparr>"
  have "c2s_inv size_max (px_cfg p) bufs 0 [] ?st"
    using assms by (simp add: c2s_inv_def batch_inv_def px_inv_def pending_def)
  from c2s_normal_loop_ok [OF this, of prefix ns clk] assms obtain st where
    st: "c2s_normal_loop size_max clk (int prefix) (c_s4 (px_cfg p)) (c_hp_on (px_cfg p)) 0 ns ?st = Some st"
    "c2s_inv size_max (px_cfg p) bufs (length ns) (packets prefix bufs ns) st" by auto
  obtain st' where "flush st = Some st'" "c2s_inv size_max (px_cfg p) bufs (length ns) (packets prefix bufs ns) st'" "t_iov st' = []"
    using c2s.flush_keeps [OF st(2) [unfolded c2s_inv_def]] by (auto simp: c2s_inv_def)
  then show ?thesis using st(1) by (simp add: c2s_normal_batch_def c2s_inv_def batch_inv_def pending_def)
qed

definition example_proxy :: proxy where
  "example_proxy =
     \<lparr>px_cfg = example_config, px_h4_ring = replicate 4 (replicate 4096 400), px_h4_idx = replicate 4 0,
      px_rng = 1, px_rng_c2s = 2, px_rng_s2c = 3, px_cs_c2s = csprng_init rfc_key 1, px_cs_s2c = csprng_init rfc_key 2,
      px_cps_counter = 0, px_junk_buf = replicate 150 0, px_prof_cache = replicate 64 \<lparr>pc_key = 0, pc_prof = 0\<rparr>,
      px_sessions = empty_sessions, px_listen_v6 = False, px_has_client = False, px_client_addr = V4 0 0,
      px_client_init = False, px_fe_init_seen = False, px_fe_init_sent = False, px_fe_resp_received = False,
      px_fe_resp_sent = False, px_fe_transport_c2s = False, px_fe_transport_s2c = False\<rparr>"

lemmas example_config_unfold = example_config_def config_compute_def config_compute_max_s4_def start_chain_def
  floor_window_def select_mac1_def compute_flat_def compute_keys_def example_input_def mirror_profile_def Let_def

lemma example_config_fields:
  "c_profile_count example_config = 1" "c_active_profile example_config = 0"
  "c_jc example_config = 3" "c_jmax example_config = 50" "c_cps example_config = replicate 5 None" "c_s4 example_config = 16"
  "c_h4 example_config = \<lparr>h_min = 400, h_max = 499\<rparr>" "c_hp_key example_config = rfc_key"
  by (simp_all add: example_config_unfold split: prod.split) (simp_all add: example_profile_def)

lemma example_config_h4: "pr_h4 (c_profiles example_config ! 0) = \<lparr>h_min = 400, h_max = 499\<rparr>"
  using wf_example_config example_config_fields(1,2,7) profile_in_range(1) [OF wf_example_config, of 0]
  by (simp add: wf_config_def mirrored_def config_active_profile_def config_snapshot_profile_def)

lemma example_proxy_ok:
  "wf_config (px_cfg example_proxy)" "rings_ok example_proxy"
  "junk_fits (2 ^ 64 - 1) (px_cfg example_proxy) (px_junk_buf example_proxy)" "cps_returns (px_cfg example_proxy)"
proof -
  show "wf_config (px_cfg example_proxy)" using wf_example_config by (simp add: example_proxy_def)
  have "hrange_contains (pr_h4 (c_profiles example_config ! 0)) 400"
    by (simp add: example_config_h4 hrange_contains_def)
  then show "rings_ok example_proxy"
    by (simp add: rings_ok_def ring_ok_def example_proxy_def example_config_fields(1) list_all_iff)
  show "junk_fits (2 ^ 64 - 1) (px_cfg example_proxy) (px_junk_buf example_proxy)"
    by (simp add: junk_fits_def example_proxy_def example_config_fields)
  have "cps_generate_all (replicate n None) c clk cs \<noteq> None" for n c clk cs by (induction n) auto
  then show "cps_returns (px_cfg example_proxy)"
    by (simp add: cps_returns_def example_proxy_def example_config_fields)
qed

theorem c2s_normal_batch_delivers_witness:
  "\<exists>st. c2s_normal_batch (2 ^ 64 - 1) (\<lambda>_ _ _. 0) 16 example_proxy
      [replicate 16 0 @ sample_init @ replicate 1352 0, replicate 16 0 @ write32_le 4 @ replicate 1496 1]
      (replicate 1500 0) [148, 40] = Some st \<and> t_iov st = [] \<and>
    expected (2 ^ 64 - 1) example_config [sample_init, write32_le 4 @ replicate 36 1] (wire_events (t_out st))"
proof -
  let ?bufs = "[replicate 16 0 @ sample_init @ replicate 1352 0, replicate 16 0 @ write32_le 4 @ replicate 1496 1]"
  have l: "length sample_init = 148"
    using classify_Some(2) [OF sample_init_ok(1)] by (simp add: fits_kind_def)
  have ok: "batch_ok 16 ?bufs [148, 40]" using l by (simp add: batch_ok_def)
  have pk: "packets 16 ?bufs [148, 40] = [sample_init, write32_le 4 @ replicate 36 1]" using l by (simp add: packets_def)
  have s4: "c_s4 (px_cfg example_proxy) \<le> int 16" by (simp add: example_proxy_def example_config_fields)
  have cfg: "px_cfg example_proxy = example_config" by (simp add: example_proxy_def)
  from c2s_normal_batch_delivers [OF example_proxy_ok _ s4 ok, of "replicate 1500 0" "\<lambda>_ _ _. 0"] show ?thesis
    unfolding pk cfg by simp
qed

end
