(* ===== verification/Inbound_Path.thy ===== *)
theory Inbound_Path
  imports Datapath
begin

text \<open>
  The directions that restore WireGuard packets, from \<^verbatim>\<open>src/src/proxy.c\<close>: the server-to-client
  handler of normal mode (\<open>process_s2c_pkt_normal\<close>) and the client-to-server loop of reverse and
  server mode (\<open>c2s_thread_reverse\<close>), with the transport fast path both share, the walk along
  the profile chain, the adoption of another profile, and the session bookkeeping of a hub.
  The theorems relate the handlers to \<open>wire_decode\<close>: what the fast path takes is what the wire
  format specifies, with one exception that they name (random trailers and unequal paddings), every
  datagram some profile of the chain can decode is forwarded, exactly once and in order, and
  the state of the hub stays well formed.
\<close>

section \<open>The transport fast path\<close>

definition fast_size :: "awg_profile \<Rightarrow> int \<Rightarrow> bool" where
  "fast_size pr n \<longleftrightarrow>
     n \<ge> pr_s4 pr + WG_TRANSPORT_MIN \<and>
     (\<not> pr_transport_size_ambiguous pr \<or> n \<noteq> pr_init_total pr \<and> n \<noteq> pr_resp_total pr \<and> n \<noteq> pr_cookie_total pr)"

text \<open>
  The keystream cache and, when the packet is a transport packet, the buffer with the packet
  restored, its offset and its length.
\<close>

definition inbound_fast :: "awg_config \<Rightarrow> awg_profile \<Rightarrow> bytes \<Rightarrow> int \<Rightarrow> (awg_hp_ks \<times> (bytes \<times> int \<times> int) option) option" where
  "inbound_fast cfg pr pkt n =
     (let ks = \<lparr>ks_block = [], ks_valid = False\<rparr>; s4 = pr_s4 pr
      in if fast_size pr n
         then do {
           t \<leftarrow> rd pkt s4 4;
           (ks, kstream, h) \<leftarrow>
             (if pr_hp_on pr
              then do { ks \<leftarrow> hp_recv_ks cfg pkt ks;
                        Some (ks, Some (ks_block ks), read32_le t XOR read32_le (take 4 (ks_block ks))) }
              else Some (ks, None, read32_le t));
           if hrange_contains (pr_h4 pr) h
           then do {
             pkt \<leftarrow> (case kstream of
                       Some b \<Rightarrow> do { m \<leftarrow> rd pkt s4 AWG_HP_TRANSPORT_HDR; wr pkt s4 (chacha20_xor_ks m b) }
                     | None \<Rightarrow> Some pkt);
             pkt \<leftarrow> wr pkt s4 (write32_le WG_TRANSPORT_DATA);
             Some (ks, Some (pkt, s4, n - s4)) }
           else Some (ks, None) }
         else Some (ks, None))"

section \<open>Server to client, normal mode\<close>

text \<open>
  The state, the buffer and, when the packet goes to the client, where it lies and its
  destination.
\<close>

definition process_s2c_pkt_normal :: "proxy \<Rightarrow> bytes \<Rightarrow> int \<Rightarrow> (proxy \<times> bytes \<times> (int \<times> int \<times> cliaddr) option) option" where
  "process_s2c_pkt_normal p pkt n =
     do { (ks, hit) \<leftarrow> inbound_fast (px_cfg p) (config_snapshot_profile (px_cfg p)) pkt n;
          case hit of
            Some (pkt, off, len) \<Rightarrow>
              Some (p\<lparr>px_cfg := awg_window_note (px_cfg p) n, px_fe_transport_s2c := True\<rparr>, pkt,
                    Some (off, len, px_client_addr p))
          | None \<Rightarrow>
              do { pr \<leftarrow> config_active_profile (px_cfg p);
                   (pkt, ks, res) \<leftarrow> transform_inbound_profile pkt n (px_cfg p) pr (Some ks);
                   case res of
                     None \<Rightarrow> Some (p, pkt, None)
                   | Some (off, len) \<Rightarrow>
                       do { mtype \<leftarrow> (if len \<ge> 4 then map_option read32_le (rd pkt off 4) else Some 0);
                            let resp = (mtype = WG_HANDSHAKE_RESPONSE);
                            Some (p\<lparr>px_fe_resp_received := px_fe_resp_received p \<or> resp,
                                    px_fe_resp_sent := px_fe_resp_sent p \<or> resp\<rparr>, pkt,
                                  Some (off, len, px_client_addr p)) } } }"

section \<open>Client to server, reverse and server mode\<close>

text \<open>The walk along the chain: the first other profile that decodes the packet.\<close>

fun chain_walk :: "nat \<Rightarrow> int \<Rightarrow> int \<Rightarrow> awg_config \<Rightarrow> bytes \<Rightarrow> int \<Rightarrow> awg_hp_ks option \<Rightarrow> (bytes \<times> (int \<times> int \<times> int) option) option" where
  "chain_walk 0 k prof cfg buf n ks = Some (buf, None)"
| "chain_walk (Suc c) k prof cfg buf n ks =
     (if k = prof then chain_walk c (k + 1) prof cfg buf n ks
      else do { pr \<leftarrow> profile_at cfg k;
                (buf, ks, res) \<leftarrow> transform_inbound_profile buf n cfg pr ks;
                case res of
                  None \<Rightarrow> chain_walk c (k + 1) prof cfg buf n ks
                | Some (off, len) \<Rightarrow> Some (buf, Some (k, off, len)) })"

definition adopt_profile :: "proxy \<Rightarrow> cliaddr \<Rightarrow> int \<Rightarrow> proxy option" where
  "adopt_profile p a k =
     (if c_mode (px_cfg p) = AWG_MODE_SERVER
      then Some (p\<lparr>px_prof_cache := profile_remember (px_prof_cache p) a k\<rparr>)
      else switch_profile p k)"

definition follow_transport :: "proxy \<Rightarrow> cliaddr \<Rightarrow> bytes \<Rightarrow> int \<Rightarrow> proxy option" where
  "follow_transport p a pkt s4 =
     (if c_mode (px_cfg p) = AWG_MODE_SERVER \<and> addr_v6 a = px_listen_v6 p
      then do { sidx \<leftarrow> rd pkt (s4 + 4) 4;
                ctr \<leftarrow> rd pkt (s4 + 8) 8;
                Some (p\<lparr>px_sessions := fst (session_follow_client (px_sessions p) (read32_le sidx) a (get_le ctr))\<rparr>) }
      else Some p)"

text \<open>The routing entry for a handshake a client sent.\<close>

definition record_handshake :: "proxy \<Rightarrow> cliaddr \<Rightarrow> int \<Rightarrow> bytes \<Rightarrow> int \<Rightarrow> int \<Rightarrow> proxy option" where
  "record_handshake p a prof out off len =
     (if c_mode (px_cfg p) = AWG_MODE_SERVER \<and> addr_v6 a = px_listen_v6 p
      then do {
        t \<leftarrow> rd out off 4;
        let msg_type = read32_le t;
        if msg_type = WG_HANDSHAKE_INIT \<and> len = WG_INIT_SIZE \<or> msg_type = WG_HANDSHAKE_RESPONSE \<and> len = WG_RESP_SIZE
        then do {
          sender \<leftarrow> rd out (off + 4) 4;
          let (ss, e) = session_put_prof (px_sessions p) (read32_le sender) a prof;
          ss \<leftarrow> (if msg_type = WG_HANDSHAKE_RESPONSE
                 then do { sidx \<leftarrow> rd out (off + 8) 4; Some (session_set_server_index ss (Some e) (read32_le sidx)) }
                 else Some ss);
          Some (p\<lparr>px_sessions := ss,
                  px_prof_cache := (if c_profile_count (px_cfg p) > 1
                                    then profile_remember (px_prof_cache p) a prof else px_prof_cache p)\<rparr>) }
        else Some p }
      else Some p)"

definition reverse_profile :: "proxy \<Rightarrow> cliaddr \<Rightarrow> int" where
  "reverse_profile p a =
     (if c_profile_count (px_cfg p) > 1 \<and> c_mode (px_cfg p) = AWG_MODE_SERVER
      then profile_for_addr (px_cfg p) (px_prof_cache p) a else c_active_profile (px_cfg p))"

text \<open>The slow path: the profile first tried, then the rest of the chain.\<close>

definition reverse_decode ::
    "proxy \<Rightarrow> cliaddr \<Rightarrow> int \<Rightarrow> bytes \<Rightarrow> int \<Rightarrow> awg_hp_ks \<Rightarrow> (proxy \<times> bytes \<times> (int \<times> int \<times> int) option) option" where
  "reverse_decode p a prof buf n ks =
     do { pr \<leftarrow> profile_at (px_cfg p) prof;
          (buf, ks', res) \<leftarrow> transform_inbound_profile buf n (px_cfg p) pr (Some ks);
          case res of
            Some (off, len) \<Rightarrow> Some (p, buf, Some (prof, off, len))
          | None \<Rightarrow>
              if c_profile_count (px_cfg p) > 1
              then do { (buf, found) \<leftarrow> chain_walk (nat (c_profile_count (px_cfg p))) 0 prof (px_cfg p) buf n ks';
                        case found of
                          None \<Rightarrow> Some (p, buf, None)
                        | Some (k, off, len) \<Rightarrow> do { p \<leftarrow> adopt_profile p a k; Some (p, buf, Some (k, off, len)) } }
              else Some (p, buf, None) }"

definition c2s_reverse_pkt :: "nat \<Rightarrow> cliaddr \<Rightarrow> int \<Rightarrow> c2s_state \<Rightarrow> c2s_state option" where
  "c2s_reverse_pkt i a n st =
     (if n \<le> 0 then Some st
      else do {
        let p = t_px st;
        let prof = reverse_profile p a;
        pr \<leftarrow> profile_at (px_cfg p) prof;
        (ks, hit) \<leftarrow> inbound_fast (px_cfg p) pr (t_bufs st ! i) n;
        case hit of
          Some (pkt, off, len) \<Rightarrow>
            do { p \<leftarrow> follow_transport (p\<lparr>px_cfg := awg_window_note (px_cfg p) n\<rparr>) a pkt off;
                 Some (st\<lparr>t_px := p, t_bufs := (t_bufs st)[i := pkt],
                          t_iov := t_iov st @ [\<lparr>iv_slot = i, iv_ptr = PBuf off, iv_len = len\<rparr>]\<rparr>) }
        | None \<Rightarrow>
            do { st \<leftarrow> flush st;
                 (p, out, found) \<leftarrow> reverse_decode p a prof (t_bufs st ! i) n ks;
                 let st = st\<lparr>t_px := p, t_bufs := (t_bufs st)[i := out]\<rparr>;
                 case found of
                   None \<Rightarrow> Some st
                 | Some (prof, off, len) \<Rightarrow>
                     do { p \<leftarrow> record_handshake p a prof out off len;
                          Some (st\<lparr>t_px := p,
                                   t_iov := t_iov st @ [\<lparr>iv_slot = i, iv_ptr = PBuf off, iv_len = len\<rparr>]\<rparr>) } } })"

fun c2s_reverse_loop :: "nat \<Rightarrow> (cliaddr \<times> int) list \<Rightarrow> c2s_state \<Rightarrow> c2s_state option" where
  "c2s_reverse_loop i [] st = Some st"
| "c2s_reverse_loop i ((a, n) # ns) st =
     do { st \<leftarrow> c2s_reverse_pkt i a n st; c2s_reverse_loop (i + 1) ns st }"

text \<open>A batch on a connected socket; a 1:1 proxy first notes who its client is.\<close>

definition c2s_reverse_batch :: "proxy \<Rightarrow> bytes list \<Rightarrow> bytes \<Rightarrow> (cliaddr \<times> int) list \<Rightarrow> c2s_state option" where
  "c2s_reverse_batch p bufs hs ns =
     (let p = (if c_mode (px_cfg p) \<noteq> AWG_MODE_SERVER \<and> ns \<noteq> []
               then fst (note_client_addr p (fst (hd ns))) else p)
      in do { st \<leftarrow> c2s_reverse_loop 0 ns
                    \<lparr>t_px = p, t_bufs = bufs, t_hs = hs, t_iov = [], t_out = [], t_xport = False, t_bytes = 0\<rparr>;
              flush st })"

section \<open>The fast path against the wire format\<close>

text \<open>What the two steps of a handler, fast path then inbound transformation, recognise.\<close>

definition fast_decode :: "awg_config \<Rightarrow> awg_profile \<Rightarrow> bytes \<Rightarrow> (msg_kind \<times> bytes) option" where
  "fast_decode cfg pr d =
     (if fast_size pr (int (length d)) \<and> claims cfg pr d Transport
      then Some (Transport, open_frame cfg pr Transport d) else wire_decode cfg pr d)"

lemma inbound_fast_refines:
  assumes wf: "wf_profile pr"
  shows "\<exists>ks. inbound_fast cfg pr (d @ rest) (int (length d)) =
      Some (ks, if fast_size pr (int (length d)) \<and> claims cfg pr d Transport
                then Some (restored cfg pr Transport d rest, pr_s4 pr, int (length d) - pr_s4 pr) else None) \<and>
    cache_ok cfg d (Some ks)"
proof (cases "fast_size pr (int (length d))")
  case False
  then show ?thesis by (simp add: inbound_fast_def cache_ok_def Let_def)
next
  case True
  then have sz: "int (length d) \<ge> pr_s4 pr + 32" by (simp add: fast_size_def)
  have long: "pr_hp_on pr \<Longrightarrow> 12 \<le> length d" using sz wf_profileD(7) [OF wf] by linarith
  let ?none = "\<lparr>ks_block = [], ks_valid = False\<rparr>"
  let ?k = "if pr_hp_on pr then Some (recv_block cfg d) else None"
  have t: "inbound_transport pr ?k (type_mask cfg pr d) (d @ rest) (int (length d)) =
      Some (if claims cfg pr d Transport then Some (restored cfg pr Transport d rest, pr_s4 pr, int (length d) - pr_s4 pr) else None)"
    by (rule inbound_transport_refines [OF wf refl])
  obtain t4 where t4: "rd (d @ rest) (pr_s4 pr) 4 = Some t4"
    using rd_ok [of "pr_s4 pr" 4 "d @ rest"] sz wf_profileD(7) [OF wf] by auto
  show ?thesis
  proof (cases "pr_hp_on pr")
    case hp: True
    obtain c where c: "hp_recv_ks cfg (d @ rest) ?none = Some c" "ks_block c = recv_block cfg d" "ks_valid c"
      using hp_recv_ks_block [OF long [OF hp], of cfg ?none rest] by (auto simp: cache_ok_def)
    show ?thesis
      using True hp c t4 t sz
      by (auto simp: inbound_fast_def inbound_transport_def type_mask_def cache_ok_def Let_def
          split: if_splits bind_splits)
  next
    case False
    then show ?thesis
      using True t4 t sz
      by (auto simp: inbound_fast_def inbound_transport_def type_mask_def cache_ok_def Let_def
          split: if_splits bind_splits)
  qed
qed

lemma ambiguous_iff:
  assumes "wf_profile pr"
  shows "pr_transport_size_ambiguous pr \<longleftrightarrow>
    pr_init_total pr \<ge> pr_s4 pr + 32 \<or> pr_resp_total pr \<ge> pr_s4 pr + 32 \<or> pr_cookie_total pr \<ge> pr_s4 pr + 32"
proof -
  have "config_compute_profile pr = pr" using assms by (simp add: wf_profile_def profile_derived_def)
  then have "pr_transport_size_ambiguous pr = pr_transport_size_ambiguous (config_compute_profile pr)" by simp
  also have "\<dots> \<longleftrightarrow> pr_s1 pr + 148 \<ge> pr_s4 pr + 32 \<or> pr_s2 pr + 92 \<ge> pr_s4 pr + 32 \<or> pr_s3 pr + 64 \<ge> pr_s4 pr + 32"
    by (simp add: config_compute_profile_def Let_def)
  finally show ?thesis using wf_profile_derived(3-5) [OF assms] by simp
qed

text \<open>A size the fast path takes is never the exact total of a handshake.\<close>

lemma fast_size_totals:
  assumes "wf_profile pr" "fast_size pr n" "k \<noteq> Transport"
  shows "n \<noteq> kind_pad pr k + int (kind_size k)"
  using assms(2,3) ambiguous_iff [OF assms(1)] wf_profile_derived(3-5) [OF assms(1)]
  by (cases k) (auto simp: fast_size_def)

lemma fast_decode_equal:
  assumes wf: "wf_profile pr" and "\<not> pr_rt pr \<or> equal_paddings pr"
  shows "fast_decode cfg pr d = wire_decode cfg pr d"
proof (cases "fast_size pr (int (length d)) \<and> claims cfg pr d Transport")
  case False
  then show ?thesis by (auto simp: fast_decode_def)
next
  case True
  have sz: "int (length d) \<ge> pr_s4 pr + 32" using True by (simp add: fast_size_def)
  have long: "32 \<le> length d" using sz wf_profileD(7) [OF wf] by linarith
  have other: "\<not> claims cfg pr d k" if "k \<noteq> Transport" for k
  proof (cases "equal_paddings pr")
    case eq: True
    have "type_at cfg pr k d = type_at cfg pr Transport d" by (simp add: type_at_def equal_paddings_pad [OF eq])
    then show ?thesis using True that wf_profile_disjoint [OF wf, of "type_at cfg pr Transport d"]
      by (cases k) (auto simp: claims_def)
  next
    case False
    then show ?thesis using assms(2) that fast_size_totals [OF wf _ that] True by (intro other_slot_size) auto
  qed
  have f: "find (claims cfg pr d) [Init, Response, Cookie, Transport] = Some Transport" using True other by simp
  show ?thesis
  proof (cases "pr_h4_noop pr \<and> read32_le (take 4 d) = 4")
    case noop: True
    then have "pr_s4 pr = 0" "\<not> pr_hp_on pr" using wf_profile_derived(2) [OF wf] by auto
    then have "open_frame cfg pr Transport d = d"
      using noop long set_type_same [of d 4] by (simp add: open_frame_def payload_def protect_def)
    then show ?thesis using True noop long by (simp add: fast_decode_def wire_decode_def)
  next
    case False
    then show ?thesis using True f long by (auto simp: fast_decode_def wire_decode_def)
  qed
qed

text \<open>
  Without the restriction on the profile: what the fast path takes is a transport packet of the
  wire format, or a kind that an earlier slot of the specification claims.
\<close>

lemma fast_hit_spec:
  assumes wf: "wf_profile pr" and sz: "fast_size pr (int (length d))" and cl: "claims cfg pr d Transport"
  shows "wire_decode cfg pr d = Some (Transport, open_frame cfg pr Transport d) \<or>
    pr_rt pr \<and> \<not> equal_paddings pr \<and> (\<exists>k m'. k \<noteq> Transport \<and> claims cfg pr d k \<and> wire_decode cfg pr d = Some (k, m'))"
proof (cases "\<not> pr_rt pr \<or> equal_paddings pr")
  case True
  then show ?thesis using fast_decode_equal [OF wf True, of cfg d] sz cl by (simp add: fast_decode_def)
next
  case unequal: False
  show ?thesis
  proof (cases "(\<exists>k. k \<noteq> Transport \<and> claims cfg pr d k) \<and> \<not> (pr_h4_noop pr \<and> read32_le (take 4 d) = 4)")
    case True
    have long: "32 \<le> length d" using sz wf_profileD(7) [OF wf] by (simp add: fast_size_def)
    obtain k0 where "k0 \<noteq> Transport" "claims cfg pr d k0" using True by blast
    then have "claims cfg pr d Init \<or> claims cfg pr d Response \<or> claims cfg pr d Cookie" by (cases k0) auto
    then obtain k where k: "k \<noteq> Transport" "claims cfg pr d k"
      "find (claims cfg pr d) [Init, Response, Cookie, Transport] = Some k"
      by (cases "claims cfg pr d Init"; cases "claims cfg pr d Response") auto
    then have "wire_decode cfg pr d = Some (k, open_frame cfg pr k d)"
      using True long by (auto simp: wire_decode_def simp del: find.simps)
    then show ?thesis using unequal k by blast
  next
    case False
    have long: "32 \<le> length d" using sz wf_profileD(7) [OF wf] by (simp add: fast_size_def)
    show ?thesis
    proof (cases "pr_h4_noop pr \<and> read32_le (take 4 d) = 4")
      case noop: True
      then have "pr_s4 pr = 0" "\<not> pr_hp_on pr" using wf_profile_derived(2) [OF wf] by auto
      then have "open_frame cfg pr Transport d = d"
        using noop long set_type_same [of d 4] by (simp add: open_frame_def payload_def protect_def)
      then show ?thesis using noop long by (simp add: wire_decode_def)
    next
      case plain: False
      then have "\<not> claims cfg pr d k" if "k \<noteq> Transport" for k using False that by blast
      then have "find (claims cfg pr d) [Init, Response, Cookie, Transport] = Some Transport" using cl by simp
      then show ?thesis using plain long by (auto simp: wire_decode_def)
    qed
  qed
qed

text \<open>The restored message after the fast path, and after the slow path with its cache.\<close>

lemma fast_message:
  assumes "wf_profile pr" "claims cfg pr d Transport"
  shows "rd (restored cfg pr Transport d rest) (pr_s4 pr) (int (length d) - pr_s4 pr) = Some (open_frame cfg pr Transport d)"
    "int (length (open_frame cfg pr Transport d)) = int (length d) - pr_s4 pr" "length (restored cfg pr Transport d rest) = length (d @ rest)"
    "in_place d rest (restored cfg pr Transport d rest) (Some (pr_s4 pr, int (length d) - pr_s4 pr))"
proof -
  note r = restored_message [OF assms, of rest]
  have sz: "size_matches pr Transport (length d)" using assms(2) by (simp add: claims_def)
  then have p: "payload pr Transport d = drop (nat (pr_s4 pr)) d" by (simp add: payload_def)
  have s: "pr_s4 pr + 32 \<le> int (length d)" using sz by (simp add: size_matches_def)
  have s0: "0 \<le> pr_s4 pr" using wf_profileD(7) [OF assms(1)] .
  then have "fits_kind Transport (length (payload pr Transport d))" using p s by (simp add: fits_kind_def)
  then have l: "length (open_frame cfg pr Transport d) = length (payload pr Transport d)"
    using length_open_frame [of Transport pr d cfg] by simp
  show eq: "int (length (open_frame cfg pr Transport d)) = int (length d) - pr_s4 pr" using l p s s0 by simp
  show "rd (restored cfg pr Transport d rest) (pr_s4 pr) (int (length d) - pr_s4 pr) = Some (open_frame cfg pr Transport d)"
    using r(1) unfolding eq by simp
  show "length (restored cfg pr Transport d rest) = length (d @ rest)" by (rule r(2))
  show "in_place d rest (restored cfg pr Transport d rest) (Some (pr_s4 pr, int (length d) - pr_s4 pr))"
    using r(2,3) s0 by (simp add: in_place_def)
qed

text \<open>What a handler did with a datagram, against what the wire format says it is.\<close>

definition restores :: "(msg_kind \<times> bytes) option \<Rightarrow> bytes \<Rightarrow> (int \<times> int) option \<Rightarrow> bool" where
  "restores dec buf' res \<longleftrightarrow>
     (case dec of None \<Rightarrow> res = None
      | Some (k, m) \<Rightarrow> \<exists>off. res = Some (off, int (length m)) \<and> rd buf' off (int (length m)) = Some m)"

lemma s2c_normal_ok:
  assumes inv: "px_inv cfg p"
  shows "\<exists>p' buf' res. process_s2c_pkt_normal p (d @ rest) (int (length d)) = Some (p', buf', res) \<and>
    restores (fast_decode (px_cfg p) (config_snapshot_profile cfg) d) buf' (map_option (\<lambda>(off, len, a). (off, len)) res) \<and>
    in_place d rest buf' (map_option (\<lambda>(off, len, a). (off, len)) res) \<and>
    (\<forall>off len a. res = Some (off, len, a) \<longrightarrow> a = px_client_addr p) \<and> px_inv cfg p'"
proof -
  note D = px_invD [OF inv]
  let ?pr = "config_snapshot_profile cfg"
  have snap: "config_snapshot_profile (px_cfg p) = ?pr" using cfg_grown_fields(4) [OF D(3)] .
  obtain ks where f: "inbound_fast (px_cfg p) ?pr (d @ rest) (int (length d)) =
      Some (ks, if fast_size ?pr (int (length d)) \<and> claims (px_cfg p) ?pr d Transport
                then Some (restored (px_cfg p) ?pr Transport d rest, pr_s4 ?pr, int (length d) - pr_s4 ?pr) else None)"
    "cache_ok (px_cfg p) d (Some ks)"
    using inbound_fast_refines [OF D(4)] by blast
  show ?thesis
  proof (cases "fast_size ?pr (int (length d)) \<and> claims (px_cfg p) ?pr d Transport")
    case True
    then have cl: "claims (px_cfg p) ?pr d Transport" by simp
    note M = fast_message [OF D(4) cl]
    let ?p = "p\<lparr>px_cfg := awg_window_note (px_cfg p) (int (length d)), px_fe_transport_s2c := True\<rparr>"
    have "process_s2c_pkt_normal p (d @ rest) (int (length d)) =
        Some (?p, restored (px_cfg p) ?pr Transport d rest, Some (pr_s4 ?pr, int (length d) - pr_s4 ?pr, px_client_addr p))"
      using True f(1) by (simp add: process_s2c_pkt_normal_def snap)
    moreover have "px_inv cfg ?p" by (rule px_inv_cong [OF _ _ _ inv]) (simp_all add: cfg_grown_note)
    ultimately show ?thesis using True M by (simp add: restores_def fast_decode_def)
  next
    case False
    obtain buf' ks' res where t: "transform_inbound_profile (d @ rest) (int (length d)) (px_cfg p) ?pr (Some ks) = Some (buf', ks', res)" and inp: "in_place d rest buf' res" and t2:
      "case wire_decode (px_cfg p) ?pr d of None \<Rightarrow> res = None \<and> buf' = d @ rest
       | Some (k, m) \<Rightarrow> \<exists>off. res = Some (off, int (length m)) \<and> rd buf' off (int (length m)) = Some m"
      using inbound_refines [OF D(4) f(2)] by blast
    have fd: "fast_decode (px_cfg p) ?pr d = wire_decode (px_cfg p) ?pr d" using False by (auto simp: fast_decode_def)
    show ?thesis
    proof (cases "wire_decode (px_cfg p) ?pr d")
      case None
      then show ?thesis using t t2 inp False f(1) D(5) inv fd
        by (auto simp: process_s2c_pkt_normal_def snap restores_def)
    next
      case (Some km)
      obtain k m where km: "km = (k, m)" by fastforce
      obtain off where o: "res = Some (off, int (length m))" "rd buf' off (int (length m)) = Some m"
        using t2 Some km by auto
      define mtype where "mtype = (if int (length m) \<ge> 4 then map_option read32_le (rd buf' off 4) else Some 0)"
      obtain mt where mt: "mtype = Some mt"
      proof (cases "4 \<le> length m")
        case True
        then have "\<exists>t. rd buf' off 4 = Some t" using rd_ok [of off 4 buf'] o(2) by (auto simp: rd_Some_iff)
        then show ?thesis using True that by (auto simp: mtype_def)
      qed (use that in \<open>auto simp: mtype_def\<close>)
      let ?p = "p\<lparr>px_fe_resp_received := px_fe_resp_received p \<or> mt = 2, px_fe_resp_sent := px_fe_resp_sent p \<or> mt = 2\<rparr>"
      have "process_s2c_pkt_normal p (d @ rest) (int (length d)) = Some (?p, buf', Some (off, int (length m), px_client_addr p))"
        unfolding process_s2c_pkt_normal_def snap
        using False f(1) D(5) t o(1) mt [unfolded mtype_def] by (auto simp: Let_def)
      moreover have "px_inv cfg ?p" by (rule px_inv_cong [OF _ _ _ inv]) simp_all
      ultimately show ?thesis using o inp Some km fd by (simp add: restores_def)
    qed
  qed
qed

section \<open>The state of a hub\<close>

text \<open>Session profiles stay inside the chain; the operations below keep that.\<close>

definition profs_ok :: "int \<Rightarrow> sessions \<Rightarrow> bool" where
  "profs_ok count ss \<longleftrightarrow> wf_sessions ss \<and> list_all (\<lambda>e. 0 \<le> se_prof e \<and> se_prof e < count) (ss_entries ss)"

lemma map_update_same: "f x = f (xs ! s) \<Longrightarrow> map f (xs[s := x]) = map f xs"
  by (cases "s < length xs") (auto simp: map_update list_update_beyond intro: nth_equalityI simp: nth_list_update)

lemma profs_ok_cong:
  assumes "profs_ok count ss" "map se_prof (ss_entries ss') = map se_prof (ss_entries ss)"
    and "length (ss_sidx_map ss') = 4096" "list_all (\<lambda>r. unat r \<le> 4096) (ss_sidx_map ss')"
  shows "profs_ok count ss'"
proof -
  have "list_all (\<lambda>v. 0 \<le> v \<and> v < count) (map se_prof (ss_entries ss'))"
    using assms(1) unfolding assms(2) by (simp add: profs_ok_def list_all_iff)
  then have "list_all (\<lambda>e. 0 \<le> se_prof e \<and> se_prof e < count) (ss_entries ss')" by (simp add: list_all_iff)
  moreover have "length (ss_entries ss') = length (ss_entries ss)" using assms(2) by (metis length_map)
  ultimately show ?thesis using assms(1,3,4) by (simp add: profs_ok_def wf_sessions_def)
qed

lemma wf_sessions_map: "profs_ok count ss \<Longrightarrow> length (ss_sidx_map ss) = 4096 \<and> list_all (\<lambda>r. unat r \<le> 4096) (ss_sidx_map ss)"
  by (simp add: profs_ok_def wf_sessions_def)

lemma move_entries_prof [simp]: "map se_prof (move_entries old new es) = map se_prof es"
  by (simp add: move_entries_def)

lemma profs_ok_follow:
  assumes "profs_ok count ss"
  shows "profs_ok count (fst (session_follow_client ss sidx a ctr))"
proof (cases "session_get_by_server_index ss sidx")
  case None
  then show ?thesis using assms by (simp add: follow_unknown)
next
  case (Some s)
  have wf: "wf_sessions ss" using assms by (simp add: profs_ok_def)
  note F = follow_cases [OF wf Some, of a ctr]
  show ?thesis
    by (rule profs_ok_cong [OF assms]) (use wf_sessions_map [OF assms] in \<open>auto simp: F Let_def map_update_same\<close>)
qed

lemma profs_ok_put:
  assumes "profs_ok count ss" "0 \<le> prof" "prof < count"
  shows "profs_ok count (fst (session_put_prof ss index a prof))" "snd (session_put_prof ss index a prof) < 4096"
proof -
  obtain s e where p: "session_put_prof ss index a prof = (ss\<lparr>ss_entries := (ss_entries ss)[s := e]\<rparr>, s)"
    "s \<in> set (probe index)" "se_prof e = prof"
    by (rule session_put_slot [of ss index a prof])
  show "snd (session_put_prof ss index a prof) < 4096" using p probe_set by simp
  have "wf_sessions (fst (session_put_prof ss index a prof))" using assms(1) wf_put by (simp add: profs_ok_def)
  then show "profs_ok count (fst (session_put_prof ss index a prof))"
    using assms p by (auto simp: profs_ok_def list_all_iff dest: set_update_subset_insert [THEN subsetD])
qed

lemma profs_ok_server_index:
  assumes "profs_ok count ss" "\<And>s. e = Some s \<Longrightarrow> s < 4096"
  shows "profs_ok count (session_set_server_index ss e sidx)"
proof (cases "e = None \<or> sidx = 0")
  case True
  then show ?thesis using assms(1) by (auto simp: session_set_server_index_def split: option.split)
next
  case False
  then obtain s where s: "e = Some s" "s < 4096" using assms(2) by auto
  have "unat (word_of_nat s :: u32) = s" using s(2) by (simp add: unsigned_of_nat take_bit_nat_eq_self_iff)
  then have "unat (word_of_nat s + 1 :: u32) = s + 1" using s(2) by (simp add: unat_word_ariths)
  moreover note wf_sessions_map [OF assms(1)]
  ultimately show ?thesis
    by (intro profs_ok_cong [OF assms(1)])
      (use False s in \<open>auto simp: session_set_server_index_def map_update_same list_all_iff
        dest!: set_update_subset_insert [THEN subsetD]\<close>)
qed

text \<open>
  The configuration of a hub may switch its active profile and grow its trailer window; the
  chain, the keys and the mode stay.
\<close>

definition same_chain :: "awg_config \<Rightarrow> awg_config \<Rightarrow> bool" where
  "same_chain cfg cfg' \<longleftrightarrow>
     c_profiles cfg' = c_profiles cfg \<and> c_profile_count cfg' = c_profile_count cfg \<and> c_hp_key cfg' = c_hp_key cfg \<and>
     c_mac1key_in cfg' = c_mac1key_in cfg \<and> c_mac1key_out cfg' = c_mac1key_out cfg \<and> c_mode cfg' = c_mode cfg \<and>
     c_server_peer_mac1keys cfg' = c_server_peer_mac1keys cfg \<and> c_disable_cookies cfg' = c_disable_cookies cfg"

definition hub_inv :: "awg_config \<Rightarrow> proxy \<Rightarrow> bool" where
  "hub_inv cfg p \<longleftrightarrow>
     wf_config (px_cfg p) \<and> same_chain cfg (px_cfg p) \<and> rings_ok p \<and>
     length (px_prof_cache p) = 64 \<and> list_all (\<lambda>e. uint (pc_prof e) < c_profile_count cfg) (px_prof_cache p) \<and>
     profs_ok (c_profile_count cfg) (px_sessions p)"

lemma hub_invD:
  assumes "hub_inv cfg p"
  shows "wf_config (px_cfg p)" "same_chain cfg (px_cfg p)" "rings_ok p" "c_profile_count (px_cfg p) = c_profile_count cfg"
    "profs_ok (c_profile_count cfg) (px_sessions p)" "c_profile_count cfg \<le> 4" "c_profiles (px_cfg p) = c_profiles cfg"
    "0 \<le> c_active_profile (px_cfg p)" "c_active_profile (px_cfg p) < c_profile_count cfg"
  using assms by (auto simp: hub_inv_def same_chain_def wf_config_def)

lemma prof_cache_slot_less [simp]: "prof_cache_slot k < 64"
proof -
  have "(k XOR drop_bit 16 k) AND 63 \<le> 63" by (rule word_and_le1)
  then have "unat ((k XOR drop_bit 16 k) AND 63) \<le> unat (63 :: u32)" by (simp only: word_le_nat_alt)
  then show ?thesis by (simp add: prof_cache_slot_def)
qed

lemma hub_inv_profile:
  assumes "hub_inv cfg p"
  shows "0 \<le> reverse_profile p a" "reverse_profile p a < c_profile_count cfg"
proof -
  note D = hub_invD [OF assms]
  let ?e = "px_prof_cache p ! prof_cache_slot (prof_cache_key a)"
  have "?e \<in> set (px_prof_cache p)" using assms by (simp add: hub_inv_def)
  then have "uint (pc_prof ?e) < c_profile_count cfg" using assms by (simp add: hub_inv_def list_all_iff)
  then show "0 \<le> reverse_profile p a" "reverse_profile p a < c_profile_count cfg"
    using D by (auto simp: reverse_profile_def profile_for_addr_def Let_def)
qed

lemma hub_inv_remember:
  assumes "hub_inv cfg p" "0 \<le> k" "k < c_profile_count cfg"
  shows "hub_inv cfg (p\<lparr>px_prof_cache := profile_remember (px_prof_cache p) a k\<rparr>)"
proof -
  have "k < 256" using assms hub_invD(6) [OF assms(1)] by linarith
  then have "uint (word_of_int k :: u8) = k" using assms(2) by (simp add: uint_word_of_int)
  then show ?thesis using assms
    by (auto simp: hub_inv_def rings_ok_def ring_ok_def profile_remember_def Let_def list_all_iff
        dest!: set_update_subset_insert [THEN subsetD])
qed

lemma hub_inv_sessions:
  "hub_inv cfg p \<Longrightarrow> profs_ok (c_profile_count cfg) ss \<Longrightarrow> hub_inv cfg (p\<lparr>px_sessions := ss\<rparr>)"
  by (simp add: hub_inv_def rings_ok_def ring_ok_def)

lemma hub_inv_cfg:
  assumes "hub_inv cfg p" "wf_config c" "same_chain (px_cfg p) c"
  shows "hub_inv cfg (p\<lparr>px_cfg := c\<rparr>)"
  using assms unfolding hub_inv_def rings_ok_def ring_ok_def same_chain_def by auto

lemma hub_inv_note: "hub_inv cfg p \<Longrightarrow> hub_inv cfg (p\<lparr>px_cfg := awg_window_note (px_cfg p) n\<rparr>)"
  using cfg_grown_fields [OF cfg_grown_note, of "px_cfg p" n] cfg_grown_wf [OF cfg_grown_note, of "px_cfg p" n]
  by (intro hub_inv_cfg) (auto simp: hub_inv_def same_chain_def)

lemma hub_inv_switch:
  assumes "hub_inv cfg p" "0 \<le> k" "k < c_profile_count cfg"
  shows "\<exists>p'. switch_profile p k = Some p' \<and> hub_inv cfg p'"
proof -
  note D = hub_invD [OF assms(1)]
  obtain c where c: "config_apply_profile (px_cfg p) k = Some c" "wf_config c"
    using apply_profile_switch [OF D(1) assms(2)] assms(3) D(4) by auto
  have "same_chain (px_cfg p) c" using c(1) by (auto simp: config_apply_profile_def same_chain_def mirror_profile_def)
  from hub_inv_cfg [OF assms(1) c(2) this] c(1) show ?thesis by (simp add: switch_profile_def)
qed

section \<open>Every decodable datagram is forwarded\<close>

lemma decode_chain_cong:
  assumes "same_chain cfg cfg'"
  shows "wire_decode cfg' pr d = wire_decode cfg pr d" "fast_decode cfg' pr d = fast_decode cfg pr d"
    "claims cfg' pr d k = claims cfg pr d k" "open_frame cfg' pr k d = open_frame cfg pr k d" "cache_ok cfg' d ks = cache_ok cfg d ks"
proof -
  have k: "c_hp_key cfg' = c_hp_key cfg" "c_mac1key_in cfg' = c_mac1key_in cfg" using assms by (auto simp: same_chain_def)
  have c: "claims cfg' pr d = claims cfg pr d"
    by (rule ext) (simp add: claims_def type_at_def type_mask_def recv_block_def k)
  have o: "open_frame cfg' pr j d = open_frame cfg pr j d" for j by (simp add: open_frame_def k)
  show "wire_decode cfg' pr d = wire_decode cfg pr d" by (simp add: wire_decode_def c o cong: if_cong)
  then show "fast_decode cfg' pr d = fast_decode cfg pr d" by (simp add: fast_decode_def c o)
  show "claims cfg' pr d k = claims cfg pr d k" "open_frame cfg' pr k d = open_frame cfg pr k d" by (simp_all add: c o)
  show "cache_ok cfg' d ks = cache_ok cfg d ks" unfolding cache_ok_def recv_block_def k ..
qed

definition chain_decodes :: "awg_config \<Rightarrow> bytes \<Rightarrow> int \<Rightarrow> bytes \<Rightarrow> bool" where
  "chain_decodes cfg d k m \<longleftrightarrow>
     0 \<le> k \<and> k < c_profile_count cfg \<and>
     (\<exists>kind. wire_decode cfg (c_profiles cfg ! nat k) d = Some (kind, m) \<or> fast_decode cfg (c_profiles cfg ! nat k) d = Some (kind, m))"

definition undecodable :: "awg_config \<Rightarrow> bytes \<Rightarrow> bool" where
  "undecodable cfg d \<longleftrightarrow> (\<forall>k. 0 \<le> k \<and> k < c_profile_count cfg \<longrightarrow> wire_decode cfg (c_profiles cfg ! nat k) d = None)"

lemma fast_decode_None:
  assumes "wf_profile pr" "fast_size pr (int (length d))" "claims cfg pr d Transport"
  shows "wire_decode cfg pr d \<noteq> None"
proof -
  have "32 \<le> length d" using assms(2) wf_profileD(7) [OF assms(1)] unfolding fast_size_def by linarith
  then show ?thesis using assms(3) by (auto simp: wire_decode_def find_None_iff)
qed

lemma chain_walk_ok:
  assumes wf: "wf_config cfg" and cache: "cache_ok cfg d ks" and "0 \<le> k" "k + int c = c_profile_count cfg"
  shows "\<exists>buf' found. chain_walk c k prof cfg (d @ rest) (int (length d)) ks = Some (buf', found) \<and>
    length buf' = length (d @ rest) \<and>
    (case found of
       None \<Rightarrow> \<forall>j. k \<le> j \<and> j < c_profile_count cfg \<and> j \<noteq> prof \<longrightarrow> wire_decode cfg (c_profiles cfg ! nat j) d = None
     | Some (j, off, len) \<Rightarrow> 0 \<le> j \<and> j < c_profile_count cfg \<and>
         (\<exists>kind m. wire_decode cfg (c_profiles cfg ! nat j) d = Some (kind, m) \<and> len = int (length m) \<and> rd buf' off len = Some m))"
  using assms(2-4)
proof (induction c arbitrary: k ks)
  case (Suc c)
  have rng: "0 \<le> k" "k < c_profile_count cfg" "0 \<le> k + 1" "k + 1 + int c = c_profile_count cfg" using Suc.prems by auto
  note P = profile_in_range [OF wf rng(1,2)]
  show ?case
  proof (cases "k = prof")
    case True
    obtain buf' found where "chain_walk c (k + 1) prof cfg (d @ rest) (int (length d)) ks = Some (buf', found)"
      "length buf' = length (d @ rest)"
      "case found of None \<Rightarrow> \<forall>j. k + 1 \<le> j \<and> j < c_profile_count cfg \<and> j \<noteq> prof \<longrightarrow> wire_decode cfg (c_profiles cfg ! nat j) d = None
       | Some (j, off, len) \<Rightarrow> 0 \<le> j \<and> j < c_profile_count cfg \<and>
         (\<exists>kind m. wire_decode cfg (c_profiles cfg ! nat j) d = Some (kind, m) \<and> len = int (length m) \<and> rd buf' off len = Some m)"
      using Suc.IH [OF Suc.prems(1) rng(3,4)] by blast
    moreover have "k \<le> j \<and> j \<noteq> prof \<longleftrightarrow> k + 1 \<le> j \<and> j \<noteq> prof" for j using True by auto
    ultimately show ?thesis using True by (auto split: option.splits)
  next
    case False
    obtain buf1 ks1 res where t: "transform_inbound_profile (d @ rest) (int (length d)) cfg (c_profiles cfg ! nat k) ks = Some (buf1, ks1, res)"
      "cache_ok cfg d ks1" "length buf1 = length (d @ rest)"
      "case wire_decode cfg (c_profiles cfg ! nat k) d of None \<Rightarrow> res = None \<and> buf1 = d @ rest
       | Some (kind, m) \<Rightarrow> \<exists>off. res = Some (off, int (length m)) \<and> rd buf1 off (int (length m)) = Some m"
      using inbound_refines [OF P(2) Suc.prems(1)] in_place_length by blast
    show ?thesis
    proof (cases "wire_decode cfg (c_profiles cfg ! nat k) d")
      case None
      then have r: "res = None" "buf1 = d @ rest" using t(4) by auto
      obtain buf' found where w: "chain_walk c (k + 1) prof cfg (d @ rest) (int (length d)) ks1 = Some (buf', found)"
        "length buf' = length (d @ rest)"
        "case found of None \<Rightarrow> \<forall>j. k + 1 \<le> j \<and> j < c_profile_count cfg \<and> j \<noteq> prof \<longrightarrow> wire_decode cfg (c_profiles cfg ! nat j) d = None
         | Some (j, off, len) \<Rightarrow> 0 \<le> j \<and> j < c_profile_count cfg \<and>
           (\<exists>kind m. wire_decode cfg (c_profiles cfg ! nat j) d = Some (kind, m) \<and> len = int (length m) \<and> rd buf' off len = Some m)"
        using Suc.IH [OF t(2) rng(3,4)] by blast
      have "k \<le> j \<longleftrightarrow> j = k \<or> k + 1 \<le> j" for j by auto
      then show ?thesis using False P(1) t(1) r w None by (auto split: option.splits)
    next
      case (Some km)
      then show ?thesis using False P(1) t rng(1,2) by (cases km) auto
    qed
  qed
qed auto

lemma reverse_decode_ok:
  assumes inv: "hub_inv cfg p" and prof: "0 \<le> prof" "prof < c_profile_count cfg" and cache: "cache_ok cfg d (Some ks)"
  shows "\<exists>p' buf' found. reverse_decode p a prof (d @ rest) (int (length d)) ks = Some (p', buf', found) \<and>
    hub_inv cfg p' \<and> length buf' = length (d @ rest) \<and>
    (case found of
       None \<Rightarrow> undecodable cfg d
     | Some (j, off, len) \<Rightarrow> \<exists>kind m. 0 \<le> j \<and> j < c_profile_count cfg \<and>
         wire_decode cfg (c_profiles cfg ! nat j) d = Some (kind, m) \<and> len = int (length m) \<and> rd buf' off len = Some m)"
proof -
  note D = hub_invD [OF inv] and C = decode_chain_cong [OF hub_invD(2) [OF inv]]
  note P = profile_in_range [OF D(1) prof(1) prof(2) [folded D(4)], unfolded D(7)]
  have cache': "cache_ok (px_cfg p) d (Some ks)" using cache C(5) by simp
  obtain buf1 ks1 res where t: "transform_inbound_profile (d @ rest) (int (length d)) (px_cfg p) (c_profiles cfg ! nat prof) (Some ks) = Some (buf1, ks1, res)"
    "cache_ok (px_cfg p) d ks1" "length buf1 = length (d @ rest)"
    "case wire_decode cfg (c_profiles cfg ! nat prof) d of None \<Rightarrow> res = None \<and> buf1 = d @ rest
     | Some (kind, m) \<Rightarrow> \<exists>off. res = Some (off, int (length m)) \<and> rd buf1 off (int (length m)) = Some m"
    using inbound_refines [OF P(2) cache', of rest] in_place_length unfolding C(1) by blast
  show ?thesis
  proof (cases "wire_decode cfg (c_profiles cfg ! nat prof) d")
    case (Some km)
    then show ?thesis using P(1) t prof inv by (cases km) (auto simp: reverse_decode_def)
  next
    case None
    then have r: "res = None" "buf1 = d @ rest" using t(4) by auto
    show ?thesis
    proof (cases "c_profile_count cfg > 1")
      case False
      then have "k = prof" if "0 \<le> k" "k < c_profile_count cfg" for k using that prof by linarith
      then have "undecodable cfg d" using None by (auto simp: undecodable_def)
      then show ?thesis using False P(1) t r D(4) inv by (simp add: reverse_decode_def)
    next
      case multi: True
      have c: "0 + int (nat (c_profile_count cfg)) = c_profile_count (px_cfg p)" using D(4) multi by simp
      obtain buf' found where w: "chain_walk (nat (c_profile_count cfg)) 0 prof (px_cfg p) (d @ rest) (int (length d)) ks1 = Some (buf', found)"
        "length buf' = length (d @ rest)"
        "case found of None \<Rightarrow> \<forall>j. 0 \<le> j \<and> j < c_profile_count cfg \<and> j \<noteq> prof \<longrightarrow> wire_decode cfg (c_profiles cfg ! nat j) d = None
         | Some (j, off, len) \<Rightarrow> 0 \<le> j \<and> j < c_profile_count cfg \<and>
           (\<exists>kind m. wire_decode cfg (c_profiles cfg ! nat j) d = Some (kind, m) \<and> len = int (length m) \<and> rd buf' off len = Some m)"
        using chain_walk_ok [OF D(1) t(2) order_refl c, of prof rest] unfolding C(1) D(4,7) by blast
      show ?thesis
      proof (cases found)
        case f: None
        then have "undecodable cfg d" using w(3) None by (auto simp: undecodable_def)
        then show ?thesis using f multi P(1) t(1) r w(1,2) D(4) inv by (auto simp: reverse_decode_def)
      next
        case (Some f)
        obtain j off len where f: "f = (j, off, len)" by (cases f)
        have j: "0 \<le> j" "j < c_profile_count cfg" using w(3) Some f by auto
        obtain p' where p': "adopt_profile p a j = Some p'" "hub_inv cfg p'"
          using hub_inv_switch [OF inv j] hub_inv_remember [OF inv j, of a] by (cases "c_mode (px_cfg p) = AWG_MODE_SERVER") (auto simp: adopt_profile_def)
        then show ?thesis using Some f multi P(1) t(1) r w D(4) by (auto simp: reverse_decode_def)
      qed
    qed
  qed
qed

text \<open>The messages a sequence of datagrams from clients has to cause.\<close>

fun forwarded :: "awg_config \<Rightarrow> bytes list \<Rightarrow> (bytes list + bytes) list \<Rightarrow> bool" where
  "forwarded cfg [] es \<longleftrightarrow> es = []"
| "forwarded cfg (d # ds) es \<longleftrightarrow>
     (if d = [] \<or> undecodable cfg d then forwarded cfg ds es
      else \<exists>k m es'. es = Inr m # es' \<and> chain_decodes cfg d k m \<and> forwarded cfg ds es')"

lemma forwarded_append:
  "forwarded cfg ds es \<Longrightarrow> forwarded cfg ds' es' \<Longrightarrow> forwarded cfg (ds @ ds') (es @ es')"
  by (induction ds arbitrary: es) (auto split: if_splits)

interpretation rev: batch_discipline "hub_inv cfg" "forwarded cfg" for cfg
  by unfold_locales (rule forwarded_append)

lemma follow_transport_ok:
  assumes "hub_inv cfg p" "0 \<le> s4" "s4 + 32 \<le> int (length pkt)"
  shows "\<exists>p'. follow_transport p a pkt s4 = Some p' \<and> hub_inv cfg p'"
proof -
  obtain x where "rd pkt (s4 + 4) 4 = Some x" using rd_ok [of "s4 + 4" 4 pkt] assms by auto
  moreover obtain y where "rd pkt (s4 + 8) 8 = Some y" using rd_ok [of "s4 + 8" 8 pkt] assms by auto
  moreover note profs_ok_follow [OF hub_invD(5) [OF assms(1)]]
  ultimately show ?thesis using assms(1) hub_inv_sessions by (simp add: follow_transport_def)
qed

lemma record_handshake_ok:
  assumes inv: "hub_inv cfg p" and prof: "0 \<le> prof" "prof < c_profile_count cfg" and rd: "rd out off len = Some m" and len: "4 \<le> len"
  shows "\<exists>p'. record_handshake p a prof out off len = Some p' \<and> hub_inv cfg p'"
proof -
  have b: "0 \<le> off" "off + len \<le> int (length out)" using rd by (auto simp: rd_Some_iff)
  obtain t where t: "rd out off 4 = Some t" using rd_ok [of off 4 out] b len by auto
  define ss where "ss = (\<lambda>i. fst (session_put_prof (px_sessions p) i a prof))"
  define e where "e = (\<lambda>i. snd (session_put_prof (px_sessions p) i a prof))"
  have ss: "session_put_prof (px_sessions p) i a prof = (ss i, e i)" for i by (simp add: ss_def e_def)
  have so: "profs_ok (c_profile_count cfg) (ss i)" "e i < 4096" for i
    using profs_ok_put [OF hub_invD(5) [OF inv] prof, of i a] ss by auto
  have keep: "hub_inv cfg (p\<lparr>px_sessions := s, px_prof_cache := (if c_profile_count (px_cfg p) > 1 then profile_remember (px_prof_cache p) a prof else px_prof_cache p)\<rparr>)"
    if "profs_ok (c_profile_count cfg) s" for s
    using hub_inv_remember [OF hub_inv_sessions [OF inv that] prof, of a] hub_inv_sessions [OF inv that] by auto
  consider (skip) "\<not> (c_mode (px_cfg p) = AWG_MODE_SERVER \<and> addr_v6 a = px_listen_v6 p) \<or>
      \<not> (read32_le t = 1 \<and> len = 148 \<or> read32_le t = 2 \<and> len = 92)"
    | (init) "c_mode (px_cfg p) = AWG_MODE_SERVER \<and> addr_v6 a = px_listen_v6 p" "read32_le t = 1" "len = 148"
    | (resp) "c_mode (px_cfg p) = AWG_MODE_SERVER \<and> addr_v6 a = px_listen_v6 p" "read32_le t = 2" "len = 92" by blast
  then show ?thesis
  proof cases
    case skip
    then have "record_handshake p a prof out off len = Some p" using t by (auto simp: record_handshake_def Let_def)
    then show ?thesis using inv by simp
  next
    case init
    obtain x where "rd out (off + 4) 4 = Some x" using rd_ok [of "off + 4" 4 out] b init by auto
    then show ?thesis using init t ss keep [OF so(1)] by (simp add: record_handshake_def Let_def)
  next
    case resp
    obtain x where "rd out (off + 4) 4 = Some x" using rd_ok [of "off + 4" 4 out] b resp by auto
    moreover obtain y where "rd out (off + 8) 4 = Some y" using rd_ok [of "off + 8" 4 out] b resp by auto
    moreover have "profs_ok (c_profile_count cfg) (session_set_server_index (ss i) (Some (e i)) z)" for i z
      by (rule profs_ok_server_index [OF so(1)]) (use so(2) in auto)
    ultimately show ?thesis using resp t ss keep by (simp add: record_handshake_def Let_def)
  qed
qed

lemma wire_decode_long:
  assumes "wf_profile pr" "wire_decode cfg pr d = Some (k, m)"
  shows "4 \<le> length m"
proof (cases "pr_h4_noop pr \<and> read32_le (take 4 d) = 4 \<and> 32 \<le> length d")
  case True
  then show ?thesis using assms(2) by (auto simp: wire_decode_def)
next
  case False
  then have "find (claims cfg pr d) [Init, Response, Cookie, Transport] = Some k \<and> m = open_frame cfg pr k d"
    using assms(2) by (auto simp: wire_decode_def simp del: find.simps split: if_splits)
  then obtain k' where k': "claims cfg pr d k'" "m = open_frame cfg pr k' d" using find_SomeD by fast
  then have "size_matches pr k' (length d)" by (simp add: claims_def)
  then have "fits_kind k' (length (payload pr k' d))" using size_matches_parts [OF assms(1)] by metis
  moreover note k'(2)
  ultimately show ?thesis using length_open_frame [of k' pr d cfg] fits_kind_ge [of k' "length (payload pr k' d)"] by simp
qed

lemma c2s_reverse_pkt_ok:
  assumes inv: "batch_inv (hub_inv cfg) (forwarded cfg) bufs i ms st" and i: "i < length bufs"
    and n: "0 \<le> n" "n \<le> int (length (bufs ! i))" and d: "d = take (nat n) (bufs ! i)"
  shows "\<exists>st'. c2s_reverse_pkt i a n st = Some st' \<and> batch_inv (hub_inv cfg) (forwarded cfg) bufs (i + 1) (ms @ [d]) st'"
proof (cases "n = 0")
  case True
  then have "forwarded cfg [d] []" using d by simp
  from rev.skip_keeps [OF inv this] True show ?thesis by (simp add: c2s_reverse_pkt_def)
next
  case False
  define rest where "rest = drop (nat n) (bufs ! i)"
  have buf: "t_bufs st ! i = d @ rest" "n = int (length d)" "d \<noteq> []"
    using batch_invD(4) [OF inv i] n False by (auto simp: d rest_def)
  note hub = batch_invD(1) [OF inv]
  note D = hub_invD [OF hub] and C = decode_chain_cong [OF hub_invD(2) [OF hub]]
  define prof where "prof = reverse_profile (t_px st) a"
  have pe: "reverse_profile (t_px st) a = prof" by (simp add: prof_def)
  have prof: "0 \<le> prof" "prof < c_profile_count cfg" using hub_inv_profile [OF hub] by (simp_all add: prof_def)
  let ?pr = "c_profiles cfg ! nat prof"
  note P = profile_in_range [OF D(1) prof(1) prof(2) [folded D(4)], unfolded D(7)]
  obtain ks where f: "inbound_fast (px_cfg (t_px st)) ?pr (d @ rest) (int (length d)) =
      Some (ks, if fast_size ?pr (int (length d)) \<and> claims cfg ?pr d Transport
                then Some (restored (px_cfg (t_px st)) ?pr Transport d rest, pr_s4 ?pr, int (length d) - pr_s4 ?pr) else None)"
    "cache_ok cfg d (Some ks)"
    using inbound_fast_refines [OF P(2), of "px_cfg (t_px st)" d rest] unfolding C(3,5) by blast
  show ?thesis
  proof (cases "fast_size ?pr (int (length d)) \<and> claims cfg ?pr d Transport")
    case True
    then have cl: "claims (px_cfg (t_px st)) ?pr d Transport" using C(3) by simp
    note M = fast_message [OF P(2) cl]
    let ?b = "restored (px_cfg (t_px st)) ?pr Transport d rest"
    let ?p = "(t_px st)\<lparr>px_cfg := awg_window_note (px_cfg (t_px st)) n\<rparr>"
    have s4: "0 \<le> pr_s4 ?pr" "pr_s4 ?pr + 32 \<le> int (length ?b)"
      using wf_profileD(7) [OF P(2)] True M(3) [of rest] by (auto simp: fast_size_def)
    obtain p' where p': "follow_transport ?p a ?b (pr_s4 ?pr) = Some p'" "hub_inv cfg p'"
      using follow_transport_ok [OF hub_inv_note [OF hub] s4] by blast
    let ?st = "st\<lparr>t_px := p', t_bufs := (t_bufs st)[i := ?b],
        t_iov := t_iov st @ [\<lparr>iv_slot = i, iv_ptr = PBuf (pr_s4 ?pr), iv_len = n - pr_s4 ?pr\<rparr>]\<rparr>"
    have step: "c2s_reverse_pkt i a n st = Some ?st"
      using False n(1) P(1) f(1) True p'(1) buf by (simp add: c2s_reverse_pkt_def Let_def pe)
    have "fast_decode cfg ?pr d = Some (Transport, open_frame (px_cfg (t_px st)) ?pr Transport d)"
      using True C(4) by (simp add: fast_decode_def)
    then have dec: "chain_decodes cfg d prof (open_frame (px_cfg (t_px st)) ?pr Transport d)"
      using prof by (auto simp: chain_decodes_def)
    have "\<not> undecodable cfg d"
      using fast_decode_None [OF P(2)] True prof by (auto simp: undecodable_def)
    then have "forwarded cfg [d] [Inr (open_frame (px_cfg (t_px st)) ?pr Transport d)]" using dec buf(3) by auto
    from rev.push_keeps [OF inv i p'(2) M(1) this, where st' = ?st] step buf(2) show ?thesis by simp
  next
    case slow: False
    obtain st1 where s1: "flush st = Some st1" "batch_inv (hub_inv cfg) (forwarded cfg) bufs i ms st1" "t_iov st1 = []"
      "t_bufs st1 = t_bufs st" "t_px st1 = t_px st" "t_hs st1 = t_hs st"
      using rev.flush_keeps [OF inv] by blast
    obtain p' out found where r: "reverse_decode (t_px st) a prof (d @ rest) (int (length d)) ks = Some (p', out, found)"
      "hub_inv cfg p'"
      "case found of None \<Rightarrow> undecodable cfg d
       | Some (j, off, len) \<Rightarrow> \<exists>kind m. 0 \<le> j \<and> j < c_profile_count cfg \<and>
         wire_decode cfg (c_profiles cfg ! nat j) d = Some (kind, m) \<and> len = int (length m) \<and> rd out off len = Some m"
      using reverse_decode_ok [OF hub prof f(2), of a rest] by blast
    note alone = rev.alone_keeps [OF s1(2) i s1(3), where b = out and m = d and es = "[]"]
    have hs: "length (t_hs st) = 1500" using batch_invD(2) [OF inv] .
    have step: "c2s_reverse_pkt i a n st =
        (case found of None \<Rightarrow> Some (st1\<lparr>t_px := p', t_bufs := (t_bufs st)[i := out]\<rparr>)
         | Some (prof, off, len) \<Rightarrow> do { p \<leftarrow> record_handshake p' a prof out off len;
             Some (st1\<lparr>t_bufs := (t_bufs st)[i := out], t_px := p,
                       t_iov := t_iov st1 @ [\<lparr>iv_slot = i, iv_ptr = PBuf off, iv_len = len\<rparr>]\<rparr>) })"
      using False n(1) P(1) f(1) slow s1(1,4,5) r(1) buf
      by (auto simp: c2s_reverse_pkt_def Let_def pe split: option.split)
    show ?thesis
    proof (cases found)
      case None
      let ?st = "st1\<lparr>t_px := p', t_bufs := (t_bufs st)[i := out]\<rparr>"
      have "batch_inv (hub_inv cfg) (forwarded cfg) bufs (i + 1) (ms @ [d]) ?st"
        by (rule alone [where ds = "[]"]) (use r(2,3) None s1 hs in \<open>simp_all add: pending_def\<close>)
      then show ?thesis using step None by simp
    next
      case (Some fnd)
      obtain j off len where fnd: "fnd = (j, off, len)" by (cases fnd)
      then obtain kind m where m: "0 \<le> j" "j < c_profile_count cfg" "wire_decode cfg (c_profiles cfg ! nat j) d = Some (kind, m)"
        "len = int (length m)" "rd out off len = Some m" using r(3) Some by auto
      have "wf_profile (c_profiles cfg ! nat j)" using profile_in_range(2) [OF D(1) m(1)] m(2) D(4,7) by simp
      then have "4 \<le> len" using wire_decode_long [OF _ m(3)] m(4) by simp
      then obtain p'' where p'': "record_handshake p' a j out off len = Some p''" "hub_inv cfg p''"
        using record_handshake_ok [OF r(2) m(1,2,5)] by blast
      let ?st = "st1\<lparr>t_bufs := (t_bufs st)[i := out], t_px := p'', t_iov := [\<lparr>iv_slot = i, iv_ptr = PBuf off, iv_len = len\<rparr>]\<rparr>"
      have und: "\<not> undecodable cfg d" using m(1-3) by (auto simp: undecodable_def)
      have "chain_decodes cfg d j m" using m(1-3) by (auto simp: chain_decodes_def)
      then have "forwarded cfg [d] [Inr m]" using und buf(3) by auto
      moreover have "pending ?st = Some [m]"
        using m(5) i batch_invD(3) [OF inv] by (simp add: pending_def iov_read_def read_out_def)
      ultimately have "batch_inv (hub_inv cfg) (forwarded cfg) bufs (i + 1) (ms @ [d]) ?st"
        by (intro alone [where ds = "[m]"]) (use p''(2) s1 hs in simp_all)
      then show ?thesis using step Some fnd p''(1) s1(3) by simp
    qed
  qed
qed

lemma c2s_reverse_loop_ok:
  assumes "batch_inv (hub_inv cfg) (forwarded cfg) bufs i ms st" "batch_ok 0 (drop i bufs) (map snd ns)"
  shows "\<exists>st'. c2s_reverse_loop i ns st = Some st' \<and>
    batch_inv (hub_inv cfg) (forwarded cfg) bufs (i + length ns) (ms @ packets 0 (drop i bufs) (map snd ns)) st'"
  using assms
proof (induction ns arbitrary: i ms st)
  case (Cons an ns)
  obtain a n where an: "an = (a, n)" by (cases an)
  note H = batch_ok_head [OF Cons.prems(2) [unfolded list.map an snd_conv]]
  have n: "n \<le> int (length (bufs ! i))" using H(3) by simp
  obtain st1 where s1: "c2s_reverse_pkt i a n st = Some st1"
    "batch_inv (hub_inv cfg) (forwarded cfg) bufs (i + 1) (ms @ [take (nat n) (bufs ! i)]) st1"
    using c2s_reverse_pkt_ok [OF Cons.prems(1) H(1,2) n refl] by blast
  with Cons.IH [OF s1(2) H(5)] H(6) show ?case by (auto simp: an)
qed (simp add: packets_def)

section \<open>Properties\<close>

text \<open>
  C5. The transport fast path of the receiving side against the wire format, for every
  well-formed profile: trying the fast path first and the full inbound transformation second
  stays inside the buffer; what the fast path takes it delivers as the transport message of the
  datagram, which is what the wire format specifies, except under random trailers with unequal
  paddings: there the type field of a transport packet and that of a handshake lie at different
  offsets, both can match, and the fast path then delivers as transport a datagram that the
  specification reads as a handshake of a kind it names.  What the fast path leaves, the full transformation restores
  exactly as the wire format specifies.
\<close>

theorem inbound_fast_path_equivalent:
  assumes "wf_profile pr"
  shows "\<exists>ks hit. inbound_fast cfg pr (d @ rest) (int (length d)) = Some (ks, hit) \<and>
    (case hit of
       Some (buf', off, len) \<Rightarrow>
         \<exists>m. m = open_frame cfg pr Transport d \<and> len = int (length m) \<and> rd buf' off len = Some m \<and>
           (wire_decode cfg pr d = Some (Transport, m) \<or>
            pr_rt pr \<and> \<not> equal_paddings pr \<and> claims cfg pr d Transport \<and>
            (\<exists>k m'. k \<noteq> Transport \<and> claims cfg pr d k \<and> wire_decode cfg pr d = Some (k, m')))
     | None \<Rightarrow> \<exists>buf' ks' res. transform_inbound_profile (d @ rest) (int (length d)) cfg pr (Some ks) = Some (buf', ks', res) \<and>
         restores (wire_decode cfg pr d) buf' res)"
proof -
  obtain ks where f: "inbound_fast cfg pr (d @ rest) (int (length d)) =
      Some (ks, if fast_size pr (int (length d)) \<and> claims cfg pr d Transport
                then Some (restored cfg pr Transport d rest, pr_s4 pr, int (length d) - pr_s4 pr) else None)"
    "cache_ok cfg d (Some ks)"
    using inbound_fast_refines [OF assms(1)] by blast
  show ?thesis
  proof (cases "fast_size pr (int (length d)) \<and> claims cfg pr d Transport")
    case True
    then have cl: "claims cfg pr d Transport" by simp
    note spec = fast_hit_spec [OF assms True [THEN conjunct1] cl]
    show ?thesis
      using f(1) True fast_message [OF assms(1) cl] spec cl by simp
  next
    case False
    obtain buf' ks' res where t: "transform_inbound_profile (d @ rest) (int (length d)) cfg pr (Some ks) = Some (buf', ks', res)"
      "case wire_decode cfg pr d of None \<Rightarrow> res = None \<and> buf' = d @ rest
       | Some (k, m) \<Rightarrow> \<exists>off. res = Some (off, int (length m)) \<and> rd buf' off (int (length m)) = Some m"
      using inbound_refines [OF assms(1) f(2), of rest] by blast
    have "restores (wire_decode cfg pr d) buf' res" using t(2) by (auto simp: restores_def split: option.splits)
    then show ?thesis using t(1) False f(1) by auto
  qed
qed

text \<open>
  A datagram on which the exception occurs: trailers on, header protection off, paddings 20 and
  16, with a transport type at offset 16 and an initiation type at offset 20.
\<close>

definition trailer_profile :: awg_profile where
  "trailer_profile = config_compute_profile (example_profile\<lparr>pr_hp_on := False\<rparr>)"

definition two_types :: bytes where
  "two_types = replicate 16 0 @ [144, 1, 0, 0] @ [100, 0, 0, 0] @ replicate 145 0"

lemma wf_trailer_profile: "wf_profile trailer_profile"
  by (simp add: wf_profile_def config_validate_profile_def trailer_profile_def example_profile_def
      hrange_overlaps_def hrange_ordered_def)

lemma trailer_profile_fields:
  "pr_rt trailer_profile" "\<not> pr_hp_on trailer_profile" "\<not> pr_h4_noop trailer_profile"
  "pr_s1 trailer_profile = 20" "pr_s4 trailer_profile = 16" "pr_init_total trailer_profile = 168"
  "pr_resp_total trailer_profile = 122" "pr_cookie_total trailer_profile = 104"
  "pr_h1 trailer_profile = \<lparr>h_min = 100, h_max = 199\<rparr>" "pr_h4 trailer_profile = \<lparr>h_min = 400, h_max = 499\<rparr>"
  by (simp_all add: trailer_profile_def example_profile_def config_compute_profile_def Let_def)

lemma length_two_types: "length two_types = 169"
  by (simp add: two_types_def)

lemma two_types_claimed: "claims cfg trailer_profile two_types Transport" "claims cfg trailer_profile two_types Init"
  using trailer_profile_fields length_two_types
  by (simp_all add: claims_def size_matches_def type_at_def type_mask_def hrange_contains_def two_types_def)

lemma two_types_initiation:
  "wire_decode cfg trailer_profile two_types = Some (Init, open_frame cfg trailer_profile Init two_types)"
  using two_types_claimed(2) [of cfg] trailer_profile_fields(2,3) length_two_types by (simp add: wire_decode_def)

theorem inbound_fast_path_equivalent_witness:
  "wf_profile trailer_profile \<and>
   (\<exists>ks hit. inbound_fast example_config trailer_profile (two_types @ [7]) (int (length two_types)) = Some (ks, hit) \<and>
      (case hit of
         Some (buf', off, len) \<Rightarrow> rd buf' off len = Some (open_frame example_config trailer_profile Transport two_types)
       | None \<Rightarrow> False) \<and>
      wire_decode example_config trailer_profile two_types =
        Some (Init, open_frame example_config trailer_profile Init two_types))"
proof -
  obtain ks where f: "inbound_fast example_config trailer_profile (two_types @ [7]) (int (length two_types)) =
      Some (ks, Some (restored example_config trailer_profile Transport two_types [7], pr_s4 trailer_profile,
                      int (length two_types) - pr_s4 trailer_profile))"
    using inbound_fast_refines [OF wf_trailer_profile, of example_config two_types "[7]"]
      two_types_claimed(1) [of example_config] trailer_profile_fields length_two_types
    by (auto simp: fast_size_def)
  from inbound_fast_path_equivalent [OF wf_trailer_profile, of example_config two_types "[7]"] f
  show ?thesis using wf_trailer_profile two_types_initiation by auto
qed

text \<open>
  Server to client in normal mode: the handler stays inside its buffer, changes only the
  packet itself, delivers to the noted
  client exactly the message the datagram stands for under the active profile, drops what stands
  for none, and keeps the invariant of the proxy state.
\<close>

theorem s2c_normal_delivers:
  assumes "px_inv cfg p"
  shows "\<exists>p' buf' res. process_s2c_pkt_normal p (d @ rest) (int (length d)) = Some (p', buf', res) \<and>
    restores (fast_decode (px_cfg p) (config_snapshot_profile cfg) d) buf' (map_option (\<lambda>(off, len, a). (off, len)) res) \<and>
    in_place d rest buf' (map_option (\<lambda>(off, len, a). (off, len)) res) \<and>
    (\<forall>off len a. res = Some (off, len, a) \<longrightarrow> a = px_client_addr p) \<and> px_inv cfg p'"
  by (rule s2c_normal_ok [OF assms])

theorem s2c_normal_delivers_witness:
  "\<exists>p' buf' res. process_s2c_pkt_normal example_proxy ([1, 2, 3] @ replicate 97 0) (int (length [1 :: u8, 2, 3])) = Some (p', buf', res) \<and>
    res = None \<and> px_inv example_config p'"
proof -
  have "px_inv example_config example_proxy"
    using example_proxy_ok by (simp add: px_inv_def) (simp add: example_proxy_def)
  moreover have "fast_decode (px_cfg example_proxy) (config_snapshot_profile example_config) [1, 2, 3] = None"
    using wf_profileD(7) [OF px_invD(4) [OF calculation]] by (simp add: fast_decode_def wire_decode_def fast_size_def)
  ultimately show ?thesis
    using s2c_normal_delivers [of example_config example_proxy "[1, 2, 3]" "replicate 97 0"] by (auto simp: restores_def)
qed

text \<open>
  C6. A batch from clients in reverse and server mode: for every well-formed state of the hub and
  every batch in the receive buffers the loop stays inside its buffers and returns; every
  datagram that some profile of the chain decodes is forwarded to WireGuard as the decoded
  message, exactly once and in the order of arrival, and every other datagram is dropped; the
  session table, the profile cache and the configuration stay well formed.
\<close>

theorem c2s_reverse_batch_forwards:
  assumes "hub_inv (px_cfg p) p" "length hs = BUF_SIZE" "batch_ok 0 bufs (map snd ns)"
  shows "\<exists>st. c2s_reverse_batch p bufs hs ns = Some st \<and> t_iov st = [] \<and>
    forwarded (px_cfg p) (packets 0 bufs (map snd ns)) (wire_events (t_out st)) \<and> hub_inv (px_cfg p) (t_px st)"
proof -
  define q where "q = (if c_mode (px_cfg p) \<noteq> AWG_MODE_SERVER \<and> ns \<noteq> [] then fst (note_client_addr p (fst (hd ns))) else p)"
  have q: "hub_inv (px_cfg p) q" using assms(1)
    by (simp add: q_def note_client_addr_def hub_inv_def rings_ok_def ring_ok_def)
  let ?st = "\<lparr>t_px = q, t_bufs = bufs, t_hs = hs, t_iov = [], t_out = [], t_xport = False, t_bytes = 0\<rparr>"
  have "batch_inv (hub_inv (px_cfg p)) (forwarded (px_cfg p)) bufs 0 [] ?st"
    using q assms(2) by (simp add: batch_inv_def pending_def)
  from c2s_reverse_loop_ok [OF this] assms(3) obtain st where
    st: "c2s_reverse_loop 0 ns ?st = Some st"
    "batch_inv (hub_inv (px_cfg p)) (forwarded (px_cfg p)) bufs (length ns) (packets 0 bufs (map snd ns)) st" by auto
  obtain st' where "flush st = Some st'" "t_iov st' = []"
    "batch_inv (hub_inv (px_cfg p)) (forwarded (px_cfg p)) bufs (length ns) (packets 0 bufs (map snd ns)) st'"
    using rev.flush_keeps [OF st(2)] by blast
  then show ?thesis using st(1) by (auto simp: c2s_reverse_batch_def q_def batch_inv_def pending_def Let_def)
qed

lemma example_hub: "hub_inv (px_cfg example_proxy) example_proxy"
  using example_proxy_ok
  by (simp add: hub_inv_def same_chain_def)
    (simp add: example_proxy_def example_config_fields profs_ok_def list_all_iff empty_sessions_def empty_entry_def wf_sessions_def)

theorem c2s_reverse_batch_forwards_witness:
  "\<exists>st. c2s_reverse_batch example_proxy [replicate 1756 0] (replicate 1500 0) [(V4 1 2, 40)] = Some st \<and> t_iov st = [] \<and>
    hub_inv (px_cfg example_proxy) (t_px st)"
proof -
  have "batch_ok 0 [replicate 1756 0] (map snd [(V4 1 2, 40 :: int)])" by (simp add: batch_ok_def)
  from c2s_reverse_batch_forwards [OF example_hub _ this, of "replicate 1500 0"] show ?thesis by auto
qed

end
