(* ===== verification/Hub_Path.thy ===== *)
theory Hub_Path
  imports Inbound_Path
begin

text \<open>
  The server-to-client direction of reverse and server mode, from \<^verbatim>\<open>src/src/proxy.c\<close>
  (\<open>process_s2c_pkt_reverse\<close> and its loop in \<open>s2c_thread\<close>): routing a WireGuard packet to the
  client its session names, the transport fast path, the MAC1 key of the peer, and the batch of
  pending datagrams with their destinations.  Unlike the client-to-server loops, this batch is
  not flushed before a handshake is transformed, so two handshakes of one batch can share the
  static handshake buffer.  The theorems give the routing, the form of every datagram, what a
  batch puts on the wire, and in which order, when the paddings fit the headroom, and what
  happens when they do not.
\<close>

section \<open>Routing\<close>

text \<open>
  The sessions afterwards, the entry the packet is for, its type, and the peer an initiation
  names.
\<close>

definition hub_route :: "awg_config \<Rightarrow> sessions \<Rightarrow> bytes \<Rightarrow> int \<Rightarrow> int \<Rightarrow> (sessions \<times> nat option \<times> u32 \<times> int) option" where
  "hub_route cfg ss base off n =
     do { t \<leftarrow> rd base off 4;
          let msg_type = read32_le t;
          if msg_type = WG_TRANSPORT_DATA \<and> n \<ge> WG_TRANSPORT_MIN \<or> msg_type = WG_COOKIE_REPLY \<and> n = WG_COOKIE_SIZE
          then do { r \<leftarrow> rd base (off + 4) 4; Some (ss, session_get_entry ss (read32_le r), msg_type, -1) }
          else if msg_type = WG_HANDSHAKE_RESPONSE \<and> n = WG_RESP_SIZE
          then do { r \<leftarrow> rd base (off + 8) 4;
                    sidx \<leftarrow> rd base (off + 4) 4;
                    let e = session_get_entry ss (read32_le r);
                    Some (session_set_server_index ss e (read32_le sidx), e, msg_type, -1) }
          else if msg_type = WG_HANDSHAKE_INIT \<and> n = WG_INIT_SIZE
          then do { m \<leftarrow> rd base off n;
                    let peer = config_server_resolve_peer_for_init cfg m;
                    let e = (if peer \<ge> 0 then session_find_by_peer ss peer else None);
                    Some (ss, if e = None then session_find_sole_entry ss else e, msg_type, peer) }
          else Some (ss, None, msg_type, -1) }"

text \<open>The destination: the entry of a hub, or the single client of a 1:1 proxy.\<close>

record s2c_dest =
  de_entry :: "nat option"
  de_addr :: cliaddr
  de_type :: u32
  de_peer :: int

definition s2c_destination :: "proxy \<Rightarrow> bytes \<Rightarrow> int \<Rightarrow> int \<Rightarrow> (proxy \<times> s2c_dest option) option" where
  "s2c_destination p base off n =
     (if c_mode (px_cfg p) = AWG_MODE_SERVER
      then if n < 4 then Some (p, None)
           else do { (ss, e, t, peer) \<leftarrow> hub_route (px_cfg p) (px_sessions p) base off n;
                     Some (p\<lparr>px_sessions := ss\<rparr>,
                           map_option (\<lambda>s. \<lparr>de_entry = Some s, de_addr = se_addr (ss_entries ss ! s),
                                            de_type = t, de_peer = peer\<rparr>) e) }
      else Some (p, if px_has_client p
                    then Some \<lparr>de_entry = None, de_addr = px_client_addr p, de_type = 0, de_peer = -1\<rparr> else None))"

definition s2c_profile :: "proxy \<Rightarrow> s2c_dest \<Rightarrow> int" where
  "s2c_profile p de =
     (case de_entry de of
        Some s \<Rightarrow> if c_profile_count (px_cfg p) > 1 then se_prof (ss_entries (px_sessions p) ! s) else c_active_profile (px_cfg p)
      | None \<Rightarrow> c_active_profile (px_cfg p))"

section \<open>The packet\<close>

definition s2c_fast :: "int \<Rightarrow> awg_profile \<Rightarrow> int \<Rightarrow> proxy \<Rightarrow> bytes \<Rightarrow> int \<Rightarrow> (bytes \<times> proxy \<times> int \<times> int) option" where
  "s2c_fast prefix pr prof p buf n =
     do { (buf, p) \<leftarrow>
            (if \<not> pr_h4_noop pr
             then do { (h4, p) \<leftarrow> pick_h4_prof p prof; buf \<leftarrow> wr buf prefix (write32_le h4); Some (buf, p) }
             else Some (buf, p));
          (buf, p, out, total) \<leftarrow>
            (if pr_s4 pr > 0 \<and> prefix \<ge> pr_s4 pr
             then (let (pad, rng) = fastrand_fill (px_rng_s2c p) (nat (pr_s4 pr))
                   in do { buf \<leftarrow> wr buf (prefix - pr_s4 pr) pad;
                           buf \<leftarrow> (if pr_hp_on pr
                                   then do { nonce \<leftarrow> rd buf (prefix - pr_s4 pr) 12;
                                             m \<leftarrow> rd buf prefix AWG_HP_TRANSPORT_HDR;
                                             wr buf prefix (chacha20_xor (c_hp_key (px_cfg p)) nonce m) }
                                   else Some buf);
                           Some (buf, p\<lparr>px_rng_s2c := rng\<rparr>, prefix - pr_s4 pr, pr_s4 pr + n) })
             else Some (buf, p, prefix, n));
          Some (buf, p\<lparr>px_cfg := awg_window_note (px_cfg p) total\<rparr>, out, total) }"

text \<open>The peer of a handshake: the sessions afterwards and the key its MAC1 is recomputed under.\<close>

definition hub_peer :: "awg_config \<Rightarrow> sessions \<Rightarrow> s2c_dest \<Rightarrow> bytes \<Rightarrow> sessions \<times> bytes option" where
  "hub_peer cfg ss de m =
     (let e = de_entry de; keys = c_server_peer_mac1keys cfg;
          ss = (if de_peer de \<ge> 0 then session_set_peer_slot ss e (de_peer de) else ss);
          slot = session_get_peer_slot ss e;
          key = (if slot \<ge> 0 \<and> slot < int (length keys) then Some (keys ! nat slot) else None);
          resolved = (if de_type de = WG_HANDSHAKE_RESPONSE \<and> length m = 92 \<and> key = None
                      then config_server_resolve_peer_for_response cfg m else -1);
          ss = (if resolved \<ge> 0 then session_set_peer_slot ss e resolved else ss);
          key = (if resolved \<ge> 0 then Some (keys ! nat resolved) else key);
          slot = (if resolved \<ge> 0 then resolved else slot)
      in (if slot \<ge> 0 then session_drop_moved_peer ss slot (Some (de_addr de)) else ss, key))"

datatype s2c_out = Dropped | Queued out_ptr int cliaddr | Sent "bytes list" bytes cliaddr

definition s2c_slow ::
    "nat \<Rightarrow> (nat \<Rightarrow> nat \<Rightarrow> u32) \<Rightarrow> int \<Rightarrow> awg_profile \<Rightarrow> s2c_dest \<Rightarrow> proxy \<Rightarrow> bytes \<Rightarrow> bytes \<Rightarrow> int
     \<Rightarrow> (proxy \<times> bytes \<times> bytes \<times> s2c_out) option" where
  "s2c_slow size_max clk prefix pr de p buf hs n =
     do { (p, key) \<leftarrow>
            (if c_mode (px_cfg p) = AWG_MODE_SERVER
             then do { m \<leftarrow> rd buf prefix n;
                       let (ss, key) = hub_peer (px_cfg p) (px_sessions p) de m;
                       Some (p\<lparr>px_sessions := ss\<rparr>, key) }
             else Some (p, None));
          let (rand, rng) = fastrand_u64 (px_rng_s2c p);
          let p = p\<lparr>px_rng_s2c := rng\<rparr>;
          r \<leftarrow> transform_outbound_profile buf hs prefix n (px_cfg p) pr key rand;
          if o_ptr r = PNull then Some (p, o_buf r, o_hs r, Dropped)
          else if o_junk r
          then do { (train, p) \<leftarrow> send_junk_and_cps_to size_max clk p;
                    d \<leftarrow> datagram r;
                    Some (p, o_buf r, o_hs r, Sent train d (de_addr de)) }
          else Some (p, o_buf r, o_hs r, Queued (o_ptr r) (o_len r) (de_addr de)) }"

definition process_s2c_pkt_reverse ::
    "nat \<Rightarrow> (nat \<Rightarrow> nat \<Rightarrow> u32) \<Rightarrow> int \<Rightarrow> proxy \<Rightarrow> bytes \<Rightarrow> bytes \<Rightarrow> int \<Rightarrow> (proxy \<times> bytes \<times> bytes \<times> s2c_out) option" where
  "process_s2c_pkt_reverse size_max clk prefix p buf hs n =
     do { (p, dest) \<leftarrow> s2c_destination p buf prefix n;
          case dest of
            None \<Rightarrow> Some (p, buf, hs, Dropped)
          | Some de \<Rightarrow>
              do { let prof = s2c_profile p de;
                   pr \<leftarrow> profile_at (px_cfg p) prof;
                   transport \<leftarrow> c2s_is_transport prefix buf n;
                   if transport
                   then do { (buf, p, out, total) \<leftarrow> s2c_fast prefix pr prof p buf n;
                             Some (p, buf, hs, Queued (PBuf out) total (de_addr de)) }
                   else s2c_slow size_max clk prefix pr de p buf hs n } }"

section \<open>The batch\<close>

record s2c_state =
  u_px :: proxy
  u_bufs :: "bytes list"
  u_hs :: bytes
  u_iov :: "(iov \<times> cliaddr) list"
  u_sent :: "(bytes list \<times> bytes \<times> cliaddr) list"

definition s2c_reverse_pkt :: "nat \<Rightarrow> (nat \<Rightarrow> nat \<Rightarrow> u32) \<Rightarrow> int \<Rightarrow> nat \<Rightarrow> int \<Rightarrow> s2c_state \<Rightarrow> s2c_state option" where
  "s2c_reverse_pkt size_max clk prefix i n st =
     (if n \<le> 0 then Some st
      else do { (p, buf, hs, out) \<leftarrow> process_s2c_pkt_reverse size_max clk prefix (u_px st) (u_bufs st ! i) (u_hs st) n;
                let st = st\<lparr>u_px := p, u_bufs := (u_bufs st)[i := buf], u_hs := hs\<rparr>;
                Some (case out of
                        Dropped \<Rightarrow> st
                      | Queued ptr len a \<Rightarrow> st\<lparr>u_iov := u_iov st @ [(\<lparr>iv_slot = i, iv_ptr = ptr, iv_len = len\<rparr>, a)]\<rparr>
                      | Sent train d a \<Rightarrow> st\<lparr>u_sent := u_sent st @ [(train, d, a)]\<rparr>) })"

fun s2c_reverse_loop :: "nat \<Rightarrow> (nat \<Rightarrow> nat \<Rightarrow> nat \<Rightarrow> u32) \<Rightarrow> int \<Rightarrow> nat \<Rightarrow> int list \<Rightarrow> s2c_state \<Rightarrow> s2c_state option" where
  "s2c_reverse_loop size_max clk prefix i [] st = Some st"
| "s2c_reverse_loop size_max clk prefix i (n # ns) st =
     do { st \<leftarrow> s2c_reverse_pkt size_max (clk i) prefix i n st;
          s2c_reverse_loop size_max clk prefix (i + 1) ns st }"

text \<open>The datagrams of the final send, each with its destination.\<close>

definition s2c_batch_data :: "s2c_state \<Rightarrow> (bytes \<times> cliaddr) list option" where
  "s2c_batch_data st =
     those (map (\<lambda>(v, a). map_option (\<lambda>d. (d, a)) (iov_read (u_bufs st) (u_hs st) v)) (u_iov st))"

definition s2c_reverse_batch ::
    "nat \<Rightarrow> (nat \<Rightarrow> nat \<Rightarrow> nat \<Rightarrow> u32) \<Rightarrow> int \<Rightarrow> proxy \<Rightarrow> bytes list \<Rightarrow> bytes \<Rightarrow> int list
     \<Rightarrow> (s2c_state \<times> (bytes \<times> cliaddr) list) option" where
  "s2c_reverse_batch size_max clk prefix p bufs hs ns =
     do { st \<leftarrow> s2c_reverse_loop size_max clk prefix 0 ns \<lparr>u_px = p, u_bufs = bufs, u_hs = hs, u_iov = [], u_sent = []\<rparr>;
          ds \<leftarrow> s2c_batch_data st;
          Some (st, ds) }"

section \<open>The state a packet step keeps\<close>

definition s2c_inv :: "nat \<Rightarrow> awg_config \<Rightarrow> proxy \<Rightarrow> bool" where
  "s2c_inv size_max cfg p \<longleftrightarrow> hub_inv cfg p \<and> cfg_grown cfg (px_cfg p) \<and> junk_fits size_max cfg (px_junk_buf p)"

lemma s2c_inv_sessions:
  "s2c_inv size_max cfg p \<Longrightarrow> profs_ok (c_profile_count cfg) ss \<Longrightarrow> s2c_inv size_max cfg (p\<lparr>px_sessions := ss\<rparr>)"
  by (simp add: s2c_inv_def hub_inv_sessions)

lemma s2c_inv_note: "s2c_inv size_max cfg p \<Longrightarrow> s2c_inv size_max cfg (p\<lparr>px_cfg := awg_window_note (px_cfg p) n\<rparr>)"
  using hub_inv_note [of cfg p n] cfg_grown_trans [OF _ cfg_grown_note, of cfg "px_cfg p" n] by (simp add: s2c_inv_def)

lemma s2c_inv_rng: "s2c_inv size_max cfg p \<Longrightarrow> s2c_inv size_max cfg (p\<lparr>px_rng_s2c := r\<rparr>)"
  by (simp add: s2c_inv_def hub_inv_def rings_ok_def ring_ok_def)

lemma s2c_inv_ring: "s2c_inv size_max cfg p \<Longrightarrow> ring_change p p' \<Longrightarrow> rings_ok p' \<Longrightarrow> s2c_inv size_max cfg p'"
  by (auto simp: s2c_inv_def hub_inv_def ring_change_def)

lemma profs_ok_peer_slot:
  assumes "profs_ok count ss"
  shows "profs_ok count (session_set_peer_slot ss e slot)"
proof (cases e)
  case None
  then show ?thesis using assms by (simp add: session_set_peer_slot_def)
next
  case (Some s)
  show ?thesis
    by (rule profs_ok_cong [OF assms])
      (use wf_sessions_map [OF assms] in \<open>simp_all add: Some session_set_peer_slot_def map_update_same\<close>)
qed

lemma profs_ok_drop:
  assumes "profs_ok count ss"
  shows "profs_ok count (session_drop_moved_peer ss slot cur)"
proof (cases "cur = None \<or> slot < 0")
  case True
  then show ?thesis using assms by (cases cur) (simp_all add: session_drop_moved_peer_def)
next
  case False
  then obtain c where c: "cur = Some c" by auto
  show ?thesis
    by (rule profs_ok_cong [OF assms])
      (use wf_sessions_map [OF assms] False in \<open>simp_all add: c session_drop_moved_peer_def\<close>)
qed

lemma profs_ok_hub_peer: "profs_ok count ss \<Longrightarrow> profs_ok count (fst (hub_peer cfg ss de m))"
  by (simp add: hub_peer_def Let_def profs_ok_peer_slot profs_ok_drop)

lemma entry_in_table: "session_get_entry ss i = Some s \<Longrightarrow> s < 4096"
  unfolding session_get_entry_def by (drule find_SomeD) (metis in_set_conv_decomp probe_set)

lemma first_index_less: "first_index P xs = Some i \<Longrightarrow> i < length xs"
  by (simp add: first_index_Some)

lemma sole_less:
  assumes "sole_scan es i found = Some s" "\<And>j a. found = Some (j, a) \<Longrightarrow> j < i + length es"
  shows "s < i + length es"
  using assms
proof (induction es arbitrary: i found)
  case (Cons e es)
  show ?case
  proof (cases "se_valid e")
    case False
    then show ?thesis using Cons.prems Cons.IH [of "i + 1" found] by auto
  next
    case True
    then show ?thesis using Cons.prems Cons.IH [of "i + 1" "Some (i, se_addr e)"] Cons.IH [of "i + 1" found]
      by (auto split: option.splits if_splits)
  qed
qed auto

text \<open>A routed packet names a live slot of the table and leaves the sessions well formed.\<close>

lemma hub_route_ok:
  assumes "profs_ok count ss" "0 \<le> off" "4 \<le> n" "off + n \<le> int (length base)"
  shows "\<exists>ss' e t peer. hub_route cfg ss base off n = Some (ss', e, t, peer) \<and> profs_ok count ss' \<and> (\<forall>s. e = Some s \<longrightarrow> s < 4096)"
proof -
  have r: "\<exists>x. rd base (off + k) 4 = Some x" if "0 \<le> k" "k + 4 \<le> n" for k
    using rd_ok [of "off + k" 4 base] that assms by auto
  obtain t where t: "rd base off 4 = Some t" using r [of 0] assms by auto
  have len: "length (ss_entries ss) = 4096" using assms(1) by (simp add: profs_ok_def wf_sessions_def)
  have peer: "session_find_by_peer ss k = Some s \<Longrightarrow> s < 4096" for k s
    using first_index_less [of _ "ss_entries ss" s] len by (auto simp: session_find_by_peer_def split: if_splits)
  have sole: "session_find_sole_entry ss = Some s \<Longrightarrow> s < 4096" for s
    using sole_less [of "ss_entries ss" 0 None s] len by (simp add: session_find_sole_entry_def)
  have m: "\<exists>m. rd base off n = Some m" using rd_ok [of off n base] assms by auto
  consider (get) "read32_le t = 4 \<and> n \<ge> 32 \<or> read32_le t = 3 \<and> n = 64" | (resp) "read32_le t = 2" "n = 92"
    | (init) "read32_le t = 1" "n = 148" | (none) "\<not> (read32_le t = 4 \<and> n \<ge> 32)" "\<not> (read32_le t = 3 \<and> n = 64)"
      "\<not> (read32_le t = 2 \<and> n = 92)" "\<not> (read32_le t = 1 \<and> n = 148)" by blast
  then show ?thesis
  proof cases
    case get
    then have "8 \<le> n" by auto
    then obtain x where "rd base (off + 4) 4 = Some x" using r [of 4] by auto
    then show ?thesis using t get assms(1) entry_in_table by (auto simp: hub_route_def Let_def)
  next
    case resp
    then obtain x y where "rd base (off + 4) 4 = Some x" "rd base (off + 8) 4 = Some y" using r [of 4] r [of 8] by auto
    moreover have "profs_ok count (session_set_server_index ss (session_get_entry ss i) z)" for i z
      by (rule profs_ok_server_index [OF assms(1)]) (rule entry_in_table)
    ultimately show ?thesis using t resp entry_in_table by (auto simp: hub_route_def Let_def)
  next
    case init
    then show ?thesis using t m assms(1) peer sole by (auto simp: hub_route_def Let_def)
  next
    case none
    then show ?thesis using t assms(1) by (auto simp: hub_route_def Let_def)
  qed
qed

lemma s2c_destination_ok:
  assumes inv: "s2c_inv size_max cfg p" and "0 \<le> off" "0 < n" "off + n \<le> int (length base)"
  shows "\<exists>p' dest. s2c_destination p base off n = Some (p', dest) \<and> s2c_inv size_max cfg p' \<and>
    (\<forall>de. dest = Some de \<longrightarrow> 0 \<le> s2c_profile p' de \<and> s2c_profile p' de < c_profile_count cfg)"
proof -
  have hub: "hub_inv cfg p" using inv by (simp add: s2c_inv_def)
  note D = hub_invD [OF hub]
  show ?thesis
  proof (cases "c_mode (px_cfg p) = AWG_MODE_SERVER \<and> 4 \<le> n")
    case False
    then show ?thesis using inv D by (auto simp: s2c_destination_def s2c_profile_def)
  next
    case True
    then have "4 \<le> n" by simp
    from hub_route_ok [OF D(5) assms(2) this assms(4)] obtain ss e t peer where
      r: "hub_route (px_cfg p) (px_sessions p) base off n = Some (ss, e, t, peer)" "profs_ok (c_profile_count cfg) ss"
        "\<forall>s. e = Some s \<longrightarrow> s < 4096" by blast
    have "0 \<le> se_prof (ss_entries ss ! s) \<and> se_prof (ss_entries ss ! s) < c_profile_count cfg" if "e = Some s" for s
      using r(2,3) that by (auto simp: profs_ok_def wf_sessions_def list_all_length)
    then show ?thesis using True r s2c_inv_sessions [OF inv r(2)] D
      by (auto simp: s2c_destination_def s2c_profile_def split: option.split)
  qed
qed

section \<open>The datagram of a packet\<close>

lemma ring_change_refl [simp]: "ring_change p p"
  unfolding ring_change_def
  by (intro exI [of _ "px_h4_ring p"] exI [of _ "px_h4_idx p"] exI [of _ "px_rng p"]) simp

lemma h4_pick_prof_ok:
  assumes wf: "wf_config (px_cfg p)" and R: "rings_ok p" and prof: "0 \<le> prof" "prof < c_profile_count (px_cfg p)"
    and pr: "pr = c_profiles (px_cfg p) ! nat prof" and m: "4 \<le> length m" "read32_le (take 4 m) = 4"
  shows "\<exists>v p'. (if \<not> pr_h4_noop pr
      then do { (h4, p) \<leftarrow> pick_h4_prof p prof; buf \<leftarrow> wr (b @ m @ q) (int (length b)) (write32_le h4); Some (buf, p) }
      else Some (b @ m @ q, p)) = Some (b @ set_type v m @ q, p') \<and>
    hrange_contains (pr_h4 pr) v \<and> rings_ok p' \<and> ring_change p p'"
proof (cases "pr_h4_noop pr")
  case True
  have "wf_profile pr" using profile_in_range(2) [OF wf prof] pr by simp
  then have "hrange_contains (pr_h4 pr) 4" using wf_profile_derived(2) True by (simp add: hrange_contains_def)
  then show ?thesis using True R set_type_same [OF m] by (intro exI [of _ 4] exI [of _ p]) simp
next
  case False
  obtain v p' where v: "pick_h4_prof p prof = Some (v, p')" "hrange_contains (pr_h4 pr) v" "rings_ok p'" "ring_change p p'"
    using pick_h4_prof_ok [OF wf R prof] pr by auto
  then show ?thesis using False wr_type [OF m(1), of b q v] by (intro exI [of _ v] exI [of _ p']) simp
qed

lemma s2c_fast_ok:
  assumes inv: "s2c_inv size_max cfg p" and prof: "0 \<le> prof" "prof < c_profile_count cfg"
    and pr: "pr = c_profiles cfg ! nat prof" and k: "classify m = Some Transport" and pre: "prefix = int (length b)" "pr_s4 pr \<le> prefix"
  shows "\<exists>buf' p' d. s2c_fast prefix pr prof p (b @ m @ q) (int (length m)) =
      Some (buf', p', prefix - pr_s4 pr, pr_s4 pr + int (length m)) \<and>
    length buf' = length (b @ m @ q) \<and> rd buf' (prefix - pr_s4 pr) (pr_s4 pr + int (length m)) = Some d \<and>
    wire_form cfg pr mk m d \<and> s2c_inv size_max cfg p'"
proof -
  have hub: "hub_inv cfg p" using inv by (simp add: s2c_inv_def)
  note D = hub_invD [OF hub] and c = classify_Some [OF k]
  have prw: "wf_profile pr" using profile_in_range(2) [OF D(1) prof(1) prof(2) [folded D(4)]] D(7) pr by simp
  have len: "32 \<le> length m" "4 \<le> length m" using fits_kind_ge [OF c(2)] by auto
  have s4: "0 \<le> pr_s4 pr" "pr_hp_on pr \<Longrightarrow> 12 \<le> pr_s4 pr" using wf_profileD(7,12) [OF prw] by auto
  have pr': "pr = c_profiles (px_cfg p) ! nat prof" using pr D(7) by simp
  obtain v p1 where h: "(if \<not> pr_h4_noop pr
      then do { (h4, p) \<leftarrow> pick_h4_prof p prof; buf \<leftarrow> wr (b @ m @ q) (int (length b)) (write32_le h4); Some (buf, p) }
      else Some (b @ m @ q, p)) = Some (b @ set_type v m @ q, p1)"
    and v: "hrange_contains (pr_h4 pr) v" and R: "rings_ok p1" and rc: "ring_change p p1"
    using h4_pick_prof_ok [OF D(1,3) prof(1) prof(2) [folded D(4)] pr' len(2), where b = b and q = q] c(1)
    unfolding kind_type.simps by blast
  note i1 = s2c_inv_ring [OF inv rc R]
  have key: "c_hp_key (px_cfg p1) = c_hp_key cfg" using i1 by (auto simp: s2c_inv_def hub_inv_def same_chain_def)
  obtain pad rng where pad: "fastrand_fill (px_rng_s2c p1) (nat (pr_s4 pr)) = (pad, rng)" by fastforce
  have lp: "length pad = nat (pr_s4 pr)" using pad length_fastrand_fill [of "px_rng_s2c p1" "nat (pr_s4 pr)"] by simp
  let ?f = "frame cfg pr Transport pad (set_type v m) []"
  define x where "x = drop (length b - nat (pr_s4 pr)) b"
  define b' where "b' = take (length b - nat (pr_s4 pr)) b"
  have bx: "b = b' @ x" "length x = length pad" "int (length b') = prefix - pr_s4 pr"
    using pre lp s4(1) by (simp_all add: b'_def x_def)
  define p2 where "p2 = (if 0 < pr_s4 pr then p1\<lparr>px_rng_s2c := rng\<rparr> else p1)"
  define p3 where "p3 = p2\<lparr>px_cfg := awg_window_note (px_cfg p2) (pr_s4 pr + int (length m))\<rparr>"
  have st: "length (set_type v m) = length m" using len by (simp add: length_set_type)
  have fs: "length x = length pad" "16 \<le> length (set_type v m)" "int (length pad) = pr_s4 pr"
    using bx lp s4(1) len st by auto
  note fs = frame_steps [OF fs, where p = b' and q = q]
  have pos: "int (length b) - pr_s4 pr = int (length b')" "int (length b) = int (length b') + pr_s4 pr"
    using bx(3) pre(1) by auto
  have buf: "b @ set_type v m @ q = b' @ x @ set_type v m @ q" using bx(1) by simp
  have "s2c_fast prefix pr prof p (b @ m @ q) (int (length m)) =
      Some (b' @ ?f @ q, p3, prefix - pr_s4 pr, pr_s4 pr + int (length m))"
  proof (cases "0 < pr_s4 pr")
    case True
    then have "pr_hp_on pr \<Longrightarrow> 12 \<le> length pad" using s4(2) lp by auto
    moreover have "int (length b) \<ge> pr_s4 pr" using pre by simp
    ultimately show ?thesis unfolding s2c_fast_def pre(1) h unfolding pos buf
      using True pad key fs
      by (cases "pr_hp_on pr") (simp_all add: p2_def p3_def frame_def protect_def protected_len_def)
  next
    case False
    then have "\<not> pr_hp_on pr" "pad = []" "x = []" "pr_s4 pr = 0" using s4 lp bx(2) by auto
    then show ?thesis unfolding s2c_fast_def pre(1) h
      using False bx(1) by (simp add: p2_def p3_def frame_def protect_def)
  qed
  moreover have "rd (b' @ ?f @ q) (prefix - pr_s4 pr) (pr_s4 pr + int (length m)) = Some ?f"
    by (rule rd_split) (use bx lp s4(1) st in \<open>auto simp: frame_def\<close>)
  moreover have "wire_form cfg pr mk m ?f"
    unfolding wire_form_def k option.case frame_of_def
    by (intro exI [of _ v] exI [of _ pad] exI [of _ "[]"])
      (use prw v s4 lp c(2) st in \<open>auto simp: well_framed_def\<close>)
  moreover have "s2c_inv size_max cfg p3"
    unfolding p3_def by (rule s2c_inv_note) (use i1 s2c_inv_rng [OF i1] in \<open>simp add: p2_def\<close>)
  moreover have "length (b' @ ?f @ q) = length (b @ m @ q)" using bx lp st by (simp add: frame_def)
  ultimately show ?thesis by blast
qed

text \<open>Where the transformed packet lies.\<close>

lemma emit_pointer:
  "emit_handshake cfg pr s n seed buf off hs = Some (buf', hs', ptr, l) \<Longrightarrow>
     (if s > 0 \<and> off < s then ptr = PHs else ptr = PBuf (if s > 0 then off - s else off) \<and> hs' = hs)"
  by (auto simp: emit_handshake_def split: if_splits bind_splits)

lemma outbound_pointer:
  assumes "transform_outbound_profile buf hs off n cfg pr key rand = Some r" "pr_s1 pr \<le> off" "pr_s2 pr \<le> off" "pr_s3 pr \<le> off"
  shows "o_ptr r = PNull \<or> (\<exists>x. o_ptr r = PBuf x)"
  using assms unfolding transform_outbound_profile_def Let_def
  by (auto split: if_splits bind_splits dest!: emit_pointer)

text \<open>What has to happen to a packet for destination \<open>a\<close> in profile \<open>pr\<close>, with MAC1 under \<open>mk\<close>.\<close>

definition good_out :: "nat \<Rightarrow> awg_config \<Rightarrow> int \<Rightarrow> awg_profile \<Rightarrow> bytes option \<Rightarrow> bytes \<Rightarrow> cliaddr \<Rightarrow> bytes \<Rightarrow> bytes \<Rightarrow> s2c_out \<Rightarrow> bool" where
  "good_out size_max cfg prefix pr mk m a buf hs out \<longleftrightarrow>
     (if classify m = Some Cookie \<and> c_disable_cookies cfg then out = Dropped
      else \<exists>d. wire_form cfg pr mk m d \<and>
        ((\<exists>ptr len. out = Queued ptr len a \<and> read_out buf hs ptr len = Some d \<and>
            (pr_s1 pr \<le> prefix \<and> pr_s2 pr \<le> prefix \<and> pr_s3 pr \<le> prefix \<longrightarrow> (\<exists>x. ptr = PBuf x))) \<or>
         (\<exists>ts. out = Sent ts d a \<and> classify m = Some Init \<and> train_ok size_max cfg ts)))"

definition peer_key :: "proxy \<Rightarrow> s2c_dest \<Rightarrow> bytes \<Rightarrow> bytes option" where
  "peer_key p de m =
     (if c_mode (px_cfg p) = AWG_MODE_SERVER then snd (hub_peer (px_cfg p) (px_sessions p) de m) else None)"

definition mac_key :: "awg_config \<Rightarrow> bytes option \<Rightarrow> bytes option" where
  "mac_key cfg key = (case key of Some k \<Rightarrow> Some k | None \<Rightarrow> c_mac1key_out cfg)"

lemma s2c_slow_ok:
  assumes inv: "s2c_inv size_max cfg p" and cps: "cps_returns cfg" and wf: "wf_profile pr" "pr_s4 pr \<le> int prefix"
    and n: "0 < n" "int prefix + n \<le> int (length buf)" "prefix + 1500 \<le> length buf" "length hs = 1500"
    and m: "m = take (nat n) (drop prefix buf)"
  shows "\<exists>p' buf' hs' out. s2c_slow size_max clk (int prefix) pr de p buf hs n = Some (p', buf', hs', out) \<and>
    s2c_inv size_max cfg p' \<and> length buf' = length buf \<and> length hs' = 1500 \<and>
    good_out size_max cfg (int prefix) pr (mac_key cfg (peer_key p de m)) m (de_addr de) buf' hs' out"
proof -
  let ?server = "c_mode (px_cfg p) = AWG_MODE_SERVER"
  define key where "key = peer_key p de m"
  define p1 where "p1 = (if ?server then p\<lparr>px_sessions := fst (hub_peer (px_cfg p) (px_sessions p) de m)\<rparr> else p)"
  have po: "profs_ok (c_profile_count cfg) (px_sessions p)" using inv hub_invD(5) by (simp add: s2c_inv_def)
  have i1: "s2c_inv size_max cfg p1" using inv s2c_inv_sessions [OF inv profs_ok_hub_peer [OF po]] by (simp add: p1_def)
  have rdm: "rd buf (int prefix) n = Some m" using n m by (simp add: rd_def)
  have first: "(if ?server
      then do { m \<leftarrow> rd buf (int prefix) n; let (ss, key) = hub_peer (px_cfg p) (px_sessions p) de m; Some (p\<lparr>px_sessions := ss\<rparr>, key) }
      else Some (p, None)) = Some (p1, key)"
    using rdm by (simp add: p1_def key_def peer_key_def Let_def split_beta)
  obtain rand rng where rr: "fastrand_u64 (px_rng_s2c p1) = (rand, rng)" by fastforce
  define p2 where "p2 = p1\<lparr>px_rng_s2c := rng\<rparr>"
  have i2: "s2c_inv size_max cfg p2" unfolding p2_def by (rule s2c_inv_rng [OF i1])
  have G: "cfg_grown cfg (px_cfg p2)" "junk_fits size_max cfg (px_junk_buf p2)" using i2 by (simp_all add: s2c_inv_def)
  note F = cfg_grown_fields [OF G(1)]
  have mm: "m = take (nat n) (drop (nat (int prefix)) buf)" using m by simp
  have n3: "int prefix + 1500 \<le> int (length buf)" using n(3) by simp
  have mk: "mac_key cfg key = (case key of Some k \<Rightarrow> Some k | None \<Rightarrow> c_mac1key_out (px_cfg p2))"
    unfolding mac_key_def F(6) ..
  obtain r where r: "transform_outbound_profile buf hs (int prefix) n (px_cfg p2) pr key rand = Some r"
    "length (o_buf r) = length buf" "length (o_hs r) = 1500" "outbound_spec (px_cfg p2) pr (mac_key cfg key) rand m r"
    using transform_outbound_safe [OF wf n3 n(4) less_imp_le [OF n(1)] n(2) mm mk] by blast
  have step: "s2c_slow size_max clk (int prefix) pr de p buf hs n =
     (if o_ptr r = PNull then Some (p2, o_buf r, o_hs r, Dropped)
      else if o_junk r
      then do { (train, p) \<leftarrow> send_junk_and_cps_to size_max clk p2; d \<leftarrow> datagram r; Some (p, o_buf r, o_hs r, Sent train d (de_addr de)) }
      else Some (p2, o_buf r, o_hs r, Queued (o_ptr r) (o_len r) (de_addr de)))"
    unfolding s2c_slow_def first using rr r(1) by (simp add: p2_def)
  show ?thesis
  proof (cases "classify m = Some Cookie \<and> c_disable_cookies cfg")
    case True
    then have "o_ptr r = PNull" using r(4) F(8) by (simp add: outbound_spec_def)
    then show ?thesis using step r(2,3) i2 True by (simp add: good_out_def)
  next
    case False
    obtain d where d: "datagram r = Some d" "wire_form cfg pr (mac_key cfg key) m d" "o_ptr r \<noteq> PNull"
      using outbound_wire_form [OF r(4) wf(1) F(5)] False F(8) by auto
    show ?thesis
    proof (cases "o_junk r")
      case True
      then have k: "classify m = Some Init" using r(4) by (cases "classify m") (auto simp: outbound_spec_def)
      have jf: "cps_returns (px_cfg p2)" "junk_fits size_max (px_cfg p2) (px_junk_buf p2)"
        using G(2) F cps by (simp_all add: junk_fits_def cps_returns_def)
      obtain ts c cs jb where t: "junk_train size_max clk (px_cfg p2) (px_cps_counter p2) (px_cs_s2c p2) (px_junk_buf p2) = Some (ts, c, cs, jb)"
        "length jb = length (px_junk_buf p2)" "train_ok size_max (px_cfg p2) ts"
        using junk_train_ok [OF jf] by blast
      let ?p3 = "p2\<lparr>px_cps_counter := c, px_cs_s2c := cs, px_junk_buf := jb\<rparr>"
      have "s2c_slow size_max clk (int prefix) pr de p buf hs n = Some (?p3, o_buf r, o_hs r, Sent ts d (de_addr de))"
        using step True d(1,3) t(1) by (simp add: send_junk_and_cps_to_def)
      moreover have "train_ok size_max cfg ts" using t(3) unfolding train_ok_def junk_layout_sizes_def F(9-12) .
      moreover have "s2c_inv size_max cfg ?p3"
        using i2 t(2) by (simp add: s2c_inv_def hub_inv_def rings_ok_def ring_ok_def junk_fits_def)
      moreover have "good_out size_max cfg (int prefix) pr (mac_key cfg key) m (de_addr de) (o_buf r) (o_hs r) (Sent ts d (de_addr de))"
        using d(2) k calculation(2) by (auto simp: good_out_def)
      ultimately show ?thesis using r(2,3) unfolding key_def by blast
    next
      case nj: False
      have "good_out size_max cfg (int prefix) pr (mac_key cfg key) m (de_addr de) (o_buf r) (o_hs r) (Queued (o_ptr r) (o_len r) (de_addr de))"
        using d False outbound_pointer [OF r(1)] by (auto simp: good_out_def datagram_def)
      then show ?thesis using step nj d(3) r(2,3) i2 unfolding key_def by simp
    qed
  qed
qed

text \<open>One packet of the hub, whatever it is.\<close>

definition max_padding_ok :: "awg_config \<Rightarrow> nat \<Rightarrow> bool" where
  "max_padding_ok cfg prefix \<longleftrightarrow> list_all (\<lambda>pr. pr_s4 pr \<le> int prefix) (take (nat (c_profile_count cfg)) (c_profiles cfg))"

lemma max_padding_okD:
  "max_padding_ok cfg prefix \<Longrightarrow> 0 \<le> k \<Longrightarrow> k < c_profile_count cfg \<Longrightarrow> length (c_profiles cfg) = 4 \<Longrightarrow> c_profile_count cfg \<le> 4 \<Longrightarrow>
     pr_s4 (c_profiles cfg ! nat k) \<le> int prefix"
  by (auto simp: max_padding_ok_def list_all_length)

lemma process_reverse_ok:
  assumes inv: "s2c_inv size_max cfg p" and cps: "cps_returns cfg" and pad: "max_padding_ok cfg prefix"
    and n: "0 < n" "int prefix + n \<le> int (length buf)" "prefix + 1500 \<le> length buf" "length hs = 1500"
    and m: "m = take (nat n) (drop prefix buf)"
  shows "\<exists>p1 dest p' buf' hs' out. s2c_destination p buf (int prefix) n = Some (p1, dest) \<and>
    process_s2c_pkt_reverse size_max clk (int prefix) p buf hs n = Some (p', buf', hs', out) \<and>
    s2c_inv size_max cfg p' \<and> length buf' = length buf \<and> length hs' = 1500 \<and>
    (case dest of
       None \<Rightarrow> out = Dropped
     | Some de \<Rightarrow> \<exists>prof. prof = s2c_profile p1 de \<and> 0 \<le> prof \<and> prof < c_profile_count cfg \<and>
         good_out size_max cfg (int prefix) (c_profiles cfg ! nat prof) (mac_key cfg (peer_key p1 de m)) m (de_addr de) buf' hs' out)"
proof -
  obtain p1 dest where dst: "s2c_destination p buf (int prefix) n = Some (p1, dest)" "s2c_inv size_max cfg p1"
    "\<forall>de. dest = Some de \<longrightarrow> 0 \<le> s2c_profile p1 de \<and> s2c_profile p1 de < c_profile_count cfg"
    using s2c_destination_ok [OF inv _ n(1,2)] by auto
  show ?thesis
  proof (cases dest)
    case None
    then show ?thesis using dst n(4) by (simp add: process_s2c_pkt_reverse_def)
  next
    case (Some de)
    define prof where "prof = s2c_profile p1 de"
    have prof: "0 \<le> prof" "prof < c_profile_count cfg" using dst(3) Some by (simp_all add: prof_def)
    have hub: "hub_inv cfg p1" using dst(2) by (simp add: s2c_inv_def)
    note D = hub_invD [OF hub]
    let ?pr = "c_profiles cfg ! nat prof"
    note P = profile_in_range [OF D(1) prof(1) prof(2) [folded D(4)], unfolded D(7)]
    have s4: "pr_s4 ?pr \<le> int prefix"
      by (rule max_padding_okD [OF pad prof]) (use D in \<open>auto simp: wf_config_def\<close>)
    note tp = c2s_transport_iff [OF n(2,1) m]
    have step: "process_s2c_pkt_reverse size_max clk (int prefix) p buf hs n =
        (if classify m = Some Transport
         then do { (buf, p, out, total) \<leftarrow> s2c_fast (int prefix) ?pr prof p1 buf n; Some (p, buf, hs, Queued (PBuf out) total (de_addr de)) }
         else s2c_slow size_max clk (int prefix) ?pr de p1 buf hs n)"
      using dst(1) Some P(1) tp by (simp add: process_s2c_pkt_reverse_def prof_def [symmetric] Let_def)
    show ?thesis
    proof (cases "classify m = Some Transport")
      case True
      have "prefix + nat n \<le> length buf" using n by linarith
      from buf_split3 [OF this] obtain b m' q where b: "buf = b @ m' @ q" "length b = prefix" "length m' = nat n" .
      have mm: "m' = m" "int (length m) = n" using b m n(1) by auto
      have pre: "int prefix = int (length b)" "pr_s4 ?pr \<le> int prefix" using b(2) s4 by auto
      obtain buf' p' d where f: "s2c_fast (int prefix) ?pr prof p1 buf n = Some (buf', p', int prefix - pr_s4 ?pr, pr_s4 ?pr + n)"
        "length buf' = length buf" "rd buf' (int prefix - pr_s4 ?pr) (pr_s4 ?pr + n) = Some d"
        "wire_form cfg ?pr (mac_key cfg (peer_key p1 de m)) m d" "s2c_inv size_max cfg p'"
        using s2c_fast_ok [OF dst(2) prof refl True pre, where q = q and mk = "mac_key cfg (peer_key p1 de m)"] b(1) mm by auto
      then have "good_out size_max cfg (int prefix) ?pr (mac_key cfg (peer_key p1 de m)) m (de_addr de) buf' hs
          (Queued (PBuf (int prefix - pr_s4 ?pr)) (pr_s4 ?pr + n) (de_addr de))"
        using True by (auto simp: good_out_def read_out_def)
      then show ?thesis using dst(1) Some step True f n(4) prof prof_def by auto
    next
      case False
      from s2c_slow_ok [OF dst(2) cps P(2) s4 n m, where clk = clk and de = de] show ?thesis
        using dst(1) Some step False prof prof_def by auto
    qed
  qed
qed

section \<open>The batch against sending at once\<close>

text \<open>
  The specification of the batch: a loop that sends as it goes.  Its log is one list in the
  order of the packets, with what the handler sends itself on the left (an initiation
  behind its junk train) and what it queues on the right, read as soon as it is queued.
\<close>

type_synonym s2c_event = "(bytes list \<times> bytes \<times> cliaddr) + (bytes \<times> cliaddr)"

definition queued_data :: "s2c_state \<Rightarrow> (iov \<times> cliaddr) list \<Rightarrow> (bytes \<times> cliaddr) list option" where
  "queued_data st vs = those (map (\<lambda>(v, a). map_option (\<lambda>d. (d, a)) (iov_read (u_bufs st) (u_hs st) v)) vs)"

fun s2c_direct :: "nat \<Rightarrow> (nat \<Rightarrow> nat \<Rightarrow> nat \<Rightarrow> u32) \<Rightarrow> int \<Rightarrow> nat \<Rightarrow> int list \<Rightarrow> s2c_state
    \<Rightarrow> (s2c_state \<times> s2c_event list) option" where
  "s2c_direct size_max clk prefix i [] st = Some (st, [])"
| "s2c_direct size_max clk prefix i (n # ns) st =
     do { st' \<leftarrow> s2c_reverse_pkt size_max (clk i) prefix i n st;
          new \<leftarrow> queued_data st' (drop (length (u_iov st)) (u_iov st'));
          (st'', rest) \<leftarrow> s2c_direct size_max clk prefix (i + 1) ns st';
          Some (st'', map Inl (drop (length (u_sent st)) (u_sent st')) @ map Inr new @ rest) }"

text \<open>
  What reaches the wire, in order: for the log, each event when it happens; for the batch, what
  the handlers sent while the loop ran, and then the final send.
\<close>

fun event_wire :: "s2c_event \<Rightarrow> (bytes \<times> cliaddr) list" where
  "event_wire (Inl (train, d, a)) = map (\<lambda>t. (t, a)) train @ [(d, a)]"
| "event_wire (Inr (d, a)) = [(d, a)]"

definition direct_wire :: "s2c_event list \<Rightarrow> (bytes \<times> cliaddr) list" where
  "direct_wire evs = concat (map event_wire evs)"

definition batch_wire :: "s2c_state \<Rightarrow> (bytes \<times> cliaddr) list \<Rightarrow> (bytes \<times> cliaddr) list" where
  "batch_wire st ds = concat (map (\<lambda>e. event_wire (Inl e)) (u_sent st)) @ ds"

definition paddings_fit :: "awg_config \<Rightarrow> nat \<Rightarrow> bool" where
  "paddings_fit cfg prefix \<longleftrightarrow>
     list_all (\<lambda>pr. pr_s1 pr \<le> int prefix \<and> pr_s2 pr \<le> int prefix \<and> pr_s3 pr \<le> int prefix \<and> pr_s4 pr \<le> int prefix)
       (take (nat (c_profile_count cfg)) (c_profiles cfg))"

lemma paddings_fitD:
  assumes "paddings_fit cfg prefix"
  shows "max_padding_ok cfg prefix"
    "0 \<le> k \<Longrightarrow> k < c_profile_count cfg \<Longrightarrow> length (c_profiles cfg) = 4 \<Longrightarrow> c_profile_count cfg \<le> 4 \<Longrightarrow>
       pr_s1 (c_profiles cfg ! nat k) \<le> int prefix \<and> pr_s2 (c_profiles cfg ! nat k) \<le> int prefix \<and> pr_s3 (c_profiles cfg ! nat k) \<le> int prefix"
  using assms by (auto simp: paddings_fit_def max_padding_ok_def list_all_length)

text \<open>The state between packets when no datagram is queued in the handshake buffer.\<close>

definition queue_inv :: "nat \<Rightarrow> awg_config \<Rightarrow> bytes list \<Rightarrow> nat \<Rightarrow> s2c_state \<Rightarrow> bool" where
  "queue_inv size_max cfg bufs i st \<longleftrightarrow>
     s2c_inv size_max cfg (u_px st) \<and> length (u_hs st) = BUF_SIZE \<and> length (u_bufs st) = length bufs \<and>
     (\<forall>j. i \<le> j \<and> j < length bufs \<longrightarrow> u_bufs st ! j = bufs ! j) \<and>
     list_all (\<lambda>(v, a). iv_slot v < i \<and> (\<exists>x. iv_ptr v = PBuf x)) (u_iov st)"

lemma queued_stable:
  "list_all (\<lambda>(v, a). iv_slot v < i \<and> (\<exists>x. iv_ptr v = PBuf x)) vs \<Longrightarrow> u_bufs st' = (u_bufs st)[i := b] \<Longrightarrow>
     queued_data st' vs = queued_data st vs"
  unfolding queued_data_def
  by (intro arg_cong [where f = those] map_cong refl) (auto simp: list_all_iff iov_read_def read_out_def)

lemma queued_append: "queued_data st (vs @ ws) = do { a \<leftarrow> queued_data st vs; b \<leftarrow> queued_data st ws; Some (a @ b) }"
  by (simp add: queued_data_def those_append)

lemma reverse_pkt_step:
  assumes inv: "queue_inv size_max cfg bufs i st" and cps: "cps_returns cfg" and pad: "paddings_fit cfg prefix" and i: "i < length bufs"
    and n: "0 \<le> n" "int prefix + n \<le> int (length (bufs ! i))" "prefix + 1500 \<le> length (bufs ! i)"
  shows "\<exists>st' vs b new. s2c_reverse_pkt size_max clk (int prefix) i n st = Some st' \<and> queue_inv size_max cfg bufs (i + 1) st' \<and>
    u_iov st' = u_iov st @ vs \<and> u_bufs st' = (u_bufs st)[i := b] \<and> queued_data st' vs = Some new \<and>
    (\<exists>sent. u_sent st' = u_sent st @ sent)"
proof (cases "n = 0")
  case True
  then show ?thesis using inv
    by (intro exI [of _ st] exI [of _ "[]"] exI [of _ "u_bufs st ! i"] exI [of _ "[]"])
      (auto simp: s2c_reverse_pkt_def queue_inv_def queued_data_def list_all_iff less_SucI)
next
  case False
  have I: "s2c_inv size_max cfg (u_px st)" "length (u_hs st) = 1500" "length (u_bufs st) = length bufs" "u_bufs st ! i = bufs ! i"
    using inv i by (auto simp: queue_inv_def)
  have n0: "0 < n" using n(1) False by simp
  obtain p1 dest p' buf' hs' out where
    r: "process_s2c_pkt_reverse size_max clk (int prefix) (u_px st) (bufs ! i) (u_hs st) n = Some (p', buf', hs', out)"
      "s2c_inv size_max cfg p'" "length buf' = length (bufs ! i)" "length hs' = 1500"
    and o: "case dest of None \<Rightarrow> out = Dropped
     | Some de \<Rightarrow> \<exists>prof. prof = s2c_profile p1 de \<and> 0 \<le> prof \<and> prof < c_profile_count cfg \<and>
         good_out size_max cfg (int prefix) (c_profiles cfg ! nat prof)
           (mac_key cfg (peer_key p1 de (take (nat n) (drop prefix (bufs ! i))))) (take (nat n) (drop prefix (bufs ! i))) (de_addr de) buf' hs' out"
    using process_reverse_ok [OF I(1) cps paddings_fitD(1) [OF pad] n0 n(2,3) I(2) refl, where clk = clk] by blast
  have lens: "length (c_profiles cfg) = 4" "c_profile_count cfg \<le> 4"
    using hub_invD(1,4,6,7) [of cfg p'] r(2) by (auto simp: s2c_inv_def wf_config_def)
  have q: "out = Dropped \<or> (\<exists>x len a d. out = Queued (PBuf x) len a \<and> rd buf' x len = Some d) \<or> (\<exists>ts d a. out = Sent ts d a)"
  proof (cases dest)
    case (Some de)
    then obtain prof where "0 \<le> prof" "prof < c_profile_count cfg"
      and g: "good_out size_max cfg (int prefix) (c_profiles cfg ! nat prof)
           (mac_key cfg (peer_key p1 de (take (nat n) (drop prefix (bufs ! i))))) (take (nat n) (drop prefix (bufs ! i))) (de_addr de) buf' hs' out"
      using o by auto
    note fit = paddings_fitD(2) [OF pad this(1,2) lens]
    show ?thesis using g fit by (fastforce simp: good_out_def read_out_def split: if_splits)
  qed (use o in simp)
  define st1 where "st1 = st\<lparr>u_px := p', u_bufs := (u_bufs st)[i := buf'], u_hs := hs'\<rparr>"
  have step: "s2c_reverse_pkt size_max clk (int prefix) i n st = Some (case out of Dropped \<Rightarrow> st1
      | Queued ptr len a \<Rightarrow> st1\<lparr>u_iov := u_iov st1 @ [(\<lparr>iv_slot = i, iv_ptr = ptr, iv_len = len\<rparr>, a)]\<rparr>
      | Sent train d a \<Rightarrow> st1\<lparr>u_sent := u_sent st1 @ [(train, d, a)]\<rparr>)"
    using n0 r(1) I(4) by (simp add: s2c_reverse_pkt_def st1_def Let_def split: s2c_out.split)
  have base: "queue_inv size_max cfg bufs (i + 1) st1" using inv r(2,4) I(3)
    by (auto simp: queue_inv_def st1_def list_all_iff less_SucI)
  from q consider (drop) "out = Dropped" | (queue) x len a d where "out = Queued (PBuf x) len a" "rd buf' x len = Some d"
    | (sent) ts d a where "out = Sent ts d a" by blast
  then show ?thesis
  proof cases
    case drop
    then show ?thesis using step base by (intro exI [of _ st1] exI [of _ "[]"] exI [of _ buf'] exI [of _ "[]"]) (simp add: queued_data_def st1_def)
  next
    case queue
    let ?v = "(\<lparr>iv_slot = i, iv_ptr = PBuf x, iv_len = len\<rparr>, a)"
    let ?st = "st1\<lparr>u_iov := u_iov st1 @ [?v]\<rparr>"
    have "queue_inv size_max cfg bufs (i + 1) ?st" using base by (simp add: queue_inv_def)
    moreover have "queued_data ?st [?v] = Some [(d, a)]"
      using queue(2) i I(3) by (simp add: queued_data_def iov_read_def read_out_def st1_def)
    ultimately show ?thesis using step queue(1)
      by (intro exI [of _ ?st] exI [of _ "[?v]"] exI [of _ buf'] exI [of _ "[(d, a)]"]) (simp add: st1_def)
  next
    case sent
    let ?st = "st1\<lparr>u_sent := u_sent st1 @ [(ts, d, a)]\<rparr>"
    show ?thesis using step sent base
      by (intro exI [of _ ?st] exI [of _ "[]"] exI [of _ buf'] exI [of _ "[]"]) (simp add: queued_data_def st1_def queue_inv_def)
  qed
qed

lemma reverse_loop_direct:
  assumes "queue_inv size_max cfg bufs i st" "cps_returns cfg" "paddings_fit cfg prefix" "batch_ok prefix (drop i bufs) ns"
    and "queued_data st (u_iov st) = Some old"
  shows "\<exists>st' evs ds. s2c_direct size_max clk (int prefix) i ns st = Some (st', evs) \<and>
    s2c_reverse_loop size_max clk (int prefix) i ns st = Some st' \<and>
    queued_data st' (u_iov st') = Some (old @ ds) \<and> map Inr ds = filter (\<lambda>e. \<not> isl e) evs \<and>
    (\<exists>sent. u_sent st' = u_sent st @ sent \<and> map Inl sent = filter isl evs)"
  using assms(1,4,5)
proof (induction ns arbitrary: i st old)
  case (Cons n ns)
  note H = batch_ok_head [OF Cons.prems(2)]
  obtain st1 vs b new sent where s: "s2c_reverse_pkt size_max (clk i) (int prefix) i n st = Some st1" "queue_inv size_max cfg bufs (i + 1) st1"
    "u_iov st1 = u_iov st @ vs" "u_bufs st1 = (u_bufs st)[i := b]" "queued_data st1 vs = Some new" "u_sent st1 = u_sent st @ sent"
    using reverse_pkt_step [OF Cons.prems(1) assms(2,3) H(1-4), where clk = "clk i"] by blast
  have "list_all (\<lambda>(v, a). iv_slot v < i \<and> (\<exists>x. iv_ptr v = PBuf x)) (u_iov st)" using Cons.prems(1) by (simp add: queue_inv_def)
  from queued_stable [OF this s(4)] have "queued_data st1 (u_iov st1) = Some (old @ new)"
    using Cons.prems(3) s(3,5) by (simp add: queued_append)
  from Cons.IH [OF s(2) H(5) this] obtain st' evs ds sent' where r:
    "s2c_direct size_max clk (int prefix) (i + 1) ns st1 = Some (st', evs)"
    "s2c_reverse_loop size_max clk (int prefix) (i + 1) ns st1 = Some st'" "queued_data st' (u_iov st') = Some ((old @ new) @ ds)"
    "map Inr ds = filter (\<lambda>e. \<not> isl e) evs" "u_sent st' = u_sent st1 @ sent'" "map Inl sent' = filter isl evs" by blast
  let ?evs = "map Inl sent @ map Inr new @ evs"
  have parts: "map Inr (new @ ds) = filter (\<lambda>e. \<not> isl e) ?evs" "map Inl (sent @ sent') = filter isl ?evs"
    using r(4,6) by (simp_all add: filter_map o_def)
  show ?case
    using s r(1-3,5) parts
    by (intro exI [of _ st'] exI [of _ ?evs] exI [of _ "new @ ds"] conjI exI [of _ "sent @ sent'"]) simp_all
qed simp

text \<open>The two parts of a log, put on the wire one after the other.\<close>

lemma batch_wire_parts:
  assumes "map Inl (u_sent st) = filter isl evs" "map Inr ds = filter (\<lambda>e. \<not> isl e) evs"
  shows "batch_wire st ds = direct_wire (filter isl evs @ filter (\<lambda>e. \<not> isl e) evs)"
proof -
  have "concat (map event_wire (map Inr ds)) = ds" by (induction ds) auto
  then show ?thesis
    by (simp add: batch_wire_def direct_wire_def assms(1,2) [symmetric] o_def)
qed

section \<open>Two handshakes of one batch\<close>

lemma response_shared:
  assumes "transform_outbound_profile buf hs off 92 cfg pr key rand = Some r" "rd buf off 4 = Some t" "read32_le t = 2"
    and "off < pr_s2 pr" "0 \<le> off" "\<not> pr_rt pr"
  shows "o_ptr r = PHs" "o_len r = pr_s2 pr + 92" "\<not> o_junk r"
proof -
  obtain buf1 buf2 hs' ptr l where "emit_handshake cfg pr (pr_s2 pr) 92 (rand XOR 0x12345) buf2 off hs = Some (buf1, hs', ptr, l)"
    "o_ptr r = ptr" "o_len r = l" "\<not> o_junk r"
    using assms(1-3) unfolding transform_outbound_profile_def Let_def by (auto split: if_splits bind_splits)
  moreover from this(1) have "ptr = PHs" "l = pr_s2 pr + 92"
    using assms(4-6) by (auto simp: emit_handshake_def append_trailer_def trailer_len_def split: if_splits bind_splits)
  ultimately show "o_ptr r = PHs" "o_len r = pr_s2 pr + 92" "\<not> o_junk r" by auto
qed

lemma slow_response:
  assumes "s2c_slow size_max clk off pr de p buf hs 92 = Some (p', buf', hs', out)" "rd buf off 4 = Some t" "read32_le t = 2"
    and "off < pr_s2 pr" "0 \<le> off" "\<not> pr_rt pr"
  shows "out = Queued PHs (pr_s2 pr + 92) (de_addr de)"
  using assms(1) unfolding s2c_slow_def Let_def
  by (auto split: if_splits bind_splits prod.splits dest: response_shared [OF _ assms(2-6)])

section \<open>Where the hub sends a packet\<close>

definition word_at :: "nat \<Rightarrow> bytes \<Rightarrow> u32" where
  "word_at k m = read32_le (take 4 (drop k m))"

text \<open>
  The session a message belongs to, by its kind: transport and cookie name the receiver's index
  at byte 4, a response at byte 8; an initiation belongs to the peer whose MAC1 it carries, or to
  the only client there is.
\<close>

fun hub_session :: "awg_config \<Rightarrow> sessions \<Rightarrow> msg_kind \<Rightarrow> bytes \<Rightarrow> nat option" where
  "hub_session cfg ss Transport m = session_get_entry ss (word_at 4 m)"
| "hub_session cfg ss Cookie m = session_get_entry ss (word_at 4 m)"
| "hub_session cfg ss Response m = session_get_entry ss (word_at 8 m)"
| "hub_session cfg ss Init m =
     (case (let peer = config_server_resolve_peer_for_init cfg m in if 0 \<le> peer then session_find_by_peer ss peer else None) of
        Some s \<Rightarrow> Some s
      | None \<Rightarrow> session_find_sole_entry ss)"

lemma classify_kind:
  "classify m = Some k \<longleftrightarrow> 4 \<le> length m \<and> word_at 0 m = kind_type k \<and> fits_kind k (length m)"
  by (cases k) (auto simp: classify_def word_at_def)

lemma rd_word: "k + 4 \<le> length m \<Longrightarrow> rd (pre @ m @ rest) (int (length pre) + int k) 4 = Some (take 4 (drop k m))"
  by (simp add: rd_def nat_int_add)

text \<open>Noting a server index touches nothing a lookup returns.\<close>

lemma server_index_fields:
  "se_valid (ss_entries (session_set_server_index ss e sidx) ! x) = se_valid (ss_entries ss ! x)"
  "se_sender_index (ss_entries (session_set_server_index ss e sidx) ! x) = se_sender_index (ss_entries ss ! x)"
  "se_addr (ss_entries (session_set_server_index ss e sidx) ! x) = se_addr (ss_entries ss ! x)"
  "se_prof (ss_entries (session_set_server_index ss e sidx) ! x) = se_prof (ss_entries ss ! x)"
  by (auto simp: session_set_server_index_def nth_update_any split: option.split)

lemma lookup_server_index: "session_lookup (session_set_server_index ss e sidx) j = session_lookup ss j"
  by (simp add: session_lookup_def session_get_entry_def server_index_fields)

lemma server_index_recorded:
  assumes "wf_sessions ss" "session_get_entry ss i = Some s" "sidx \<noteq> 0"
  shows "session_get_by_server_index (session_set_server_index ss (Some s) sidx) sidx = Some s"
proof -
  have s: "s < 4096" "se_valid (ss_entries ss ! s)"
    using entry_in_table [OF assms(2)] assms(2) by (auto simp: session_get_entry_def dest: find_SomeD)
  have u: "unat (word_of_nat s :: u32) = s" using s(1) by (simp add: unsigned_of_nat take_bit_nat_eq_self)
  have "unat (word_of_nat s + 1 :: u32) = Suc s" using u s(1) by (simp add: unat_word_ariths)
  then have "(word_of_nat s + 1 :: u32) \<noteq> 0" by (metis nat.distinct(1) unat_0)
  then show ?thesis using assms s u by (simp add: session_set_server_index_def session_get_by_server_index_def wf_sessions_def Let_def)
qed

text \<open>The handler's chain of tests, decided by the kind.\<close>

definition by_receiver :: "u32 \<Rightarrow> int \<Rightarrow> bool" where
  "by_receiver t n \<longleftrightarrow> t = WG_TRANSPORT_DATA \<and> n \<ge> WG_TRANSPORT_MIN \<or> t = WG_COOKIE_REPLY \<and> n = WG_COOKIE_SIZE"

lemma kind_tests:
  assumes "4 \<le> length m"
  shows "by_receiver (word_at 0 m) (int (length m)) \<longleftrightarrow> classify m \<in> {Some Transport, Some Cookie}"
    "word_at 0 m = WG_HANDSHAKE_RESPONSE \<and> int (length m) = WG_RESP_SIZE \<longleftrightarrow> classify m = Some Response"
    "word_at 0 m = WG_HANDSHAKE_INIT \<and> int (length m) = WG_INIT_SIZE \<longleftrightarrow> classify m = Some Init"
  using assms by (auto simp: classify_kind by_receiver_def fits_kind_def)

lemma hub_route_cases:
  assumes "4 \<le> length m" "base = pre @ m @ rest" "off = int (length pre)" "n = int (length m)"
  shows "hub_route cfg ss base off n =
    (case classify m of
       None \<Rightarrow> Some (ss, None, word_at 0 m, -1)
     | Some Init \<Rightarrow> Some (ss, hub_session cfg ss Init m, word_at 0 m, config_server_resolve_peer_for_init cfg m)
     | Some Response \<Rightarrow>
         (let e = hub_session cfg ss Response m in Some (session_set_server_index ss e (word_at 4 m), e, word_at 0 m, -1))
     | Some k \<Rightarrow> Some (ss, hub_session cfg ss k m, word_at 0 m, -1))"
proof -
  have r: "rd base (off + int k) 4 = Some (take 4 (drop k m))" if "k + 4 \<le> length m" for k
    using rd_word [OF that] by (simp add: assms)
  have t: "rd base off 4 = Some (take 4 m)" and all: "rd base off n = Some m"
    using r [of 0] assms by (simp_all add: rd_def)
  have t0: "read32_le (take 4 m) = word_at 0 m" by (simp add: word_at_def)
  note tests = kind_tests [OF assms(1), folded assms(4)]
  have four: "classify m = Some k \<Longrightarrow> 8 \<le> length m" "classify m = Some Response \<Longrightarrow> 12 \<le> length m" for k
    by (cases k; auto simp: classify_kind fits_kind_def)+
  have all148: "rd base off 148 = Some m" if "classify m = Some Init"
    using all that assms(4) by (simp add: classify_kind fits_kind_def)
  show ?thesis
  proof (cases "classify m")
    case None
    show ?thesis
      using tests by (simp only: hub_route_def t t0 None Let_def bind.bind_lunit flip: by_receiver_def)
        (simp add: None)
  next
    case (Some k)
    show ?thesis
      using tests four r [of 4] r [of 8]
      by (simp only: hub_route_def t t0 Some Let_def bind.bind_lunit flip: by_receiver_def)
        (cases k; simp add: Some all148 word_at_def Let_def split: option.split)
  qed
qed

section \<open>Properties\<close>

text \<open>
  C7. Packets from WireGuard in reverse and server mode: for every well-formed state of the hub
  the handler stays inside its buffers, sends nothing without a destination, and otherwise sends
  the packet to exactly that destination, framed in the profile of the session and with MAC1
  recomputed under the peer's key, an initiation behind its junk train; the session table, the
  cache, the rings and the configuration stay well formed.
\<close>

theorem s2c_reverse_delivers:
  assumes "s2c_inv size_max cfg p" "cps_returns cfg" "max_padding_ok cfg prefix"
    and "0 < n" "int prefix + n \<le> int (length buf)" "prefix + BUF_SIZE \<le> length buf" "length hs = BUF_SIZE"
    and "m = take (nat n) (drop prefix buf)"
  shows "\<exists>p1 dest p' buf' hs' out. s2c_destination p buf (int prefix) n = Some (p1, dest) \<and>
    process_s2c_pkt_reverse size_max clk (int prefix) p buf hs n = Some (p', buf', hs', out) \<and>
    s2c_inv size_max cfg p' \<and> length buf' = length buf \<and> length hs' = BUF_SIZE \<and>
    (case dest of
       None \<Rightarrow> out = Dropped
     | Some de \<Rightarrow> \<exists>prof. prof = s2c_profile p1 de \<and> 0 \<le> prof \<and> prof < c_profile_count cfg \<and>
         good_out size_max cfg (int prefix) (c_profiles cfg ! nat prof) (mac_key cfg (peer_key p1 de m)) m (de_addr de) buf' hs' out)"
  by (rule process_reverse_ok [OF assms])

lemma example_s2c: "s2c_inv (2 ^ 64 - 1) example_config (example_proxy\<lparr>px_has_client := c\<rparr>)"
proof -
  have "px_cfg example_proxy = example_config" by (simp add: example_proxy_def)
  then show ?thesis using example_hub example_proxy_ok(3)
    by (simp add: s2c_inv_def hub_inv_def rings_ok_def ring_ok_def)
qed

lemma example_cps: "cps_returns example_config"
  using example_proxy_ok(4) by (simp add: example_proxy_def)

lemma example_profile0: "c_profiles example_config ! 0 = config_snapshot_profile example_config"
  using px_invD(8) [of example_config example_proxy] example_proxy_ok(1,2) example_config_fields(2)
  by (simp add: px_inv_def example_proxy_def)

lemma example_padding: "max_padding_ok example_config 16"
proof -
  have "pr_s4 (c_profiles example_config ! 0) = 16"
    using example_config_fields(6) by (simp add: example_profile0 config_snapshot_profile_def)
  then show ?thesis using example_config_fields(1) by (simp add: max_padding_ok_def list_all_length)
qed

theorem s2c_reverse_delivers_witness:
  "\<exists>p' buf' hs' out. process_s2c_pkt_reverse (2 ^ 64 - 1) (\<lambda>_ _. 0) 16 example_proxy (replicate 1756 0) (replicate 1500 0) 40 =
     Some (p', buf', hs', out) \<and> out = Dropped"
proof -
  have ex: "example_proxy\<lparr>px_has_client := False\<rparr> = example_proxy" by (simp add: example_proxy_def)
  have md: "c_mode example_config = AWG_MODE_REVERSE" by (simp add: example_config_unfold split: prod.split)
  have d: "s2c_destination example_proxy (replicate 1756 0) 16 40 = Some (example_proxy, None)"
    using md by (simp add: s2c_destination_def) (simp add: example_proxy_def)
  from s2c_reverse_delivers [OF example_s2c [of False, unfolded ex] example_cps example_padding, of 40 "replicate 1756 0" "replicate 1500 0" _ "\<lambda>_ _. 0"] d
  show ?thesis by auto
qed

text \<open>
  C9. Batching against a loop that sends every datagram when it handles its packet, when the
  paddings of all profiles fit the headroom: for every batch the loop returns in the same
  state, and what it puts on the wire is the log of the other loop with one change of order.
  What the handlers send at once (an initiation behind its junk train) overtakes the datagrams
  queued before it; within each of the two parts the order of the packets is kept, and no
  datagram is lost, added, overwritten while it waits or sent elsewhere.
\<close>

theorem s2c_reverse_batch_direct:
  assumes "s2c_inv size_max cfg p" "cps_returns cfg" "paddings_fit cfg prefix" "length hs = BUF_SIZE" "batch_ok prefix bufs ns"
  shows "\<exists>st ds evs. s2c_reverse_batch size_max clk (int prefix) p bufs hs ns = Some (st, ds) \<and>
    s2c_direct size_max clk (int prefix) 0 ns \<lparr>u_px = p, u_bufs = bufs, u_hs = hs, u_iov = [], u_sent = []\<rparr> = Some (st, evs) \<and>
    batch_wire st ds = direct_wire (filter isl evs @ filter (\<lambda>e. \<not> isl e) evs)"
proof -
  let ?st = "\<lparr>u_px = p, u_bufs = bufs, u_hs = hs, u_iov = [], u_sent = []\<rparr>"
  have "queue_inv size_max cfg bufs 0 ?st" using assms by (simp add: queue_inv_def)
  moreover have "queued_data ?st (u_iov ?st) = Some []" by (simp add: queued_data_def)
  ultimately obtain st evs ds where d: "s2c_direct size_max clk (int prefix) 0 ns ?st = Some (st, evs)"
    "s2c_reverse_loop size_max clk (int prefix) 0 ns ?st = Some st" "queued_data st (u_iov st) = Some ds"
    and parts: "map Inr ds = filter (\<lambda>e. \<not> isl e) evs" "map Inl (u_sent st) = filter isl evs"
    using reverse_loop_direct [of size_max cfg bufs 0 ?st prefix ns "[]", where clk = clk] assms by auto
  show ?thesis
    using d batch_wire_parts [OF parts(2,1)] by (simp add: s2c_reverse_batch_def s2c_batch_data_def queued_data_def)
qed

lemma example_paddings_fit: "paddings_fit example_config 100"
proof -
  have "c_s1 example_config \<le> 100" "c_s2 example_config \<le> 100" "c_s3 example_config \<le> 100"
    by (simp_all add: example_config_unfold split: prod.split) (simp_all add: example_profile_def)
  then show ?thesis using example_config_fields(1,6)
    by (simp add: paddings_fit_def list_all_length example_profile0 config_snapshot_profile_def)
qed

theorem s2c_reverse_batch_direct_witness:
  "\<exists>st ds evs. s2c_reverse_batch (2 ^ 64 - 1) (\<lambda>_ _ _. 0) 100 (example_proxy\<lparr>px_has_client := True\<rparr>)
      [replicate 1756 0, replicate 100 0 @ write32_le 4 @ replicate 1652 1] (replicate 1500 0) [40, 64] = Some (st, ds) \<and>
    s2c_direct (2 ^ 64 - 1) (\<lambda>_ _ _. 0) 100 0 [40, 64]
      \<lparr>u_px = example_proxy\<lparr>px_has_client := True\<rparr>,
       u_bufs = [replicate 1756 0, replicate 100 0 @ write32_le 4 @ replicate 1652 1], u_hs = replicate 1500 0,
       u_iov = [], u_sent = []\<rparr> = Some (st, evs) \<and>
    batch_wire st ds = direct_wire (filter isl evs @ filter (\<lambda>e. \<not> isl e) evs)"
proof -
  have "batch_ok 100 [replicate 1756 0, replicate 100 0 @ write32_le 4 @ replicate 1652 1] [40, 64]"
    by (simp add: batch_ok_def)
  from s2c_reverse_batch_direct [OF example_s2c [of True] example_cps example_paddings_fit _ this, of "replicate 1500 0" "\<lambda>_ _ _. 0"]
  show ?thesis by simp
qed

text \<open>
  C10. When a padding exceeds the headroom, queued handshakes share one static buffer: if a
  response waits there for client \<open>a\<close> and a second response of the same batch, for another
  destination, is transformed, then the batch sends the second response to both of them and
  the first is lost.
\<close>

theorem s2c_handshake_buffer_shared:
  assumes "s2c_inv size_max cfg (u_px st)" "cps_returns cfg" "max_padding_ok cfg prefix"
    and "int prefix + 92 \<le> int (length (u_bufs st ! i))" "prefix + BUF_SIZE \<le> length (u_bufs st ! i)" "length (u_hs st) = BUF_SIZE"
    and "m = take 92 (drop prefix (u_bufs st ! i))" "classify m = Some Response"
    and "s2c_destination (u_px st) (u_bufs st ! i) (int prefix) 92 = Some (p1, Some de)"
    and "pr = c_profiles cfg ! nat (s2c_profile p1 de)" "\<not> pr_rt pr" "int prefix < pr_s2 pr"
    and "u_iov st = [(\<lparr>iv_slot = j, iv_ptr = PHs, iv_len = pr_s2 pr + 92\<rparr>, a)]"
  shows "\<exists>st' d. s2c_reverse_pkt size_max clk (int prefix) i 92 st = Some st' \<and>
    s2c_batch_data st' = Some [(d, a), (d, de_addr de)] \<and> wire_form cfg pr (mac_key cfg (peer_key p1 de m)) m d"
proof -
  have m: "m = take (nat 92) (drop prefix (u_bufs st ! i))" using assms(7) by simp
  obtain p1' dest p' buf' hs' out where
    d: "s2c_destination (u_px st) (u_bufs st ! i) (int prefix) 92 = Some (p1', dest)"
    and r: "process_s2c_pkt_reverse size_max clk (int prefix) (u_px st) (u_bufs st ! i) (u_hs st) 92 = Some (p', buf', hs', out)"
      "s2c_inv size_max cfg p'"
    and o: "case dest of None \<Rightarrow> out = Dropped
     | Some de \<Rightarrow> \<exists>prof. prof = s2c_profile p1' de \<and> 0 \<le> prof \<and> prof < c_profile_count cfg \<and>
         good_out size_max cfg (int prefix) (c_profiles cfg ! nat prof) (mac_key cfg (peer_key p1' de m)) m (de_addr de) buf' hs' out"
    using process_reverse_ok [OF assms(1-3) _ assms(4-6) m, where clk = clk] by auto
  have dd: "p1' = p1" "dest = Some de" using d assms(9) by auto
  have g: "good_out size_max cfg (int prefix) pr (mac_key cfg (peer_key p1 de m)) m (de_addr de) buf' hs' out"
    and prof: "0 \<le> s2c_profile p1 de" "s2c_profile p1 de < c_profile_count cfg"
    using o dd assms(10) by auto
  note c = classify_Some [OF assms(8)]
  have t: "rd (u_bufs st ! i) (int prefix) 4 = Some (take 4 m)" using assms(4,7) by (simp add: rd_def min_def)
  have "c2s_is_transport (int prefix) (u_bufs st ! i) 92 = Some False"
    using c2s_transport_iff [OF assms(4) _ m] assms(8) by simp
  then obtain pr' where "s2c_slow size_max clk (int prefix) pr' de p1 (u_bufs st ! i) (u_hs st) 92 = Some (p', buf', hs', out)"
    and pr': "profile_at (px_cfg p1) (s2c_profile p1 de) = Some pr'"
    using r(1) d dd by (auto simp: process_s2c_pkt_reverse_def Let_def split: bind_splits)
  moreover have "pr' = pr"
  proof -
    have "s2c_inv size_max cfg p1" using s2c_destination_ok [OF assms(1), of "int prefix" 92 "u_bufs st ! i"] assms(4,9) by auto
    then have "c_profiles (px_cfg p1) = c_profiles cfg" using hub_invD(7) by (auto simp: s2c_inv_def)
    then show ?thesis using pr' assms(10) by (auto simp: profile_at_def split: if_splits)
  qed
  ultimately have out: "out = Queued PHs (pr_s2 pr + 92) (de_addr de)"
    using slow_response [OF _ t] c(1) assms(11,12) by auto
  then obtain dg where dg: "wire_form cfg pr (mac_key cfg (peer_key p1 de m)) m dg" "rd hs' 0 (pr_s2 pr + 92) = Some dg"
    using g assms(8) by (auto simp: good_out_def read_out_def)
  let ?v = "\<lparr>iv_slot = i, iv_ptr = PHs, iv_len = pr_s2 pr + 92\<rparr>"
  let ?st = "st\<lparr>u_px := p', u_bufs := (u_bufs st)[i := buf'], u_hs := hs', u_iov := u_iov st @ [(?v, de_addr de)]\<rparr>"
  have "s2c_reverse_pkt size_max clk (int prefix) i 92 st = Some ?st"
    using r(1) out by (simp add: s2c_reverse_pkt_def)
  moreover have "s2c_batch_data ?st = Some [(dg, a), (dg, de_addr de)]"
    using dg(2) assms(13) by (simp add: s2c_batch_data_def iov_read_def read_out_def)
  ultimately show ?thesis using dg(1) by blast
qed

text \<open>The configuration above without response trailers, in a proxy that knows its client.\<close>

definition plain_config :: awg_config where
  "plain_config = config_compute (example_input\<lparr>c_rt := False\<rparr>)"

definition plain_proxy :: proxy where
  "plain_proxy = example_proxy\<lparr>px_cfg := plain_config, px_has_client := True, px_client_addr := V4 7 9\<rparr>"

lemma plain_config_wf: "wf_config plain_config"
  "config_active_profile plain_config = Some (config_snapshot_profile plain_config)" "c_active_profile plain_config = 0"
  unfolding plain_config_def
  by (rule config_compute_wf, simp_all add: config_validate_def config_validate_profile_def flat_profile_def example_input_def
      mirror_profile_def example_profile_def hrange_overlaps_def hrange_ordered_def)+

lemma plain_config_fields:
  "c_profile_count plain_config = 1" "c_jc plain_config = 3" "c_jmax plain_config = 50" "c_cps plain_config = replicate 5 None"
  "c_s4 plain_config = 16" "c_s2 plain_config = 30" "\<not> c_rt plain_config" "c_mode plain_config = AWG_MODE_REVERSE"
  "c_h4 plain_config = \<lparr>h_min = 400, h_max = 499\<rparr>"
  by (simp_all add: plain_config_def example_config_unfold split: prod.split) (simp_all add: example_profile_def)

lemma plain_profile: "c_profiles plain_config ! 0 = config_snapshot_profile plain_config"
  using plain_config_wf(2,3) by (simp add: config_active_profile_def profile_at_def split: if_splits)

lemma plain_s2c: "s2c_inv (2 ^ 64 - 1) plain_config plain_proxy" "cps_returns plain_config" "max_padding_ok plain_config 16"
proof -
  have h: "hrange_contains (pr_h4 (c_profiles plain_config ! 0)) 400"
    by (simp add: plain_profile config_snapshot_profile_def plain_config_fields hrange_contains_def)
  then have "rings_ok plain_proxy"
    by (simp add: rings_ok_def ring_ok_def plain_proxy_def example_proxy_def plain_config_fields(1) list_all_iff)
  then show "s2c_inv (2 ^ 64 - 1) plain_config plain_proxy"
    using plain_config_wf(1) example_hub
    by (simp add: s2c_inv_def hub_inv_def same_chain_def)
      (simp add: plain_proxy_def example_proxy_def plain_config_fields junk_fits_def example_config_fields)
  show "cps_returns plain_config" using example_cps by (simp add: cps_returns_def plain_config_fields example_config_fields)
  show "max_padding_ok plain_config 16"
    using plain_config_fields(1,5) by (simp add: max_padding_ok_def list_all_length plain_profile config_snapshot_profile_def)
qed

theorem s2c_handshake_buffer_shared_witness:
  "\<exists>st' d. s2c_reverse_pkt (2 ^ 64 - 1) (\<lambda>_ _. 0) 16 1 92
      \<lparr>u_px = plain_proxy, u_bufs = [replicate 1756 0, replicate 16 0 @ write32_le 2 @ replicate 1736 5], u_hs = replicate 1500 0,
       u_iov = [(\<lparr>iv_slot = 0, iv_ptr = PHs, iv_len = 122\<rparr>, V4 1 2)], u_sent = []\<rparr> = Some st' \<and>
    s2c_batch_data st' = Some [(d, V4 1 2), (d, V4 7 9)]"
proof -
  let ?b = "replicate 16 0 @ write32_le 2 @ replicate 1736 5"
  let ?st = "\<lparr>u_px = plain_proxy, u_bufs = [replicate 1756 0, ?b], u_hs = replicate 1500 0,
       u_iov = [(\<lparr>iv_slot = 0, iv_ptr = PHs, iv_len = 122\<rparr>, V4 1 2)], u_sent = []\<rparr>"
  let ?de = "\<lparr>de_entry = None, de_addr = V4 7 9, de_type = 0, de_peer = -1\<rparr>"
  have cfg: "px_cfg plain_proxy = plain_config" "px_has_client plain_proxy" "px_client_addr plain_proxy = V4 7 9"
    by (simp_all add: plain_proxy_def)
  have d: "s2c_destination (u_px ?st) (u_bufs ?st ! 1) (int 16) 92 = Some (plain_proxy, Some ?de)"
    using plain_config_fields(8) cfg by (simp add: s2c_destination_def)
  have pr: "c_profiles plain_config ! nat (s2c_profile plain_proxy ?de) = config_snapshot_profile plain_config"
    using cfg plain_config_wf(3) plain_profile by (simp add: s2c_profile_def)
  have k: "classify (take 92 (drop 16 ?b)) = Some Response"
    by (simp add: classify_def fits_kind_def)
  from s2c_handshake_buffer_shared [where size_max = "2 ^ 64 - 1" and st = ?st and i = 1 and prefix = 16 and j = 0 and a = "V4 1 2" and clk = "\<lambda>_ _. 0",
      OF _ plain_s2c(2,3) _ _ _ refl _ d pr [symmetric]] plain_s2c(1) k
  show ?thesis using plain_config_fields(6,7) by (auto simp: config_snapshot_profile_def)
qed

text \<open>
  C8. The routing of the hub.  A packet from WireGuard goes to the session its kind names, at that
  session's current address, and to nobody if there is none; routing changes no session's
  address or profile, and a response makes its session reachable by the index WireGuard chose,
  which is how a client that moves is followed.
\<close>

theorem hub_routes_by_kind:
  assumes "wf_sessions (px_sessions p)" "c_mode (px_cfg p) = AWG_MODE_SERVER"
  shows "\<exists>p' dest. s2c_destination p (pre @ m @ rest) (int (length pre)) (int (length m)) = Some (p', dest) \<and>
    map_option de_addr dest = (case classify m of None \<Rightarrow> None
      | Some k \<Rightarrow> map_option (\<lambda>s. se_addr (ss_entries (px_sessions p) ! s)) (hub_session (px_cfg p) (px_sessions p) k m)) \<and>
    (\<forall>i. session_lookup (px_sessions p') i = session_lookup (px_sessions p) i) \<and>
    (\<forall>s. classify m = Some Response \<and> hub_session (px_cfg p) (px_sessions p) Response m = Some s \<and> word_at 4 m \<noteq> 0 \<longrightarrow>
       session_get_by_server_index (px_sessions p') (word_at 4 m) = Some s) \<and>
    (classify m \<noteq> Some Response \<longrightarrow> p' = p)"
proof (cases "length m < 4")
  case True
  then have "classify m = None" by (simp add: classify_def)
  then show ?thesis using True assms(2) by (simp add: s2c_destination_def)
next
  case False
  then have "4 \<le> length m" by simp
  note route = hub_route_cases [OF this refl refl refl, of "px_cfg p" "px_sessions p" pre rest]
  show ?thesis
  proof (cases "classify m")
    case None
    then show ?thesis using False assms(2) by (simp add: s2c_destination_def route)
  next
    case (Some k)
    show ?thesis
    proof (cases "k = Response")
      case True
      then show ?thesis using \<open>\<not> length m < 4\<close> Some assms(2) server_index_recorded [OF assms(1)]
        by (auto simp: s2c_destination_def route Let_def server_index_fields lookup_server_index option.map_comp comp_def)
    next
      case False
      then show ?thesis using \<open>\<not> length m < 4\<close> Some assms(2)
        by (cases k) (simp_all add: s2c_destination_def route option.map_comp comp_def)
    qed
  qed
qed

definition one_client :: proxy where
  "one_client = example_proxy\<lparr>px_cfg := example_config\<lparr>c_mode := AWG_MODE_SERVER\<rparr>,
     px_sessions := session_insert empty_sessions 7 (V4 10 20, 0)\<rparr>"

theorem hub_routes_by_kind_witness:
  "\<exists>p' dest. s2c_destination one_client ([9] @ (write32_le 3 @ write32_le 7 @ replicate 56 0) @ []) 1 64 = Some (p', dest) \<and>
     map_option de_addr dest = Some (V4 10 20)"
proof -
  let ?m = "write32_le 3 @ write32_le 7 @ replicate 56 0 :: bytes"
  have w: "word_at 0 ?m = 3" "word_at 4 ?m = 7" by (simp_all add: word_at_def)
  have k: "classify ?m = Some Cookie" by (simp add: classify_kind w fits_kind_def)
  have one: "wf_sessions (px_sessions one_client)" "c_mode (px_cfg one_client) = AWG_MODE_SERVER"
    using st.inv_store [OF wf_empty_sessions] by (simp_all add: one_client_def)
  have "session_lookup (px_sessions one_client) 7 = Some (V4 10 20, 0)"
    using st.look_same [OF wf_empty_sessions] by (simp add: one_client_def)
  then have "map_option (\<lambda>s. se_addr (ss_entries (px_sessions one_client) ! s)) (session_get_entry (px_sessions one_client) 7) = Some (V4 10 20)"
    by (auto simp: session_lookup_def)
  then show ?thesis using hub_routes_by_kind [OF one, of "[9]" ?m "[]"] by (auto simp: k w)
qed

end
