(* ===== verification/Offload.thy ===== *)
theory Offload
  imports Hub_Path
begin

text \<open>
  Segmentation offload, from \<^verbatim>\<open>src/src/proxy.c\<close>: the run of packets one segmented send can
  carry (\<open>gso_run_len\<close>), the loop that walks a batch and offloads every run of it
  (\<open>send_batch_gso\<close>), its counters, and the splitting of coalesced reads (the GRO branches of
  \<open>c2s_thread_normal\<close> and \<open>s2c_thread\<close>).  The kernel is a parameter: what a call returns.  The
  theorems show that a batch goes out once and in order whatever the kernel refuses, within the
  limits the kernel puts on a segmented send, and that splitting undoes coalescing.
\<close>

section \<open>Errors of the socket calls\<close>

datatype errno = EPERM | EINTR | EIO | EAGAIN | EMSGSIZE | ENOPROTOOPT | EADDRNOTAVAIL | ENETDOWN | ENETUNREACH
  | ECONNREFUSED | EHOSTUNREACH | ENOBUFS | Eother nat

section \<open>Runs\<close>

abbreviation GSO_MAX_SEGMENTS :: nat where
  "GSO_MAX_SEGMENTS \<equiv> 64"

abbreviation GSO_MAX_BYTES :: nat where
  "GSO_MAX_BYTES \<equiv> 65507"

text \<open>A packet of a batch; the destination counts when the socket is not connected (\<open>named\<close>).\<close>

type_synonym pkt = "bytes \<times> cliaddr"

definition same_dest :: "bool \<Rightarrow> pkt \<Rightarrow> pkt \<Rightarrow> bool" where
  "same_dest named x y \<longleftrightarrow> \<not> named \<or> cliaddr_eq (snd x) (snd y)"

text \<open>The loop over equal packets: the bytes and packets of the run, and what is left of the batch.\<close>

fun run_equal :: "bool \<Rightarrow> pkt \<Rightarrow> nat \<Rightarrow> nat \<Rightarrow> pkt list \<Rightarrow> nat \<times> nat \<times> pkt list" where
  "run_equal named h tot run [] = (tot, run, [])"
| "run_equal named h tot run (x # xs) =
     (let seg = length (fst h)
      in if run < GSO_MAX_SEGMENTS \<and> length (fst x) = seg \<and> tot + seg \<le> GSO_MAX_BYTES \<and> same_dest named x h
         then run_equal named h (tot + seg) (run + 1) xs
         else (tot, run, x # xs))"

definition run_tail :: "bool \<Rightarrow> pkt \<Rightarrow> nat \<Rightarrow> nat \<Rightarrow> pkt list \<Rightarrow> nat" where
  "run_tail named h tot run rest =
     (case rest of
        [] \<Rightarrow> run
      | y # _ \<Rightarrow> if run < GSO_MAX_SEGMENTS \<and> length (fst y) < length (fst h) \<and>
                     tot + length (fst y) \<le> GSO_MAX_BYTES \<and> same_dest named y h
                  then run + 1 else run)"

definition gso_run_len :: "bool \<Rightarrow> pkt list \<Rightarrow> nat" where
  "gso_run_len named iov =
     (if length iov \<le> 1 then 0
      else let h = hd iov; seg = length (fst h)
           in if seg = 0 \<or> seg > GSO_MAX_BYTES then 0
              else let (tot, run, rest) = run_equal named h seg 1 (tl iov);
                       run = run_tail named h tot run rest
                   in if run > 1 then run else 0)"

section \<open>The kernel's side of a send\<close>

text \<open>
  One segmented send as the kernel sees it: \<open>sg_size\<close> is the \<open>UDP_SEGMENT\<close> value, sixteen bits
  wide, and \<open>sg_data\<close> the bytes of all buffers.  Such a send leaves the host as chunks of that
  size (\<^verbatim>\<open>udp(7)\<close>, \<open>UDP_SEGMENT\<close>).
\<close>

record segmented =
  sg_size :: u16
  sg_data :: bytes
  sg_addr :: cliaddr

function chunks :: "nat \<Rightarrow> bytes \<Rightarrow> bytes list" where
  "chunks n xs = (if n = 0 \<or> xs = [] then [] else take n xs # chunks n (drop n xs))"
  by auto
termination
  by (relation "measure (\<lambda>(n, xs). length xs)") (auto simp: neq_Nil_conv)

declare chunks.simps [simp del]

text \<open>The calls made, each with how many packets the kernel took.\<close>

datatype call = Segmented segmented nat | Datagrams "pkt list" nat

fun call_wire :: "call \<Rightarrow> pkt list" where
  "call_wire (Segmented g n) = map (\<lambda>d. (d, sg_addr g)) (take n (chunks (unat (sg_size g)) (sg_data g)))"
| "call_wire (Datagrams ps n) = take n ps"

text \<open>
  The answers of \<open>sendmsg\<close> and \<open>sendmmsg\<close>, which may depend on the number of calls made before:
  an error or the bytes taken, and the return value with the value \<open>errno\<close> has afterwards
  (\<open>None\<close> for zero).
\<close>

record kernel =
  k_sendmsg :: "nat \<Rightarrow> segmented \<Rightarrow> errno + nat"
  k_sendmmsg :: "nat \<Rightarrow> pkt list \<Rightarrow> int \<times> errno option"

text \<open>What the state of a sending thread keeps of the offload, with the log of its calls.\<close>

record gso_state =
  gs_ok :: bool
  gs_msgs :: u32
  gs_segs :: u32
  gs_log :: "call list"

definition send_gso :: "kernel \<Rightarrow> pkt list \<Rightarrow> gso_state \<Rightarrow> gso_state \<times> (errno + nat)" where
  "send_gso k ps st =
     (let seg_size = length (fst (hd ps));
          tot = sum_list (map (length \<circ> fst) ps);
          g = \<lparr>sg_size = of_nat seg_size, sg_data = concat (map fst ps), sg_addr = snd (hd ps)\<rparr>
      in case k_sendmsg k (length (gs_log st)) g of
           Inl e \<Rightarrow> (st\<lparr>gs_log := gs_log st @ [Segmented g 0]\<rparr>, Inl e)
         | Inr ret \<Rightarrow> let n = (if ret \<ge> tot then length ps else ret div seg_size)
                      in (st\<lparr>gs_log := gs_log st @ [Segmented g n]\<rparr>, Inr n))"

section \<open>The batch loop\<close>

text \<open>The plain send: the packets taken, or the error the loop ends with.\<close>

definition send_plain :: "kernel \<Rightarrow> pkt list \<Rightarrow> gso_state \<Rightarrow> gso_state \<times> (errno option + nat)" where
  "send_plain k ps st =
     (let (r, e) = k_sendmmsg k (length (gs_log st)) ps;
          st = st\<lparr>gs_log := gs_log st @ [Datagrams ps (nat r)]\<rparr>
      in if r \<le> 0 then (st, Inl e) else (st, Inr (nat r)))"

text \<open>How far to flush when nothing can be coalesced at the head: up to the next run.\<close>

fun skip_plain :: "bool \<Rightarrow> pkt list \<Rightarrow> nat" where
  "skip_plain named [] = 0"
| "skip_plain named (x # xs) = (if gso_run_len named (x # xs) = 0 then 1 + skip_plain named xs else 0)"

definition send_round :: "kernel \<Rightarrow> bool \<Rightarrow> pkt list \<Rightarrow> gso_state \<Rightarrow> gso_state \<times> (errno option + nat)" where
  "send_round k named ps st =
     (if gs_ok st
      then let run = gso_run_len named ps
           in if run > 1
              then case send_gso k (take run ps) st of
                     (st, Inr n) \<Rightarrow>
                       if n > 0 then (st\<lparr>gs_msgs := gs_msgs st + 1, gs_segs := gs_segs st + of_nat n\<rparr>, Inr n)
                       else send_plain k (take run ps) st
                   | (st, Inl e) \<Rightarrow>
                       send_plain k (take run ps) (if e = ENOPROTOOPT \<or> e = EIO then st\<lparr>gs_ok := False\<rparr> else st)
              else send_plain k (take (1 + skip_plain named (tl ps)) ps) st
      else send_plain k ps st)"

lemma send_plain_pos: "send_plain k ps st = (st', Inr n) \<Longrightarrow> 0 < n"
  by (auto simp: send_plain_def Let_def split: prod.splits if_splits)

lemma send_round_pos: "send_round k named ps st = (st', Inr n) \<Longrightarrow> 0 < n"
  by (auto simp: send_round_def Let_def split: prod.splits if_splits sum.splits dest: send_plain_pos)

text \<open>The state, the number of packets sent and the error of the send that failed.\<close>

function send_loop :: "kernel \<Rightarrow> bool \<Rightarrow> pkt list \<Rightarrow> nat \<Rightarrow> gso_state \<Rightarrow> gso_state \<times> nat \<times> errno option" where
  "send_loop k named ps sent st =
     (if ps = [] then (st, sent, None)
      else case send_round k named ps st of
             (st, Inl e) \<Rightarrow> (st, sent, e)
           | (st, Inr n) \<Rightarrow> send_loop k named (drop n ps) (sent + n) st)"
  by pat_completeness auto
termination
  by (relation "measure (\<lambda>(k, named, ps, sent, st). length ps)")
    (auto simp: neq_Nil_conv dest!: sym [of _ "send_round _ _ _ _"] send_round_pos)

declare send_loop.simps [simp del]

definition send_batch_gso :: "kernel \<Rightarrow> bool \<Rightarrow> pkt list \<Rightarrow> gso_state \<Rightarrow> gso_state \<times> nat \<times> errno option" where
  "send_batch_gso k named ps st = send_loop k named ps 0 st"

definition stats_add_tx :: "u32 \<Rightarrow> u32 \<Rightarrow> int \<Rightarrow> int \<Rightarrow> u32 \<times> u32" where
  "stats_add_tx tx dr nsend sent =
     (if sent > 0 then tx + word_of_int sent else tx,
      if nsend > sent then dr + word_of_int (nsend - sent) else dr)"

definition stats_add_rx :: "u32 \<Rightarrow> int \<Rightarrow> u32" where
  "stats_add_rx rx n = (if n > 0 then rx + word_of_int n else rx)"

section \<open>What a run is\<close>

text \<open>A list of packets one segmented send can carry: all of one length but the last, which may be shorter.\<close>

definition uniform_run :: "bool \<Rightarrow> pkt list \<Rightarrow> bool" where
  "uniform_run named ps \<longleftrightarrow>
     ps \<noteq> [] \<and> 0 < length (fst (hd ps)) \<and> length ps \<le> GSO_MAX_SEGMENTS \<and>
     sum_list (map (length \<circ> fst) ps) \<le> GSO_MAX_BYTES \<and>
     list_all (\<lambda>x. length (fst x) = length (fst (hd ps))) (butlast ps) \<and>
     length (fst (last ps)) \<le> length (fst (hd ps)) \<and> list_all (\<lambda>x. same_dest named x (hd ps)) ps"

lemma run_equal_spec:
  assumes "run_equal named h tot run xs = (tot', run', rest)" "run \<le> GSO_MAX_SEGMENTS" "tot \<le> GSO_MAX_BYTES"
  shows "\<exists>ys. xs = ys @ rest \<and> run' = run + length ys \<and> tot' = tot + length ys * length (fst h) \<and>
    run' \<le> GSO_MAX_SEGMENTS \<and> tot' \<le> GSO_MAX_BYTES \<and>
    list_all (\<lambda>x. length (fst x) = length (fst h) \<and> same_dest named x h) ys"
  using assms
proof (induction named h tot run xs arbitrary: tot' run' rest rule: run_equal.induct)
  case (2 named h tot run x xs)
  let ?seg = "length (fst h)"
  show ?case
  proof (cases "run < GSO_MAX_SEGMENTS \<and> length (fst x) = ?seg \<and> tot + ?seg \<le> GSO_MAX_BYTES \<and> same_dest named x h")
    case True
    then obtain ys where "xs = ys @ rest" "run' = run + 1 + length ys" "tot' = tot + ?seg + length ys * ?seg"
      "run' \<le> GSO_MAX_SEGMENTS" "tot' \<le> GSO_MAX_BYTES" "list_all (\<lambda>x. length (fst x) = ?seg \<and> same_dest named x h) ys"
      using "2.IH" [OF refl True, of tot' run' rest] "2.prems" by auto
    then show ?thesis using True by (intro exI [of _ "x # ys"]) (simp add: algebra_simps)
  next
    case False
    then show ?thesis using 2 by (auto simp: Let_def intro!: exI [of _ "[]"])
  qed
qed auto

lemma gso_run_len_le: "gso_run_len named ps \<le> length ps"
proof (cases ps)
  case (Cons h xs)
  obtain tot run rest where r: "run_equal named h (length (fst h)) 1 xs = (tot, run, rest)" by (metis prod_cases3)
  have "\<And>ys. run_equal named h t r0 zs = (tot, run, rest) \<Longrightarrow> run + length rest = r0 + length zs" for t r0 zs
    by (induction named h t r0 zs rule: run_equal.induct) (auto simp: Let_def split: if_splits)
  from this [OF r] show ?thesis using r Cons
    by (auto simp: gso_run_len_def run_tail_def Let_def split: list.split)
qed (simp add: gso_run_len_def)

lemma gso_run_uniform:
  assumes "1 < gso_run_len named ps"
  shows "uniform_run named (take (gso_run_len named ps) ps)"
proof -
  obtain h xs where ps: "ps = h # xs" using assms by (cases ps) (auto simp: gso_run_len_def)
  define seg where "seg = length (fst h)"
  have seg: "0 < seg" "seg \<le> GSO_MAX_BYTES" using assms by (auto simp: gso_run_len_def ps Let_def seg_def split: if_splits)
  obtain tot run rest where r: "run_equal named h seg 1 xs = (tot, run, rest)" by (metis prod_cases3)
  from run_equal_spec [OF r] seg obtain ys where ys: "xs = ys @ rest" "run = 1 + length ys" "tot = seg + length ys * seg"
    "run \<le> GSO_MAX_SEGMENTS" "tot \<le> GSO_MAX_BYTES" and all: "list_all (\<lambda>x. length (fst x) = seg \<and> same_dest named x h) ys"
    by (auto simp: seg_def)
  have sum: "sum_list (map (length \<circ> fst) zs) = length zs * seg" if "list_all (\<lambda>x. length (fst x) = seg \<and> same_dest named x h) zs" for zs
    using that by (induction zs) auto
  have hh: "same_dest named h h" by (simp add: same_dest_def)
  have len: "gso_run_len named ps = run_tail named h tot run rest"
    using assms r seg by (auto simp: gso_run_len_def ps Let_def seg_def split: if_splits)
  have eq: "list_all (\<lambda>x. length (fst x) = seg) (h # ys)"
    using list.pred_mono_strong [OF all] by (simp add: seg_def)
  show ?thesis
  proof (cases "run_tail named h tot run rest = run")
    case True
    have t: "take (gso_run_len named ps) ps = h # ys" using True len ys by (simp add: ps)
    have lst: "length (fst (last (h # ys))) = seg" using all seg_def by (induction ys rule: rev_induct) auto
    have but: "list_all (\<lambda>x. length (fst x) = seg) (butlast (h # ys))"
      using eq unfolding list_all_iff by (blast dest: in_set_butlastD)
    have dest: "list_all (\<lambda>x. same_dest named x h) (h # ys)" using all hh by (auto simp: list_all_iff)
    have "length (h # ys) \<le> GSO_MAX_SEGMENTS" "sum_list (map (length \<circ> fst) (h # ys)) \<le> GSO_MAX_BYTES"
      using ys sum [OF all] by (simp_all add: seg_def)
    then show ?thesis unfolding uniform_run_def t using lst but dest seg(1) by (simp add: seg_def)
  next
    case False
    then obtain y rest' where y: "rest = y # rest'" "run < GSO_MAX_SEGMENTS" "length (fst y) < seg" "tot + length (fst y) \<le> GSO_MAX_BYTES"
      "same_dest named y h" "run_tail named h tot run rest = run + 1"
      by (auto simp: run_tail_def seg_def split: list.splits if_splits)
    have "take (gso_run_len named ps) ps = h # ys @ [y]" using len y ys by (simp add: ps)
    moreover have "list_all (\<lambda>x. length (fst x) = seg) (butlast (h # ys @ [y]))" using eq by (simp add: butlast_append)
    moreover have "list_all (\<lambda>x. same_dest named x h) (h # ys @ [y])" using all hh y(5) by (auto simp: list_all_iff)
    moreover have "length (h # ys @ [y]) \<le> GSO_MAX_SEGMENTS" "sum_list (map (length \<circ> fst) (h # ys @ [y])) \<le> GSO_MAX_BYTES"
      using y ys sum [OF all] by (simp_all add: seg_def)
    ultimately show ?thesis unfolding uniform_run_def using seg(1) y(3) by (simp add: seg_def)
  qed
qed

text \<open>Cutting the bytes of a run by its segment size gives its packets back.\<close>

lemma chunks_concat:
  assumes "ds \<noteq> []" "0 < n" "list_all (\<lambda>d. length d = n) (butlast ds)" "0 < length (last ds)" "length (last ds) \<le> n"
  shows "chunks n (concat ds) = ds"
  using assms
proof (induction ds)
  case (Cons d ds)
  show ?case
  proof (cases "ds = []")
    case True
    then have "take n d = d" "drop n d = []" "d \<noteq> []" using Cons.prems by auto
    then show ?thesis using True Cons.prems(2) chunks.simps [of n d] chunks.simps [of n "[]"] by simp
  next
    case False
    then have "length d = n" "chunks n (concat ds) = ds" using Cons by auto
    then show ?thesis using Cons.prems False chunks.simps [of n "concat (d # ds)"] by auto
  qed
qed simp

section \<open>What a batch puts on the wire\<close>

abbreviation wire_log :: "call list \<Rightarrow> pkt list" where
  "wire_log cs \<equiv> concat (map call_wire cs)"

text \<open>The limits the kernel puts on a segmented send.\<close>

fun legal_call :: "call \<Rightarrow> bool" where
  "legal_call (Segmented g n) \<longleftrightarrow>
     0 < unat (sg_size g) \<and> length (sg_data g) \<le> GSO_MAX_BYTES \<and>
     length (chunks (unat (sg_size g)) (sg_data g)) \<le> GSO_MAX_SEGMENTS"
| "legal_call (Datagrams ps n) \<longleftrightarrow> True"

definition sent_as :: "bool \<Rightarrow> pkt \<Rightarrow> pkt \<Rightarrow> bool" where
  "sent_as named x y \<longleftrightarrow> fst x = fst y \<and> same_dest named x y"

lemma sent_as_refl [simp]: "sent_as named x x"
  by (simp add: sent_as_def same_dest_def)

text \<open>\<open>sendmmsg\<close> takes at most the messages it is given (\<^verbatim>\<open>sendmmsg(2)\<close>).\<close>

definition kernel_sane :: "kernel \<Rightarrow> bool" where
  "kernel_sane k \<longleftrightarrow> (\<forall>i ps. fst (k_sendmmsg k i ps) \<le> int (length ps))"

definition carries :: "bool \<Rightarrow> gso_state \<Rightarrow> gso_state \<Rightarrow> pkt list \<Rightarrow> bool" where
  "carries named st st' ps \<longleftrightarrow>
     (\<exists>new. gs_log st' = gs_log st @ new \<and> list_all legal_call new \<and> list_all2 (sent_as named) (wire_log new) ps)"

lemma carries_refl [simp]: "carries named st st []"
  by (simp add: carries_def)

lemma carries_trans:
  assumes "carries named st st1 ps" "carries named st1 st2 qs"
  shows "carries named st st2 (ps @ qs)"
  using assms unfolding carries_def by (force intro: list_all2_appendI)

lemma carries_counters [simp]:
  "carries named st (st'\<lparr>gs_ok := b\<rparr>) ps = carries named st st' ps"
  "carries named st (st'\<lparr>gs_msgs := x, gs_segs := y\<rparr>) ps = carries named st st' ps"
  by (simp_all add: carries_def)

lemma list_all2_sent_refl [simp]: "list_all2 (sent_as named) ps ps"
  by (simp add: list_all2_conv_all_nth)

lemma send_plain_carries:
  assumes "kernel_sane k" "send_plain k ps st = (st', res)"
  shows "case res of Inl e \<Rightarrow> carries named st st' [] | Inr n \<Rightarrow> n \<le> length ps \<and> carries named st st' (take n ps)"
proof -
  obtain r e where r: "k_sendmmsg k (length (gs_log st)) ps = (r, e)" by (cases "k_sendmmsg k (length (gs_log st)) ps") auto
  then have "r \<le> int (length ps)" using assms(1) unfolding kernel_sane_def by (metis fst_conv)
  then show ?thesis using assms(2) r by (auto simp: send_plain_def Let_def carries_def split: if_splits)
qed

lemma run_chunks:
  assumes "uniform_run named ps" "list_all (\<lambda>x. fst x \<noteq> []) ps"
  shows "unat (of_nat (length (fst (hd ps))) :: u16) = length (fst (hd ps))"
    and "chunks (length (fst (hd ps))) (concat (map fst ps)) = map fst ps"
proof -
  obtain h xs where ps: "ps = h # xs" using assms(1) by (cases ps) (auto simp: uniform_run_def)
  have "length (fst h) \<le> GSO_MAX_BYTES" using assms(1) by (simp add: uniform_run_def ps)
  then show "unat (of_nat (length (fst (hd ps))) :: u16) = length (fst (hd ps))"
    by (simp add: ps unsigned_of_nat take_bit_nat_eq_self)
  have "last ps \<in> set ps" by (simp add: ps)
  then have "fst (last ps) \<noteq> []" using assms(2) unfolding list_all_iff by blast
  moreover have "last (map fst ps) = fst (last ps)" "butlast (map fst ps) = map fst (butlast ps)"
    by (simp_all add: ps last_map map_butlast)
  ultimately show "chunks (length (fst (hd ps))) (concat (map fst ps)) = map fst ps"
    using assms(1) by (intro chunks_concat) (auto simp: uniform_run_def list.pred_map comp_def)
qed

lemma uniform_sum_le:
  assumes "uniform_run named ps"
  shows "sum_list (map (length \<circ> fst) ps) \<le> length ps * length (fst (hd ps))"
proof -
  have "list_all (\<lambda>x. length (fst x) \<le> n) ps \<Longrightarrow> sum_list (map (length \<circ> fst) ps) \<le> length ps * n" for n
    by (induction ps) auto
  moreover have "length (fst x) \<le> length (fst (hd ps))" if "x \<in> set ps" for x
  proof -
    have "x \<in> set (butlast ps) \<or> x = last ps"
      using that by (cases ps rule: rev_cases) auto
    then show ?thesis using assms unfolding uniform_run_def list_all_iff by fastforce
  qed
  ultimately show ?thesis unfolding list_all_iff by blast
qed

lemma send_gso_carries:
  assumes run: "uniform_run named ps" and ne: "list_all (\<lambda>x. fst x \<noteq> []) ps" and s: "send_gso k ps st = (st', res)"
  shows "case res of Inl e \<Rightarrow> carries named st st' [] | Inr n \<Rightarrow> n \<le> length ps \<and> carries named st st' (take n ps)"
proof -
  define seg where "seg = length (fst (hd ps))"
  define tot where "tot = sum_list (map (length \<circ> fst) ps)"
  let ?g = "\<lparr>sg_size = of_nat seg, sg_data = concat (map fst ps), sg_addr = snd (hd ps)\<rparr> :: segmented"
  note c = run_chunks [OF run ne, folded seg_def]
  have len: "length (concat (map fst ps)) = tot" by (simp add: tot_def length_concat comp_def)
  have seg: "0 < seg" and lim: "length ps \<le> GSO_MAX_SEGMENTS" "tot \<le> GSO_MAX_BYTES"
    and dest: "list_all (\<lambda>x. same_dest named x (hd ps)) ps"
    using run by (simp_all add: uniform_run_def seg_def tot_def)
  have legal: "legal_call (Segmented ?g n)" for n using seg lim len c by simp
  have w: "list_all2 (sent_as named) (call_wire (Segmented ?g n)) (take n ps)" for n
    using dest c cliaddr_eq_sym by (auto simp: list_all2_conv_all_nth list_all_length sent_as_def same_dest_def take_map)
  have car: "carries named st (st\<lparr>gs_log := gs_log st @ [Segmented ?g n]\<rparr>) (take n ps)" for n
    using legal [of n] w [of n] by (simp add: carries_def)
  show ?thesis
  proof (cases "k_sendmsg k (length (gs_log st)) ?g")
    case (Inl e)
    then have "send_gso k ps st = (st\<lparr>gs_log := gs_log st @ [Segmented ?g 0]\<rparr>, Inl e)"
      by (simp add: send_gso_def Let_def seg_def)
    then show ?thesis using s car [of 0] by simp
  next
    case (Inr ret)
    define n where "n = (if ret \<ge> tot then length ps else ret div seg)"
    have "tot \<le> length ps * seg" using uniform_sum_le [OF run] by (simp add: tot_def seg_def)
    then have "ret < tot \<Longrightarrow> ret div seg \<le> length ps"
      by (metis div_le_mono div_mult_self_is_m less_imp_le order.trans seg)
    then have "n \<le> length ps" by (simp add: n_def)
    moreover have "send_gso k ps st = (st\<lparr>gs_log := gs_log st @ [Segmented ?g n]\<rparr>, Inr n)"
      using Inr by (simp add: send_gso_def Let_def seg_def tot_def n_def)
    ultimately show ?thesis using s car [of n] by simp
  qed
qed

lemma send_round_carries:
  assumes k: "kernel_sane k" and ne: "list_all (\<lambda>x. fst x \<noteq> []) ps" and r: "send_round k named ps st = (st', res)"
  shows "case res of Inl e \<Rightarrow> carries named st st' [] | Inr n \<Rightarrow> n \<le> length ps \<and> carries named st st' (take n ps)"
proof -
  have plain: "case res of Inl e \<Rightarrow> carries named st st' [] | Inr n \<Rightarrow> n \<le> length ps \<and> carries named st st' (take n ps)"
    if "send_plain k (take w ps) st1 = (st', res)" "carries named st st1 []" for w st1
  proof -
    have "take n (take w ps) = take n ps" if "n \<le> length (take w ps)" for n using that by (simp add: min_def split: if_splits)
    note t = this
    note c = send_plain_carries [OF k that(1), of named]
    show ?thesis
    proof (cases res)
      case (Inl e)
      then show ?thesis using c carries_trans [OF that(2), of st' "[]"] by simp
    next
      case (Inr n)
      then show ?thesis using c carries_trans [OF that(2), of st' "take n ps"] t [of n] by (simp add: min_def split: if_splits)
    qed
  qed
  consider (off) "\<not> gs_ok st" | (head) "gs_ok st" "\<not> 1 < gso_run_len named ps" | (run) "gs_ok st" "1 < gso_run_len named ps" by blast
  then show ?thesis
  proof cases
    case off
    then show ?thesis using r plain [of "length ps" st] by (simp add: send_round_def)
  next
    case head
    then show ?thesis using r plain [of "1 + skip_plain named (tl ps)" st] by (simp add: send_round_def)
  next
    case run
    define n0 where "n0 = gso_run_len named ps"
    have ne': "list_all (\<lambda>x. fst x \<noteq> []) (take n0 ps)" using ne by (auto simp: list_all_iff dest: in_set_takeD)
    obtain st1 res1 where g: "send_gso k (take n0 ps) st = (st1, res1)" by (cases "send_gso k (take n0 ps) st") auto
    note c = send_gso_carries [OF gso_run_uniform [OF run(2), folded n0_def] ne' g]
    show ?thesis
    proof (cases res1)
      case (Inl e)
      define st2 where "st2 = (if e = ENOPROTOOPT \<or> e = EIO then st1\<lparr>gs_ok := False\<rparr> else st1)"
      have "send_plain k (take n0 ps) st2 = (st', res)"
        using r run g Inl unfolding send_round_def Let_def n0_def [symmetric] st2_def by simp
      moreover have "carries named st st2 []" using c Inl by (simp add: st2_def)
      ultimately show ?thesis by (rule plain)
    next
      case (Inr n)
      show ?thesis
      proof (cases "0 < n")
        case True
        have "res = Inr n" "st' = st1\<lparr>gs_msgs := gs_msgs st1 + 1, gs_segs := gs_segs st1 + of_nat n\<rparr>"
          using r run g Inr True unfolding send_round_def Let_def n0_def [symmetric] by simp_all
        moreover have "n \<le> length (take n0 ps)" "carries named st st1 (take n (take n0 ps))" using c Inr by (simp_all only: sum.case)
        ultimately show ?thesis by (simp add: min_absorb1)
      next
        case False
        have "send_plain k (take n0 ps) st1 = (st', res)"
          using r run g Inr False unfolding send_round_def Let_def n0_def [symmetric] by simp
        moreover have "carries named st st1 []" using c Inr False by simp
        ultimately show ?thesis by (rule plain)
      qed
    qed
  qed
qed

text \<open>The loop stops early only where \<open>sendmmsg\<close> refuses a non-empty list.\<close>

lemma send_plain_refused: "send_plain k ps st = (st', Inl e) \<Longrightarrow> \<exists>i. fst (k_sendmmsg k i ps) \<le> 0"
  by (rule exI [of _ "length (gs_log st)"]) (auto simp: send_plain_def Let_def split: prod.splits if_splits)

lemma send_round_refused:
  assumes "send_round k named ps st = (st', Inl e)" "ps \<noteq> []"
  shows "\<exists>i qs. qs \<noteq> [] \<and> fst (k_sendmmsg k i qs) \<le> 0"
proof -
  obtain st1 w where "send_plain k (take w ps) st1 = (st', Inl e)" "0 < w"
  proof (cases "gs_ok st \<and> 1 < gso_run_len named ps")
    case True
    then show ?thesis using assms(1) that [of "gso_run_len named ps"]
      by (auto simp: send_round_def Let_def split: prod.splits sum.splits if_splits)
  next
    case False
    have "take (length ps) ps = ps" by simp
    then show ?thesis using assms False that [of "length ps" st] that [of "1 + skip_plain named (tl ps)" st]
      by (cases "gs_ok st") (auto simp: send_round_def)
  qed
  then show ?thesis using send_plain_refused [of k "take w ps" st1 st' e] assms(2) by (metis take_eq_Nil less_irrefl)
qed

lemma send_loop_carries:
  assumes "kernel_sane k" "list_all (\<lambda>x. fst x \<noteq> []) ps"
  shows "case send_loop k named ps sent st of (st', sent', err) \<Rightarrow>
    sent \<le> sent' \<and> sent' \<le> sent + length ps \<and> carries named st st' (take (sent' - sent) ps) \<and>
    (sent' = sent + length ps \<longrightarrow> err = None) \<and>
    ((\<forall>i qs. qs \<noteq> [] \<longrightarrow> 0 < fst (k_sendmmsg k i qs)) \<longrightarrow> sent' = sent + length ps)"
  using assms
proof (induction k named ps sent st rule: send_loop.induct)
  case (1 k named ps sent st)
  show ?case
  proof (cases "ps = []")
    case True
    then show ?thesis by (simp add: send_loop.simps)
  next
    case False
    obtain st1 res where r: "send_round k named ps st = (st1, res)" by (cases "send_round k named ps st") auto
    note c = send_round_carries [OF "1.prems" r]
    show ?thesis
    proof (cases res)
      case (Inl e)
      then have "\<exists>i qs. qs \<noteq> [] \<and> fst (k_sendmmsg k i qs) \<le> 0" using send_round_refused [of k named ps st st1 e] r False by simp
      then have "\<not> (\<forall>i qs. qs \<noteq> [] \<longrightarrow> 0 < fst (k_sendmmsg k i qs))" by (metis not_less)
      then show ?thesis using False r c Inl by (simp add: send_loop.simps [of k named ps])
    next
      case (Inr n)
      have n: "n \<le> length ps" "carries named st st1 (take n ps)" using c Inr by auto
      have ne: "list_all (\<lambda>x. fst x \<noteq> []) (drop n ps)" using "1.prems"(2) by (auto simp: list_all_iff dest: in_set_dropD)
      obtain st' sent' err where l: "send_loop k named (drop n ps) (sent + n) st1 = (st', sent', err)"
        by (cases "send_loop k named (drop n ps) (sent + n) st1") auto
      have ih: "sent + n \<le> sent'" "sent' \<le> sent + n + length (drop n ps)" "carries named st1 st' (take (sent' - (sent + n)) (drop n ps))"
        "sent' = sent + n + length (drop n ps) \<longrightarrow> err = None"
        "(\<forall>i qs. qs \<noteq> [] \<longrightarrow> 0 < fst (k_sendmmsg k i qs)) \<longrightarrow> sent' = sent + n + length (drop n ps)"
        using "1.IH" [OF False r [symmetric] Inr "1.prems"(1) ne] l by simp_all
      have "take n ps @ take (sent' - (sent + n)) (drop n ps) = take (sent' - sent) ps"
        using take_add [of n "sent' - (sent + n)" ps] ih(1) by simp
      then have "carries named st st' (take (sent' - sent) ps)" using carries_trans [OF n(2) ih(3)] by simp
      moreover have "sent + n + length (drop n ps) = sent + length ps" using n(1) by simp
      ultimately show ?thesis using ih Inr r False l by (simp add: send_loop.simps [of k named ps])
    qed
  qed
qed

section \<open>Coalesced reads\<close>

text \<open>
  \<open>gro_seg_size\<close>: the control messages of a read as level, type and value; the segment size is
  the value of the first one of type \<open>UDP_GRO\<close> at level \<open>IPPROTO_UDP\<close>, zero without one.
\<close>

fun gro_seg_size :: "(int \<times> int \<times> int) list \<Rightarrow> int" where
  "gro_seg_size [] = 0"
| "gro_seg_size ((level, type, ss) # cms) = (if level = 17 \<and> type = 104 then ss else gro_seg_size cms)"

text \<open>The state of one direction: the read buffer, what is pending in it, and the give-up counters.\<close>

record gro_ctl =
  gr_buf :: bytes
  gr_on :: bool
  gr_off :: int
  gr_total :: int
  gr_seg :: int
  gr_idle :: int
  gr_in :: int
  gr_gap :: int

text \<open>
  The client-to-server loop over the segments of a read: the packets copied out, where the loop
  stopped, and whether it met a segment larger than a packet buffer.
\<close>

fun gro_cut :: "nat \<Rightarrow> bytes \<Rightarrow> int \<Rightarrow> int \<Rightarrow> int \<Rightarrow> bytes list \<times> int \<times> bool" where
  "gro_cut 0 buf tot seg off = ([], off, False)"
| "gro_cut (Suc c) buf tot seg off =
     (if off < tot
      then let plen = (if off + seg \<le> tot then seg else tot - off)
           in if plen > int BUF_SIZE then ([], off, True)
              else let (ps, off', big) = gro_cut c buf tot seg (off + seg)
                   in (take (nat plen) (drop (nat off) buf) # ps, off', big)
      else ([], off, False))"

definition gro_c2s_split :: "int \<Rightarrow> int \<Rightarrow> gro_ctl \<Rightarrow> bytes list \<times> gro_ctl" where
  "gro_c2s_split tot seg c =
     (if seg > 0 \<and> tot > seg
      then let (ps, off, big) = gro_cut BATCH_SIZE (gr_buf c) tot seg (gr_off c);
               ps = (if big then [] else ps);
               c = (if big then c\<lparr>gr_on := False\<rparr> else c);
               c = (if ps \<noteq> [] then c\<lparr>gr_idle := 0\<rparr> else c);
               c = (if off < tot then c\<lparr>gr_off := off, gr_total := tot, gr_seg := seg\<rparr>
                    else c\<lparr>gr_off := 0, gr_total := 0\<rparr>)
           in (ps, c)
      else let c = c\<lparr>gr_idle := gr_idle c + 1\<rparr>;
               c = (if gr_idle c \<ge> 8 then c\<lparr>gr_on := False, gr_in := gr_gap c\<rparr> else c)
           in (if tot > int BUF_SIZE then [] else [take (nat tot) (gr_buf c)], c))"

text \<open>
  A turn of the loop while coalescing is on: what is pending first, otherwise a new read of
  \<open>data\<close> with segment size \<open>seg\<close>.
\<close>

definition gro_pending :: "gro_ctl \<Rightarrow> bool" where
  "gro_pending c \<longleftrightarrow> gr_off c < gr_total c"

definition gro_fill :: "bytes \<Rightarrow> gro_ctl \<Rightarrow> gro_ctl" where
  "gro_fill data c = c\<lparr>gr_buf := data @ drop (length data) (gr_buf c), gr_off := 0, gr_total := 0\<rparr>"

definition gro_c2s_turn :: "bytes \<times> int \<Rightarrow> gro_ctl \<Rightarrow> bytes list \<times> gro_ctl" where
  "gro_c2s_turn r c =
     (if gro_pending c then gro_c2s_split (gr_total c) (gr_seg c) c
      else if fst r = [] then ([], c)
      else gro_c2s_split (int (length (fst r))) (snd r) (gro_fill (fst r) c))"

text \<open>Offering coalescing another chance: the state and whether the kernel took it.\<close>

definition gro_rearm :: "bool \<Rightarrow> bool \<Rightarrow> gro_ctl \<Rightarrow> gro_ctl \<times> bool" where
  "gro_rearm no_gro enabled c =
     (if gr_in c > 0
      then let c = c\<lparr>gr_in := gr_in c - 1\<rparr>
           in if gr_in c = 0 \<and> \<not> no_gro \<and> enabled
              then (c\<lparr>gr_on := True, gr_idle := 0, gr_gap := (if gr_gap c < 32768 then gr_gap c * 2 else gr_gap c)\<rparr>, True)
              else (c, False)
      else (c, False))"

text \<open>
  The server-to-client loop, which restores the segments in place: the state, the buffer, where
  it stopped and the datagrams for the client.  The caller enters it with a positive segment
  size only.
\<close>

function s2c_gro_loop ::
    "proxy \<Rightarrow> bytes \<Rightarrow> int \<Rightarrow> int \<Rightarrow> int \<Rightarrow> (int \<times> int \<times> cliaddr) list
     \<Rightarrow> (proxy \<times> bytes \<times> int \<times> (int \<times> int \<times> cliaddr) list) option" where
  "s2c_gro_loop p buf tot seg off out =
     (if off < tot \<and> length out < BATCH_SIZE \<and> 0 < seg
      then do { let end_off = (if off + seg > tot then tot else off + seg);
                (p, b, res) \<leftarrow> process_s2c_pkt_normal p (drop (nat off) buf) (end_off - off);
                s2c_gro_loop p (take (nat off) buf @ b) tot seg (off + seg)
                  (case res of None \<Rightarrow> out | Some (o', len, a) \<Rightarrow> out @ [(off + o', len, a)]) }
      else Some (p, buf, off, out))"
  by pat_completeness auto
termination
  by (relation "measure (\<lambda>(p, buf, tot, seg, off, out). nat (tot - off))") auto

declare s2c_gro_loop.simps [simp del]

definition s2c_gro_split :: "proxy \<Rightarrow> int \<Rightarrow> int \<Rightarrow> gro_ctl \<Rightarrow> (proxy \<times> gro_ctl \<times> (int \<times> int \<times> cliaddr) list) option" where
  "s2c_gro_split p n seg c =
     (if seg > 0 \<and> n > seg
      then do { (p, buf, off, out) \<leftarrow> s2c_gro_loop p (gr_buf c) n seg (gr_off c) [];
                let c = c\<lparr>gr_buf := buf, gr_idle := 0\<rparr>;
                Some (p, if off < n then c\<lparr>gr_off := off, gr_total := n, gr_seg := seg\<rparr> else c\<lparr>gr_off := 0, gr_total := 0\<rparr>, out) }
      else do { let c = c\<lparr>gr_idle := gr_idle c + 1\<rparr>;
                let c = (if gr_idle c \<ge> 8 then c\<lparr>gr_on := False, gr_in := gr_gap c\<rparr> else c);
                (p, buf, res) \<leftarrow> process_s2c_pkt_normal p (gr_buf c) n;
                Some (p, c\<lparr>gr_buf := buf\<rparr>, case res of None \<Rightarrow> [] | Some r \<Rightarrow> [r]) })"

section \<open>Splitting undoes coalescing\<close>

lemma chunks_Nil [simp]: "chunks n [] = []"
  by (simp add: chunks.simps)

lemma chunks_step: "0 < n \<Longrightarrow> xs \<noteq> [] \<Longrightarrow> chunks n xs = take n xs # chunks n (drop n xs)"
  by (simp add: chunks.simps [of n xs])

lemma chunks_cover: "0 < n \<Longrightarrow> length xs \<le> n * length (chunks n xs)"
proof (induction n xs rule: chunks.induct)
  case (1 n xs)
  show ?case
  proof (cases "xs = []")
    case False
    then have "length (drop n xs) \<le> n * length (chunks n (drop n xs))" using 1 by simp
    then show ?thesis using 1(2) False by (simp add: chunks_step)
  qed simp
qed

lemma chunks_drop: "0 < n \<Longrightarrow> drop k (chunks n xs) = chunks n (drop (n * k) xs)"
proof (induction k arbitrary: xs)
  case (Suc k)
  then show ?case using Suc.IH [of "drop n xs"] by (cases "xs = []") (simp_all add: chunks_step add.commute)
qed simp

text \<open>The cut of a read is its list of chunks, a batch of them at a time.\<close>

lemma gro_cut_chunks:
  assumes "0 < seg" "seg \<le> BUF_SIZE" "tot \<le> length buf"
  shows "gro_cut c buf (int tot) (int seg) (int off) =
    (let ps = take c (chunks seg (drop off (take tot buf))) in (ps, int (off + seg * length ps), False))"
proof (induction c arbitrary: off)
  case (Suc c)
  show ?case
  proof (cases "off < tot")
    case True
    then have ne: "drop off (take tot buf) \<noteq> []" using assms(3) by simp
    have cut: "take (nat (if int off + int seg \<le> int tot then int seg else int tot - int off)) (drop off buf) =
        take seg (drop off (take tot buf))"
      using True assms(3) by (auto simp: drop_take min_def nat_diff_distrib)
    have small: "\<not> (if int off + int seg \<le> int tot then int seg else int tot - int off) > int BUF_SIZE"
      using assms(2) True by auto
    have step: "chunks seg (drop off (take tot buf)) =
        take seg (drop off (take tot buf)) # chunks seg (drop (off + seg) (take tot buf))"
      using chunks_step [OF assms(1) ne] by (simp add: add.commute)
    have ih: "gro_cut c buf (int tot) (int seg) (int off + int seg) =
      (let ps = take c (chunks seg (drop (off + seg) (take tot buf))) in (ps, int (off + seg + seg * length ps), False))"
      using Suc [of "off + seg"] by simp
    show ?thesis using True small cut by (simp add: Let_def ih step distrib_left)
  qed simp
qed (simp add: Let_def)

lemma gro_split_chunks:
  assumes "0 < seg" "seg \<le> BUF_SIZE" "seg < tot" "tot \<le> length (gr_buf c)" "gr_off c = int off" "off < tot"
  shows "\<exists>ps c'. gro_c2s_split (int tot) (int seg) c = (ps, c') \<and> ps \<noteq> [] \<and>
    gr_buf c' = gr_buf c \<and> gr_on c' = gr_on c \<and> (gr_seg c' = int seg \<or> \<not> gro_pending c') \<and>
    (\<exists>off'. off < off' \<and>
      ps @ (if gro_pending c' then chunks seg (drop off' (take tot (gr_buf c))) else []) = chunks seg (drop off (take tot (gr_buf c))) \<and>
      (gro_pending c' \<longrightarrow> gr_off c' = int off' \<and> gr_total c' = int tot \<and> off' < tot))"
proof -
  define L where "L = chunks seg (drop off (take tot (gr_buf c)))"
  define ps where "ps = take BATCH_SIZE L"
  define off' where "off' = off + seg * length ps"
  have ne: "drop off (take tot (gr_buf c)) \<noteq> []" using assms(4,6) by simp
  have L: "L \<noteq> []" using chunks_step [OF assms(1) ne] by (simp add: L_def)
  then have ps: "ps \<noteq> []" by (simp add: ps_def)
  then have gt: "off < off'" using assms(1) by (simp add: off'_def)
  have cut: "gro_cut BATCH_SIZE (gr_buf c) (int tot) (int seg) (gr_off c) = (ps, int off', False)"
    using gro_cut_chunks [OF assms(1,2,4), of BATCH_SIZE off] by (simp add: assms(5) ps_def off'_def L_def Let_def)
  have rest: "drop (length ps) L = chunks seg (drop off' (take tot (gr_buf c)))"
    by (simp add: L_def off'_def chunks_drop [OF assms(1)] add.commute)
  let ?c = "c\<lparr>gr_idle := 0\<rparr>"
  have split: "gro_c2s_split (int tot) (int seg) c =
      (ps, if off' < tot then ?c\<lparr>gr_off := int off', gr_total := int tot, gr_seg := int seg\<rparr> else ?c\<lparr>gr_off := 0, gr_total := 0\<rparr>)"
    using assms(1,3) ps cut by (simp add: gro_c2s_split_def Let_def)
  have all: "ps @ (if off' < tot then chunks seg (drop off' (take tot (gr_buf c))) else []) = L"
  proof (cases "off' < tot")
    case True
    then show ?thesis using rest by (simp add: ps_def [symmetric]) (metis append_take_drop_id ps_def length_take min.cobounded2 take_all_iff take_take min.commute rest)
  next
    case False
    then have "chunks seg (drop off' (take tot (gr_buf c))) = []" by simp
    then show ?thesis using False rest by (simp add: ps_def)
  qed
  show ?thesis
  proof (cases "off' < tot")
    case True
    then show ?thesis using split all ps gt by (auto simp: gro_pending_def L_def [symmetric] intro!: exI [of _ off'])
  next
    case False
    then show ?thesis using split all ps gt by (auto simp: gro_pending_def L_def [symmetric] intro!: exI [of _ off'])
  qed
qed

text \<open>The turns that follow a read until nothing of it is pending.\<close>

fun gro_drain :: "nat \<Rightarrow> gro_ctl \<Rightarrow> bytes list \<times> gro_ctl" where
  "gro_drain 0 c = ([], c)"
| "gro_drain (Suc k) c =
     (if gro_pending c
      then let (ps, c) = gro_c2s_turn ([], 0) c; (qs, c) = gro_drain k c in (ps @ qs, c)
      else ([], c))"

definition gro_read_all :: "bytes \<Rightarrow> int \<Rightarrow> gro_ctl \<Rightarrow> bytes list \<times> gro_ctl" where
  "gro_read_all data seg c =
     (let (ps, c) = gro_c2s_turn (data, seg) c; (qs, c) = gro_drain (length data) c in (ps @ qs, c))"

lemma gro_drain_chunks:
  assumes "0 < seg" "seg \<le> BUF_SIZE" "seg < tot" "tot \<le> length (gr_buf c)"
    and "gro_pending c \<Longrightarrow> gr_off c = int off \<and> gr_total c = int tot \<and> gr_seg c = int seg \<and> off < tot"
    and "gro_pending c \<Longrightarrow> tot - off \<le> k"
  shows "\<exists>c'. gro_drain k c = (if gro_pending c then chunks seg (drop off (take tot (gr_buf c))) else [], c') \<and>
    \<not> gro_pending c' \<and> gr_on c' = gr_on c"
  using assms(4-)
proof (induction k arbitrary: c off)
  case (Suc k)
  show ?case
  proof (cases "gro_pending c")
    case True
    note P = Suc.prems(2) [OF True]
    obtain ps c1 off' where 1: "gro_c2s_split (int tot) (int seg) c = (ps, c1)" "gr_buf c1 = gr_buf c" "gr_on c1 = gr_on c"
      "gr_seg c1 = int seg \<or> \<not> gro_pending c1" "off < off'"
      "ps @ (if gro_pending c1 then chunks seg (drop off' (take tot (gr_buf c))) else []) = chunks seg (drop off (take tot (gr_buf c)))"
      "gro_pending c1 \<longrightarrow> gr_off c1 = int off' \<and> gr_total c1 = int tot \<and> off' < tot"
      using gro_split_chunks [OF assms(1-3) Suc.prems(1)] P by blast
    have "gro_pending c1 \<Longrightarrow> tot - off' \<le> k" using Suc.prems(3) [OF True] 1(5,7) by auto
    with Suc.IH [of c1 off'] 1(2,4,7) Suc.prems(1) obtain c2 where
      "gro_drain k c1 = (if gro_pending c1 then chunks seg (drop off' (take tot (gr_buf c))) else [], c2)"
      "\<not> gro_pending c2" "gr_on c2 = gr_on c1" by auto
    then show ?thesis using True 1 P by (simp add: gro_c2s_turn_def)
  next
    case False
    then show ?thesis by simp
  qed
qed (auto simp: gro_pending_def)

lemma gro_read_chunks:
  assumes "\<not> gro_pending c" "0 < seg" "seg \<le> BUF_SIZE" "seg < length data"
  shows "\<exists>c'. gro_read_all data (int seg) c = (chunks seg data, c') \<and> \<not> gro_pending c' \<and> gr_on c' = gr_on c"
proof -
  let ?c = "gro_fill data c"
  have c: "gr_buf ?c = data @ drop (length data) (gr_buf c)" "gr_off ?c = int 0" "gr_on ?c = gr_on c" by (simp_all add: gro_fill_def)
  have data: "take (length data) (gr_buf ?c) = data" using c(1) by simp
  have pre: "length data \<le> length (gr_buf ?c)" "0 < length data" using c(1) assms(4) by auto
  obtain ps c1 off' where 1: "gro_c2s_split (int (length data)) (int seg) ?c = (ps, c1)" "gr_buf c1 = gr_buf ?c" "gr_on c1 = gr_on ?c"
    "gr_seg c1 = int seg \<or> \<not> gro_pending c1" "0 < off'"
    "ps @ (if gro_pending c1 then chunks seg (drop off' (take (length data) (gr_buf ?c))) else []) = chunks seg (drop 0 (take (length data) (gr_buf ?c)))"
    "gro_pending c1 \<longrightarrow> gr_off c1 = int off' \<and> gr_total c1 = int (length data) \<and> off' < length data"
    using gro_split_chunks [OF assms(2-4) pre(1) c(2) pre(2)] by blast
  from gro_drain_chunks [OF assms(2-4), of c1 off' "length data"] 1 c(1) obtain c2 where
    "gro_drain (length data) c1 = (if gro_pending c1 then chunks seg (drop off' (take (length data) (gr_buf c1))) else [], c2)"
    "\<not> gro_pending c2" "gr_on c2 = gr_on c1" by auto
  moreover have "gro_c2s_turn (data, int seg) c = (ps, c1)" using 1(1) assms(1,4) by (auto simp: gro_c2s_turn_def)
  ultimately show ?thesis using 1 data c(3) by (simp add: gro_read_all_def split: if_splits)
qed

text \<open>A packet handled in place inside a larger read.\<close>

lemma s2c_normal_client:
  assumes "process_s2c_pkt_normal p pkt n = Some (p', pkt', res)"
  shows "px_client_addr p' = px_client_addr p"
  using assms by (auto simp: process_s2c_pkt_normal_def Let_def split: bind_splits option.splits)

lemma decode_grown: "cfg_grown cfg cfg' \<Longrightarrow> fast_decode cfg' pr d = fast_decode cfg pr d"
  by (rule decode_chain_cong) (auto simp: same_chain_def cfg_grown_fields)

text \<open>The messages of a list of segments, in order; what decodes to nothing is dropped.\<close>

definition decoded :: "awg_config \<Rightarrow> bytes list \<Rightarrow> bytes list" where
  "decoded cfg ds = List.map_filter (\<lambda>d. map_option snd (fast_decode cfg (config_snapshot_profile cfg) d)) ds"

lemma decoded_simps [simp]:
  "decoded cfg [] = []"
  "decoded cfg (d # ds) =
     (case fast_decode cfg (config_snapshot_profile cfg) d of None \<Rightarrow> decoded cfg ds | Some (k, m) \<Rightarrow> m # decoded cfg ds)"
  by (auto simp: decoded_def map_filter_simps split: option.split)

definition out_data :: "bytes \<Rightarrow> (int \<times> int \<times> cliaddr) list \<Rightarrow> (bytes \<times> cliaddr) option list" where
  "out_data buf out = map (\<lambda>(off, len, a). map_option (\<lambda>d. (d, a)) (rd buf off len)) out"

lemma rd_shift: "0 \<le> off \<Longrightarrow> rd (xs @ b) (int (length xs) + off) len = rd b off len"
  by (auto simp: rd_def nat_add_distrib)

lemma rd_prefix:
  assumes "take n buf' = take n buf" "length buf' = length buf" "0 \<le> off" "off + len \<le> int n"
  shows "rd buf' off len = rd buf off len"
proof -
  have "take (nat len) (drop (nat off) buf) = drop (nat off) (take (nat off + nat len) (take n buf))" for buf :: bytes
    using assms(3,4) by (simp add: drop_take min_def)
  from this [of buf'] this [of buf] assms(1)
  have "take (nat len) (drop (nat off) buf') = take (nat len) (drop (nat off) buf)" by (simp only:)
  then show ?thesis using assms(2) by (simp add: rd_def)
qed

definition out_below :: "nat \<Rightarrow> (int \<times> int \<times> cliaddr) list \<Rightarrow> bool" where
  "out_below n out \<longleftrightarrow> list_all (\<lambda>(off, len, a). 0 \<le> off \<and> off + len \<le> int n) out"

lemma out_data_prefix:
  assumes "take n buf' = take n buf" "length buf' = length buf" "out_below n out"
  shows "out_data buf' out = out_data buf out"
  using assms(3) rd_prefix [OF assms(1,2)] by (auto simp: out_data_def out_below_def list_all_iff)

text \<open>One segment: the buffer before and after it is untouched, and its message lies inside it.\<close>

lemma s2c_gro_segment:
  assumes "px_inv cfg p" "off < tot" "tot \<le> length buf" "0 < seg"
  shows "\<exists>p' b res. process_s2c_pkt_normal p (drop off buf) (int (min seg (tot - off))) = Some (p', b, res) \<and> px_inv cfg p' \<and>
    px_client_addr p' = px_client_addr p \<and> length b = length buf - off \<and>
    drop (off + seg) (take tot (take off buf @ b)) = drop (off + seg) (take tot buf) \<and>
    (case fast_decode cfg (config_snapshot_profile cfg) (take seg (drop off (take tot buf))) of
       None \<Rightarrow> res = None
     | Some (k, m) \<Rightarrow> \<exists>o' len. res = Some (o', len, px_client_addr p) \<and> rd (take off buf @ b) (int off + o') len = Some m \<and>
         0 \<le> o' \<and> o' + len \<le> int seg)"
proof -
  define d where "d = take seg (drop off (take tot buf))"
  define rest where "rest = drop (min seg (tot - off)) (drop off buf)"
  have dl: "length d = min seg (tot - off)" using assms(3) by (simp add: d_def min_def)
  have dd: "d = take (min seg (tot - off)) (drop off buf)" by (simp add: d_def drop_take)
  have split: "drop off buf = d @ rest" by (simp add: dd rest_def del: drop_drop)
  obtain p' b res where r: "process_s2c_pkt_normal p (d @ rest) (int (length d)) = Some (p', b, res)"
    "restores (fast_decode (px_cfg p) (config_snapshot_profile cfg) d) b (map_option (\<lambda>(off, len, a). (off, len)) res)"
    "in_place d rest b (map_option (\<lambda>(off, len, a). (off, len)) res)"
    "\<forall>off len a. res = Some (off, len, a) \<longrightarrow> a = px_client_addr p" "px_inv cfg p'"
    using s2c_normal_ok [OF assms(1)] by blast
  have lb: "length b = length buf - off" "drop (length d) b = rest" using r(3) split by (simp_all add: in_place_def flip: length_drop)
  have dec: "fast_decode (px_cfg p) pr d = fast_decode cfg pr d" for pr using decode_grown px_invD(3) [OF assms(1)] by blast
  have "drop (off + seg) (take tot (take off buf @ b)) = drop (off + seg) (take tot buf)"
  proof (cases "off + seg \<le> tot")
    case True
    then have "length d = seg" using dl by simp
    then have "drop seg b = drop (off + seg) buf" using lb(2) split by (metis append_eq_conv_conj drop_drop add.commute)
    then have "drop (off + seg) (take off buf @ b) = drop (off + seg) buf" using assms(2,3) by simp
    then show ?thesis by (simp only: drop_take)
  qed (use lb assms in simp)
  moreover have "case fast_decode cfg (config_snapshot_profile cfg) d of
       None \<Rightarrow> res = None
     | Some (k, m) \<Rightarrow> \<exists>o' len. res = Some (o', len, px_client_addr p) \<and> rd (take off buf @ b) (int off + o') len = Some m \<and>
         0 \<le> o' \<and> o' + len \<le> int seg"
  proof (cases "fast_decode cfg (config_snapshot_profile cfg) d")
    case None
    then show ?thesis using r(2) dec by (simp add: restores_def)
  next
    case (Some km)
    then obtain k m o' a where km: "km = (k, m)" and res: "res = Some (o', int (length m), a)" "rd b o' (int (length m)) = Some m"
      using r(2) dec by (cases km) (auto simp: restores_def)
    have "0 \<le> o'" "o' + int (length m) \<le> int (length d)" using r(3) res by (simp_all add: in_place_def)
    moreover have "length (take off buf) = off" using assms(2,3) by simp
    ultimately show ?thesis using Some km res r(4) dl rd_shift [of o' "take off buf" b] by auto
  qed
  ultimately show ?thesis using r(1,5) split dl lb(1) s2c_normal_client [OF r(1)] unfolding d_def [symmetric] by auto
qed

lemma s2c_gro_loop_ok:
  assumes "px_inv cfg p" "0 < seg" "tot \<le> length buf" "out_below off out" "off < tot + seg"
  shows "\<exists>p' buf' off' out' j. s2c_gro_loop p buf (int tot) (int seg) (int off) out = Some (p', buf', int off', out') \<and> px_inv cfg p' \<and>
    length buf' = length buf \<and> off' = off + seg * j \<and> take off buf' = take off buf \<and>
    out_data buf' out' = out_data buf out @
      map (\<lambda>m. Some (m, px_client_addr p)) (decoded cfg (take j (chunks seg (drop off (take tot buf))))) \<and>
    drop off' (take tot buf') = drop off' (take tot buf) \<and> (off' < tot \<longrightarrow> BATCH_SIZE \<le> length out')"
  using assms(1,3-5)
proof (induction "tot + seg - off" arbitrary: p buf off out rule: less_induct)
  case less
  show ?case
  proof (cases "off < tot \<and> length out < BATCH_SIZE")
    case False
    then show ?thesis using less.prems(1) assms(2)
      by (intro exI [of _ p] exI [of _ buf] exI [of _ off] exI [of _ out] exI [of _ 0]) (auto simp: s2c_gro_loop.simps [of p])
  next
    case True
    define d where "d = take seg (drop off (take tot buf))"
    obtain p1 b res where s: "process_s2c_pkt_normal p (drop off buf) (int (min seg (tot - off))) = Some (p1, b, res)" "px_inv cfg p1"
      "px_client_addr p1 = px_client_addr p" "length b = length buf - off"
      "drop (off + seg) (take tot (take off buf @ b)) = drop (off + seg) (take tot buf)"
      and dec: "case fast_decode cfg (config_snapshot_profile cfg) d of
       None \<Rightarrow> res = None
     | Some (k, m) \<Rightarrow> \<exists>o' len. res = Some (o', len, px_client_addr p) \<and> rd (take off buf @ b) (int off + o') len = Some m \<and>
         0 \<le> o' \<and> o' + len \<le> int seg"
      using s2c_gro_segment [OF less.prems(1) _ less.prems(2) assms(2), of off] True by (auto simp: d_def)
    let ?buf = "take off buf @ b"
    let ?out = "case res of None \<Rightarrow> out | Some (o', len, a) \<Rightarrow> out @ [(int off + o', len, a)]"
    have lb: "length ?buf = length buf" using s(4) True less.prems(2) by simp
    have pre: "take off ?buf = take off buf" using True less.prems(2) by simp
    have below: "out_below (off + seg) ?out"
    proof -
      have "out_below (off + seg) out" using less.prems(3) by (auto simp: out_below_def list_all_iff)
      then show ?thesis using dec by (auto simp: out_below_def split: option.splits)
    qed
    have new: "out_data ?buf ?out = out_data buf out @ map (\<lambda>m. Some (m, px_client_addr p)) (decoded cfg [d])"
      using out_data_prefix [OF pre lb less.prems(3)] dec by (auto simp: out_data_def split: option.splits)
    have ch: "chunks seg (drop off (take tot buf)) = d # chunks seg (drop (off + seg) (take tot buf))"
      using chunks_step [OF assms(2), of "drop off (take tot buf)"] True less.prems(2) by (simp add: d_def add.commute)
    have "tot + seg - (off + seg) < tot + seg - off" "off + seg < tot + seg" using True assms(2) by auto
    with less.hyps [OF this(1) s(2) _ below this(2)] lb less.prems(2) obtain p2 buf2 off2 out2 j where
      ih: "s2c_gro_loop p1 ?buf (int tot) (int seg) (int (off + seg)) ?out = Some (p2, buf2, int off2, out2)" "px_inv cfg p2"
        "length buf2 = length ?buf" "off2 = off + seg + seg * j" "take (off + seg) buf2 = take (off + seg) ?buf"
        "out_data buf2 out2 = out_data ?buf ?out @
          map (\<lambda>m. Some (m, px_client_addr p1)) (decoded cfg (take j (chunks seg (drop (off + seg) (take tot ?buf)))))"
        "drop off2 (take tot buf2) = drop off2 (take tot ?buf)" "off2 < tot \<longrightarrow> BATCH_SIZE \<le> length out2"
      by (metis (no_types, lifting))
    have plen: "(if int off + int seg > int tot then int tot else int off + int seg) - int off = int (min seg (tot - off))"
      using True by (auto simp: min_def)
    have loop: "s2c_gro_loop p buf (int tot) (int seg) (int off) out = Some (p2, buf2, int off2, out2)"
      using ih(1) s(1) True assms(2) plen by (simp add: s2c_gro_loop.simps [of p] Let_def)
    have "take off buf2 = take off buf" using ih(5) pre by (metis take_add append_eq_append_conv length_take min.absorb1 lb ih(3) le_add1 take_take)
    moreover have "drop off2 (take tot buf2) = drop off2 (take tot buf)"
      using ih(7) s(5) by (metis ih(4) drop_drop add.commute)
    moreover have "out_data buf2 out2 = out_data buf out @
        map (\<lambda>m. Some (m, px_client_addr p)) (decoded cfg (take (Suc j) (chunks seg (drop off (take tot buf)))))"
    proof -
      let ?ds = "take j (chunks seg (drop (off + seg) (take tot buf)))"
      have "decoded cfg (d # ?ds) = decoded cfg [d] @ decoded cfg ?ds" by (simp split: option.split)
      then show ?thesis unfolding ih(6) new s(3,5) ch take_Suc_Cons by simp
    qed
    moreover have "length buf2 = length buf" "off2 = off + seg * Suc j" using ih(3,4) lb by simp_all
    ultimately show ?thesis using loop ih(2,8) by blast
  qed
qed

section \<open>Properties\<close>

text \<open>
  C17. A batch through the segmented send: whatever the kernel refuses, the loop ends, and what
  it has put on the wire is exactly the first packets of the batch, each once, in order and to
  its own destination; every segmented call keeps the kernel's limits on segment size, segment
  count and total; the count of packets sent is exact, no error is reported when all went out,
  and all go out if no plain send is refused.
\<close>

theorem send_batch_gso_delivers:
  assumes "kernel_sane k" "list_all (\<lambda>x. fst x \<noteq> []) ps"
  shows "case send_batch_gso k named ps st of (st', sent, err) \<Rightarrow>
    sent \<le> length ps \<and>
    (\<exists>new. gs_log st' = gs_log st @ new \<and> list_all legal_call new \<and> list_all2 (sent_as named) (wire_log new) (take sent ps)) \<and>
    (sent = length ps \<longrightarrow> err = None) \<and>
    ((\<forall>i qs. qs \<noteq> [] \<longrightarrow> 0 < fst (k_sendmmsg k i qs)) \<longrightarrow> sent = length ps)"
  using send_loop_carries [OF assms, where named = named and sent = 0 and st = st] by (simp add: send_batch_gso_def carries_def)

text \<open>A kernel without segmented send that takes datagrams one at a time.\<close>

definition old_kernel :: kernel where
  "old_kernel = \<lparr>k_sendmsg = \<lambda>i g. Inl ENOPROTOOPT, k_sendmmsg = \<lambda>i ps. (min 1 (int (length ps)), None)\<rparr>"

theorem send_batch_gso_delivers_witness:
  "kernel_sane old_kernel \<and>
   (case send_batch_gso old_kernel True [([1, 2], V4 5 6), ([3, 4], V4 5 6), ([9], V4 7 8)]
      \<lparr>gs_ok = True, gs_msgs = 0, gs_segs = 0, gs_log = []\<rparr> of (st', sent, err) \<Rightarrow> sent = 3 \<and> err = None)"
proof -
  have k: "kernel_sane old_kernel" by (simp add: kernel_sane_def old_kernel_def)
  have live: "\<forall>i qs. qs \<noteq> [] \<longrightarrow> 0 < fst (k_sendmmsg old_kernel i qs)" by (auto simp: old_kernel_def Suc_le_eq)
  from send_batch_gso_delivers [OF k, where ps = "[([1, 2], V4 5 6), ([3, 4], V4 5 6), ([9], V4 7 8)]" and named = True and
      st = "\<lparr>gs_ok = True, gs_msgs = 0, gs_segs = 0, gs_log = []\<rparr>"] k live
  show ?thesis by (auto split: prod.splits)
qed

text \<open>
  C18. Coalescing and splitting: when a run chosen by \<open>gso_run_len\<close> arrives as one coalesced read,
  the receiving loop, over as many turns as its batch size needs, hands on exactly the packets of
  the run, in order, and nothing of the read stays pending.
\<close>

theorem gso_gro_roundtrip:
  assumes "1 < gso_run_len named ps" "list_all (\<lambda>x. fst x \<noteq> []) ps" "length (fst (hd ps)) \<le> BUF_SIZE" "\<not> gro_pending c"
  shows "\<exists>c'. gro_read_all (concat (map fst (take (gso_run_len named ps) ps))) (int (length (fst (hd ps)))) c =
      (map fst (take (gso_run_len named ps) ps), c') \<and> \<not> gro_pending c' \<and> gr_on c' = gr_on c"
proof -
  define qs where "qs = take (gso_run_len named ps) ps"
  have u: "uniform_run named qs" using gso_run_uniform [OF assms(1)] by (simp add: qs_def)
  have ne: "list_all (\<lambda>x. fst x \<noteq> []) qs" using assms(2) by (auto simp: qs_def list_all_iff dest: in_set_takeD)
  have hd: "hd qs = hd ps" using assms(1) by (simp add: qs_def)
  have "2 \<le> length qs" using assms(1) gso_run_len_le [of named ps] by (simp add: qs_def)
  then obtain x y zs where q: "qs = x # y # zs" by (cases qs rule: list.exhaust; cases "tl qs") auto
  have len: "length (fst x) < length (concat (map fst qs))" "fst x \<noteq> []" using ne by (simp_all add: q)
  then show ?thesis
    using gro_read_chunks [OF assms(4), of "length (fst x)" "concat (map fst qs)"] run_chunks(2) [OF u ne] hd assms(3)
    by (simp add: q qs_def [symmetric])
qed

theorem gso_gro_roundtrip_witness:
  "\<exists>c'. gro_read_all [1, 2, 3, 4, 5] 2
      \<lparr>gr_buf = replicate 10 0, gr_on = True, gr_off = 0, gr_total = 0, gr_seg = 0, gr_idle = 3, gr_in = 0, gr_gap = 512\<rparr> =
    ([[1, 2], [3, 4], [5]], c') \<and> \<not> gro_pending c'"
proof -
  let ?ps = "[([1, 2], V4 5 6), ([3, 4], V4 5 6), ([5], V4 5 6), ([6], V4 5 6)] :: pkt list"
  let ?c = "\<lparr>gr_buf = replicate 10 0, gr_on = True, gr_off = 0, gr_total = 0, gr_seg = 0, gr_idle = 3, gr_in = 0, gr_gap = 512\<rparr>"
  have r: "gso_run_len True ?ps = 3" by (simp add: gso_run_len_def run_tail_def same_dest_def)
  from gso_gro_roundtrip [of True ?ps ?c] show ?thesis unfolding r by (auto simp: gro_pending_def)
qed

text \<open>
  A coalesced read from the server: a pass over it stays inside the read, restores the
  segments in place in the order they lie there, and what it sends to the client is exactly the
  messages of the segments it passed; it stops early only when a full batch is ready, and then
  the segments left are pending and untouched.
\<close>

theorem s2c_gro_read_restores:
  assumes "px_inv cfg p" "0 < seg" "seg < n" "n \<le> length (gr_buf c)" "gr_off c = int off" "off < n"
  shows "\<exists>p' c' out j. s2c_gro_split p (int n) (int seg) c = Some (p', c', out) \<and> px_inv cfg p' \<and>
    out_data (gr_buf c') out =
      map (\<lambda>m. Some (m, px_client_addr p)) (decoded cfg (take j (chunks seg (drop off (take n (gr_buf c)))))) \<and>
    (if gro_pending c'
     then BATCH_SIZE \<le> length out \<and> gr_off c' = int (off + seg * j) \<and> gr_total c' = int n \<and> gr_seg c' = int seg \<and>
       drop (off + seg * j) (take n (gr_buf c')) = drop (off + seg * j) (take n (gr_buf c))
     else length (chunks seg (drop off (take n (gr_buf c)))) \<le> j)"
proof -
  have below: "out_below off []" and lt: "off < n + seg" using assms(6) by (simp_all add: out_below_def)
  obtain p' buf' off' out j where l: "s2c_gro_loop p (gr_buf c) (int n) (int seg) (int off) [] = Some (p', buf', int off', out)"
    "px_inv cfg p'" "off' = off + seg * j"
    "out_data buf' out = out_data (gr_buf c) [] @ map (\<lambda>m. Some (m, px_client_addr p)) (decoded cfg (take j (chunks seg (drop off (take n (gr_buf c))))))"
    "drop off' (take n buf') = drop off' (take n (gr_buf c))" "off' < n \<longrightarrow> BATCH_SIZE \<le> length out"
    using s2c_gro_loop_ok [OF assms(1,2,4) below lt] by blast
  let ?c = "c\<lparr>gr_buf := buf', gr_idle := 0\<rparr>"
  have r: "s2c_gro_split p (int n) (int seg) c = Some (p', if off' < n then ?c\<lparr>gr_off := int off', gr_total := int n, gr_seg := int seg\<rparr>
      else ?c\<lparr>gr_off := 0, gr_total := 0\<rparr>, out)"
    using l(1) assms(2,3,5) by (simp add: s2c_gro_split_def Let_def)
  have data: "out_data buf' out = map (\<lambda>m. Some (m, px_client_addr p)) (decoded cfg (take j (chunks seg (drop off (take n (gr_buf c))))))"
    using l(4) by (simp add: out_data_def)
  show ?thesis
  proof (cases "off' < n")
    case True
    let ?c' = "?c\<lparr>gr_off := int off', gr_total := int n, gr_seg := int seg\<rparr>"
    have "gro_pending ?c'" "s2c_gro_split p (int n) (int seg) c = Some (p', ?c', out)" using True r by (simp_all add: gro_pending_def)
    moreover have "BATCH_SIZE \<le> length out" using l(6) True by blast
    ultimately show ?thesis using l(2,3,5) data
      by (intro exI [of _ p'] exI [of _ ?c'] exI [of _ out] exI [of _ j]) simp
  next
    case False
    have "length (chunks seg xs) \<le> i" if "length xs \<le> seg * i" for i xs
      using that assms(2)
    proof (induction i arbitrary: xs)
      case (Suc i)
      then show ?case using Suc.IH [of "drop seg xs"] by (cases "xs = []") (auto simp: chunks_step)
    qed simp
    then have "length (chunks seg (drop off (take n (gr_buf c)))) \<le> j" using False l(3) assms(4) by simp
    then show ?thesis using False r l(2) data
      by (intro exI [of _ p'] exI [of _ "?c\<lparr>gr_off := 0, gr_total := 0\<rparr>"] exI [of _ out] exI [of _ j]) (simp add: gro_pending_def)
  qed
qed

theorem s2c_gro_read_restores_witness:
  "\<exists>p' c' out. s2c_gro_split example_proxy 80 40
      \<lparr>gr_buf = replicate 100 0, gr_on = True, gr_off = 0, gr_total = 0, gr_seg = 0, gr_idle = 0, gr_in = 0, gr_gap = 512\<rparr> =
    Some (p', c', out) \<and> px_inv example_config p'"
proof -
  let ?c = "\<lparr>gr_buf = replicate 100 0, gr_on = True, gr_off = 0, gr_total = 0, gr_seg = 0, gr_idle = 0, gr_in = 0, gr_gap = 512\<rparr>"
  have "px_inv example_config example_proxy"
    using example_proxy_ok by (simp add: px_inv_def) (simp add: example_proxy_def)
  from s2c_gro_read_restores [OF this, of 40 80 ?c 0] show ?thesis by auto
qed

end
