(* ===== verification/Lag_Queue.thy ===== *)
theory Lag_Queue
  imports Offload
begin

text \<open>
  The copies of a port move that wait for the old port, from \<^verbatim>\<open>src/src/proxy.c\<close>
  (\<open>rot_lag_put\<close>, \<open>rot_lag_send\<close>, \<open>rot_lag_service\<close>): a ring of fixed slots.  The ring
  implements a bounded first-in first-out queue, an interface stated as the locale \<open>fifo\<close> and
  interpreted on the ring below: nothing is lost, repeated or reordered, and a service sends
  exactly the copies that are due.
\<close>

section \<open>The ring\<close>

abbreviation ROT_LAG_N :: nat where
  "ROT_LAG_N \<equiv> 256"

abbreviation ROT_LAG_PKT :: nat where
  "ROT_LAG_PKT \<equiv> 1600"

record lag_entry =
  le_due :: u64
  le_len :: u16
  le_b :: bytes

text \<open>
  \<open>lq_ring\<close> is \<open>None\<close> until the first copy needs it.  Head and count stay below 512, so they
  are natural numbers here; \<open>lq_twice\<close> counts copies sent and wraps.
\<close>

record lag =
  lq_ring :: "lag_entry list option"
  lq_head :: nat
  lq_n :: nat
  lq_twice :: u32

definition lag_at :: "lag_entry list \<Rightarrow> lag \<Rightarrow> nat \<Rightarrow> lag_entry" where
  "lag_at ring q i = ring ! ((lq_head q + i) mod ROT_LAG_N)"

definition lag_data :: "lag_entry \<Rightarrow> bytes" where
  "lag_data e = take (unat (le_len e)) (le_b e)"

text \<open>
  Keep a copy, or say that it has to go out at once: \<open>got\<close> is whether memory for the ring was
  to be had, \<open>sent\<close> whether the direct send succeeds.
\<close>

definition rot_lag_put :: "bool \<Rightarrow> bool \<Rightarrow> bytes \<Rightarrow> u64 \<Rightarrow> lag \<Rightarrow> lag \<times> bool" where
  "rot_lag_put got sent b now q =
     (let ring = (if lq_ring q = None \<and> length b \<le> ROT_LAG_PKT \<and> got
                  then Some (replicate ROT_LAG_N \<lparr>le_due = 0, le_len = 0, le_b = replicate ROT_LAG_PKT 0\<rparr>)
                  else lq_ring q);
          q = q\<lparr>lq_ring := ring\<rparr>
      in case ring of
           None \<Rightarrow> (if sent then q\<lparr>lq_twice := lq_twice q + 1\<rparr> else q, True)
         | Some es \<Rightarrow>
             if length b > ROT_LAG_PKT \<or> lq_n q = ROT_LAG_N
             then (if sent then q\<lparr>lq_twice := lq_twice q + 1\<rparr> else q, True)
             else let i = (lq_head q + lq_n q) mod ROT_LAG_N;
                      e = \<lparr>le_due = now + 50 * 1000, le_len = of_nat (length b), le_b = b @ drop (length b) (le_b (es ! i))\<rparr>
                  in (q\<lparr>lq_ring := Some (es[i := e]), lq_n := lq_n q + 1\<rparr>, False))"

text \<open>Send the \<open>n\<close> oldest copies, a batch at a time: \<open>s\<close> is the answer of each \<open>sendmmsg\<close>.\<close>

function rot_lag_send :: "(bytes list \<Rightarrow> int) \<Rightarrow> nat \<Rightarrow> lag \<Rightarrow> lag \<times> bytes list list" where
  "rot_lag_send s n q =
     (if n > 0
      then let k = (if n < BATCH_SIZE then n else BATCH_SIZE);
               ms = map (\<lambda>i. lag_data (lag_at (the (lq_ring q)) q i)) [0..<k];
               q = (if s ms > 0 then q\<lparr>lq_twice := lq_twice q + word_of_int (s ms)\<rparr> else q);
               q = q\<lparr>lq_head := (lq_head q + k) mod ROT_LAG_N, lq_n := lq_n q - k\<rparr>;
               (q, bs) = rot_lag_send s (n - k) q
           in (q, ms # bs)
      else (q, []))"
  by pat_completeness auto
termination
  by (relation "measure (\<lambda>(s, n, q). n)") auto

declare rot_lag_send.simps [simp del]

text \<open>How many copies from the head are due.\<close>

function lag_due :: "lag_entry list \<Rightarrow> lag \<Rightarrow> u64 \<Rightarrow> nat \<Rightarrow> nat" where
  "lag_due ring q now i =
     (if i < lq_n q then (if le_due (lag_at ring q i) > now then i else lag_due ring q now (i + 1)) else i)"
  by pat_completeness auto
termination
  by (relation "measure (\<lambda>(ring, q, now, i). lq_n q - i)") auto

declare lag_due.simps [simp del]

text \<open>
  The service: the queue, the batches sent and the milliseconds to the next copy, -1 with
  nothing left.  \<open>old\<close> is whether the old port's socket is still open.
\<close>

definition rot_lag_service :: "(bytes list \<Rightarrow> int) \<Rightarrow> bool \<Rightarrow> bool \<Rightarrow> bool \<Rightarrow> u64 \<Rightarrow> lag \<Rightarrow> lag \<times> bytes list list \<times> int" where
  "rot_lag_service s old dual won now q =
     (if lq_n q = 0 then (q, [], -1)
      else if \<not> old \<or> \<not> dual \<and> won then (q\<lparr>lq_n := 0\<rparr>, [], -1)
      else let ring = the (lq_ring q);
               due = (if dual then lag_due ring q now 0 else lq_n q);
               (q, bs) = (if due > 0 then rot_lag_send s due q else (q, []))
           in if lq_n q = 0 then (q, bs, -1)
              else let at = le_due (ring ! lq_head q)
                   in (q, bs, if at > now then sint (ucast ((at - now + 999) div 1000) :: 32 word) else 0))"

section \<open>A bounded first-in first-out queue\<close>

datatype 'a command = Put 'a | Pull nat

text \<open>
  A client only puts what fits and pulls at most what is there; the outputs come back in the order
  of the pulls.  What is put while there is no room is not accepted.
\<close>

fun run_commands :: "('a \<Rightarrow> 'q \<Rightarrow> 'q) \<Rightarrow> (nat \<Rightarrow> 'q \<Rightarrow> 'q \<times> 'b list) \<Rightarrow> 'a command list \<Rightarrow> 'q \<Rightarrow> 'q \<times> 'b list" where
  "run_commands put pull [] q = (q, [])"
| "run_commands put pull (Put x # cs) q = run_commands put pull cs (put x q)"
| "run_commands put pull (Pull n # cs) q =
     (let (q, ys) = pull n q; (q, zs) = run_commands put pull cs q in (q, ys @ zs))"

fun legal_commands :: "('a \<Rightarrow> bool) \<Rightarrow> nat \<Rightarrow> nat \<Rightarrow> 'a command list \<Rightarrow> bool" where
  "legal_commands fits cap len [] = True"
| "legal_commands fits cap len (Put x # cs) = (fits x \<and> legal_commands fits cap (if len < cap then len + 1 else len) cs)"
| "legal_commands fits cap len (Pull n # cs) = (n \<le> len \<and> legal_commands fits cap (len - n) cs)"

fun puts :: "nat \<Rightarrow> nat \<Rightarrow> 'a command list \<Rightarrow> 'a list" where
  "puts cap len [] = []"
| "puts cap len (Put x # cs) = (if len < cap then x # puts cap (len + 1) cs else puts cap len cs)"
| "puts cap len (Pull n # cs) = puts cap (len - n) cs"

locale fifo =
  fixes items :: "'q \<Rightarrow> 'a list"
    and ok :: "'q \<Rightarrow> bool"
    and cap :: nat
    and fits :: "'a \<Rightarrow> bool"
    and payload :: "'a \<Rightarrow> 'b"
    and put :: "'a \<Rightarrow> 'q \<Rightarrow> 'q"
    and pull :: "nat \<Rightarrow> 'q \<Rightarrow> 'q \<times> 'b list"
  assumes put_ok: "ok q \<Longrightarrow> fits x \<Longrightarrow> length (items q) < cap \<Longrightarrow> ok (put x q)"
    and put_items: "ok q \<Longrightarrow> fits x \<Longrightarrow> length (items q) < cap \<Longrightarrow> items (put x q) = items q @ [x]"
    and put_full: "ok q \<Longrightarrow> fits x \<Longrightarrow> \<not> length (items q) < cap \<Longrightarrow> ok (put x q) \<and> items (put x q) = items q"
    and pull_ok: "ok q \<Longrightarrow> n \<le> length (items q) \<Longrightarrow> ok (fst (pull n q))"
    and pull_items: "ok q \<Longrightarrow> n \<le> length (items q) \<Longrightarrow> items (fst (pull n q)) = drop n (items q)"
    and pull_out: "ok q \<Longrightarrow> n \<le> length (items q) \<Longrightarrow> snd (pull n q) = map payload (take n (items q))"
begin

text \<open>Everything accepted comes out once and in the order it was put, or is still waiting.\<close>

lemma run_conserves:
  assumes "ok q" "legal_commands fits cap (length (items q)) cs"
  shows "ok (fst (run_commands put pull cs q)) \<and>
    snd (run_commands put pull cs q) @ map payload (items (fst (run_commands put pull cs q))) = map payload (items q @ puts cap (length (items q)) cs)"
  using assms
proof (induction cs arbitrary: q)
  case (Cons c cs)
  show ?case
  proof (cases c)
    case (Put x)
    then show ?thesis using Cons.prems Cons.IH [of "put x q"] put_ok [of q x] put_items [of q x] put_full [of q x]
      by (cases "length (items q) < cap") simp_all
  next
    case (Pull n)
    then have n: "n \<le> length (items q)" using Cons.prems by simp
    obtain q' ys where p: "pull n q = (q', ys)" by (cases "pull n q") auto
    have q': "ok q'" "items q' = drop n (items q)" "ys = map payload (take n (items q))"
      using pull_ok [OF Cons.prems(1) n] pull_items [OF Cons.prems(1) n] pull_out [OF Cons.prems(1) n] p by simp_all
    have "map payload (take n (items q)) @ map payload (drop n (items q)) = map payload (items q)"
      by (metis append_take_drop_id map_append)
    then show ?thesis using Pull p q' Cons.prems Cons.IH [of q'] by (simp add: split_beta)
  qed
qed simp

end

section \<open>The ring is such a queue\<close>

definition lag_ok :: "lag \<Rightarrow> bool" where
  "lag_ok q \<longleftrightarrow>
     lq_head q < ROT_LAG_N \<and> lq_n q \<le> ROT_LAG_N \<and>
     (case lq_ring q of None \<Rightarrow> lq_n q = 0
      | Some es \<Rightarrow> length es = ROT_LAG_N \<and> list_all (\<lambda>e. length (le_b e) = ROT_LAG_PKT) es)"

definition lag_items :: "lag \<Rightarrow> (u64 \<times> bytes) list" where
  "lag_items q =
     (case lq_ring q of None \<Rightarrow> []
      | Some es \<Rightarrow> map (\<lambda>i. let e = lag_at es q i in (le_due e, lag_data e)) [0..<lq_n q])"

lemma length_lag_items: "lag_ok q \<Longrightarrow> length (lag_items q) = lq_n q"
  by (auto simp: lag_ok_def lag_items_def split: option.split)

definition lag_put :: "u64 \<times> bytes \<Rightarrow> lag \<Rightarrow> lag" where
  "lag_put x q = fst (rot_lag_put True True (snd x) (fst x - 50 * 1000) q)"

definition lag_pull :: "(bytes list \<Rightarrow> int) \<Rightarrow> nat \<Rightarrow> lag \<Rightarrow> lag \<times> bytes list" where
  "lag_pull s n q = (case rot_lag_send s n q of (q, bs) \<Rightarrow> (q, concat bs))"

lemma slot_distinct:
  assumes "i < n" "n < ROT_LAG_N"
  shows "(h + i) mod ROT_LAG_N \<noteq> (h + n) mod (ROT_LAG_N :: nat)"
proof
  assume "(h + i) mod ROT_LAG_N = (h + n) mod (ROT_LAG_N :: nat)"
  then have "(h + n - (h + i)) mod ROT_LAG_N = 0" using assms(1) by (metis add_le_cancel_left less_imp_le mod_eq_dvd_iff_nat mod_eq_0_iff_dvd)
  then show False using assms by simp
qed

text \<open>What a put that has room does, for any clock and any outcome of a direct send.\<close>

lemma rot_lag_put_room:
  assumes "lag_ok q" "length b \<le> ROT_LAG_PKT" "lq_n q < ROT_LAG_N" "got \<or> lq_ring q \<noteq> None"
  shows "snd (rot_lag_put got sent b now q) = False" "lag_ok (fst (rot_lag_put got sent b now q))"
    "lag_items (fst (rot_lag_put got sent b now q)) = lag_items q @ [(now + 50000, b)]"
proof -
  define es where "es = (case lq_ring q of None \<Rightarrow> replicate ROT_LAG_N \<lparr>le_due = 0, le_len = 0, le_b = replicate ROT_LAG_PKT 0\<rparr> | Some es \<Rightarrow> es)"
  define i where "i = (lq_head q + lq_n q) mod ROT_LAG_N"
  define e where "e = \<lparr>le_due = now + 50 * 1000, le_len = of_nat (length b), le_b = b @ drop (length b) (le_b (es ! i))\<rparr>"
  have es: "length es = ROT_LAG_N" "list_all (\<lambda>e. length (le_b e) = ROT_LAG_PKT) es"
    using assms(1) by (auto simp: es_def lag_ok_def list_all_iff split: option.splits)
  have i: "i < length es" by (simp add: i_def es)
  have put: "rot_lag_put got sent b now q = (q\<lparr>lq_ring := Some (es[i := e]), lq_n := lq_n q + 1\<rparr>, False)"
    using assms(2-4) unfolding rot_lag_put_def Let_def e_def i_def es_def by (auto split: option.split)
  show "snd (rot_lag_put got sent b now q) = False" by (simp add: put)
  have "length (le_b e) = ROT_LAG_PKT" using es i assms(2) by (simp add: e_def list_all_length)
  then show "lag_ok (fst (rot_lag_put got sent b now q))"
    using assms(1,3) es by (auto simp: put lag_ok_def list_all_iff dest: set_update_subset_insert [THEN subsetD])
  have old: "lag_at (es[i := e]) q j = lag_at es q j" if "j < lq_n q" for j
    using slot_distinct [OF that assms(3), of "lq_head q"] by (simp add: lag_at_def i_def)
  have new: "lag_at (es[i := e]) q (lq_n q) = e" using i by (simp add: lag_at_def i_def)
  have "unat (of_nat (length b) :: u16) = length b" using assms(2) by (simp add: unsigned_of_nat take_bit_nat_eq_self)
  then have d: "lag_data e = b" by (simp add: lag_data_def e_def)
  have items: "lag_items q = map (\<lambda>i. (le_due (lag_at es q i), lag_data (lag_at es q i))) [0..<lq_n q]"
    using assms(1) by (auto simp: lag_items_def es_def lag_ok_def Let_def split: option.splits)
  have at: "lag_at es' (q\<lparr>lq_ring := r, lq_n := k\<rparr>) j = lag_at es' q j" for es' r k j by (simp add: lag_at_def)
  show "lag_items (fst (rot_lag_put got sent b now q)) = lag_items q @ [(now + 50000, b)]"
    using old new d unfolding put items by (simp add: lag_items_def at Let_def e_def)
qed

text \<open>A full ring is left as it is, and the copy is for sending at once.\<close>

lemma rot_lag_put_full:
  assumes "lag_ok q" "length b \<le> ROT_LAG_PKT" "\<not> lq_n q < ROT_LAG_N"
  shows "snd (rot_lag_put got sent b now q) = True" "lag_ok (fst (rot_lag_put got sent b now q))"
    "lag_items (fst (rot_lag_put got sent b now q)) = lag_items q"
proof -
  obtain es where es: "lq_ring q = Some es" and n: "lq_n q = ROT_LAG_N"
    using assms(1,3) by (auto simp: lag_ok_def split: option.splits)
  then have put: "rot_lag_put got sent b now q = (if sent then q\<lparr>lq_twice := lq_twice q + 1\<rparr> else q, True)"
    by (simp add: rot_lag_put_def)
  show "snd (rot_lag_put got sent b now q) = True" by (simp add: put)
  show "lag_ok (fst (rot_lag_put got sent b now q))" using assms(1) by (simp add: put lag_ok_def es)
  show "lag_items (fst (rot_lag_put got sent b now q)) = lag_items q" by (simp add: put lag_items_def lag_at_def es)
qed

text \<open>Sending copies takes them from the head, whatever the kernel answers.\<close>

lemma rot_lag_send_spec:
  assumes "lag_ok q" "n \<le> lq_n q"
  shows "case rot_lag_send s n q of (q', bs) \<Rightarrow> lag_ok q' \<and> lq_ring q' = lq_ring q \<and> lag_items q' = drop n (lag_items q) \<and>
    concat bs = map snd (take n (lag_items q)) \<and> list_all (\<lambda>b. b \<noteq> [] \<and> length b \<le> BATCH_SIZE) bs"
  using assms
proof (induction s n q rule: rot_lag_send.induct)
  case (1 s n q)
  show ?case
  proof (cases "n = 0")
    case True
    then show ?thesis using "1.prems" by (simp add: rot_lag_send.simps)
  next
    case False
    define k where "k = (if n < BATCH_SIZE then n else BATCH_SIZE)"
    have k: "0 < k" "k \<le> n" "k \<le> BATCH_SIZE" using False by (auto simp: k_def)
    obtain es where es: "lq_ring q = Some es" using "1.prems" False by (auto simp: lag_ok_def split: option.splits)
    define ms where "ms = map (\<lambda>i. lag_data (lag_at es q i)) [0..<k]"
    define q1 where "q1 = (if s ms > 0 then q\<lparr>lq_twice := lq_twice q + word_of_int (s ms)\<rparr> else q)"
    define q2 where "q2 = q1\<lparr>lq_head := (lq_head q1 + k) mod ROT_LAG_N, lq_n := lq_n q1 - k\<rparr>"
    have f: "lq_ring q1 = Some es" "lq_head q1 = lq_head q" "lq_n q1 = lq_n q" by (simp_all add: q1_def es)
    have ok: "lag_ok q2" "n - k \<le> lq_n q2" "lq_ring q2 = Some es"
      using "1.prems" le_trans [OF diff_le_self, of "lq_n q" ROT_LAG_N k] by (auto simp: lag_ok_def q2_def f es)
    have at: "lag_at es q2 i = lag_at es q (k + i)" for i
      by (simp add: lag_at_def q2_def f mod_add_left_eq add.assoc)
    have n2: "lq_n q2 = lq_n q - k" by (simp add: q2_def f)
    have items: "lag_items q2 = drop k (lag_items q)"
      by (rule nth_equalityI) (simp_all add: lag_items_def es ok(3) at Let_def n2 less_diff_conv add.commute)
    have out: "ms = map snd (take k (lag_items q))"
      using k "1.prems"(2) by (simp add: ms_def lag_items_def es Let_def take_map)
    obtain q' bs where r: "rot_lag_send s (n - k) q2 = (q', bs)" by (cases "rot_lag_send s (n - k) q2") auto
    have step: "rot_lag_send s n q = (q', ms # bs)"
      using False r unfolding rot_lag_send.simps [of s n q] Let_def k_def [symmetric] es option.sel ms_def [symmetric]
        q1_def [symmetric] q2_def [symmetric] by simp
    have ih: "lag_ok q'" "lq_ring q' = lq_ring q2" "lag_items q' = drop (n - k) (lag_items q2)"
      "concat bs = map snd (take (n - k) (lag_items q2))" "list_all (\<lambda>b. b \<noteq> [] \<and> length b \<le> BATCH_SIZE) bs"
      using "1.IH" [OF _ k_def, of ms q1 q2] False r ok es by (simp_all add: ms_def q1_def q2_def)
    have "map snd (take n (lag_items q)) = ms @ map snd (take (n - k) (drop k (lag_items q)))"
      using k(2) unfolding out by (metis map_append take_add le_add_diff_inverse)
    moreover have "ms \<noteq> []" "length ms \<le> BATCH_SIZE" using k by (simp_all add: ms_def)
    ultimately show ?thesis using ih ok(3) es k(2) by (simp add: step items)
  qed
qed

lemma lag_pull_spec:
  assumes "lag_ok q" "n \<le> length (lag_items q)"
  shows "lag_ok (fst (lag_pull s n q))" "lag_items (fst (lag_pull s n q)) = drop n (lag_items q)"
    "snd (lag_pull s n q) = map snd (take n (lag_items q))"
  using rot_lag_send_spec [OF assms(1), of n s] assms length_lag_items by (auto simp: lag_pull_def split: prod.splits)

interpretation lagq: fifo lag_items lag_ok ROT_LAG_N "\<lambda>x. length (snd x) \<le> ROT_LAG_PKT" snd lag_put "lag_pull s" for s
proof
  fix q :: lag and x :: "u64 \<times> bytes"
  assume a: "lag_ok q" "length (snd x) \<le> ROT_LAG_PKT" "length (lag_items q) < ROT_LAG_N"
  then have "lq_n q < ROT_LAG_N" by (simp add: length_lag_items)
  from rot_lag_put_room [OF a(1,2) this, of True True "fst x - 50000"]
  show "lag_ok (lag_put x q)" "lag_items (lag_put x q) = lag_items q @ [x]" by (simp_all add: lag_put_def)
next
  fix q :: lag and x :: "u64 \<times> bytes"
  assume "lag_ok q" "length (snd x) \<le> ROT_LAG_PKT" "\<not> length (lag_items q) < ROT_LAG_N"
  then show "lag_ok (lag_put x q) \<and> lag_items (lag_put x q) = lag_items q"
    using rot_lag_put_full [of q "snd x" True True "fst x - 50000"] by (simp add: length_lag_items lag_put_def)
qed (use lag_pull_spec in auto)

section \<open>Which copies a service sends\<close>

lemma lag_due_takeWhile:
  assumes "lq_ring q = Some es" "i \<le> lq_n q"
  shows "lag_due es q now i = i + length (takeWhile (\<lambda>x. fst x \<le> now) (drop i (lag_items q)))"
  using assms
proof (induction es q now i rule: lag_due.induct)
  case (1 es q now i)
  have len: "length (lag_items q) = lq_n q" using "1.prems"(1) by (simp add: lag_items_def)
  show ?case
  proof (cases "i < lq_n q")
    case True
    have "lag_items q ! i = (le_due (lag_at es q i), lag_data (lag_at es q i))"
      using True "1.prems"(1) by (simp add: lag_items_def Let_def)
    then have d: "drop i (lag_items q) = (le_due (lag_at es q i), lag_data (lag_at es q i)) # drop (Suc i) (lag_items q)"
      using True len by (simp add: Cons_nth_drop_Suc [symmetric])
    show ?thesis using "1.IH" [OF True] "1.prems" True by (auto simp: lag_due.simps [of es q] d not_less)
  next
    case False
    then show ?thesis using "1.prems"(2) len by (simp add: lag_due.simps [of es q])
  qed
qed

lemma rot_lag_service_spec:
  assumes ok: "lag_ok q" and r: "rot_lag_service s old dual won now q = (q', bs, wait)"
  shows "lag_ok q'" "list_all (\<lambda>b. b \<noteq> [] \<and> length b \<le> BATCH_SIZE) bs"
    "lag_items q' = (if dual \<and> old then dropWhile (\<lambda>x. fst x \<le> now) (lag_items q) else [])"
    "concat bs = map snd (if \<not> old then [] else if dual then takeWhile (\<lambda>x. fst x \<le> now) (lag_items q)
                          else if won then [] else lag_items q)"
    "wait = (case lag_items q' of [] \<Rightarrow> -1 | x # _ \<Rightarrow> sint (ucast ((fst x - now + 999) div 1000) :: 32 word))"
proof -
  have n: "length (lag_items q) = lq_n q" by (rule length_lag_items [OF ok])
  have "lag_ok q' \<and> list_all (\<lambda>b. b \<noteq> [] \<and> length b \<le> BATCH_SIZE) bs \<and>
    lag_items q' = (if dual \<and> old then dropWhile (\<lambda>x. fst x \<le> now) (lag_items q) else []) \<and>
    concat bs = map snd (if \<not> old then [] else if dual then takeWhile (\<lambda>x. fst x \<le> now) (lag_items q)
                          else if won then [] else lag_items q) \<and>
    wait = (case lag_items q' of [] \<Rightarrow> -1 | x # _ \<Rightarrow> sint (ucast ((fst x - now + 999) div 1000) :: 32 word))"
  proof (cases "lq_n q = 0 \<or> \<not> old \<or> \<not> dual \<and> won")
    case True
    have "lag_ok (q\<lparr>lq_n := 0\<rparr>)" "lag_items (q\<lparr>lq_n := 0\<rparr>) = []"
      using ok by (auto simp: lag_ok_def lag_items_def split: option.splits)
    then show ?thesis using True r ok n by (cases "lq_n q = 0") (auto simp: rot_lag_service_def)
  next
    case False
    then have old: "old" and won: "\<not> dual \<Longrightarrow> \<not> won" and pos: "lq_n q \<noteq> 0" by auto
    obtain es where es: "lq_ring q = Some es" using ok pos by (auto simp: lag_ok_def split: option.splits)
    define due where "due = (if dual then lag_due es q now 0 else lq_n q)"
    define q2 where "q2 = (if due > 0 then rot_lag_send s due q else (q, []))"
    have due: "due = (if dual then length (takeWhile (\<lambda>x. fst x \<le> now) (lag_items q)) else lq_n q)"
      using lag_due_takeWhile [OF es, of 0 now] by (simp add: due_def)
    then have "due \<le> lq_n q" using n length_takeWhile_le [of "\<lambda>x. fst x \<le> now" "lag_items q"] by simp
    from rot_lag_send_spec [OF ok this, of s]
    have S: "lag_ok (fst q2)" "lq_ring (fst q2) = Some es" "lag_items (fst q2) = drop due (lag_items q)"
      "concat (snd q2) = map snd (take due (lag_items q))" "list_all (\<lambda>b. b \<noteq> [] \<and> length b \<le> BATCH_SIZE) (snd q2)"
      using ok es by (auto simp: q2_def split: prod.splits)
    have e: "rot_lag_service s old dual won now q = (case q2 of (q1, bs) \<Rightarrow> if lq_n q1 = 0 then (q1, bs, -1)
        else (q1, bs, if le_due (es ! lq_head q1) > now
                      then sint (ucast ((le_due (es ! lq_head q1) - now + 999) div 1000) :: 32 word) else 0))"
      using False unfolding rot_lag_service_def Let_def es option.sel due_def [symmetric] q2_def [symmetric] by auto
    obtain q1 bs1 where q2: "q2 = (q1, bs1)" by (cases q2) auto
    have q': "q' = fst q2" "bs = snd q2"
      "wait = (if lq_n (fst q2) = 0 then -1 else let at = le_due (es ! lq_head (fst q2))
         in if at > now then sint (ucast ((at - now + 999) div 1000) :: 32 word) else 0)"
      using r unfolding e q2 Let_def by (auto split: if_splits)
    have out: "drop due (lag_items q) = (if dual then dropWhile (\<lambda>x. fst x \<le> now) (lag_items q) else [])"
      "take due (lag_items q) = (if dual then takeWhile (\<lambda>x. fst x \<le> now) (lag_items q) else lag_items q)"
      unfolding due n [symmetric] by (cases dual, simp_all add: dropWhile_eq_drop [symmetric] takeWhile_eq_take [symmetric])+
    have w: "wait = (case lag_items q' of [] \<Rightarrow> -1 | x # _ \<Rightarrow> sint (ucast ((fst x - now + 999) div 1000) :: 32 word))"
    proof (cases "lag_items q'")
      case Nil
      then show ?thesis using length_lag_items [OF S(1)] q' by simp
    next
      case (Cons x xs)
      then have n': "0 < lq_n (fst q2)" using length_lag_items [OF S(1)] q' by simp
      have "hd (lag_items (fst q2)) = (le_due (lag_at es (fst q2) 0), lag_data (lag_at es (fst q2) 0))"
        using n' S(2) by (simp add: lag_items_def hd_map Let_def)
      moreover have "lag_at es (fst q2) 0 = es ! lq_head (fst q2)" using S(1) by (simp add: lag_at_def lag_ok_def)
      ultimately have x: "fst x = le_due (es ! lq_head (fst q2))" using Cons q'(1) by simp
      have "dual" using S(3) out Cons q'(1) by (auto split: if_splits)
      then have "\<not> fst x \<le> now" using S(3) out(1) Cons q'(1) hd_dropWhile [of "\<lambda>x. fst x \<le> now" "lag_items q"] by simp
      then show ?thesis using Cons q'(3) n' x by (simp add: Let_def not_le)
    qed
    then show ?thesis using S q' out old won by auto
  qed
  then show "lag_ok q'" "list_all (\<lambda>b. b \<noteq> [] \<and> length b \<le> BATCH_SIZE) bs"
    "lag_items q' = (if dual \<and> old then dropWhile (\<lambda>x. fst x \<le> now) (lag_items q) else [])"
    "concat bs = map snd (if \<not> old then [] else if dual then takeWhile (\<lambda>x. fst x \<le> now) (lag_items q)
                          else if won then [] else lag_items q)"
    "wait = (case lag_items q' of [] \<Rightarrow> -1 | x # _ \<Rightarrow> sint (ucast ((fst x - now + 999) div 1000) :: 32 word))"
    by blast+
qed

section \<open>Properties\<close>

text \<open>
  C19. The copies for the old port are a queue: over any sequence of puts and of sends of at most what
  waits, whatever the kernel answers to the sends, the copies handed to the old port followed by
  those still waiting are exactly the copies accepted, each once and in order; a put that finds
  the ring full leaves it as it is; and the ring stays well formed across its wrap-around.
\<close>

theorem lag_queue_conserves:
  assumes "lag_ok q" "legal_commands (\<lambda>x. length (snd x) \<le> ROT_LAG_PKT) ROT_LAG_N (length (lag_items q)) cs"
  shows "lag_ok (fst (run_commands lag_put (lag_pull s) cs q)) \<and>
    snd (run_commands lag_put (lag_pull s) cs q) @ map snd (lag_items (fst (run_commands lag_put (lag_pull s) cs q))) =
      map snd (lag_items q @ puts ROT_LAG_N (length (lag_items q)) cs)"
  by (rule lagq.run_conserves [OF assms])

definition empty_lag :: lag where
  "empty_lag = \<lparr>lq_ring = None, lq_head = 250, lq_n = 0, lq_twice = 0\<rparr>"

lemma empty_lag_ok: "lag_ok empty_lag" "lag_items empty_lag = []"
  by (simp_all add: lag_ok_def empty_lag_def lag_items_def)

theorem lag_queue_conserves_witness:
  "snd (run_commands lag_put (lag_pull (\<lambda>_. -1)) [Put (1, [5]), Put (2, [6, 7]), Pull 2, Put (3, [8])] empty_lag) @
     map snd (lag_items (fst (run_commands lag_put (lag_pull (\<lambda>_. -1)) [Put (1, [5]), Put (2, [6, 7]), Pull 2, Put (3, [8])] empty_lag)))
   = [[5], [6, 7], [8]]"
  using lag_queue_conserves [OF empty_lag_ok(1), of "[Put (1, [5]), Put (2, [6, 7]), Pull 2, Put (3, [8])]" "\<lambda>_. -1"]
  by (simp add: empty_lag_ok(2))

text \<open>
  What a service sends: while the move is undecided it sends, in order and in batches of at
  most \<open>BATCH_SIZE\<close>, exactly the copies whose time has come and keeps the rest; once the new port
  has won, or the old socket is gone, it drops them all; once the move has failed it sends all
  of them at once.  The wait it returns is the time of the next copy, rounded up, or -1.
\<close>

theorem rot_lag_service_exact:
  assumes "lag_ok q" "rot_lag_service s old dual won now q = (q', bs, wait)"
  shows "lag_ok q' \<and> list_all (\<lambda>b. b \<noteq> [] \<and> length b \<le> BATCH_SIZE) bs \<and>
    lag_items q' = (if dual \<and> old then dropWhile (\<lambda>x. fst x \<le> now) (lag_items q) else []) \<and>
    concat bs = map snd (if \<not> old then [] else if dual then takeWhile (\<lambda>x. fst x \<le> now) (lag_items q)
                         else if won then [] else lag_items q) \<and>
    wait = (case lag_items q' of [] \<Rightarrow> -1 | x # _ \<Rightarrow> sint (ucast ((fst x - now + 999) div 1000) :: 32 word))"
  using rot_lag_service_spec [OF assms] by blast

theorem rot_lag_service_exact_witness:
  "\<exists>q' bs wait. rot_lag_service (\<lambda>_. 1) True True False 60000 (lag_put (70000, [2]) (lag_put (55000, [1]) empty_lag)) = (q', bs, wait) \<and>
    concat bs = [[1]] \<and> lag_items q' = [(70000, [2])] \<and> wait = 10"
proof -
  have fit: "length (snd (55000 :: u64, [1 :: u8])) \<le> ROT_LAG_PKT" "length (snd (70000 :: u64, [2 :: u8])) \<le> ROT_LAG_PKT" by simp_all
  have 1: "lag_ok (lag_put (55000, [1]) empty_lag)" "lag_items (lag_put (55000, [1]) empty_lag) = [(55000, [1])]"
    using lagq.put_ok [OF empty_lag_ok(1) fit(1)] lagq.put_items [OF empty_lag_ok(1) fit(1)] empty_lag_ok(2) by simp_all
  have 2: "lag_ok (lag_put (70000, [2]) (lag_put (55000, [1]) empty_lag))"
    "lag_items (lag_put (70000, [2]) (lag_put (55000, [1]) empty_lag)) = [(55000, [1]), (70000, [2])]"
    using lagq.put_ok [OF 1(1) fit(2)] lagq.put_items [OF 1(1) fit(2)] 1(2) by simp_all
  obtain q' bs wait where r: "rot_lag_service (\<lambda>_. 1) True True False 60000 (lag_put (70000, [2]) (lag_put (55000, [1]) empty_lag)) = (q', bs, wait)"
    by (cases "rot_lag_service (\<lambda>_. 1) True True False 60000 (lag_put (70000, [2]) (lag_put (55000, [1]) empty_lag))") auto
  from rot_lag_service_exact [OF 2(1) r] r show ?thesis by (auto simp: 2(2))
qed

end
