(* ===== verification/Rotation.thy ===== *)
theory Rotation
  imports Lag_Queue Ports
begin

text \<open>
  Port rotation and the remote socket, from \<^verbatim>\<open>src/src/proxy.c\<close>: classifying socket errors,
  moving the connected socket to another port of the set while the old port still carries
  everything, confirming or undoing the move, the schedule of the main loop, and the send of a
  batch towards the server, which ties the offload, the lag queue and the error handling
  together.  The threads' operations are the steps of a transition system whose invariant says
  that a move is always between two ports of the set, that copies go to an open socket only, and
  that a port that fell due is never forgotten; two further theorems give the end of a move and
  the delivery of a batch on both ports.
\<close>

section \<open>State\<close>

text \<open>
  The rotation fields of \<open>proxy_t\<close>: a negative descriptor is \<open>None\<close>, \<open>ro_pending\<close> is
  \<open>rot_state == ROT_PENDING\<close>, \<open>ro_port\<close> the port \<open>remote_fd\<close> is connected to.
\<close>

record rot =
  ro_ports :: portset
  ro_cfg :: rot_cfg
  ro_soft :: bool
  ro_fd :: "nat option"
  ro_fd2 :: "nat option"
  ro_port :: u16
  ro_rng :: fastrand
  ro_reconnect :: bool
  ro_pending :: bool
  ro_old :: "nat option"
  ro_dual :: bool
  ro_won :: bool
  ro_refused :: bool
  ro_due :: bool
  ro_force :: bool
  ro_changed :: bool
  ro_failed :: bool
  ro_ans :: u32
  ro_t0 :: u64
  ro_from :: u16
  ro_to :: u16
  ro_bad :: "u16 list"
  ro_bad_i :: nat
  ro_lag :: lag

section \<open>Errors of the remote socket\<close>

definition send_err_is_fatal :: "errno \<Rightarrow> bool" where
  "send_err_is_fatal e =
     (case e of EADDRNOTAVAIL \<Rightarrow> True | ENETUNREACH \<Rightarrow> True | EHOSTUNREACH \<Rightarrow> True | ENETDOWN \<Rightarrow> True
      | ECONNREFUSED \<Rightarrow> True | EPERM \<Rightarrow> True | _ \<Rightarrow> False)"

definition rot_refused_now :: "errno \<Rightarrow> rot \<Rightarrow> rot \<times> bool" where
  "rot_refused_now e r =
     (if e \<noteq> ECONNREFUSED then (r, False)
      else if ro_pending r then (r\<lparr>ro_refused := True\<rparr>, True)
      else (r, ro_old r \<noteq> None))"

text \<open>The state, and whether the socket is shut down to wake its reader.\<close>

definition note_remote_send_err :: "errno \<Rightarrow> rot \<Rightarrow> rot \<times> bool" where
  "note_remote_send_err e r =
     (if \<not> send_err_is_fatal e then (r, False)
      else let (r, refused) = rot_refused_now e r
           in if refused \<or> ro_reconnect r then (r, False)
              else (r\<lparr>ro_reconnect := True\<rparr>, ro_fd r \<noteq> None))"

definition note_remote_read_err :: "int \<Rightarrow> errno \<Rightarrow> bool \<Rightarrow> rot \<Rightarrow> rot" where
  "note_remote_read_err n e stopped r =
     (if n = 0 \<or> e = EAGAIN \<or> e = EINTR then r
      else if e = EMSGSIZE then r
      else if stopped then r
      else let (r, refused) = rot_refused_now e r
           in if refused then r else r\<lparr>ro_reconnect := True\<rparr>)"

section \<open>Moving to another port\<close>

text \<open>What one direction has carried in the current tick.\<close>

record rot_seen =
  sn_busy :: u32
  sn_client :: u32
  sn_tick :: u32
  sn_bytes :: u32

definition rot_seen_note :: "rot_seen \<Rightarrow> u32 \<Rightarrow> u32 \<Rightarrow> rot_seen \<times> bool" where
  "rot_seen_note v t bytes =
     (let v = (if t \<noteq> sn_tick v then v\<lparr>sn_tick := t, sn_bytes := 0\<rparr> else v)
      in if sn_busy v = t then (v, False)
         else let v = v\<lparr>sn_bytes := sn_bytes v + bytes\<rparr>
              in if sn_bytes v > 65536 then (v\<lparr>sn_busy := t\<rparr>, True) else (v, False))"

text \<open>The draw of a port: at most four tries, the current port when none is usable.\<close>

fun rot_pick :: "nat \<Rightarrow> portset \<Rightarrow> u16 list \<Rightarrow> u16 \<Rightarrow> fastrand \<Rightarrow> (u16 \<times> fastrand) option" where
  "rot_pick 0 ps bad cur rng = Some (cur, rng)"
| "rot_pick (Suc t) ps bad cur rng =
     do { (c, rng) \<leftarrow> portset_pick ps rng cur;
          if c = cur \<or> List.member bad c then rot_pick t ps bad cur rng else Some (c, rng) }"

text \<open>
  The move: \<open>lock\<close> is whether \<open>remote_mu\<close> could be taken, \<open>keep\<close> the socket \<open>rot_keep_old\<close> opens,
  \<open>conn\<close> whether \<open>connect\<close> succeeds.  A failed \<open>connect\<close> leaves the socket on its port.  The
  reset of the trailer window is in \<open>rot_try\<close> below, its only caller.
\<close>

definition rot_move :: "nat \<Rightarrow> bool \<Rightarrow> bool \<Rightarrow> nat option \<Rightarrow> bool \<Rightarrow> u64 \<Rightarrow> rot \<Rightarrow> (rot \<times> bool) option" where
  "rot_move fd soft lock keep conn now r =
     (if \<not> lock \<or> ro_fd r \<noteq> Some fd \<or> ro_fd2 r \<noteq> None then Some (r, False)
      else do { (to, rng) \<leftarrow> rot_pick 4 (ro_ports r) (ro_bad r) (ro_port r) (ro_rng r);
                let from = ro_port r;
                let r = r\<lparr>ro_rng := rng\<rparr>;
                if to = from \<or> soft \<and> keep = None \<or> \<not> conn then Some (r, False)
                else Some (r\<lparr>ro_port := to, ro_from := from, ro_to := to, ro_t0 := now,
                             ro_lag := (ro_lag r)\<lparr>lq_twice := 0, lq_n := 0\<rparr>, ro_refused := False, ro_won := False, ro_ans := 0,
                             ro_old := keep, ro_dual := (keep \<noteq> None), ro_pending := True\<rparr>, True) })"

text \<open>Which packets a batch carries: somebody's data, a handshake initiation.\<close>

fun rot_what :: "int \<Rightarrow> (bytes \<times> int) list \<Rightarrow> bool \<Rightarrow> bool \<Rightarrow> (bool \<times> bool) option" where
  "rot_what prefix [] user init = Some (user, init)"
| "rot_what prefix ((buf, n) # ps) user init =
     (if user \<and> init then Some (user, init)
      else if n < 4 then rot_what prefix ps user init
      else do { t \<leftarrow> rd buf prefix 4;
                let h = read32_le t;
                if h = WG_TRANSPORT_DATA \<and> n > WG_TRANSPORT_MIN then rot_what prefix ps True init
                else if h = WG_HANDSHAKE_INIT then rot_what prefix ps user True
                else rot_what prefix ps user init })"

definition reset_window :: "proxy \<Rightarrow> proxy" where
  "reset_window p = p\<lparr>px_cfg := (px_cfg p)\<lparr>c_udp_window := 500\<rparr>\<rparr>"

text \<open>
  At the head of a batch, while the port is due and no move is under way: the state, whether the
  socket moved, and the junk and I-packets a new flow opens with.
\<close>

definition rot_try ::
    "nat \<Rightarrow> (nat \<Rightarrow> nat \<Rightarrow> u32) \<Rightarrow> nat \<Rightarrow> u32 \<Rightarrow> u32 \<Rightarrow> rot_seen \<Rightarrow> int \<Rightarrow> (bytes \<times> int) list \<Rightarrow> bool \<Rightarrow> nat option \<Rightarrow> bool
     \<Rightarrow> u64 \<Rightarrow> rot \<Rightarrow> proxy \<Rightarrow> (rot \<times> proxy \<times> bool \<times> bytes list) option" where
  "rot_try size_max clk fd now s2c_busy v prefix batch lock keep conn ms r p =
     (let busy = (if sint (s2c_busy - sn_busy v) > 0 then s2c_busy else sn_busy v);
          loaded = (now - busy \<le> rc_idle (ro_cfg r))
      in if loaded \<and> (\<not> ro_soft r \<or> \<not> ro_force r) then Some (r, p, False, [])
         else let busy = (if loaded then now - rc_idle (ro_cfg r) - 1 else busy)
              in do { (user, init) \<leftarrow> rot_what prefix batch False False;
                      if \<not> rot_window (ro_cfg r) now busy (sn_client v) user init then Some (r, p, False, [])
                      else do { (r, moved) \<leftarrow> rot_move fd loaded lock keep conn ms r;
                                if \<not> moved then Some (r, p, False, [])
                                else if init then Some (r, reset_window p, True, [])
                                else do { (train, p) \<leftarrow> send_junk_and_cps size_max clk (reset_window p);
                                          Some (r, p, True, train) } } })"

section \<open>Confirming or undoing a move\<close>

definition rot_answered :: "u64 \<Rightarrow> rot \<Rightarrow> rot" where
  "rot_answered ms r =
     (let r = r\<lparr>ro_ans := ucast (ms - ro_t0 r) OR 1\<rparr>
      in if \<not> ro_pending r then r
         else r\<lparr>ro_pending := False, ro_won := True, ro_dual := False, ro_due := False, ro_changed := True\<rparr>)"

text \<open>
  Going back to the port the move left; \<open>conn\<close> is whether connecting succeeds.  A port that was
  refused, or stayed silent on its own, is not drawn again soon.
\<close>

definition rot_back :: "bool \<Rightarrow> rot \<Rightarrow> rot" where
  "rot_back conn r =
     (let dead = (\<not> ro_dual r \<or> ro_refused r)
      in r\<lparr>ro_port := (if ro_fd r \<noteq> None \<and> conn then ro_from r else ro_port r), ro_pending := False, ro_dual := False,
           ro_due := False, ro_failed := True,
           ro_bad := (if dead then (ro_bad r)[ro_bad_i r mod 8 := ro_to r] else ro_bad r),
           ro_bad_i := (if dead then ro_bad_i r + 1 else ro_bad_i r)\<rparr>)"

text \<open>The main loop's look at a move: the state and the old socket it drained and closed.\<close>

definition rot_main_poll :: "u64 \<Rightarrow> bool \<Rightarrow> bool \<Rightarrow> rot \<Rightarrow> rot \<times> nat option" where
  "rot_main_poll ms lock conn r =
     (let age = ms - ro_t0 r
      in if ro_old r = None \<and> \<not> ro_pending r then (r, None)
         else if ro_pending r \<and> \<not> ro_refused r \<and> age < (if ro_dual r then 3000 else 2000) then (r, None)
         else if \<not> ro_pending r \<and> age < ucast (ro_ans r) + 3000 then (r, None)
         else if \<not> lock then (r, None)
         else if ro_pending r then (rot_back conn r, None)
         else (r\<lparr>ro_old := None, ro_dual := False\<rparr>, ro_old r))"

section \<open>The schedule\<close>

record rot_main =
  rm_s :: rot_sched
  rm_c2s :: u32
  rm_s2c :: u32
  rm_due :: bool
  rm_due_at :: u32

text \<open>
  One tick of the main loop: fold in the bytes both directions have carried, take the threads'
  news of a changed or a failed port, and raise the flag, or the one for a move under load, when
  its time has come.
\<close>

definition rot_fold :: "u32 \<Rightarrow> u32 \<Rightarrow> rot_main \<Rightarrow> rot_main" where
  "rot_fold bc bs m =
     m\<lparr>rm_s := (rm_s m)\<lparr>rs_bytes := rs_bytes (rm_s m) + (ucast (bc - rm_c2s m) + ucast (bs - rm_s2c m))\<rparr>, rm_c2s := bc, rm_s2c := bs\<rparr>"

definition rot_changed_news :: "u32 \<Rightarrow> fastrand \<Rightarrow> rot_main \<Rightarrow> rot \<Rightarrow> (rot_main \<times> rot \<times> fastrand) option" where
  "rot_changed_news now rng m r =
     (if ro_changed r
      then do { (s, rng) \<leftarrow> rot_sched_reset (ro_cfg r) now rng;
                Some (m\<lparr>rm_s := s, rm_due := False\<rparr>, r\<lparr>ro_force := False, ro_changed := False\<rparr>, rng) }
      else Some (m, r, rng))"

definition rot_failed_news :: "u32 \<Rightarrow> rot_main \<Rightarrow> rot \<Rightarrow> rot_main \<times> rot" where
  "rot_failed_news now m r =
     (if ro_failed r
      then (m\<lparr>rm_s := (rm_s m)\<lparr>rs_retry := now + rc_retry (ro_cfg r)\<rparr>, rm_due := False\<rparr>, r\<lparr>ro_force := False, ro_failed := False\<rparr>)
      else (m, r))"

definition rot_raise :: "u32 \<Rightarrow> rot_main \<Rightarrow> rot \<Rightarrow> rot_main \<times> rot" where
  "rot_raise now m r =
     (if rm_due m
      then (m, if ro_soft r \<and> now - rm_due_at m \<ge> rc_force (ro_cfg r) \<and> \<not> ro_force r then r\<lparr>ro_force := True\<rparr> else r)
      else if \<not> rot_is_due (ro_cfg r) (rm_s m) now then (m, r)
      else (m\<lparr>rm_due := True, rm_due_at := now\<rparr>, r\<lparr>ro_due := True\<rparr>))"

definition rot_main_tick :: "u32 \<Rightarrow> u32 \<Rightarrow> u32 \<Rightarrow> fastrand \<Rightarrow> rot_main \<Rightarrow> rot \<Rightarrow> (rot_main \<times> rot \<times> fastrand) option" where
  "rot_main_tick bc bs now rng m r =
     do { (m, r, rng) \<leftarrow> rot_changed_news now rng (rot_fold bc bs m) r;
          let (m, r) = rot_failed_news now m r;
          let (m, r) = rot_raise now m r;
          Some (m, r, rng) }"

section \<open>Reconnecting\<close>

text \<open>
  A reconnect: \<open>dial\<close> is the port \<open>dial_remote\<close> drew and, when it succeeds, the new socket and
  the socket of its probe.  Everything that describes the old connection is reset.
\<close>

definition rot_reconnect :: "u16 \<Rightarrow> (nat \<times> nat option) option \<Rightarrow> rot \<Rightarrow> rot" where
  "rot_reconnect port dial r =
     (let r = r\<lparr>ro_fd := None, ro_fd2 := None, ro_pending := False, ro_port := port\<rparr>
      in case dial of
           None \<Rightarrow> r
         | Some (fd, fd2) \<Rightarrow>
             r\<lparr>ro_fd := Some fd, ro_fd2 := fd2, ro_reconnect := False, ro_due := False, ro_changed := True\<rparr>)"

definition do_reconnect_locked :: "u16 \<Rightarrow> (nat \<times> nat option) option \<Rightarrow> rot \<Rightarrow> proxy \<Rightarrow> rot \<times> proxy \<times> nat option" where
  "do_reconnect_locked port dial r p =
     (rot_reconnect port dial r,
      if dial = None then p
      else let p = reset_window (p\<lparr>px_client_init := False\<rparr>);
               p = (if c_mode (px_cfg p) = AWG_MODE_NORMAL then p\<lparr>px_has_client := False\<rparr> else p)
           in p\<lparr>px_fe_init_seen := False, px_fe_init_sent := False, px_fe_resp_received := False, px_fe_resp_sent := False,
                px_fe_transport_c2s := False, px_fe_transport_s2c := False\<rparr>,
      map_option fst dial)"

section \<open>The threads as a transition system\<close>

text \<open>
  One state holds the rotation fields, the main loop's view of the schedule and its clock and
  generator.  Each operation of a thread is one step; the atomics and \<open>remote_mu\<close> order the
  operations, and their arguments are whatever the environment supplies.
\<close>

record rot_sys =
  sy_rot :: rot
  sy_main :: rot_main
  sy_rng :: fastrand
  sy_tick :: u32

inductive rot_step :: "rot_sys \<Rightarrow> rot_sys \<Rightarrow> bool" where
  move: "ro_due (sy_rot s) \<Longrightarrow> \<not> ro_pending (sy_rot s) \<Longrightarrow> ro_old (sy_rot s) = None \<Longrightarrow>
    rot_move fd soft lock keep conn ms (sy_rot s) = Some (r, moved) \<Longrightarrow> rot_step s (s\<lparr>sy_rot := r\<rparr>)"
| answered: "ro_pending (sy_rot s) \<Longrightarrow> rot_step s (s\<lparr>sy_rot := rot_answered ms (sy_rot s)\<rparr>)"
| poll: "rot_main_poll ms lock conn (sy_rot s) = (r, closed) \<Longrightarrow> rot_step s (s\<lparr>sy_rot := r\<rparr>)"
| tick: "rot_main_tick bc bs (sy_tick s + 1) (sy_rng s) (sy_main s) (sy_rot s) = Some (m, r, rng) \<Longrightarrow>
    rot_step s (s\<lparr>sy_rot := r, sy_main := m, sy_rng := rng, sy_tick := sy_tick s + 1\<rparr>)"
| send_err: "rot_step s (s\<lparr>sy_rot := fst (note_remote_send_err e (sy_rot s))\<rparr>)"
| read_err: "rot_step s (s\<lparr>sy_rot := note_remote_read_err n e stopped (sy_rot s)\<rparr>)"
| copy: "ro_dual (sy_rot s) \<Longrightarrow> ro_old (sy_rot s) \<noteq> None \<Longrightarrow>
    rot_step s (s\<lparr>sy_rot := (sy_rot s)\<lparr>ro_lag := fst (rot_lag_put got sent b us (ro_lag (sy_rot s)))\<rparr>\<rparr>)"
| service: "rot_lag_service sm (ro_old (sy_rot s) \<noteq> None) (ro_dual (sy_rot s)) (ro_won (sy_rot s)) us (ro_lag (sy_rot s)) = (q, bs, w) \<Longrightarrow>
    rot_step s (s\<lparr>sy_rot := (sy_rot s)\<lparr>ro_lag := q\<rparr>\<rparr>)"
| reconnect: "ro_fd (sy_rot s) = None \<or> ro_reconnect (sy_rot s) \<Longrightarrow> portset_has (ro_ports (sy_rot s)) port \<Longrightarrow>
    rot_step s (s\<lparr>sy_rot := rot_reconnect port dial (sy_rot s)\<rparr>)"
| probe_done: "rot_step s (s\<lparr>sy_rot := (sy_rot s)\<lparr>ro_fd := (if use_alt then ro_fd2 (sy_rot s) else ro_fd (sy_rot s)), ro_fd2 := None\<rparr>\<rparr>)"

section \<open>The invariant\<close>

definition rot_inv :: "rot \<Rightarrow> bool" where
  "rot_inv r \<longleftrightarrow>
     wf_portset (ro_ports r) \<and> length (ro_bad r) = 8 \<and> lag_ok (ro_lag r) \<and> portset_has (ro_ports r) (ro_port r) \<and>
     (ro_dual r \<longrightarrow> ro_old r \<noteq> None) \<and>
     (ro_pending r \<longrightarrow>
        ro_port r = ro_to r \<and> ro_to r \<noteq> ro_from r \<and> portset_has (ro_ports r) (ro_from r) \<and>
        \<not> List.member (ro_bad r) (ro_to r) \<and> \<not> ro_won r \<and> ro_ans r = 0 \<and> (ro_dual r \<longleftrightarrow> ro_old r \<noteq> None))"

text \<open>What the main loop believes: a flag it raised is either still up or there is news for it.\<close>

definition sched_inv :: "rot_main \<Rightarrow> rot \<Rightarrow> bool" where
  "sched_inv m r \<longleftrightarrow>
     (ro_due r \<longrightarrow> rm_due m) \<and> (ro_changed r \<or> ro_failed r \<longrightarrow> \<not> ro_due r) \<and> (rm_due m \<and> \<not> ro_due r \<longrightarrow> ro_changed r \<or> ro_failed r)"

definition sys_inv :: "rot_sys \<Rightarrow> bool" where
  "sys_inv s \<longleftrightarrow> rot_inv (sy_rot s) \<and> sched_inv (sy_main s) (sy_rot s)"

lemma rot_pick_ok:
  assumes "wf_portset ps"
  shows "\<exists>to rng'. rot_pick t ps bad cur rng = Some (to, rng') \<and>
    (to = cur \<or> portset_has ps to \<and> \<not> List.member bad to)"
proof (induction t arbitrary: rng)
  case (Suc t)
  obtain c rng' where "portset_pick ps rng cur = Some (c, rng')" "portset_has ps c"
    using portset_pick_ok [OF assms] by blast
  then show ?case using Suc [of rng'] by auto
qed simp

lemma rot_move_inv:
  assumes "rot_inv r" "\<not> ro_pending r" "ro_old r = None" "rot_move fd soft lock keep conn ms r = Some (r', moved)"
  shows "rot_inv r'" "ro_due r' = ro_due r" "ro_changed r' = ro_changed r" "ro_failed r' = ro_failed r"
proof -
  obtain to rng' where p: "rot_pick 4 (ro_ports r) (ro_bad r) (ro_port r) (ro_rng r) = Some (to, rng')"
    "to = ro_port r \<or> portset_has (ro_ports r) to \<and> \<not> List.member (ro_bad r) to"
    using rot_pick_ok [of "ro_ports r"] assms(1) unfolding rot_inv_def by blast
  have lag: "lag_ok (q\<lparr>lq_twice := 0, lq_n := 0\<rparr>)" if "lag_ok q" for q using that by (auto simp: lag_ok_def split: option.splits)
  show "rot_inv r'" "ro_due r' = ro_due r" "ro_changed r' = ro_changed r" "ro_failed r' = ro_failed r"
    using assms p lag [of "ro_lag r"] by (auto simp: rot_move_def rot_inv_def Let_def split: if_splits)
qed

lemma rot_answered_inv:
  assumes "rot_inv r" "sched_inv m r" "ro_pending r"
  shows "rot_inv (rot_answered ms r)" "sched_inv m (rot_answered ms r)"
  using assms by (auto simp: rot_answered_def rot_inv_def sched_inv_def Let_def)

lemma rot_back_inv:
  assumes "rot_inv r" "sched_inv m r" "ro_pending r"
  shows "rot_inv (rot_back conn r)" "sched_inv m (rot_back conn r)"
  using assms by (auto simp: rot_back_def rot_inv_def sched_inv_def Let_def)

lemma rot_main_poll_cases:
  obtains (keep) "rot_main_poll ms lock conn r = (r, None)"
  | (undone) "ro_pending r" "rot_main_poll ms lock conn r = (rot_back conn r, None)"
  | (closed) "\<not> ro_pending r" "rot_main_poll ms lock conn r = (r\<lparr>ro_old := None, ro_dual := False\<rparr>, ro_old r)"
  unfolding rot_main_poll_def Let_def by argo

lemma rot_main_poll_inv:
  assumes "rot_inv r" "sched_inv m r"
  shows "rot_inv (fst (rot_main_poll ms lock conn r)) \<and> sched_inv m (fst (rot_main_poll ms lock conn r))"
  using assms by (cases rule: rot_main_poll_cases [of ms lock conn r])
    (simp_all add: rot_back_inv, simp add: rot_inv_def sched_inv_def)

lemma refused_inv:
  "rot_inv r \<Longrightarrow> rot_inv (fst (rot_refused_now e r))" "sched_inv m r \<Longrightarrow> sched_inv m (fst (rot_refused_now e r))"
  by (auto simp: rot_refused_now_def rot_inv_def sched_inv_def)

lemma reconnect_flag_inv: "rot_inv (r\<lparr>ro_reconnect := b\<rparr>) = rot_inv r" "sched_inv m (r\<lparr>ro_reconnect := b\<rparr>) = sched_inv m r"
  by (simp_all add: rot_inv_def sched_inv_def)

lemma remote_err_inv:
  assumes "rot_inv r" "sched_inv m r"
  shows "rot_inv (fst (note_remote_send_err e r))" "sched_inv m (fst (note_remote_send_err e r))"
    "rot_inv (note_remote_read_err n e stopped r)" "sched_inv m (note_remote_read_err n e stopped r)"
  using assms refused_inv(1) [of r e] refused_inv(2) [of m r e]
  by (auto simp: note_remote_send_err_def note_remote_read_err_def reconnect_flag_inv Let_def split: prod.split)

lemma lag_inv:
  assumes "rot_inv r"
  shows "lag_ok q \<Longrightarrow> rot_inv (r\<lparr>ro_lag := q\<rparr>)" "sched_inv m (r\<lparr>ro_lag := q\<rparr>) = sched_inv m r"
  using assms by (simp_all add: rot_inv_def sched_inv_def)

text \<open>A put that has to go out at once leaves the queue as it is.\<close>

lemma rot_lag_put_ok:
  assumes "lag_ok q"
  shows "lag_ok (fst (rot_lag_put got sent b now q))"
proof (cases "length b \<le> ROT_LAG_PKT \<and> lq_n q < ROT_LAG_N \<and> (got \<or> lq_ring q \<noteq> None)")
  case True
  then show ?thesis using rot_lag_put_room(2) [OF assms] by blast
next
  case False
  then show ?thesis using assms
    by (auto simp: rot_lag_put_def lag_ok_def Let_def list_all_iff split: option.splits)
qed

lemma rot_flags_inv:
  "rot_inv (r\<lparr>ro_due := b\<rparr>) = rot_inv r" "rot_inv (r\<lparr>ro_force := b\<rparr>) = rot_inv r"
  "rot_inv (r\<lparr>ro_changed := b\<rparr>) = rot_inv r" "rot_inv (r\<lparr>ro_failed := b\<rparr>) = rot_inv r"
  by (simp_all add: rot_inv_def)

lemma rot_fold_inv: "sched_inv (rot_fold bc bs m) r = sched_inv m r"
  by (simp add: sched_inv_def rot_fold_def)

lemma rot_changed_news_inv:
  assumes "rot_inv r" "sched_inv m r" "rot_changed_news now rng m r = Some (m', r', rng')"
  shows "rot_inv r'" "sched_inv m' r'" "\<not> ro_changed r'" "ro_failed r' = ro_failed r"
proof -
  have "rot_inv r' \<and> sched_inv m' r' \<and> \<not> ro_changed r' \<and> ro_failed r' = ro_failed r"
  proof (cases "ro_changed r")
    case True
    then obtain s where "m' = m\<lparr>rm_s := s, rm_due := False\<rparr>" "r' = r\<lparr>ro_force := False, ro_changed := False\<rparr>"
      using assms(3) by (auto simp: rot_changed_news_def split: bind_splits)
    then show ?thesis using assms(1,2) True by (simp add: rot_flags_inv) (simp add: sched_inv_def)
  next
    case False
    then show ?thesis using assms by (simp add: rot_changed_news_def)
  qed
  then show "rot_inv r'" "sched_inv m' r'" "\<not> ro_changed r'" "ro_failed r' = ro_failed r" by simp_all
qed

lemma rot_failed_news_inv:
  assumes "rot_inv r" "sched_inv m r" "rot_failed_news now m r = (m', r')"
  shows "rot_inv r'" "sched_inv m' r'" "\<not> ro_failed r'" "ro_changed r' = ro_changed r"
proof -
  have "rot_inv r' \<and> sched_inv m' r' \<and> \<not> ro_failed r' \<and> ro_changed r' = ro_changed r"
  proof (cases "ro_failed r")
    case True
    then have "m' = m\<lparr>rm_s := (rm_s m)\<lparr>rs_retry := now + rc_retry (ro_cfg r)\<rparr>, rm_due := False\<rparr>"
      "r' = r\<lparr>ro_force := False, ro_failed := False\<rparr>"
      using assms(3) by (simp_all add: rot_failed_news_def)
    then show ?thesis using assms(1,2) True by (simp add: rot_flags_inv) (simp add: sched_inv_def)
  next
    case False
    then show ?thesis using assms by (simp add: rot_failed_news_def)
  qed
  then show "rot_inv r'" "sched_inv m' r'" "\<not> ro_failed r'" "ro_changed r' = ro_changed r" by simp_all
qed

lemma rot_raise_inv:
  assumes "rot_inv r" "sched_inv m r" "\<not> ro_changed r" "\<not> ro_failed r" "rot_raise now m r = (m', r')"
  shows "rot_inv r'" "sched_inv m' r'"
  using assms by (auto simp: rot_raise_def rot_flags_inv sched_inv_def split: if_splits)

lemma rot_tick_inv:
  assumes "rot_inv r" "sched_inv m r" "rot_main_tick bc bs now rng m r = Some (m', r', rng')"
  shows "rot_inv r'" "sched_inv m' r'"
proof -
  obtain m1 r1 where 1: "rot_changed_news now rng (rot_fold bc bs m) r = Some (m1, r1, rng')"
    "rot_raise now (fst (rot_failed_news now m1 r1)) (snd (rot_failed_news now m1 r1)) = (m', r')"
    using assms(3) by (auto simp: rot_main_tick_def split_beta split: bind_splits)
  have "sched_inv (rot_fold bc bs m) r" using assms(2) by (simp add: rot_fold_inv)
  note n1 = rot_changed_news_inv [OF assms(1) this 1(1)]
  note n2 = rot_failed_news_inv [OF n1(1,2) prod.collapse [symmetric]]
  show "rot_inv r'" "sched_inv m' r'" using rot_raise_inv [OF n2(1,2) _ n2(3) 1(2)] n1(3) n2(4) by simp_all
qed

lemma rot_reconnect_inv:
  assumes "rot_inv r" "sched_inv m r" "portset_has (ro_ports r) port"
  shows "rot_inv (rot_reconnect port dial r)" "sched_inv m (rot_reconnect port dial r)"
  using assms by (auto simp: rot_reconnect_def rot_inv_def sched_inv_def Let_def split: option.split)

lemma rot_step_inv: "rot_step s s' \<Longrightarrow> sys_inv s \<Longrightarrow> sys_inv s'"
proof (induction rule: rot_step.induct)
  case (move s fd soft lock keep conn ms r moved)
  then show ?case using rot_move_inv [of "sy_rot s" fd soft lock keep conn ms r moved] by (simp add: sys_inv_def sched_inv_def)
next
  case (poll ms lock conn s r closed)
  then show ?case using rot_main_poll_inv [of "sy_rot s" "sy_main s" ms lock conn] by (simp add: sys_inv_def)
next
  case (tick bc bs s m r rng)
  then show ?case using rot_tick_inv [of "sy_rot s" "sy_main s"] by (simp add: sys_inv_def)
next
  case (copy s got sent b us)
  then show ?case using lag_inv [of "sy_rot s"] rot_lag_put_ok by (simp add: sys_inv_def rot_inv_def)
next
  case (service sm s us q bs w)
  then show ?case using lag_inv [of "sy_rot s"] rot_lag_service_spec(1) [OF _ service(1)] by (simp add: sys_inv_def rot_inv_def)
next
  case (probe_done s use_alt)
  then show ?case by (simp add: sys_inv_def rot_inv_def sched_inv_def)
qed (auto simp: sys_inv_def intro: rot_answered_inv remote_err_inv rot_reconnect_inv)

section \<open>Sending towards the server\<close>

text \<open>The copy of a packet the probe of the other address family may replay.\<close>

record stash =
  sh_sent :: bool
  sh_pkt :: bytes
  sh_ms :: u64

definition he_stash :: "bool \<Rightarrow> u64 \<Rightarrow> bytes \<Rightarrow> bool \<Rightarrow> stash \<Rightarrow> stash" where
  "he_stash armed ms b replace h =
     (if \<not> armed \<or> \<not> replace \<and> sh_sent h \<or> b = [] \<or> length b > 1756 then h
      else \<lparr>sh_sent = True, sh_pkt = b, sh_ms = ms\<rparr>)"

text \<open>
  What a send touches.  The log of the offload also holds the datagrams sent one by one, so it is
  the order in which the socket was used; \<open>re_old\<close> is what has been handed to the old port's
  socket.
\<close>

record remote =
  re_rot :: rot
  re_gso :: gso_state
  re_tx :: u32
  re_drop :: u32
  re_stash :: stash
  re_old :: "bytes list"

text \<open>
  The environment of a send: the kernel, its answer to a single datagram, whether the ring can be
  allocated, whether a direct copy to the old port succeeds, and the clocks.
\<close>

record send_env =
  en_k :: kernel
  en_send :: "bytes \<Rightarrow> errno option"
  en_got :: bool
  en_copied :: bool
  en_mmsg :: "bytes list \<Rightarrow> int"
  en_ms :: u64
  en_us :: u64

definition note_err :: "errno option \<Rightarrow> remote \<Rightarrow> remote" where
  "note_err e x = (case e of None \<Rightarrow> x | Some e \<Rightarrow> x\<lparr>re_rot := fst (note_remote_send_err e (re_rot x))\<rparr>)"

text \<open>The copy for the old port while a move is undecided.\<close>

definition copy_old :: "send_env \<Rightarrow> bytes \<Rightarrow> remote \<Rightarrow> remote" where
  "copy_old v b x =
     (if ro_dual (re_rot x) \<and> ro_old (re_rot x) \<noteq> None
      then let (q, direct) = rot_lag_put (en_got v) (en_copied v) b (en_us v) (ro_lag (re_rot x))
           in x\<lparr>re_rot := (re_rot x)\<lparr>ro_lag := q\<rparr>, re_old := (if direct \<and> en_copied v then re_old x @ [b] else re_old x)\<rparr>
      else x)"

definition serve_lag :: "send_env \<Rightarrow> remote \<Rightarrow> remote" where
  "serve_lag v x =
     (let r = re_rot x; (q, bs, w) = rot_lag_service (en_mmsg v) (ro_old r \<noteq> None) (ro_dual r) (ro_won r) (en_us v) (ro_lag r)
      in x\<lparr>re_rot := r\<lparr>ro_lag := q\<rparr>, re_old := re_old x @ concat bs\<rparr>)"

definition send_batch_remote :: "send_env \<Rightarrow> bytes list \<Rightarrow> remote \<Rightarrow> remote" where
  "send_batch_remote v ds x =
     (let x = (if lq_n (ro_lag (re_rot x)) > 0 then serve_lag v x else x);
          x = x\<lparr>re_stash := he_stash (ro_fd2 (re_rot x) \<noteq> None) (en_ms v) (hd ds) False (re_stash x)\<rparr>;
          (g, sent, err) = send_batch_gso (en_k v) False (map (\<lambda>d. (d, V4 0 0)) ds) (re_gso x);
          (tx, dr) = stats_add_tx (re_tx x) (re_drop x) (int (length ds)) (int sent);
          x = note_err err (x\<lparr>re_gso := g, re_tx := tx, re_drop := dr\<rparr>)
      in fold (copy_old v) ds x)"

text \<open>The actions of a batch (theory Datapath) carried out on the socket.\<close>

definition send_one :: "send_env \<Rightarrow> bytes \<Rightarrow> remote \<Rightarrow> remote" where
  "send_one v b x =
     (let sent = (if en_send v b = None then 1 else 0); g = re_gso x
      in note_err (en_send v b) (x\<lparr>re_gso := g\<lparr>gs_log := gs_log g @ [Datagrams [(b, V4 0 0)] sent]\<rparr>\<rparr>))"

fun perform :: "send_env \<Rightarrow> action \<Rightarrow> remote \<Rightarrow> remote" where
  "perform v (Flush ds) x = send_batch_remote v ds x"
| "perform v (Train ts) x = fold (send_one v) ts x"
| "perform v (Single d) x =
     (let x = x\<lparr>re_stash := he_stash (ro_fd2 (re_rot x) \<noteq> None) (en_ms v) d True (re_stash x)\<rparr>
      in copy_old v d (send_one v d x))"

section \<open>A batch on both ports\<close>

text \<open>The datagrams of a list of actions, and those of which the old port gets a copy.\<close>

fun act_data :: "action \<Rightarrow> bytes list" where
  "act_data (Flush ds) = ds"
| "act_data (Train ts) = ts"
| "act_data (Single d) = [d]"

fun act_copies :: "action \<Rightarrow> bytes list" where
  "act_copies (Flush ds) = ds"
| "act_copies (Train ts) = []"
| "act_copies (Single d) = [d]"

text \<open>An undecided move with both ports in use.\<close>

definition dual_move :: "rot \<Rightarrow> bool" where
  "dual_move r \<longleftrightarrow> ro_pending r \<and> ro_dual r \<and> ro_old r \<noteq> None \<and> \<not> ro_won r \<and> lag_ok (ro_lag r)"

definition old_view :: "remote \<Rightarrow> bytes list" where
  "old_view x = re_old x @ map snd (lag_items (ro_lag (re_rot x)))"

text \<open>A step that keeps the move undecided and adds the copies \<open>bs\<close> to what the old port sees.\<close>

definition adds_copies :: "bytes list \<Rightarrow> remote \<Rightarrow> remote \<Rightarrow> bool" where
  "adds_copies bs x y \<longleftrightarrow>
     (\<exists>q ref rec. re_rot y = (re_rot x)\<lparr>ro_lag := q, ro_refused := ref, ro_reconnect := rec\<rparr> \<and> lag_ok q \<and>
        lq_n q \<le> lq_n (ro_lag (re_rot x)) + length bs) \<and>
     old_view y = old_view x @ bs"

lemma adds_copies_move: "adds_copies bs x y \<Longrightarrow> dual_move (re_rot x) \<Longrightarrow> dual_move (re_rot y)"
  by (auto simp: adds_copies_def dual_move_def)

lemma adds_copies_trans:
  assumes "adds_copies bs x y" "adds_copies cs y z"
  shows "adds_copies (bs @ cs) x z"
proof -
  obtain q ref rec where y: "re_rot y = (re_rot x)\<lparr>ro_lag := q, ro_refused := ref, ro_reconnect := rec\<rparr>"
    "lq_n q \<le> lq_n (ro_lag (re_rot x)) + length bs" using assms(1) by (auto simp: adds_copies_def)
  obtain q' ref' rec' where z: "re_rot z = (re_rot y)\<lparr>ro_lag := q', ro_refused := ref', ro_reconnect := rec'\<rparr>" "lag_ok q'"
    "lq_n q' \<le> lq_n q + length cs" using assms(2) y(1) by (auto simp: adds_copies_def)
  have "re_rot z = (re_rot x)\<lparr>ro_lag := q', ro_refused := ref', ro_reconnect := rec'\<rparr>" by (simp add: z(1) y(1))
  moreover have "old_view z = old_view x @ (bs @ cs)" using assms by (simp add: adds_copies_def)
  moreover have "lq_n q' \<le> lq_n (ro_lag (re_rot x)) + length (bs @ cs)" using y(2) z(3) by simp
  ultimately show ?thesis using z(2) unfolding adds_copies_def by blast
qed

text \<open>What leaves the rotation state and the old port alone adds nothing.\<close>

lemma adds_nothing:
  assumes "dual_move (re_rot x)" "re_rot y = (re_rot x)\<lparr>ro_refused := ref, ro_reconnect := rec\<rparr>" "re_old y = re_old x"
  shows "adds_copies [] x y"
proof -
  have "re_rot y = (re_rot x)\<lparr>ro_lag := ro_lag (re_rot x), ro_refused := ref, ro_reconnect := rec\<rparr>" using assms(2) by simp
  moreover have "lag_ok (ro_lag (re_rot x))" "old_view y = old_view x @ []"
    using assms by (simp_all add: dual_move_def old_view_def)
  ultimately show ?thesis unfolding adds_copies_def
    by (intro conjI exI [of _ "ro_lag (re_rot x)"] exI [of _ ref] exI [of _ rec]) simp_all
qed

lemma adds_nothing_same: "dual_move (re_rot x) \<Longrightarrow> re_rot y = re_rot x \<Longrightarrow> re_old y = re_old x \<Longrightarrow> adds_copies [] x y"
  by (rule adds_nothing [where ref = "ro_refused (re_rot x)" and rec = "ro_reconnect (re_rot x)"]) simp_all

lemma note_err_adds: "dual_move (re_rot x) \<Longrightarrow> adds_copies [] x (note_err e x)"
proof (cases e)
  case (Some e')
  assume d: "dual_move (re_rot x)"
  obtain ref rec where "fst (note_remote_send_err e' (re_rot x)) = (re_rot x)\<lparr>ro_refused := ref, ro_reconnect := rec\<rparr>"
  proof (cases "send_err_is_fatal e' \<and> e' = ECONNREFUSED")
    case True
    then show ?thesis using that [where ref = True and rec = "ro_reconnect (re_rot x)"] d
      by (auto simp: note_remote_send_err_def rot_refused_now_def dual_move_def)
  next
    case False
    then show ?thesis
      using that [where ref = "ro_refused (re_rot x)" and rec = "ro_reconnect (re_rot x)"]
        that [where ref = "ro_refused (re_rot x)" and rec = True]
      by (cases "send_err_is_fatal e' \<and> \<not> ro_reconnect (re_rot x)") (auto simp: note_remote_send_err_def rot_refused_now_def)
  qed
  then show ?thesis using d Some by (intro adds_nothing) (auto simp: note_err_def)
qed (auto intro!: adds_nothing_same simp: note_err_def)

lemma copy_old_adds:
  assumes d: "dual_move (re_rot x)" and fit: "length b \<le> ROT_LAG_PKT" "lq_n (ro_lag (re_rot x)) < ROT_LAG_N" and "en_got v"
  shows "adds_copies [b] x (copy_old v b x)"
proof -
  let ?q = "ro_lag (re_rot x)"
  have ok: "lag_ok ?q" using d by (simp add: dual_move_def)
  note p = rot_lag_put_room [OF ok fit, of "en_got v" "en_copied v" "en_us v"]
  obtain q where q: "rot_lag_put (en_got v) (en_copied v) b (en_us v) ?q = (q, False)"
    using p(1) assms(4) by (cases "rot_lag_put (en_got v) (en_copied v) b (en_us v) ?q") auto
  have q': "lag_ok q" "lag_items q = lag_items ?q @ [(en_us v + 50000, b)]" using p(2,3) q assms(4) by auto
  have n: "lq_n q = lq_n ?q + 1" using length_lag_items [OF q'(1)] length_lag_items [OF ok] q'(2) by simp
  have c: "copy_old v b x = x\<lparr>re_rot := (re_rot x)\<lparr>ro_lag := q\<rparr>\<rparr>" using d q by (simp add: copy_old_def dual_move_def)
  have "re_rot (copy_old v b x) = (re_rot x)\<lparr>ro_lag := q, ro_refused := ro_refused (re_rot x), ro_reconnect := ro_reconnect (re_rot x)\<rparr>"
    by (simp add: c)
  moreover have "old_view (copy_old v b x) = old_view x @ [b]" using q'(2) by (simp add: old_view_def c)
  ultimately show ?thesis using q'(1) n unfolding adds_copies_def
    by (intro conjI exI [of _ q] exI [of _ "ro_refused (re_rot x)"] exI [of _ "ro_reconnect (re_rot x)"]) simp_all
qed

lemma fold_copy_adds:
  assumes "dual_move (re_rot x)" "list_all (\<lambda>b. length b \<le> ROT_LAG_PKT) bs" "lq_n (ro_lag (re_rot x)) + length bs \<le> ROT_LAG_N" "en_got v"
  shows "adds_copies bs x (fold (copy_old v) bs x)"
  using assms(1-3)
proof (induction bs arbitrary: x)
  case Nil
  then show ?case by (auto intro: adds_nothing_same)
next
  case (Cons b bs)
  have 1: "adds_copies [b] x (copy_old v b x)" using copy_old_adds [OF Cons.prems(1)] Cons.prems assms(4) by simp
  then have "lq_n (ro_lag (re_rot (copy_old v b x))) \<le> lq_n (ro_lag (re_rot x)) + 1" by (auto simp: adds_copies_def)
  then have "adds_copies bs (copy_old v b x) (fold (copy_old v) bs (copy_old v b x))"
    using Cons.prems adds_copies_move [OF 1] by (intro Cons.IH) auto
  from adds_copies_trans [OF 1 this] show ?case by simp
qed

text \<open>Serving the queue moves copies from waiting to sent.\<close>

lemma serve_lag_adds:
  assumes d: "dual_move (re_rot x)"
  shows "adds_copies [] x (serve_lag v x)"
proof -
  let ?r = "re_rot x"
  obtain q bs w where s: "rot_lag_service (en_mmsg v) (ro_old ?r \<noteq> None) (ro_dual ?r) (ro_won ?r) (en_us v) (ro_lag ?r) = (q, bs, w)"
    by (cases "rot_lag_service (en_mmsg v) (ro_old ?r \<noteq> None) (ro_dual ?r) (ro_won ?r) (en_us v) (ro_lag ?r)") auto
  have ok: "lag_ok (ro_lag ?r)" using d by (simp add: dual_move_def)
  note S = rot_lag_service_spec [OF ok s]
  define P where "P = (\<lambda>y :: u64 \<times> bytes. fst y \<le> en_us v)"
  have i: "lag_items q = dropWhile P (lag_items (ro_lag ?r))" "concat bs = map snd (takeWhile P (lag_items (ro_lag ?r)))"
    using S(3,4) d by (auto simp: P_def dual_move_def)
  then have "length (lag_items q) \<le> length (lag_items (ro_lag ?r))" by (simp add: length_dropWhile_le)
  then have n: "lq_n q \<le> lq_n (ro_lag ?r)" using length_lag_items [OF S(1)] length_lag_items [OF ok] by simp
  have x: "serve_lag v x = x\<lparr>re_rot := ?r\<lparr>ro_lag := q\<rparr>, re_old := re_old x @ concat bs\<rparr>" using s by (simp add: serve_lag_def Let_def)
  have "old_view (serve_lag v x) = old_view x @ []"
    by (simp add: old_view_def x i flip: map_append)
  moreover have "re_rot (serve_lag v x) = ?r\<lparr>ro_lag := q, ro_refused := ro_refused ?r, ro_reconnect := ro_reconnect ?r\<rparr>" by (simp add: x)
  ultimately show ?thesis using S(1) n unfolding adds_copies_def
    by (intro conjI exI [of _ q] exI [of _ "ro_refused ?r"] exI [of _ "ro_reconnect ?r"]) simp_all
qed

lemma send_one_adds:
  assumes "dual_move (re_rot x)"
  shows "adds_copies [] x (send_one v b x)"
proof -
  let ?y = "x\<lparr>re_gso := (re_gso x)\<lparr>gs_log := gs_log (re_gso x) @ [Datagrams [(b, V4 0 0)] (if en_send v b = None then 1 else 0)]\<rparr>\<rparr>"
  have "send_one v b x = note_err (en_send v b) ?y" by (simp add: send_one_def Let_def)
  moreover have "adds_copies [] x ?y" by (rule adds_nothing_same [OF assms]) simp_all
  moreover have "adds_copies [] ?y (note_err (en_send v b) ?y)" by (rule note_err_adds) (use assms in simp)
  ultimately show ?thesis using adds_copies_trans by (metis append_Nil)
qed

lemma fold_one_adds: "dual_move (re_rot x) \<Longrightarrow> adds_copies [] x (fold (send_one v) bs x)"
proof (induction bs arbitrary: x)
  case (Cons b bs)
  note 1 = send_one_adds [OF Cons.prems, of v b]
  from adds_copies_trans [OF 1 Cons.IH [OF adds_copies_move [OF 1 Cons.prems]]] show ?case by simp
qed (auto intro: adds_nothing_same)

lemma send_batch_adds:
  assumes d: "dual_move (re_rot x)" and fit: "list_all (\<lambda>b. length b \<le> ROT_LAG_PKT) ds" "lq_n (ro_lag (re_rot x)) + length ds \<le> ROT_LAG_N"
    and "en_got v"
  shows "adds_copies ds x (send_batch_remote v ds x)"
proof -
  define x1 where "x1 = (if lq_n (ro_lag (re_rot x)) > 0 then serve_lag v x else x)"
  define x2 where "x2 = x1\<lparr>re_stash := he_stash (ro_fd2 (re_rot x1) \<noteq> None) (en_ms v) (hd ds) False (re_stash x1)\<rparr>"
  obtain g sent err where g: "send_batch_gso (en_k v) False (map (\<lambda>d. (d, V4 0 0)) ds) (re_gso x2) = (g, sent, err)"
    by (cases "send_batch_gso (en_k v) False (map (\<lambda>d. (d, V4 0 0)) ds) (re_gso x2)") auto
  obtain tx dr where t: "stats_add_tx (re_tx x2) (re_drop x2) (int (length ds)) (int sent) = (tx, dr)"
    by (cases "stats_add_tx (re_tx x2) (re_drop x2) (int (length ds)) (int sent)") auto
  define x3 where "x3 = x2\<lparr>re_gso := g, re_tx := tx, re_drop := dr\<rparr>"
  define x4 where "x4 = note_err err x3"
  have e: "send_batch_remote v ds x = fold (copy_old v) ds x4"
    using g t by (simp add: send_batch_remote_def Let_def x1_def x2_def x3_def x4_def)
  have 1: "adds_copies [] x x1" using serve_lag_adds [OF d] adds_nothing_same [OF d] by (auto simp: x1_def)
  have d1: "dual_move (re_rot x1)" by (rule adds_copies_move [OF 1 d])
  have 3: "adds_copies [] x1 x3" by (rule adds_nothing_same [OF d1]) (simp_all add: x2_def x3_def)
  have d3: "dual_move (re_rot x3)" by (rule adds_copies_move [OF 3 d1])
  have 4: "adds_copies [] x3 x4" unfolding x4_def by (rule note_err_adds [OF d3])
  have d4: "dual_move (re_rot x4)" by (rule adds_copies_move [OF 4 d3])
  have 5: "adds_copies [] x x4" using adds_copies_trans [OF adds_copies_trans [OF 1 3] 4] by simp
  then have "lq_n (ro_lag (re_rot x4)) \<le> lq_n (ro_lag (re_rot x))" by (auto simp: adds_copies_def)
  then have "lq_n (ro_lag (re_rot x4)) + length ds \<le> ROT_LAG_N" using fit(2) by linarith
  from adds_copies_trans [OF 5 fold_copy_adds [OF d4 fit(1) this assms(4)]] show ?thesis by (simp add: e)
qed

lemma perform_adds:
  assumes "dual_move (re_rot x)" "list_all (\<lambda>b. length b \<le> ROT_LAG_PKT) (act_copies a)"
    "lq_n (ro_lag (re_rot x)) + length (act_copies a) \<le> ROT_LAG_N" "en_got v"
  shows "adds_copies (act_copies a) x (perform v a x)"
proof (cases a)
  case (Single d)
  let ?x = "x\<lparr>re_stash := he_stash (ro_fd2 (re_rot x) \<noteq> None) (en_ms v) d True (re_stash x)\<rparr>"
  have 1: "adds_copies [] x ?x" by (rule adds_nothing_same [OF assms(1)]) simp_all
  have d1: "dual_move (re_rot ?x)" using assms(1) by simp
  note 2 = send_one_adds [OF d1, of v d]
  have 3: "adds_copies [] x (send_one v d ?x)" using adds_copies_trans [OF 1 2] by simp
  then have "lq_n (ro_lag (re_rot (send_one v d ?x))) \<le> lq_n (ro_lag (re_rot x))" by (auto simp: adds_copies_def)
  then have "adds_copies [d] (send_one v d ?x) (copy_old v d (send_one v d ?x))"
    using assms Single by (intro copy_old_adds [OF adds_copies_move [OF 2 d1]]) auto
  from adds_copies_trans [OF 3 this] show ?thesis by (simp add: Single Let_def)
qed (use assms send_batch_adds fold_one_adds in auto)

lemma fold_perform_adds:
  assumes "dual_move (re_rot x)" "list_all (\<lambda>b. length b \<le> ROT_LAG_PKT) (concat (map act_copies as))"
    "lq_n (ro_lag (re_rot x)) + length (concat (map act_copies as)) \<le> ROT_LAG_N" "en_got v"
  shows "adds_copies (concat (map act_copies as)) x (fold (perform v) as x)"
  using assms(1-3)
proof (induction as arbitrary: x)
  case (Cons a as)
  have 1: "adds_copies (act_copies a) x (perform v a x)" using Cons.prems assms(4) by (intro perform_adds) auto
  then have "lq_n (ro_lag (re_rot (perform v a x))) \<le> lq_n (ro_lag (re_rot x)) + length (act_copies a)" by (auto simp: adds_copies_def)
  then have "adds_copies (concat (map act_copies as)) (perform v a x) (fold (perform v) as (perform v a x))"
    using Cons.prems adds_copies_move [OF 1] by (intro Cons.IH) auto
  from adds_copies_trans [OF 1 this] show ?case by simp
qed (auto intro: adds_nothing_same)

section \<open>Properties\<close>

text \<open>The state the threads start from: connected to a port of the set, no move, nothing due.\<close>

definition rot_start :: "portset \<Rightarrow> rot_cfg \<Rightarrow> bool \<Rightarrow> nat \<Rightarrow> u16 \<Rightarrow> fastrand \<Rightarrow> rot_sched \<Rightarrow> rot_sys" where
  "rot_start ps c soft fd port rng sch =
     \<lparr>sy_rot = \<lparr>ro_ports = ps, ro_cfg = c, ro_soft = soft, ro_fd = Some fd, ro_fd2 = None, ro_port = port, ro_rng = rng,
        ro_reconnect = False, ro_pending = False, ro_old = None, ro_dual = False, ro_won = False, ro_refused = False,
        ro_due = False, ro_force = False, ro_changed = False, ro_failed = False, ro_ans = 0, ro_t0 = 0, ro_from = 0, ro_to = 0,
        ro_bad = replicate 8 0, ro_bad_i = 0, ro_lag = \<lparr>lq_ring = None, lq_head = 0, lq_n = 0, lq_twice = 0\<rparr>\<rparr>,
      sy_main = \<lparr>rm_s = sch, rm_c2s = 0, rm_s2c = 0, rm_due = False, rm_due_at = 0\<rparr>, sy_rng = rng, sy_tick = 0\<rparr>"

text \<open>
  C11. The rotation never leaves its ports or sends copies to a closed socket: in every state the
  threads can reach, under any interleaving of their operations and any outcome of the socket
  calls, the socket is on a port of the set; a pending move is between two different ports of
  the set, avoids the ports known to be dead and has not been decided; copies are kept only
  while the old socket is open; and a port the main loop has declared due is either still
  flagged to the sending thread or there is news waiting for the main loop, so it is never
  forgotten.
\<close>

theorem rot_reachable_safe:
  assumes "wf_portset ps" "portset_has ps port" "rot_step\<^sup>*\<^sup>* (rot_start ps c soft fd port rng sch) s"
  shows "portset_has (ro_ports (sy_rot s)) (ro_port (sy_rot s)) \<and>
    (ro_dual (sy_rot s) \<longrightarrow> ro_old (sy_rot s) \<noteq> None) \<and>
    (ro_pending (sy_rot s) \<longrightarrow>
       ro_port (sy_rot s) = ro_to (sy_rot s) \<and> ro_to (sy_rot s) \<noteq> ro_from (sy_rot s) \<and> portset_has (ro_ports (sy_rot s)) (ro_from (sy_rot s)) \<and>
       \<not> List.member (ro_bad (sy_rot s)) (ro_to (sy_rot s)) \<and> \<not> ro_won (sy_rot s)) \<and>
    (ro_due (sy_rot s) \<longrightarrow> rm_due (sy_main s)) \<and>
    (rm_due (sy_main s) \<and> \<not> ro_due (sy_rot s) \<longrightarrow> ro_changed (sy_rot s) \<or> ro_failed (sy_rot s))"
proof -
  have "sys_inv (rot_start ps c soft fd port rng sch)"
    using assms(1,2) by (simp add: sys_inv_def rot_inv_def sched_inv_def rot_start_def lag_ok_def)
  with assms(3) have "sys_inv s" by (induction rule: rtranclp_induct) (auto intro: rot_step_inv)
  then show ?thesis by (auto simp: sys_inv_def rot_inv_def sched_inv_def)
qed

theorem rot_reachable_safe_witness:
  "\<exists>s. rot_step\<^sup>*\<^sup>* (rot_start \<lparr>ps_r = [(443, 443), (20, 22)], ps_total = 4\<rparr> (rot_cfg_make 60 90 0 0) True 5 443 7
       \<lparr>rs_deadline = 15, rs_retry = 0, rs_bytes = 0, rs_vol = 0\<rparr>) s \<and>
     ro_reconnect (sy_rot s) \<and> portset_has (ro_ports (sy_rot s)) (ro_port (sy_rot s))"
proof -
  let ?s = "rot_start \<lparr>ps_r = [(443, 443), (20, 22)], ps_total = 4\<rparr> (rot_cfg_make 60 90 0 0) True 5 443 7
       \<lparr>rs_deadline = 15, rs_retry = 0, rs_bytes = 0, rs_vol = 0\<rparr>"
  let ?t = "?s\<lparr>sy_rot := fst (note_remote_send_err ENETDOWN (sy_rot ?s))\<rparr>"
  have w: "wf_portset \<lparr>ps_r = [(443, 443), (20, 22)], ps_total = 4\<rparr>" by (simp add: wf_portset_def range_size_def)
  have h: "portset_has \<lparr>ps_r = [(443, 443), (20, 22)], ps_total = 4\<rparr> 443" by (simp add: portset_has_def)
  have "rot_step\<^sup>*\<^sup>* ?s ?t" by (rule r_into_rtranclp) (rule rot_step.send_err)
  moreover have "ro_reconnect (sy_rot ?t)" by (simp add: note_remote_send_err_def send_err_is_fatal_def rot_refused_now_def rot_start_def)
  ultimately show ?thesis using rot_reachable_safe [OF w h, of "rot_cfg_make 60 90 0 0" True 5 7 _ ?t] by blast
qed

text \<open>
  C13. Every move ends: at the latest three seconds after it began, the main loop's next two looks
  at it, when nothing holds the lock, leave no move pending, no socket of an old port open and
  no copies doubled, so that the next move can start.  A port that did not answer by then is
  left for the one the move came from, and if it was refused or ran alone it is not drawn
  again soon; the sending thread's flag is down and the main loop is told of the failure.
\<close>

theorem rot_move_settles:
  assumes "rot_inv r" "ro_pending r" "3000 \<le> ms - ro_t0 r" "3000 \<le> ms' - ro_t0 r"
    and "rot_main_poll ms True conn r = (r1, c1)" "rot_main_poll ms' True conn' r1 = (r2, c2)"
  shows "\<not> ro_pending r2 \<and> ro_old r2 = None \<and> \<not> ro_dual r2 \<and> c1 = None \<and> c2 = ro_old r \<and>
    (ro_fd r \<noteq> None \<and> conn \<longrightarrow> ro_port r2 = ro_from r) \<and>
    (ro_refused r \<or> \<not> ro_dual r \<longrightarrow> List.member (ro_bad r2) (ro_to r)) \<and> \<not> ro_due r2 \<and> ro_failed r2"
proof -
  have late: "\<not> ms - ro_t0 r < 3000" "\<not> ms - ro_t0 r < 2000" "\<not> ms' - ro_t0 r < 3000"
    using assms(3,4) order.trans [of "2000 :: u64" 3000 "ms - ro_t0 r"] by (auto simp: not_less)
  then have 1: "r1 = rot_back conn r" "c1 = None" using assms(2,5) by (auto simp: rot_main_poll_def Let_def split: if_splits)
  have ans: "ro_ans r1 = 0" "ro_t0 r1 = ro_t0 r" "ro_old r1 = ro_old r" "\<not> ro_pending r1" "\<not> ro_dual r1" "\<not> ro_due r1" "ro_failed r1"
    using assms(1,2) by (simp_all add: 1 rot_back_def rot_inv_def Let_def)
  have 2: "r2 = (if ro_old r = None then r1 else r1\<lparr>ro_old := None, ro_dual := False\<rparr>)" "c2 = ro_old r"
    using assms(6) ans late(3) by (auto simp: rot_main_poll_def Let_def split: if_splits)
  have "length (ro_bad r) = 8" using assms(1) by (simp add: rot_inv_def)
  then have "ro_refused r \<or> \<not> ro_dual r \<Longrightarrow> List.member (ro_bad r1) (ro_to r)"
    by (auto simp: 1 rot_back_def Let_def set_update_memI)
  moreover have "ro_fd r \<noteq> None \<and> conn \<Longrightarrow> ro_port r1 = ro_from r" by (simp add: 1 rot_back_def Let_def)
  ultimately show ?thesis using 1 2 ans by auto
qed

text \<open>A move under way, with both ports in use.\<close>

definition moving :: rot where
  "moving = (sy_rot (rot_start \<lparr>ps_r = [(443, 443), (20, 22)], ps_total = 4\<rparr> (rot_cfg_make 60 90 0 0) True 5 443 7
       \<lparr>rs_deadline = 15, rs_retry = 0, rs_bytes = 0, rs_vol = 0\<rparr>))
     \<lparr>ro_port := 21, ro_pending := True, ro_old := Some 6, ro_dual := True, ro_from := 443, ro_to := 21, ro_t0 := 1000\<rparr>"

lemma moving_ok: "rot_inv moving" "dual_move moving"
  by (simp_all add: rot_inv_def dual_move_def moving_def rot_start_def wf_portset_def range_size_def portset_has_def lag_ok_def)

theorem rot_move_settles_witness:
  "\<exists>r1 c1 r2 c2. rot_main_poll 4000 True True moving = (r1, c1) \<and> rot_main_poll 5000 True True r1 = (r2, c2) \<and>
     \<not> ro_pending r2 \<and> ro_old r2 = None \<and> c2 = Some 6 \<and> ro_port r2 = 443"
proof -
  obtain r1 c1 where 1: "rot_main_poll 4000 True True moving = (r1, c1)" by (cases "rot_main_poll 4000 True True moving") auto
  obtain r2 c2 where 2: "rot_main_poll 5000 True True r1 = (r2, c2)" by (cases "rot_main_poll 5000 True True r1") auto
  have f: "ro_pending moving" "ro_t0 moving = 1000" "ro_old moving = Some 6" "ro_fd moving = Some 5" "ro_from moving = 443"
    by (simp_all add: moving_def rot_start_def)
  from rot_move_settles [OF moving_ok(1) f(1) _ _ 1 2] 1 2 f show ?thesis by simp
qed

text \<open>
  C12. A failed move loses nothing: while a move is undecided and the queue has room, whatever the
  new port does to the packets (sends that fail or are refused included), every datagram of a
  batch but the opening junk is copied for the old port, in order and without repetition; and
  when the move is then undone, the next service hands all copies still waiting to the old
  port, so the old port has been given every one of them.
\<close>

theorem failed_move_loses_nothing:
  assumes "dual_move (re_rot x)" "en_got v" "list_all (\<lambda>b. length b \<le> ROT_LAG_PKT) (concat (map act_copies as))"
    and "lq_n (ro_lag (re_rot x)) + length (concat (map act_copies as)) \<le> ROT_LAG_N"
    and "y = fold (perform v) as x" "z = y\<lparr>re_rot := rot_back conn (re_rot y)\<rparr>"
  shows "old_view y = old_view x @ concat (map act_copies as) \<and>
    re_old (serve_lag v z) = old_view x @ concat (map act_copies as) \<and> lag_items (ro_lag (re_rot (serve_lag v z))) = []"
proof -
  have add: "adds_copies (concat (map act_copies as)) x y" unfolding assms(5) by (rule fold_perform_adds [OF assms(1,3,4,2)])
  have d: "dual_move (re_rot y)" by (rule adds_copies_move [OF add assms(1)])
  let ?r = "rot_back conn (re_rot y)"
  have r: "ro_old ?r \<noteq> None" "\<not> ro_dual ?r" "\<not> ro_won ?r" "ro_lag ?r = ro_lag (re_rot y)" "lag_ok (ro_lag (re_rot y))"
    using d by (simp_all add: rot_back_def dual_move_def Let_def)
  obtain q bs w where s: "rot_lag_service (en_mmsg v) (ro_old ?r \<noteq> None) (ro_dual ?r) (ro_won ?r) (en_us v) (ro_lag (re_rot y)) = (q, bs, w)"
    by (cases "rot_lag_service (en_mmsg v) (ro_old ?r \<noteq> None) (ro_dual ?r) (ro_won ?r) (en_us v) (ro_lag (re_rot y))") auto
  note S = rot_lag_service_spec(3,4) [OF r(5) s]
  have "serve_lag v z = z\<lparr>re_rot := ?r\<lparr>ro_lag := q\<rparr>, re_old := re_old y @ concat bs\<rparr>"
    using s r(4) by (simp add: serve_lag_def assms(6) Let_def)
  then show ?thesis using add S r by (simp add: adds_copies_def old_view_def)
qed

theorem failed_move_loses_nothing_witness:
  "re_old (serve_lag \<lparr>en_k = old_kernel, en_send = \<lambda>b. Some ECONNREFUSED, en_got = True, en_copied = False, en_mmsg = \<lambda>ms. int (length ms), en_ms = 1, en_us = 2\<rparr>
     (let y = fold (perform \<lparr>en_k = old_kernel, en_send = \<lambda>b. Some ECONNREFUSED, en_got = True, en_copied = False, en_mmsg = \<lambda>ms. int (length ms), en_ms = 1, en_us = 2\<rparr>)
         [Flush [[1], [2, 3]], Train [[9]], Single [4]]
         \<lparr>re_rot = moving, re_gso = \<lparr>gs_ok = True, gs_msgs = 0, gs_segs = 0, gs_log = []\<rparr>, re_tx = 0, re_drop = 0,
          re_stash = \<lparr>sh_sent = False, sh_pkt = [], sh_ms = 0\<rparr>, re_old = []\<rparr>
      in y\<lparr>re_rot := rot_back True (re_rot y)\<rparr>)) = [[1], [2, 3], [4]]"
proof -
  let ?v = "\<lparr>en_k = old_kernel, en_send = \<lambda>b. Some ECONNREFUSED, en_got = True, en_copied = False, en_mmsg = \<lambda>ms. int (length ms), en_ms = 1, en_us = 2\<rparr>"
  let ?x = "\<lparr>re_rot = moving, re_gso = \<lparr>gs_ok = True, gs_msgs = 0, gs_segs = 0, gs_log = []\<rparr>, re_tx = 0, re_drop = 0,
          re_stash = \<lparr>sh_sent = False, sh_pkt = [], sh_ms = 0\<rparr>, re_old = []\<rparr>"
  let ?as = "[Flush [[1], [2, 3]], Train [[9]], Single [4]]"
  have "lq_n (ro_lag moving) = 0" "lag_items (ro_lag moving) = []"
    by (simp_all add: moving_def rot_start_def lag_items_def)
  with failed_move_loses_nothing [of ?x ?v ?as _ _ True, OF _ _ _ _ refl refl] moving_ok(2)
  show ?thesis unfolding Let_def by (simp add: old_view_def del: fold_simps perform.simps)
qed

end
