(* ===== verification/Dial.thy ===== *)
theory Dial
  imports Rotation Logging
begin

text \<open>
  Reaching the server, from \<^verbatim>\<open>src/src/proxy.c\<close>: resolving its name into one address per family,
  opening the sockets, the order in which the families are dialled, the state file that
  remembers the family and the endpoint of Cloudflare WARP, and the probe that lets the two
  families race (Happy Eyeballs).  The theorems give the choice among the records of a name, the
  sockets a dial leaves open, the round trip through the state file up to the address the next run
  connects to, the wear on the flash and the pace of the probe.
\<close>

section \<open>Resolving\<close>

text \<open>
  The address functions of the C library and the resolver are parameters: \<open>nt_gai\<close> is
  \<open>getaddrinfo\<close>, \<open>None\<close> when it fails.  A record carries its address and \<open>ai_addrlen\<close>.
\<close>

record addrinfo =
  ai_addr :: cliaddr
  ai_addrlen :: nat

record net =
  nt_pton4 :: "bytes \<Rightarrow> u32 option"
  nt_pton6 :: "bytes \<Rightarrow> bytes option"
  nt_ntop4 :: "u32 \<Rightarrow> bytes"
  nt_ntop6 :: "bytes \<Rightarrow> bytes"
  nt_gai :: "bytes \<Rightarrow> addrinfo list option"

definition sa_v6 :: "cliaddr \<Rightarrow> bool" where
  "sa_v6 a = (case a of V6 _ _ _ \<Rightarrow> True | V4 _ _ \<Rightarrow> False)"

text \<open>A zeroed \<open>sockaddr_storage\<close> (\<open>len == 0\<close>) is \<open>None\<close>; its family prints as a question mark.\<close>

definition sa_str :: "net \<Rightarrow> cliaddr option \<Rightarrow> bytes" where
  "sa_str nt a = (case a of Some (V6 x _ _) \<Rightarrow> nt_ntop6 nt x | Some (V4 x _) \<Rightarrow> nt_ntop4 nt x | None \<Rightarrow> [0x3F])"

definition rec_usable :: "bool \<Rightarrow> addrinfo \<Rightarrow> bool" where
  "rec_usable fam ai \<longleftrightarrow> \<not> (sa_v6 (ai_addr ai) \<noteq> fam \<or> ai_addrlen ai > 128)"

text \<open>The loop of \<open>pick_rec\<close> with its three cursors: the first usable record, the one in use, the one after it.\<close>

fun pick_loop :: "bool \<Rightarrow> cliaddr option \<Rightarrow> addrinfo list \<Rightarrow> cliaddr option \<times> cliaddr option \<times> cliaddr option \<Rightarrow>
    cliaddr option \<times> cliaddr option \<times> cliaddr option" where
  "pick_loop fam cur [] s = s"
| "pick_loop fam cur (ai # ais) (first, hit, after) =
     (if \<not> rec_usable fam ai then pick_loop fam cur ais (first, hit, after)
      else let first = (if first = None then Some (ai_addr ai) else first);
               after = (if hit \<noteq> None \<and> after = None then Some (ai_addr ai) else after);
               hit = (if hit = None \<and> (case cur of None \<Rightarrow> False | Some c \<Rightarrow> sa_addr_eq (ai_addr ai) c)
                      then Some (ai_addr ai) else hit)
           in pick_loop fam cur ais (first, hit, after))"

definition pick_rec :: "addrinfo list \<Rightarrow> bool \<Rightarrow> cliaddr option \<Rightarrow> bool \<Rightarrow> cliaddr option" where
  "pick_rec ais fam cur nxt =
     (let (first, hit, after) = pick_loop fam cur ais (None, None, None)
      in if hit = None then first else if \<not> nxt then hit else if after \<noteq> None then after else first)"

definition resolve_addr :: "net \<Rightarrow> bytes \<Rightarrow> u16 \<Rightarrow> cliaddr option \<Rightarrow> bool \<Rightarrow> (cliaddr option \<times> cliaddr option) option" where
  "resolve_addr nt host port cur nxt =
     (case nt_pton4 nt host of
        Some a \<Rightarrow> Some (Some (V4 a (htons port)), None)
      | None \<Rightarrow>
     (case nt_pton6 nt host of
        Some a \<Rightarrow> Some (None, Some (V6 a (htons port) 0))
      | None \<Rightarrow>
     (case nt_gai nt host of
        None \<Rightarrow> None
      | Some res \<Rightarrow>
          let v4 = map_option (\<lambda>a. sa_set_port a port) (pick_rec res False cur nxt);
              v6 = map_option (\<lambda>a. sa_set_port a port) (pick_rec res True cur nxt)
          in if v4 = None \<and> v6 = None then None else Some (v4, v6))))"

definition resolve_addr_check :: "net \<Rightarrow> bytes \<Rightarrow> cliaddr \<Rightarrow> int" where
  "resolve_addr_check nt host cur =
     (case nt_gai nt host of
        None \<Rightarrow> -1
      | Some res \<Rightarrow> if list_ex (\<lambda>ai. sa_addr_eq (ai_addr ai) cur) res then 0 else 1)"

section \<open>The state file\<close>

text \<open>
  The file is its path and its contents; \<open>dk_writes\<close> counts the times it was opened for writing
  and so truncated.  The outcome of a write is \<open>None\<close> when the file cannot be opened, else the
  number of bytes that reached it.
\<close>

record disk =
  dk_path :: bytes
  dk_file :: "bytes option"
  dk_writes :: nat

definition STATE_EP_MAX :: nat where "STATE_EP_MAX = 64"

definition state_read_raw :: "disk \<Rightarrow> nat \<Rightarrow> bytes" where
  "state_read_raw k m = (if dk_path k = [] then [] else case dk_file k of None \<Rightarrow> [] | Some f \<Rightarrow> take m f)"

definition state_read_prefer6 :: "disk \<Rightarrow> bool" where
  "state_read_prefer6 k = (state_read_raw k 1 = [0x36])"

definition state_read_ep :: "disk \<Rightarrow> nat \<Rightarrow> bytes" where
  "state_read_ep k m =
     (let b = state_read_raw k (STATE_EP_MAX + 2)
      in if length b > 2 \<and> b ! 1 = 10 then take (m - 1) (takeWhile (\<lambda>c. c \<noteq> 10) (drop 2 b)) else [])"

definition state_bytes :: "bool \<Rightarrow> bytes \<Rightarrow> bytes" where
  "state_bytes prefer6 ep =
     [if prefer6 then 0x36 else 0x34] @ (if ep = [] then [] else [10] @ take (STATE_EP_MAX - 1) ep @ [10])"

definition state_write :: "nat option \<Rightarrow> bool \<Rightarrow> bytes \<Rightarrow> disk \<Rightarrow> disk \<times> bool" where
  "state_write wo prefer6 ep k =
     (if dk_path k = [] then (k, False)
      else case wo of
             None \<Rightarrow> (k, False)
           | Some w \<Rightarrow> let b = state_bytes prefer6 ep
                      in (k\<lparr>dk_file := Some (take w b), dk_writes := dk_writes k + 1\<rparr>, length b \<le> w))"

section \<open>The sockets\<close>

text \<open>
  What the kernel answers to one dial: a descriptor for a family that is not among the open
  ones, whether \<open>bind\<close> and \<open>connect\<close> succeed, whether the forced buffer sizes are accepted.
\<close>

record os =
  os_socket :: "nat list \<Rightarrow> bool \<Rightarrow> nat option"
  os_bind :: "bool \<Rightarrow> bool"
  os_connect :: "cliaddr \<Rightarrow> bool"
  os_force_rcv :: bool
  os_force_snd :: bool

record sock =
  sk_fd :: nat
  sk_v6only :: bool
  sk_reuse :: bool
  sk_local :: int
  sk_peer :: cliaddr
  sk_rcv :: int
  sk_snd :: int
  sk_forced :: bool
  sk_busy :: int
  sk_df_off :: bool

text \<open>The state a dial reads and writes; \<open>di_open\<close> holds the descriptors that are open.\<close>

record dial =
  di_host :: bytes
  di_ports :: portset
  di_port :: u16
  di_rng :: fastrand
  di_local :: int
  di_rot_on :: bool
  di_rb :: int
  di_sndbuf :: int
  di_busy :: int
  di_no_df :: bool
  di_keep :: bool
  di_dead :: bool
  di_reset :: bool
  di_prefer6 :: bool
  di_written :: bool
  di_disk6 :: bool
  di_disk :: disk
  di_ep :: bytes
  di_saved :: u64
  di_remote :: "cliaddr option"
  di_alt :: "cliaddr option"
  di_v6 :: bool
  di_fd :: "nat option"
  di_fd2 :: "nat option"
  di_stash :: stash
  di_open :: "nat list"

definition set_socket_buffers :: "os \<Rightarrow> int \<Rightarrow> int \<Rightarrow> sock \<Rightarrow> sock" where
  "set_socket_buffers os rcvb sndb s = s\<lparr>sk_rcv := rcvb, sk_snd := sndb, sk_forced := os_force_rcv os\<rparr>"

text \<open>Open and connect one socket: the descriptors open afterwards, and the socket.\<close>

definition dial_one :: "os \<Rightarrow> dial \<Rightarrow> cliaddr \<Rightarrow> nat list \<Rightarrow> nat list \<times> sock option" where
  "dial_one os d a opn =
     (case os_socket os opn (sa_v6 a) of
        None \<Rightarrow> (opn, None)
      | Some fd \<Rightarrow>
          let s = \<lparr>sk_fd = fd, sk_v6only = sa_v6 a, sk_reuse = (di_local d > 0 \<or> di_rot_on d),
                   sk_local = (if di_local d > 0 then di_local d else 0), sk_peer = a,
                   sk_rcv = 0, sk_snd = 0, sk_forced = False, sk_busy = 0, sk_df_off = False\<rparr>
          in if di_local d > 0 \<and> \<not> os_bind os (sa_v6 a) \<or> \<not> os_connect os a then (removeAll fd (fd # opn), None)
             else (fd # opn,
                   Some ((set_socket_buffers os (di_rb d) (di_sndbuf d) s)\<lparr>sk_busy := di_busy d, sk_df_off := di_no_df d\<rparr>)))"

section \<open>The order of the families\<close>

definition he_learn :: "nat option \<Rightarrow> bool \<Rightarrow> dial \<Rightarrow> dial" where
  "he_learn wo prefer6 d =
     (if prefer6 = di_prefer6 d then d
      else let d = d\<lparr>di_prefer6 := prefer6\<rparr>
           in if di_written d then d
              else let (k, ok) = state_write wo prefer6 (di_ep d) (di_disk d);
                       d = d\<lparr>di_written := True, di_disk := k\<rparr>
                   in if ok then d\<lparr>di_disk6 := prefer6\<rparr> else d)"

definition dial_order :: "bool \<Rightarrow> cliaddr option \<Rightarrow> cliaddr option \<Rightarrow> cliaddr option \<times> cliaddr option" where
  "dial_order prefer6 v4 v6 =
     (if prefer6 \<and> v6 \<noteq> None then (v6, v4) else if v4 \<noteq> None then (v4, v6) else (v6, None))"

text \<open>The primary socket is connected: forget the last probe and open the socket of the next one.\<close>

definition dial_settle :: "os \<Rightarrow> cliaddr \<Rightarrow> cliaddr option \<Rightarrow> dial \<Rightarrow> dial" where
  "dial_settle os primary alt d =
     (let d = d\<lparr>di_remote := Some primary, di_v6 := sa_v6 primary,
                di_stash := (di_stash d)\<lparr>sh_sent := False, sh_pkt := []\<rparr>, di_alt := None, di_fd2 := None\<rparr>
      in case alt of
           None \<Rightarrow> d
         | Some a \<Rightarrow>
             (case dial_one os d a (di_open d) of
                (opn, Some s) \<Rightarrow> d\<lparr>di_alt := Some a, di_fd2 := Some (sk_fd s), di_open := opn\<rparr>
              | (opn, None) \<Rightarrow> d\<lparr>di_open := opn\<rparr>))"

definition dial_pair :: "os \<Rightarrow> nat option \<Rightarrow> cliaddr \<Rightarrow> cliaddr option \<Rightarrow> dial \<Rightarrow> dial \<times> nat option" where
  "dial_pair os wo primary alt d =
     (case dial_one os d primary (di_open d) of
        (opn, Some s) \<Rightarrow> (dial_settle os primary alt (d\<lparr>di_open := opn\<rparr>), Some (sk_fd s))
      | (opn, None) \<Rightarrow>
          (case alt of
             None \<Rightarrow> (d\<lparr>di_open := opn\<rparr>, None)
           | Some a \<Rightarrow>
               (case dial_one os d a opn of
                  (opn, None) \<Rightarrow> (d\<lparr>di_open := opn\<rparr>, None)
                | (opn, Some s) \<Rightarrow>
                    (dial_settle os a None (he_learn wo (sa_v6 a) (d\<lparr>di_open := opn\<rparr>)), Some (sk_fd s)))))"

text \<open>The port: a fresh draw, unless the one in use is kept and did not go silent.\<close>

definition dial_draw :: "dial \<Rightarrow> dial option" where
  "dial_draw d =
     (let d = d\<lparr>di_keep := (di_keep d \<and> \<not> di_dead d), di_dead := False\<rparr>
      in if di_keep d then Some d
         else do { (port, rng) \<leftarrow> portset_pick (di_ports d) (di_rng d) (di_port d);
                   Some (d\<lparr>di_port := port, di_rng := rng\<rparr>) })"

definition dial_resolved :: "os \<Rightarrow> nat option \<Rightarrow> cliaddr option \<Rightarrow> cliaddr option \<Rightarrow> dial \<Rightarrow> (dial \<times> nat option) option" where
  "dial_resolved os wo v4 v6 d =
     (let d = (if di_reset d then d\<lparr>di_reset := False, di_prefer6 := False\<rparr> else d)
      in case dial_order (di_prefer6 d) v4 v6 of
           (None, _) \<Rightarrow> None
         | (Some primary, alt) \<Rightarrow> Some (dial_pair os wo primary alt d))"

definition dial_remote :: "net \<Rightarrow> os \<Rightarrow> nat option \<Rightarrow> dial \<Rightarrow> (dial \<times> nat option) option" where
  "dial_remote nt os wo d =
     do { d1 \<leftarrow> dial_draw d;
          case resolve_addr nt (di_host d1) (di_port d1) (di_remote d1) (di_dead d) of
            None \<Rightarrow> Some (d1, None)
          | Some (v4, v6) \<Rightarrow> dial_resolved os wo v4 v6 d1 }"

text \<open>A reconnect closes what the last connection left open before it dials.\<close>

definition close_fd :: "nat option \<Rightarrow> nat list \<Rightarrow> nat list" where
  "close_fd fd opn = (case fd of None \<Rightarrow> opn | Some n \<Rightarrow> removeAll n opn)"

definition dial_again :: "net \<Rightarrow> os \<Rightarrow> nat option \<Rightarrow> dial \<Rightarrow> (dial \<times> nat option) option" where
  "dial_again nt os wo d =
     do { (d, fd) \<leftarrow> dial_remote nt os wo
            (d\<lparr>di_fd := None, di_fd2 := None, di_open := close_fd (di_fd2 d) (close_fd (di_fd d) (di_open d))\<rparr>);
          Some (if fd = None then d else d\<lparr>di_fd := fd\<rparr>, fd) }"

section \<open>Cloudflare WARP\<close>

definition ep_str :: "net \<Rightarrow> dial \<Rightarrow> bytes" where
  "ep_str nt d = u32_to_str (ucast (di_port d)) @ [0x20] @ sa_str nt (di_remote d)"

definition warp_keep :: "net \<Rightarrow> nat option \<Rightarrow> u64 \<Rightarrow> dial \<Rightarrow> dial" where
  "warp_keep nt wo now d =
     (let d = d\<lparr>di_keep := True\<rparr>; ep = ep_str nt d
      in if ep = di_ep d then d
         else if di_saved d \<noteq> 0 \<and> now - di_saved d < 3600000 then d
         else d\<lparr>di_saved := now OR 1, di_ep := ep, di_disk := fst (state_write wo (di_disk6 d) ep (di_disk d))\<rparr>)"

fun port_scan :: "u32 \<Rightarrow> bytes \<Rightarrow> u32 \<times> bytes" where
  "port_scan port [] = (port, [])"
| "port_scan port (c # s) =
     (if 0x30 \<le> c \<and> c \<le> 0x39 \<and> port \<le> 65535 then port_scan (port * 10 + (ucast c - 0x30)) s else (port, c # s))"

definition warp_restore :: "net \<Rightarrow> dial \<Rightarrow> dial" where
  "warp_restore nt d =
     (let ep = state_read_ep (di_disk d) STATE_EP_MAX; (port, s) = port_scan 0 ep
      in if s = [] \<or> hd s \<noteq> 0x20 \<or> port = 0 \<or> port > 65535 \<or> \<not> portset_has (di_ports d) (ucast port) then d
         else let addr = (case nt_pton4 nt (tl s) of
                            Some a \<Rightarrow> Some (V4 a 0)
                          | None \<Rightarrow> map_option (\<lambda>a. V6 a 0 0) (nt_pton6 nt (tl s)))
              in if addr = None then d
                 else d\<lparr>di_remote := addr, di_port := ucast port, di_keep := True, di_ep := ep\<rparr>)"

section \<open>Two families at once\<close>

text \<open>Settle on one socket and close the other.\<close>

definition he_finish :: "nat option \<Rightarrow> bool \<Rightarrow> bool \<Rightarrow> dial \<Rightarrow> dial" where
  "he_finish wo use_alt learn d =
     (case di_fd2 d of
        None \<Rightarrow> d
      | Some fd2 \<Rightarrow>
          let d = d\<lparr>di_fd2 := None\<rparr>;
              d = (if use_alt
                   then d\<lparr>di_remote := di_alt d, di_v6 := (case di_alt d of None \<Rightarrow> False | Some a \<Rightarrow> sa_v6 a),
                          di_fd := Some fd2, di_open := close_fd (di_fd d) (di_open d)\<rparr>
                   else d\<lparr>di_open := removeAll fd2 (di_open d)\<rparr>);
              d = d\<lparr>di_alt := None\<rparr>
          in if learn then he_learn wo (case di_remote d of None \<Rightarrow> False | Some a \<Rightarrow> sa_v6 a) d else d)"

text \<open>
  The probe's own variables, and what one turn of its loop meets: whether it is told to stop, the
  clock and the stash before and after the wait, and what \<open>poll\<close> reports for the time it is
  given.  The third event word is that of the event descriptor, ignored where it is not polled.
\<close>

record probe =
  pb_start :: u64
  pb_every :: int
  pb_last :: u64
  pb_replayed :: bool

datatype polled = Poll_error errno | Poll_events u16 u16 u16

record turn =
  tu_stop :: bool
  tu_now :: u64
  tu_stash :: stash
  tu_poll :: "int \<Rightarrow> polled"
  tu_now2 :: u64
  tu_stash2 :: stash

definition HE_PROBE_MAX_MS :: u64 where "HE_PROBE_MAX_MS = 15000"

definition HE_PROBE_SLOW_MS :: int where "HE_PROBE_SLOW_MS = 5000"

definition he_first :: "int \<Rightarrow> int" where
  "he_first delay = (if delay > 0 then delay else 0)"

definition he_every :: "int \<Rightarrow> int" where
  "he_every delay = (if delay > 0 then delay else 250)"

text \<open>The time since the packet to repeat was last sent, as the signed 64-bit value the code compares.\<close>

definition he_since :: "probe \<Rightarrow> u64 \<Rightarrow> stash \<Rightarrow> int" where
  "he_since pb now h = sint (if pb_replayed pb then now - pb_last pb else now - sh_ms h)"

definition he_due :: "int \<Rightarrow> probe \<Rightarrow> int" where
  "he_due first pb = (if pb_replayed pb then pb_every pb else first)"

definition he_wait :: "int \<Rightarrow> bool \<Rightarrow> turn \<Rightarrow> probe \<Rightarrow> int" where
  "he_wait first ev t pb =
     (let w = (if ev then 1000 else pb_every pb);
          w = (if sh_sent (tu_stash t)
               then let left = he_due first pb - he_since pb (tu_now t) (tu_stash t)
                    in if left < w then (if left > 0 then left else 0) else w
               else w);
          rest = uint HE_PROBE_MAX_MS - sint (tu_now t - pb_start pb)
      in if rest < w then (if rest > 0 then rest else 0) else w)"

definition POLLIN :: u16 where "POLLIN = 1"

text \<open>Whether \<open>poll\<close> saw a socket: the event descriptor is drained and does not count.\<close>

definition he_heard :: "bool \<Rightarrow> u16 \<Rightarrow> u16 \<Rightarrow> u16 \<Rightarrow> bool" where
  "he_heard ev r0 r1 r2 =
     (let r2 = (if ev then r2 else 0);
          r = of_bool (r0 \<noteq> 0) + of_bool (r1 \<noteq> 0) + of_bool (r2 \<noteq> 0) :: int;
          r = (if r > 0 \<and> r2 \<noteq> 0 then r - 1 else r)
      in r > 0)"

definition he_verdict :: "u16 \<Rightarrow> u16 \<Rightarrow> bool" where
  "he_verdict r0 r1 = (if r0 AND POLLIN \<noteq> 0 then False else if r1 AND POLLIN \<noteq> 0 then True else r0 \<noteq> 0)"

text \<open>One turn: the loop ends with the arguments of \<open>he_finish\<close>, or goes on, having replayed a packet or not.\<close>

datatype outcome = Ended bool bool | Again probe "bytes option"

definition he_turn :: "int \<Rightarrow> bool \<Rightarrow> turn \<Rightarrow> probe \<Rightarrow> outcome" where
  "he_turn first ev t pb =
     (if tu_stop t then Ended False False
      else if tu_now t - pb_start pb \<ge> HE_PROBE_MAX_MS then
        (if \<not> sh_sent (tu_stash t) then Ended False False
         else Again (pb\<lparr>pb_start := tu_now t,
                        pb_every := (if pb_every pb < HE_PROBE_SLOW_MS
                                     then (if pb_every pb * 2 > HE_PROBE_SLOW_MS then HE_PROBE_SLOW_MS else pb_every pb * 2)
                                     else pb_every pb)\<rparr>) None)
      else case tu_poll t (he_wait first ev t pb) of
             Poll_error e \<Rightarrow> if e = EINTR then Again pb None else Ended False False
           | Poll_events r0 r1 r2 \<Rightarrow>
               if he_heard ev r0 r1 r2 then Ended (he_verdict r0 r1) True
               else if sh_sent (tu_stash2 t) \<and> sh_pkt (tu_stash2 t) \<noteq> [] \<and>
                       he_since pb (tu_now2 t) (tu_stash2 t) \<ge> he_due first pb
                    then Again (pb\<lparr>pb_last := tu_now2 t, pb_replayed := True\<rparr>) (Some (sh_pkt (tu_stash2 t)))
                    else Again pb None)"

text \<open>The loop over the turns given; the first component is the verdict, \<open>None\<close> while it runs on.\<close>

fun he_loop :: "int \<Rightarrow> bool \<Rightarrow> turn list \<Rightarrow> probe \<Rightarrow> (bool \<times> bool) option \<times> (u64 \<times> bytes) list" where
  "he_loop first ev [] pb = (None, [])"
| "he_loop first ev (t # ts) pb =
     (case he_turn first ev t pb of
        Ended use_alt learn \<Rightarrow> (Some (use_alt, learn), [])
      | Again pb' s \<Rightarrow>
          let (r, out) = he_loop first ev ts pb'
          in (r, (case s of None \<Rightarrow> [] | Some b \<Rightarrow> [(tu_now2 t, b)]) @ out))"

definition he_start :: "int \<Rightarrow> u64 \<Rightarrow> probe" where
  "he_start delay now = \<lparr>pb_start = now, pb_every = he_every delay, pb_last = 0, pb_replayed = False\<rparr>"

definition he_probe :: "nat option \<Rightarrow> int \<Rightarrow> bool \<Rightarrow> u64 \<Rightarrow> turn list \<Rightarrow> dial \<Rightarrow> dial option \<times> (u64 \<times> bytes) list" where
  "he_probe wo delay ev now ts d =
     (if di_fd d = None \<or> di_fd2 d = None then (Some d, [])
      else let (r, out) = he_loop (he_first delay) ev ts (he_start delay now)
           in (map_option (\<lambda>(use_alt, learn). he_finish wo use_alt learn d) r, out))"

section \<open>The choice among the records\<close>

definition head_opt :: "'a list \<Rightarrow> 'a option" where
  "head_opt xs = (case xs of [] \<Rightarrow> None | x # _ \<Rightarrow> Some x)"

lemma head_opt_simps [simp]: "head_opt [] = None" "head_opt (x # xs) = Some x"
  by (simp_all add: head_opt_def)

lemma head_opt_hd: "head_opt xs = (if xs = [] then None else Some (hd xs))"
  by (cases xs) simp_all

definition in_use :: "cliaddr option \<Rightarrow> cliaddr \<Rightarrow> bool" where
  "in_use cur a = (case cur of None \<Rightarrow> False | Some c \<Rightarrow> sa_addr_eq a c)"

definition usable :: "bool \<Rightarrow> addrinfo list \<Rightarrow> cliaddr list" where
  "usable fam ais = map ai_addr (filter (rec_usable fam) ais)"

lemma usable_simps [simp]:
  "usable fam [] = []" "usable fam (ai # ais) = (if rec_usable fam ai then ai_addr ai # usable fam ais else usable fam ais)"
  by (simp_all add: usable_def)

lemma pick_loop_hit:
  "pick_loop fam cur ais (f, Some h, a) =
     ((if f = None then head_opt (usable fam ais) else f), Some h, (if a = None then head_opt (usable fam ais) else a))"
  by (induction ais arbitrary: f a) (auto simp: Let_def)

lemma pick_loop_miss:
  "pick_loop fam cur ais (f, None, None) =
     ((if f = None then head_opt (usable fam ais) else f),
      (case dropWhile (\<lambda>a. \<not> in_use cur a) (usable fam ais) of
         [] \<Rightarrow> (None, None) | x # xs \<Rightarrow> (Some x, head_opt xs)))"
  by (induction ais arbitrary: f) (auto simp: pick_loop_hit in_use_def [symmetric] Let_def)

lemma pick_rec_eq:
  "pick_rec ais fam cur nxt =
     (case dropWhile (\<lambda>a. \<not> in_use cur a) (usable fam ais) of
        [] \<Rightarrow> head_opt (usable fam ais)
      | x # xs \<Rightarrow> if \<not> nxt then Some x else if xs = [] then head_opt (usable fam ais) else Some (hd xs))"
  unfolding pick_rec_def pick_loop_miss
  by (cases "dropWhile (\<lambda>a. \<not> in_use cur a) (usable fam ais)") (simp_all only: list.case prod.case head_opt_hd Let_def, simp_all)

lemma pick_rec_at:
  assumes "i < length (usable fam ais)" "in_use cur (usable fam ais ! i)" "\<forall>j < i. \<not> in_use cur (usable fam ais ! j)"
  shows "pick_rec ais fam cur False = Some (usable fam ais ! i)"
    and "pick_rec ais fam cur True = Some (usable fam ais ! (Suc i mod length (usable fam ais)))"
proof -
  let ?L = "usable fam ais"
  have l: "?L = take i ?L @ ?L ! i # drop (Suc i) ?L" using assms(1) by (simp add: id_take_nth_drop)
  have "\<forall>a \<in> set (take i ?L). \<not> in_use cur a" using assms(1,3) by (auto simp: in_set_conv_nth)
  then have d: "dropWhile (\<lambda>a. \<not> in_use cur a) ?L = ?L ! i # drop (Suc i) ?L"
    using assms(2) by (subst l) (simp add: dropWhile_append)
  then show "pick_rec ais fam cur False = Some (?L ! i)" by (simp add: pick_rec_eq)
  show "pick_rec ais fam cur True = Some (?L ! (Suc i mod length ?L))"
  proof (cases "Suc i < length ?L")
    case True
    then show ?thesis using d by (simp add: pick_rec_eq hd_drop_conv_nth)
  next
    case False
    then have n: "length ?L = Suc i" using assms(1) by simp
    then have "?L \<noteq> []" by auto
    then show ?thesis using d n by (cases ?L) (simp_all add: pick_rec_eq)
  qed
qed

lemma sa_addr_eq_port: "sa_addr_eq a (sa_set_port b port) = sa_addr_eq a b"
  by (simp add: sa_addr_eq_def sa_set_port_def split: cliaddr.splits)

lemma sa_addr_eq_refl: "sa_addr_eq a a"
  by (simp add: sa_addr_eq_def split: cliaddr.splits)

lemma sa_addr_eq_trans: "sa_addr_eq a b \<Longrightarrow> sa_addr_eq c b \<Longrightarrow> sa_addr_eq a c" "sa_addr_eq a b \<Longrightarrow> sa_addr_eq b c \<Longrightarrow> sa_addr_eq a c"
  by (cases a; cases b; cases c; simp add: sa_addr_eq_def)+

lemma pick_rec_stays:
  assumes "x \<in> set (usable fam ais)" "sa_addr_eq x c"
  shows "\<exists>y. pick_rec ais fam (Some c) False = Some y \<and> sa_addr_eq y c"
proof -
  obtain y ys where y: "dropWhile (\<lambda>z. \<not> in_use (Some c) z) (usable fam ais) = y # ys"
    using assms by (cases "dropWhile (\<lambda>z. \<not> in_use (Some c) z) (usable fam ais)") (auto simp: in_use_def)
  then have "in_use (Some c) y" using hd_dropWhile [of "\<lambda>z. \<not> in_use (Some c) z" "usable fam ais"] by simp
  then show ?thesis using y by (simp add: pick_rec_eq in_use_def)
qed

text \<open>The endpoint a silent server hands over to.\<close>

definition hand_over :: "addrinfo list \<Rightarrow> bool \<Rightarrow> u16 \<Rightarrow> cliaddr option \<Rightarrow> cliaddr option" where
  "hand_over ais fam port cur = map_option (\<lambda>a. sa_set_port a port) (pick_rec ais fam cur True)"

text \<open>
  C29. The servers behind one name.  While the server in use is listed it stays; each time it goes
  silent the next record of the list takes over, round the list, so after as many silences as
  there are records every server has had its turn and the first is back.
\<close>

theorem pick_rec_rounds:
  assumes "L = usable fam ais" "\<forall>i j. i < j \<and> j < length L \<longrightarrow> \<not> sa_addr_eq (L ! i) (L ! j)" "i < length L"
  shows "(hand_over ais fam port ^^ k) (Some (sa_set_port (L ! i) port)) = Some (sa_set_port (L ! ((i + k) mod length L)) port) \<and>
    pick_rec ais fam (Some (sa_set_port (L ! i) port)) False = Some (L ! i)"
proof -
  have at: "in_use (Some (sa_set_port (L ! j) port)) (L ! j)" "\<forall>m < j. \<not> in_use (Some (sa_set_port (L ! j) port)) (L ! m)"
    if "j < length L" for j
    using assms(2) that by (auto simp: in_use_def sa_addr_eq_port sa_addr_eq_refl)
  have step: "hand_over ais fam port (Some (sa_set_port (L ! j) port)) = Some (sa_set_port (L ! (Suc j mod length L)) port)"
    if "j < length L" for j
    using pick_rec_at(2) at [OF that] that unfolding hand_over_def assms(1) by simp
  have "(hand_over ais fam port ^^ k) (Some (sa_set_port (L ! i) port)) = Some (sa_set_port (L ! ((i + k) mod length L)) port)"
  proof (induction k)
    case (Suc k)
    have "(i + k) mod length L < length L" using assms(3) by (intro mod_less_divisor) auto
    then show ?case using Suc step by (simp add: mod_Suc_eq)
  qed (use assms(3) in simp)
  then show ?thesis using pick_rec_at(1) at [OF assms(3)] assms(3) unfolding assms(1) by simp
qed

definition example_records :: "addrinfo list" where
  "example_records = map (\<lambda>a. \<lparr>ai_addr = a, ai_addrlen = cliaddr_len a\<rparr>)
     [V4 0x01010101 0, V6 (replicate 16 7) 0 0, V4 0x02020202 0, V4 0x03030303 0]"

theorem pick_rec_rounds_witness:
  "(hand_over example_records False 443 ^^ 4) (Some (sa_set_port (V4 0x02020202 0) 443)) = Some (sa_set_port (V4 0x03030303 0) 443) \<and>
   pick_rec example_records False (Some (sa_set_port (V4 0x02020202 0) 443)) False = Some (V4 0x02020202 0)"
proof -
  let ?L = "[V4 0x01010101 0, V4 0x02020202 0, V4 0x03030303 0]"
  have l: "?L = usable False example_records"
    by (simp add: example_records_def rec_usable_def sa_v6_def cliaddr_len_def)
  have "\<not> sa_addr_eq (?L ! i) (?L ! j)" if "i < j" "j < 3" for i j
  proof -
    have "i = 0 \<and> j = 1 \<or> i = 0 \<and> j = 2 \<or> i = 1 \<and> j = 2" using that by linarith
    then show ?thesis by (elim disjE) (simp_all add: sa_addr_eq_def)
  qed
  then have "\<forall>i j. i < j \<and> j < length ?L \<longrightarrow> \<not> sa_addr_eq (?L ! i) (?L ! j)" by simp
  from pick_rec_rounds [OF l this, of 1 4 443] show ?thesis by simp
qed

section \<open>The state file survives a restart\<close>

lemma state_bytes_length: "length (state_bytes p ep) \<le> STATE_EP_MAX + 2"
  by (simp add: state_bytes_def STATE_EP_MAX_def)

lemma state_write_read:
  assumes "dk_path k \<noteq> []" "STATE_EP_MAX + 2 \<le> w"
  shows "state_read_prefer6 (fst (state_write (Some w) p ep k)) = p"
    and "length ep < STATE_EP_MAX \<Longrightarrow> 10 \<notin> set ep \<Longrightarrow> state_read_ep (fst (state_write (Some w) p ep k)) STATE_EP_MAX = ep"
    and "snd (state_write (Some w) p ep k)"
proof -
  have "length (state_bytes p ep) \<le> w" using state_bytes_length [of p ep] assms(2) by simp
  then have f: "state_write (Some w) p ep k = (k\<lparr>dk_file := Some (state_bytes p ep), dk_writes := dk_writes k + 1\<rparr>, True)"
    using assms(1) by (simp add: state_write_def Let_def)
  then show "snd (state_write (Some w) p ep k)" by simp
  show "state_read_prefer6 (fst (state_write (Some w) p ep k)) = p"
    using f assms(1) by (simp add: state_read_prefer6_def state_read_raw_def state_bytes_def)
  show "state_read_ep (fst (state_write (Some w) p ep k)) STATE_EP_MAX = ep" if "length ep < STATE_EP_MAX" "10 \<notin> set ep"
  proof -
    let ?b = "state_bytes p ep"
    have r: "state_read_raw (fst (state_write (Some w) p ep k)) (STATE_EP_MAX + 2) = ?b"
      using f assms(1) state_bytes_length [of p ep] by (simp add: state_read_raw_def)
    show ?thesis
    proof (cases "ep = []")
      case True
      then show ?thesis unfolding state_read_ep_def r by (simp add: state_bytes_def)
    next
      case False
      have b: "?b = (if p then 0x36 else 0x34) # 10 # ep @ [10]"
        using that(1) False by (simp add: state_bytes_def STATE_EP_MAX_def)
      have "takeWhile (\<lambda>c. c \<noteq> 10) (ep @ [10]) = ep" using that(2) by (simp add: takeWhile_append)
      then show ?thesis unfolding state_read_ep_def r b using False that(1)
        by (simp add: Let_def STATE_EP_MAX_def)
    qed
  qed
qed

lemma unat_widen_u8: "unat (ucast (c :: u8) :: u32) = unat c"
  using unsigned_less [of c, where 'a = nat] by (simp add: unsigned_ucast_eq take_bit_nat_eq_self)

lemma unat_widen_u16: "unat (ucast (p :: u16) :: u32) = unat p"
  using unsigned_less [of p, where 'a = nat] by (simp add: unsigned_ucast_eq take_bit_nat_eq_self)

lemma port_scan_digits:
  assumes "list_all (\<lambda>c. 48 \<le> c \<and> c \<le> 57) ds" "unat v * 10 ^ length ds + digits_value ds \<le> 65535"
  shows "port_scan v (ds @ 0x20 # s) = (word_of_nat (unat v * 10 ^ length ds + digits_value ds), 0x20 # s)"
  using assms
proof (induction ds arbitrary: v)
  case Nil
  then show ?case by (simp add: digits_value_def)
next
  case (Cons c ds)
  have c: "48 \<le> c" "c \<le> 57" using Cons.prems(1) by simp_all
  have le: "unat v * 10 + (unat c - 48) \<le> unat v * 10 ^ length (c # ds) + digits_value (c # ds)"
  proof -
    have p: "1 \<le> (10 :: nat) ^ length ds" by simp
    have "(unat v * 10 + (unat c - 48)) * 1 \<le> (unat v * 10 + (unat c - 48)) * 10 ^ length ds" using p by (intro mult_le_mono2)
    then show ?thesis by (simp add: digits_value_Cons algebra_simps)
  qed
  then have b: "unat v * 10 + (unat c - 48) \<le> 65535" using Cons.prems(2) by linarith
  have n: "unat (v * 10 + (ucast c - 0x30)) = unat v * 10 + (unat c - 48)"
  proof -
    have "unat (ucast c :: u32) = unat c" by (rule unat_widen_u8)
    then have 1: "unat (ucast c - 0x30 :: u32) = unat c - 48" using c by (simp add: unat_sub_if' word_le_nat_alt)
    have 2: "unat (v * 10) = unat v * 10" using b by (subst unat_mult_lem [THEN iffD1]) (simp_all)
    show ?thesis using 1 2 b by (subst unat_add_lem [THEN iffD1]) simp_all
  qed
  have v: "v \<le> 65535" using b by (simp add: word_le_nat_alt)
  have e: "(unat v * 10 + (unat c - 48)) * 10 ^ length ds + digits_value ds = unat v * 10 ^ length (c # ds) + digits_value (c # ds)"
    by (simp add: digits_value_Cons algebra_simps)
  have "port_scan v ((c # ds) @ 0x20 # s) = port_scan (v * 10 + (ucast c - 0x30)) (ds @ 0x20 # s)" using c v by simp
  also have "\<dots> = (word_of_nat (unat v * 10 ^ length (c # ds) + digits_value (c # ds)), 0x20 # s)"
    using Cons.IH [of "v * 10 + (ucast c - 0x30)"] Cons.prems unfolding n e by simp
  finally show ?case .
qed

lemma port_scan_print:
  "port_scan 0 (u32_to_str (ucast (port :: u16)) @ 0x20 # s) = (ucast port, 0x20 # s)"
proof -
  have u: "unat (ucast port :: u32) = unat port" by (rule unat_widen_u16)
  have "unat port \<le> 65535" using unsigned_less [of port, where 'a = nat] by simp
  then show ?thesis using port_scan_digits [of "u32_to_str (ucast port)" 0 s] u32_to_str_digits [of "ucast port"] u
    by (simp add: word_unat_eq_iff unsigned_of_nat take_bit_nat_eq_self)
qed

text \<open>
  The law of the C library's address functions: what \<open>inet_ntop\<close> prints fits its buffer, holds
  no line break and is read back by \<open>inet_pton\<close> in its own family.
\<close>

definition inet_law :: "net \<Rightarrow> cliaddr \<Rightarrow> bool" where
  "inet_law nt a \<longleftrightarrow>
     length (sa_str nt (Some a)) \<le> 45 \<and> 10 \<notin> set (sa_str nt (Some a)) \<and>
     (case a of
        V4 x _ \<Rightarrow> nt_pton4 nt (nt_ntop4 nt x) = Some x
      | V6 x _ _ \<Rightarrow> nt_pton4 nt (nt_ntop6 nt x) = None \<and> nt_pton6 nt (nt_ntop6 nt x) = Some x)"

lemma ep_str_fits:
  assumes "inet_law nt a" "di_remote d = Some a"
  shows "length (ep_str nt d) < STATE_EP_MAX" "10 \<notin> set (ep_str nt d)"
proof -
  note u = u32_to_str_digits [of "ucast (di_port d)"]
  show "length (ep_str nt d) < STATE_EP_MAX"
    using assms u by (simp add: ep_str_def inet_law_def STATE_EP_MAX_def)
  have "10 \<notin> set (u32_to_str (ucast (di_port d)))" using u by (auto simp: list_all_iff)
  then show "10 \<notin> set (ep_str nt d)" using assms by (simp add: ep_str_def inet_law_def)
qed

lemma portset_has_pos: "wf_portset ps \<Longrightarrow> portset_has ps port \<Longrightarrow> port \<noteq> 0"
  by (auto simp: wf_portset_def portset_has_def list_ex_iff list_all_iff)

lemma warp_restore_endpoint:
  assumes "inet_law nt a" "di_remote d = Some a" "state_read_ep (di_disk e) STATE_EP_MAX = ep_str nt d"
    "portset_has (di_ports e) (di_port d)" "wf_portset (di_ports e)"
  obtains b where "sa_addr_eq b a"
    "warp_restore nt e = e\<lparr>di_remote := Some b, di_port := di_port d, di_keep := True, di_ep := ep_str nt d\<rparr>"
proof -
  have s: "port_scan 0 (ep_str nt d) = (ucast (di_port d), 0x20 # sa_str nt (Some a))"
    using assms(2) port_scan_print by (simp add: ep_str_def)
  have p: "di_port d \<noteq> 0" using portset_has_pos assms(4,5) by blast
  have q: "(ucast (di_port d) :: u32) \<noteq> 0" "\<not> (ucast (di_port d) :: u32) > 65535" "ucast (ucast (di_port d) :: u32) = di_port d"
    using p unsigned_less [of "di_port d", where 'a = nat] ucast_u16 [of "ucast (di_port d)"] unat_widen_u16 [of "di_port d"]
    by (auto simp: word_unat_eq_iff word_less_nat_alt word_le_nat_alt)
  obtain b where b: "sa_addr_eq b a" "(case nt_pton4 nt (sa_str nt (Some a)) of Some x \<Rightarrow> Some (V4 x 0)
      | None \<Rightarrow> map_option (\<lambda>x. V6 x 0 0) (nt_pton6 nt (sa_str nt (Some a)))) = Some b"
  proof (cases a)
    case (V4 x p)
    then show ?thesis using assms(1) that [of "V4 x 0"] by (simp add: inet_law_def sa_str_def sa_addr_eq_def)
  next
    case (V6 x p m)
    then show ?thesis using assms(1) that [of "V6 x 0 0"] by (simp add: inet_law_def sa_str_def sa_addr_eq_def)
  qed
  have "warp_restore nt e = e\<lparr>di_remote := Some b, di_port := di_port d, di_keep := True, di_ep := ep_str nt d\<rparr>"
    unfolding warp_restore_def assms(3) s Let_def prod.case list.sel b(2) using q assms(4) by simp
  with b(1) show thesis by (rule that)
qed

section \<open>The operations in sequence\<close>

text \<open>
  What happens to a connection in the course of a run: the server goes silent (the main loop
  asks for the next server, and to try the families afresh), the socket is redialled, a probe
  ends, the first packet of a connection arrives.  Each carries the outcome of a write to the
  state file, should it make one.
\<close>

datatype conn_op = Silent bool | Redial net os | Probe_done bool bool | First_packet net u64

fun conn_step :: "nat option \<Rightarrow> conn_op \<Rightarrow> dial \<Rightarrow> dial option" where
  "conn_step wo (Silent reset) d = Some (d\<lparr>di_dead := True, di_reset := (reset \<or> di_reset d)\<rparr>)"
| "conn_step wo (Redial nt os) d = map_option fst (dial_again nt os wo d)"
| "conn_step wo (Probe_done use_alt learn) d = Some (he_finish wo use_alt learn d)"
| "conn_step wo (First_packet nt now) d = Some (warp_keep nt wo now d)"

fun conn_run :: "(nat option \<times> conn_op) list \<Rightarrow> dial \<Rightarrow> dial option" where
  "conn_run [] d = Some d"
| "conn_run ((wo, x) # xs) d = do { d \<leftarrow> conn_step wo x d; conn_run xs d }"

section \<open>Sockets\<close>

text \<open>The kernel hands out descriptors that are not open.\<close>

definition os_fresh :: "os \<Rightarrow> bool" where
  "os_fresh os \<longleftrightarrow> (\<forall>opn v6 fd. os_socket os opn v6 = Some fd \<longrightarrow> fd \<notin> set opn)"

text \<open>The descriptors that are not the connection's own, and what holds of the connection.\<close>

definition others :: "dial \<Rightarrow> nat list" where
  "others d = filter (\<lambda>n. di_fd d \<noteq> Some n \<and> di_fd2 d \<noteq> Some n) (di_open d)"

definition opens :: "nat option \<Rightarrow> nat list \<Rightarrow> bool" where
  "opens fd opn = (case fd of None \<Rightarrow> True | Some n \<Rightarrow> n \<in> set opn)"

definition dial_inv :: "dial \<Rightarrow> bool" where
  "dial_inv d \<longleftrightarrow>
     wf_portset (di_ports d) \<and> portset_has (di_ports d) (di_port d) \<and>
     opens (di_fd d) (di_open d) \<and> opens (di_fd2 d) (di_open d) \<and>
     (di_fd2 d \<noteq> None \<longrightarrow> di_fd2 d \<noteq> di_fd d \<and>
        (\<exists>a b. di_remote d = Some a \<and> di_alt d = Some b \<and> sa_v6 a \<noteq> sa_v6 b))"

lemma dial_one_open:
  assumes "os_fresh os" "dial_one os d a opn = (opn', s)"
  shows "case s of None \<Rightarrow> opn' = opn | Some s \<Rightarrow> opn' = sk_fd s # opn \<and> sk_fd s \<notin> set opn"
  using assms by (auto simp: dial_one_def os_fresh_def set_socket_buffers_def Let_def split: option.splits if_splits)

lemma state_write_fields: "dk_path (fst (state_write wo p ep k)) = dk_path k"
    "dk_writes (fst (state_write wo p ep k)) \<le> dk_writes k + 1"
  by (auto simp: state_write_def Let_def split: option.splits)

lemma he_learn_eq:
  obtains p w k6 k where "he_learn wo v d = d\<lparr>di_prefer6 := p, di_written := w, di_disk6 := k6, di_disk := k\<rparr>"
    "dk_writes k + of_bool (\<not> w) \<le> dk_writes (di_disk d) + of_bool (\<not> di_written d)"
proof (cases "v = di_prefer6 d \<or> di_written d")
  case True
  then have "he_learn wo v d = d\<lparr>di_prefer6 := v, di_written := di_written d, di_disk6 := di_disk6 d, di_disk := di_disk d\<rparr>"
    by (cases "v = di_prefer6 d") (simp_all add: he_learn_def)
  then show thesis by (rule that) simp
next
  case False
  obtain k ok where k: "state_write wo v (di_ep d) (di_disk d) = (k, ok)" by fastforce
  have "he_learn wo v d = d\<lparr>di_prefer6 := v, di_written := True, di_disk6 := (if ok then v else di_disk6 d), di_disk := k\<rparr>"
    using False k by (cases ok) (simp_all add: he_learn_def)
  moreover have "dk_writes k \<le> dk_writes (di_disk d) + 1" using state_write_fields(2) [of wo v "di_ep d" "di_disk d"] k by simp
  then have "dk_writes k + of_bool (\<not> True) \<le> dk_writes (di_disk d) + of_bool (\<not> di_written d)" using False by simp
  ultimately show thesis by (rule that)
qed

lemma he_learn_fields:
  "di_ports (he_learn wo v d) = di_ports d" "di_port (he_learn wo v d) = di_port d" "di_open (he_learn wo v d) = di_open d"
  "di_fd (he_learn wo v d) = di_fd d" "di_fd2 (he_learn wo v d) = di_fd2 d" "di_remote (he_learn wo v d) = di_remote d"
  "di_alt (he_learn wo v d) = di_alt d" "di_saved (he_learn wo v d) = di_saved d" "di_ep (he_learn wo v d) = di_ep d"
  by (rule he_learn_eq [of wo v d], simp)+

lemma dial_settle_eq:
  assumes "os_fresh os"
  obtains alt' fd2 opn sh where "dial_settle os a alt d =
      d\<lparr>di_remote := Some a, di_v6 := sa_v6 a, di_stash := sh, di_alt := alt', di_fd2 := fd2, di_open := opn\<rparr>"
    "opn = di_open d \<and> fd2 = None \<or> (\<exists>n. fd2 = Some n \<and> opn = n # di_open d \<and> n \<notin> set (di_open d) \<and> alt' = alt \<and> alt \<noteq> None)"
proof -
  define sh where "sh = (di_stash d)\<lparr>sh_sent := False, sh_pkt := []\<rparr>"
  let ?d = "d\<lparr>di_remote := Some a, di_v6 := sa_v6 a, di_stash := sh, di_alt := None, di_fd2 := None\<rparr>"
  show thesis
  proof (cases alt)
    case None
    then show thesis using that [of "di_open d" None None sh] by (simp add: dial_settle_def sh_def)
  next
    case (Some b)
    obtain opn s where o: "dial_one os ?d b (di_open d) = (opn, s)" by fastforce
    show thesis
    proof (cases s)
      case None
      have "opn = di_open d" using dial_one_open [OF assms o] None by simp
      then show thesis using that [of opn None None sh] o None Some by (simp add: dial_settle_def sh_def)
    next
      case (Some k)
      have "opn = sk_fd k # di_open d" "sk_fd k \<notin> set (di_open d)" using dial_one_open [OF assms o] Some by simp_all
      then show thesis using that [of opn "Some (sk_fd k)" "Some b" sh] o Some \<open>alt = Some b\<close> by (simp add: dial_settle_def sh_def)
    qed
  qed
qed

text \<open>Where a connected dial leaves the state: the primary, perhaps the other family, nothing else open.\<close>

definition connected :: "dial \<Rightarrow> dial \<Rightarrow> nat option \<Rightarrow> bool" where
  "connected d d' fd \<longleftrightarrow>
     di_ports d' = di_ports d \<and> di_port d' = di_port d \<and> di_fd d' = di_fd d \<and> di_saved d' = di_saved d \<and> di_ep d' = di_ep d \<and>
     dk_writes (di_disk d') + of_bool (\<not> di_written d') \<le> dk_writes (di_disk d) + of_bool (\<not> di_written d) \<and>
     (case fd of
        None \<Rightarrow> di_open d' = di_open d \<and> di_fd2 d' = di_fd2 d
      | Some n \<Rightarrow>
          n \<notin> set (di_open d) \<and>
          (case di_fd2 d' of
             None \<Rightarrow> di_open d' = n # di_open d
           | Some m \<Rightarrow> di_open d' = m # n # di_open d \<and> m \<notin> set (n # di_open d) \<and>
               (\<exists>a b. di_remote d' = Some a \<and> di_alt d' = Some b \<and> sa_v6 a \<noteq> sa_v6 b)))"

lemma dial_pair_connected:
  assumes "os_fresh os" "\<forall>b. alt = Some b \<longrightarrow> sa_v6 b \<noteq> sa_v6 a"
  shows "connected d (fst (dial_pair os wo a alt d)) (snd (dial_pair os wo a alt d))"
proof -
  obtain opn s where o: "dial_one os d a (di_open d) = (opn, s)" by fastforce
  note oo = dial_one_open [OF assms(1) o]
  show ?thesis
  proof (cases s)
    case (Some k)
    let ?d = "d\<lparr>di_open := opn\<rparr>"
    obtain alt' fd2 opn' sh
      where e: "dial_settle os a alt ?d = ?d\<lparr>di_remote := Some a, di_v6 := sa_v6 a, di_stash := sh, di_alt := alt', di_fd2 := fd2, di_open := opn'\<rparr>"
        and c: "opn' = di_open ?d \<and> fd2 = None \<or>
          (\<exists>n. fd2 = Some n \<and> opn' = n # di_open ?d \<and> n \<notin> set (di_open ?d) \<and> alt' = alt \<and> alt \<noteq> None)"
      by (rule dial_settle_eq [OF assms(1), of a alt ?d])
    have r: "dial_pair os wo a alt d = (dial_settle os a alt ?d, Some (sk_fd k))" using o Some by (simp add: dial_pair_def)
    from c show ?thesis
    proof (elim disjE conjE exE)
      assume "opn' = di_open ?d" "fd2 = None"
      then show ?thesis unfolding r fst_conv snd_conv e using oo Some by (simp add: connected_def)
    next
      fix n
      assume "fd2 = Some n" "opn' = n # di_open ?d" "n \<notin> set (di_open ?d)" "alt' = alt" "alt \<noteq> None"
      then show ?thesis unfolding r fst_conv snd_conv e using oo Some assms(2) by (auto simp: connected_def)
    qed
  next
    case None
    then have opn: "opn = di_open d" using oo by simp
    show ?thesis
    proof (cases alt)
      case None
      then show ?thesis using o \<open>s = None\<close> opn by (simp add: dial_pair_def connected_def)
    next
      case (Some b)
      obtain opn2 s2 where o2: "dial_one os d b opn = (opn2, s2)" by fastforce
      note oo2 = dial_one_open [OF assms(1) o2]
      show ?thesis
      proof (cases s2)
        case None
        then have r: "dial_pair os wo a alt d = (d\<lparr>di_open := opn2\<rparr>, None)"
          using o o2 \<open>s = None\<close> Some by (simp add: dial_pair_def)
        show ?thesis unfolding r fst_conv snd_conv using oo2 None opn by (simp add: connected_def)
      next
        case (Some k)
        have r: "dial_pair os wo a alt d = (dial_settle os b None (he_learn wo (sa_v6 b) (d\<lparr>di_open := opn2\<rparr>)), Some (sk_fd k))"
          using o o2 \<open>s = None\<close> \<open>alt = Some b\<close> Some by (simp add: dial_pair_def)
        let ?e = "d\<lparr>di_open := opn2\<rparr>"
        obtain p w k6 kk where l: "he_learn wo (sa_v6 b) ?e = ?e\<lparr>di_prefer6 := p, di_written := w, di_disk6 := k6, di_disk := kk\<rparr>"
          "dk_writes kk + of_bool (\<not> w) \<le> dk_writes (di_disk ?e) + of_bool (\<not> di_written ?e)"
          by (rule he_learn_eq [of wo "sa_v6 b" ?e])
        show ?thesis unfolding r fst_conv snd_conv l(1) using oo2 Some opn l(2)
          by (simp add: connected_def dial_settle_def)
      qed
    qed
  qed
qed

lemma pick_rec_member:
  assumes "pick_rec ais fam cur nxt = Some a"
  shows "a \<in> set (usable fam ais)"
proof (cases "dropWhile (\<lambda>a. \<not> in_use cur a) (usable fam ais)")
  case Nil
  then show ?thesis using assms by (cases "usable fam ais") (simp_all add: pick_rec_eq)
next
  case (Cons x xs)
  then have "set (x # xs) \<subseteq> set (usable fam ais)" by (metis set_dropWhileD subsetI)
  then show ?thesis using assms Cons by (cases xs; cases "usable fam ais") (auto simp: pick_rec_eq split: if_splits)
qed

lemma pick_rec_family:
  assumes "pick_rec ais fam cur nxt = Some a"
  shows "sa_v6 a = fam"
  using pick_rec_member [OF assms] by (auto simp: usable_def rec_usable_def)

lemma sa_v6_set_port [simp]: "sa_v6 (sa_set_port a port) = sa_v6 a"
  by (simp add: sa_v6_def sa_set_port_def split: cliaddr.splits)

lemma pick_port_family:
  assumes "map_option (\<lambda>a. sa_set_port a port) (pick_rec ais fam cur nxt) = Some a"
  shows "sa_v6 a = fam"
  using assms pick_rec_family by auto

lemma resolve_addr_families:
  assumes "resolve_addr nt host port cur nxt = Some (v4, v6)"
  shows "v4 \<noteq> None \<or> v6 \<noteq> None" "\<forall>a. v4 = Some a \<longrightarrow> \<not> sa_v6 a" "\<forall>a. v6 = Some a \<longrightarrow> sa_v6 a"
proof -
  consider (a) a where "v4 = Some (V4 a (htons port))" "v6 = None" | (b) a where "v6 = Some (V6 a (htons port) 0)" "v4 = None"
    | (c) res where "v4 = map_option (\<lambda>a. sa_set_port a port) (pick_rec res False cur nxt)"
        "v6 = map_option (\<lambda>a. sa_set_port a port) (pick_rec res True cur nxt)" "v4 \<noteq> None \<or> v6 \<noteq> None"
  proof (cases "nt_pton4 nt host")
    case (Some x)
    then show thesis using assms by (intro a) (auto simp: resolve_addr_def)
  next
    case n: None
    show thesis
    proof (cases "nt_pton6 nt host")
      case (Some x)
      then show thesis using assms n by (intro b) (auto simp: resolve_addr_def)
    next
      case None
      then show thesis using assms n by (cases "nt_gai nt host") (auto simp: resolve_addr_def Let_def split: if_splits intro: c)
    qed
  qed
  then have "(v4 \<noteq> None \<or> v6 \<noteq> None) \<and> (\<forall>a. v4 = Some a \<longrightarrow> \<not> sa_v6 a) \<and> (\<forall>a. v6 = Some a \<longrightarrow> sa_v6 a)"
  proof cases
    case (c res)
    show ?thesis using c(3) pick_port_family [of port res False cur nxt, folded c(1)] pick_port_family [of port res True cur nxt, folded c(2)]
      by blast
  qed (simp_all add: sa_v6_def)
  then show "v4 \<noteq> None \<or> v6 \<noteq> None" "\<forall>a. v4 = Some a \<longrightarrow> \<not> sa_v6 a" "\<forall>a. v6 = Some a \<longrightarrow> sa_v6 a" by simp_all
qed

lemma dial_order_cases:
  assumes "v4 \<noteq> None \<or> v6 \<noteq> None" "\<forall>a. v4 = Some a \<longrightarrow> \<not> sa_v6 a" "\<forall>a. v6 = Some a \<longrightarrow> sa_v6 a"
  obtains a alt where "dial_order p v4 v6 = (Some a, alt)" "\<forall>b. alt = Some b \<longrightarrow> sa_v6 b \<noteq> sa_v6 a"
  using assms by (cases v4; cases v6; cases p) (auto simp: dial_order_def)

lemma dial_draw_ok:
  assumes "wf_portset (di_ports d)" "portset_has (di_ports d) (di_port d)"
  obtains port rng k where "dial_draw d = Some (d\<lparr>di_keep := k, di_dead := False, di_port := port, di_rng := rng\<rparr>)"
    "portset_has (di_ports d) port" "di_keep d \<and> \<not> di_dead d \<longrightarrow> port = di_port d"
proof -
  obtain port rng where pick: "portset_pick (di_ports d) (di_rng d) (di_port d) = Some (port, rng)" "portset_has (di_ports d) port"
    using portset_pick_ok [OF assms(1)] by blast
  show thesis
  proof (cases "di_keep d \<and> \<not> di_dead d")
    case True
    then have "dial_draw d = Some (d\<lparr>di_keep := True, di_dead := False, di_port := di_port d, di_rng := di_rng d\<rparr>)"
      by (simp add: dial_draw_def)
    then show thesis using assms(2) by (rule that) simp
  next
    case False
    then have "dial_draw d = Some (d\<lparr>di_keep := False, di_dead := False, di_port := port, di_rng := rng\<rparr>)"
      using pick(1) unfolding dial_draw_def Let_def by (cases "di_keep d") simp_all
    then show thesis using pick(2) by (rule that) (use False in blast)
  qed
qed

lemma dial_resolved_connected:
  assumes "os_fresh os" "resolve_addr nt host port cur nxt = Some (v4, v6)"
  obtains d' fd where "dial_resolved os wo v4 v6 d = Some (d', fd)" "connected d d' fd"
proof -
  define d2 where "d2 = (if di_reset d then d\<lparr>di_reset := False, di_prefer6 := False\<rparr> else d)"
  obtain a alt where o: "dial_order (di_prefer6 d2) v4 v6 = (Some a, alt)" "\<forall>b. alt = Some b \<longrightarrow> sa_v6 b \<noteq> sa_v6 a"
    using dial_order_cases [OF resolve_addr_families [OF assms(2)]] by blast
  have "dial_resolved os wo v4 v6 d = Some (dial_pair os wo a alt d2)"
    unfolding dial_resolved_def d2_def [symmetric] Let_def o(1) by simp
  then have r: "dial_resolved os wo v4 v6 d = Some (fst (dial_pair os wo a alt d2), snd (dial_pair os wo a alt d2))" by simp
  have "connected d2 d' fd = connected d d' fd" for d' fd
    by (cases "di_reset d"; cases fd; cases "di_fd2 d'") (simp_all add: d2_def connected_def)
  with dial_pair_connected [OF assms(1) o(2)] that [OF r] show thesis by blast
qed

lemma dial_remote_connected:
  assumes "os_fresh os" "wf_portset (di_ports d)" "portset_has (di_ports d) (di_port d)"
  obtains port rng k d' fd where "dial_remote nt os wo d = Some (d', fd)"
    "connected (d\<lparr>di_keep := k, di_dead := False, di_port := port, di_rng := rng\<rparr>) d' fd"
    "portset_has (di_ports d) port" "di_keep d \<and> \<not> di_dead d \<longrightarrow> port = di_port d"
proof -
  obtain port rng k where dr: "dial_draw d = Some (d\<lparr>di_keep := k, di_dead := False, di_port := port, di_rng := rng\<rparr>)"
    "portset_has (di_ports d) port" "di_keep d \<and> \<not> di_dead d \<longrightarrow> port = di_port d"
    by (rule dial_draw_ok [OF assms(2,3)])
  define d1 where "d1 = d\<lparr>di_keep := k, di_dead := False, di_port := port, di_rng := rng\<rparr>"
  note d1 = dr(1) [folded d1_def]
  show thesis
  proof (cases "resolve_addr nt (di_host d1) (di_port d1) (di_remote d1) (di_dead d)")
    case None
    then have "dial_remote nt os wo d = Some (d1, None)" using d1 by (simp add: dial_remote_def)
    moreover have "connected d1 d1 None" by (simp add: connected_def)
    ultimately show thesis using dr(2,3) unfolding d1_def by (rule that)
  next
    case (Some vs)
    obtain v4 v6 where vs: "vs = (v4, v6)" by fastforce
    obtain d' fd where r: "dial_resolved os wo v4 v6 d1 = Some (d', fd)" "connected d1 d' fd"
      by (rule dial_resolved_connected [OF assms(1) Some [unfolded vs], of wo d1])
    have "dial_remote nt os wo d = Some (d', fd)" using d1 Some vs r(1) by (simp add: dial_remote_def)
    then show thesis using r(2) dr(2,3) unfolding d1_def by (rule that)
  qed
qed

lemma dial_again_eq:
  assumes "dial_remote nt os wo (d\<lparr>di_fd := None, di_fd2 := None, di_open := close_fd (di_fd2 d) (close_fd (di_fd d) (di_open d))\<rparr>) = Some (d', fd)"
  shows "dial_again nt os wo d = Some (if fd = None then d' else d'\<lparr>di_fd := fd\<rparr>, fd)"
  using assms by (simp add: dial_again_def)

lemma close_both: "close_fd (di_fd2 d) (close_fd (di_fd d) (di_open d)) = others d"
  by (cases "di_fd d"; cases "di_fd2 d") (auto simp: close_fd_def others_def removeAll_filter_not_eq intro: filter_cong)

lemma dial_again_ok:
  assumes "os_fresh os" "dial_inv d"
  obtains d' fd where "dial_again nt os wo d = Some (d', fd)" "dial_inv d'" "others d' = others d" "di_fd d' = fd"
    "di_saved d' = di_saved d" "di_ep d' = di_ep d"
    "dk_writes (di_disk d') + of_bool (\<not> di_written d') \<le> dk_writes (di_disk d) + of_bool (\<not> di_written d)"
    "di_keep d \<and> \<not> di_dead d \<longrightarrow> di_port d' = di_port d"
proof -
  let ?d = "d\<lparr>di_fd := None, di_fd2 := None, di_open := close_fd (di_fd2 d) (close_fd (di_fd d) (di_open d))\<rparr>"
  have w: "wf_portset (di_ports ?d)" "portset_has (di_ports ?d) (di_port ?d)" using assms(2) by (simp_all add: dial_inv_def)
  obtain port rng k d' fd where r: "dial_remote nt os wo ?d = Some (d', fd)"
    and c: "connected (?d\<lparr>di_keep := k, di_dead := False, di_port := port, di_rng := rng\<rparr>) d' fd"
    and p: "portset_has (di_ports ?d) port" "di_keep ?d \<and> \<not> di_dead ?d \<longrightarrow> port = di_port ?d"
    by (rule dial_remote_connected [OF assms(1) w])
  define e where "e = (if fd = None then d' else d'\<lparr>di_fd := fd\<rparr>)"
  have f: "di_ports d' = di_ports d" "di_port d' = port" "di_fd d' = None" "di_saved d' = di_saved d" "di_ep d' = di_ep d"
    "dk_writes (di_disk d') + of_bool (\<not> di_written d') \<le> dk_writes (di_disk d) + of_bool (\<not> di_written d)"
    using c by (simp_all add: connected_def)
  have ef: "di_ports e = di_ports d" "di_port e = port" "di_fd e = fd" "di_saved e = di_saved d" "di_ep e = di_ep d"
    "di_disk e = di_disk d'" "di_written e = di_written d'" "di_open e = di_open d'" "di_fd2 e = di_fd2 d'"
    "di_remote e = di_remote d'" "di_alt e = di_alt d'"
    using f by (simp_all add: e_def)
  have o: "case fd of None \<Rightarrow> di_open e = others d \<and> di_fd2 e = None
    | Some n \<Rightarrow> n \<notin> set (others d) \<and> (case di_fd2 e of None \<Rightarrow> di_open e = n # others d
       | Some m \<Rightarrow> di_open e = m # n # others d \<and> m \<notin> set (n # others d) \<and>
          (\<exists>a b. di_remote e = Some a \<and> di_alt e = Some b \<and> sa_v6 a \<noteq> sa_v6 b))"
    using c unfolding ef connected_def close_both by (cases fd; cases "di_fd2 d'") simp_all
  have oth: "others e = others d"
  proof (cases fd)
    case None
    then show ?thesis using o ef(3) by (simp add: others_def)
  next
    case (Some n)
    show ?thesis
    proof (cases "di_fd2 e")
      case None
      then show ?thesis using o \<open>fd = Some n\<close> ef(3) unfolding others_def [of e] by (auto simp: filter_id_conv)
    next
      case (Some m)
      then have "di_open e = m # n # others d" "m \<notin> set (others d)" "n \<notin> set (others d)" using o \<open>fd = Some n\<close> by simp_all
      then show ?thesis using Some \<open>fd = Some n\<close> ef(3) unfolding others_def [of e] by (auto simp: filter_id_conv)
    qed
  qed
  have i: "dial_inv e"
    using o w(1) p(1) ef(1-3) by (cases fd; cases "di_fd2 e") (auto simp: dial_inv_def opens_def)
  show thesis
    by (rule that [OF dial_again_eq [OF r, folded e_def] i oth])
      (use ef f p(2) in simp_all)
qed

lemma he_finish_ok:
  assumes "dial_inv d"
  shows "dial_inv (he_finish wo use_alt learn d)" "others (he_finish wo use_alt learn d) = others d"
    "di_saved (he_finish wo use_alt learn d) = di_saved d" "di_ep (he_finish wo use_alt learn d) = di_ep d"
    "dk_writes (di_disk (he_finish wo use_alt learn d)) + of_bool (\<not> di_written (he_finish wo use_alt learn d)) \<le>
       dk_writes (di_disk d) + of_bool (\<not> di_written d)"
    "di_fd2 (he_finish wo use_alt learn d) = None"
proof -
  consider "di_fd2 d = None" | m where "di_fd2 d = Some m" "use_alt" | m where "di_fd2 d = Some m" "\<not> use_alt" by blast
  then obtain e where e: "he_finish wo use_alt learn d = e \<or> (\<exists>v. he_finish wo use_alt learn d = he_learn wo v e)"
    and i: "dial_inv e" "others e = others d" "di_saved e = di_saved d" "di_ep e = di_ep d" "di_disk e = di_disk d"
      "di_written e = di_written d" "di_fd2 e = None"
  proof cases
    case 1
    then show thesis using assms by (intro that [of d]) (simp_all add: he_finish_def)
  next
    case (2 m)
    let ?e = "d\<lparr>di_fd2 := None, di_remote := di_alt d, di_v6 := (case di_alt d of None \<Rightarrow> False | Some a \<Rightarrow> sa_v6 a),
      di_fd := Some m, di_open := close_fd (di_fd d) (di_open d), di_alt := None\<rparr>"
    have "di_fd d \<noteq> Some m" "m \<in> set (di_open d)" using assms 2 by (auto simp: dial_inv_def opens_def)
    then have "dial_inv ?e" "others ?e = others d"
      using assms 2 by (cases "di_fd d"; auto simp: dial_inv_def opens_def others_def close_fd_def removeAll_filter_not_eq intro: filter_cong)+
    then show thesis by (intro that [of ?e]) (use 2 in \<open>simp_all add: he_finish_def Let_def, blast\<close>)
  next
    case (3 m)
    let ?e = "d\<lparr>di_fd2 := None, di_open := removeAll m (di_open d), di_alt := None\<rparr>"
    have "di_fd d \<noteq> Some m" using assms 3 by (auto simp: dial_inv_def)
    then have "dial_inv ?e" "others ?e = others d"
      using assms 3 by (cases "di_fd d"; auto simp: dial_inv_def opens_def others_def removeAll_filter_not_eq intro: filter_cong)+
    then show thesis by (intro that [of ?e]) (use 3 in \<open>simp_all add: he_finish_def Let_def, blast\<close>)
  qed
  have l: "dial_inv (he_learn wo v e)" "others (he_learn wo v e) = others e" for v
    using i(1) by (simp_all add: dial_inv_def others_def he_learn_fields)
  have w: "dk_writes (di_disk (he_learn wo v e)) + of_bool (\<not> di_written (he_learn wo v e)) \<le> dk_writes (di_disk e) + of_bool (\<not> di_written e)" for v
    by (rule he_learn_eq [of wo v e]) simp
  have k: "P (he_finish wo use_alt learn d)" if "P e" "\<And>v. P (he_learn wo v e)" for P using e that by metis
  show "dial_inv (he_finish wo use_alt learn d)" by (rule k) (simp_all add: i l)
  show "others (he_finish wo use_alt learn d) = others d" by (rule k) (simp_all add: i l)
  show "di_saved (he_finish wo use_alt learn d) = di_saved d" by (rule k) (simp_all add: i he_learn_fields)
  show "di_ep (he_finish wo use_alt learn d) = di_ep d" by (rule k) (simp_all add: i he_learn_fields)
  show "dk_writes (di_disk (he_finish wo use_alt learn d)) + of_bool (\<not> di_written (he_finish wo use_alt learn d)) \<le>
       dk_writes (di_disk d) + of_bool (\<not> di_written d)"
    using w unfolding i by (rule k [rotated]) (simp add: i)
  show "di_fd2 (he_finish wo use_alt learn d) = None" by (rule k) (simp_all add: i he_learn_fields)
qed

lemma warp_keep_eq:
  obtains "warp_keep nt wo now d = d\<lparr>di_keep := True\<rparr>"
  | k where "warp_keep nt wo now d = d\<lparr>di_keep := True, di_saved := now OR 1, di_ep := ep_str nt d, di_disk := k\<rparr>"
      "ep_str nt d \<noteq> di_ep d" "di_saved d = 0 \<or> 3600000 \<le> now - di_saved d" "dk_writes k \<le> dk_writes (di_disk d) + 1"
proof (cases "ep_str nt d = di_ep d \<or> di_saved d \<noteq> 0 \<and> now - di_saved d < 3600000")
  case True
  have "ep_str nt (d\<lparr>di_keep := True\<rparr>) = ep_str nt d" by (simp add: ep_str_def)
  then have "warp_keep nt wo now d = d\<lparr>di_keep := True\<rparr>" using True unfolding warp_keep_def Let_def
    by (cases "ep_str nt d = di_ep d") simp_all
  then show thesis by (rule that(1))
next
  case False
  have "ep_str nt (d\<lparr>di_keep := True\<rparr>) = ep_str nt d" by (simp add: ep_str_def)
  then have "warp_keep nt wo now d =
      d\<lparr>di_keep := True, di_saved := now OR 1, di_ep := ep_str nt d, di_disk := fst (state_write wo (di_disk6 d) (ep_str nt d) (di_disk d))\<rparr>"
    using False unfolding warp_keep_def Let_def by (cases "di_saved d = 0") simp_all
  then show thesis by (rule that(2)) (use False state_write_fields(2) in \<open>auto simp: not_less\<close>)
qed

lemma conn_step_ok:
  assumes "dial_inv d" "case x of Redial nt os \<Rightarrow> os_fresh os | _ \<Rightarrow> True"
  obtains d' where "conn_step wo x d = Some d'" "dial_inv d'" "others d' = others d"
proof (cases x)
  case (Silent reset)
  then show thesis using assms(1) by (intro that [of "d\<lparr>di_dead := True, di_reset := (reset \<or> di_reset d)\<rparr>"]) (simp_all add: dial_inv_def others_def)
next
  case (Redial nt os)
  have f: "os_fresh os" using assms(2) Redial by simp
  obtain d' fd where "dial_again nt os wo d = Some (d', fd)" "dial_inv d'" "others d' = others d"
    by (rule dial_again_ok [OF f assms(1)])
  then show thesis using Redial by (intro that [of d']) simp_all
next
  case (Probe_done use_alt learn)
  then show thesis using he_finish_ok [OF assms(1)] by (intro that [of "he_finish wo use_alt learn d"]) simp_all
next
  case (First_packet nt now)
  have "dial_inv (warp_keep nt wo now d) \<and> others (warp_keep nt wo now d) = others d"
    by (rule warp_keep_eq [of nt wo now d]) (use assms(1) in \<open>simp_all add: dial_inv_def others_def\<close>)
  then show thesis using First_packet by (intro that [of "warp_keep nt wo now d"]) simp_all
qed

lemma conn_run_ok:
  assumes "dial_inv d" "\<forall>(wo, x) \<in> set xs. case x of Redial nt os \<Rightarrow> os_fresh os | _ \<Rightarrow> True"
  obtains d' where "conn_run xs d = Some d'" "others d' = others d" "dial_inv d'"
proof -
  have "\<exists>d'. conn_run xs d = Some d' \<and> others d' = others d \<and> dial_inv d'" using assms
  proof (induction xs arbitrary: d)
    case (Cons y xs)
    obtain wo x where y: "y = (wo, x)" by fastforce
    have f: "case x of Redial nt os \<Rightarrow> os_fresh os | _ \<Rightarrow> True" "\<forall>(wo, x) \<in> set xs. case x of Redial nt os \<Rightarrow> os_fresh os | _ \<Rightarrow> True"
      using Cons.prems(2) y by simp_all
    obtain d1 where d1: "conn_step wo x d = Some d1" "dial_inv d1" "others d1 = others d"
      by (rule conn_step_ok [OF Cons.prems(1) f(1)])
    then show ?case using Cons.IH [OF d1(2) f(2)] y by simp
  qed simp
  then show thesis using that by blast
qed

text \<open>
  C28. Sockets through reconnects and probes.  In whatever order the server goes silent, the socket is
  redialled, probes end and first packets arrive, the connection holds its socket and, while a
  probe runs, one more of the other family, both open and different; every other descriptor
  it ever opened has been closed, and those of the rest of the program are untouched.  The port
  dialled is always one of the configured ports.
\<close>

theorem connection_sockets:
  assumes "dial_inv d" "\<forall>(wo, x) \<in> set xs. case x of Redial nt os \<Rightarrow> os_fresh os | _ \<Rightarrow> True"
  shows "\<exists>d'. conn_run xs d = Some d' \<and> others d' = others d \<and> portset_has (di_ports d') (di_port d') \<and>
    opens (di_fd d') (di_open d') \<and> opens (di_fd2 d') (di_open d') \<and>
    (di_fd2 d' \<noteq> None \<longrightarrow> di_fd2 d' \<noteq> di_fd d' \<and>
       (\<exists>a b. di_remote d' = Some a \<and> di_alt d' = Some b \<and> sa_v6 a \<noteq> sa_v6 b))"
  by (rule conn_run_ok [OF assms]) (auto simp: dial_inv_def)

text \<open>A start on two ports whose name has a record of each family, and a kernel that hands out the next number.\<close>

definition example_net :: net where
  "example_net = \<lparr>nt_pton4 = (\<lambda>s. if length s = 5 \<and> hd s = 0x34 then Some (get_le (tl s)) else None),
     nt_pton6 = (\<lambda>s. if length s = 17 \<and> hd s = 0x36 then Some (tl s) else None),
     nt_ntop4 = (\<lambda>a. 0x34 # put_le 4 a), nt_ntop6 = (\<lambda>a. 0x36 # a),
     nt_gai = (\<lambda>_. Some example_records)\<rparr>"

definition example_os :: os where
  "example_os = \<lparr>os_socket = (\<lambda>opn _. Some (Suc (foldr max opn 0))), os_bind = (\<lambda>_. True), os_connect = (\<lambda>_. True),
     os_force_rcv = True, os_force_snd = True\<rparr>"

definition example_dial :: dial where
  "example_dial = \<lparr>di_host = [0x77], di_ports = \<lparr>ps_r = [(443, 443), (20, 22)], ps_total = 4\<rparr>, di_port = 443, di_rng = 99,
     di_local = 0, di_rot_on = False, di_rb = 4096, di_sndbuf = 4096, di_busy = 0, di_no_df = False,
     di_keep = True, di_dead = False, di_reset = False, di_prefer6 = False, di_written = False, di_disk6 = False,
     di_disk = \<lparr>dk_path = [0x73], dk_file = None, dk_writes = 0\<rparr>, di_ep = [], di_saved = 0,
     di_remote = None, di_alt = None, di_v6 = False, di_fd = None, di_fd2 = None,
     di_stash = \<lparr>sh_sent = False, sh_pkt = [], sh_ms = 0\<rparr>, di_open = [3, 4]\<rparr>"

lemma example_dial_inv: "dial_inv example_dial"
  by (simp add: dial_inv_def example_dial_def wf_portset_def range_size_def portset_has_def opens_def)

lemma foldr_max_le: "n \<in> set xs \<Longrightarrow> n \<le> foldr max xs (0 :: nat)"
  by (induction xs) auto

lemma example_os_fresh: "os_fresh example_os"
  using foldr_max_le by (fastforce simp: os_fresh_def example_os_def)

theorem connection_sockets_witness:
  "\<exists>d'. conn_run [(Some 70, Redial example_net example_os), (Some 70, Probe_done True True),
      (Some 70, First_packet example_net 12), (None, Silent True), (Some 70, Redial example_net example_os)] example_dial = Some d' \<and>
    others d' = [3, 4]"
proof -
  let ?xs = "[(Some 70, Redial example_net example_os), (Some 70, Probe_done True True),
      (Some 70, First_packet example_net 12), (None, Silent True), (Some 70, Redial example_net example_os)]"
  have "\<forall>(wo, x) \<in> set ?xs. case x of Redial nt os \<Rightarrow> os_fresh os | _ \<Rightarrow> True" using example_os_fresh by simp
  moreover have "others example_dial = [3, 4]" by (simp add: others_def example_dial_def)
  ultimately show ?thesis using connection_sockets [OF example_dial_inv, of ?xs] by auto
qed

section \<open>Cloudflare WARP across a restart\<close>

text \<open>A kernel that opens, binds and connects every socket it is asked for.\<close>

definition os_connects :: "os \<Rightarrow> bool" where
  "os_connects os \<longleftrightarrow> (\<forall>opn fam. os_socket os opn fam \<noteq> None) \<and> (\<forall>fam. os_bind os fam) \<and> (\<forall>a. os_connect os a)"

lemma dial_one_connects:
  assumes "os_connects os"
  obtains opn' k where "dial_one os d a opn = (opn', Some k)"
proof -
  have "os_socket os opn (sa_v6 a) \<noteq> None" using assms unfolding os_connects_def by blast
  then obtain fd where "os_socket os opn (sa_v6 a) = Some fd" by blast
  then have "\<exists>opn' k. dial_one os d a opn = (opn', Some k)"
    using assms by (simp add: dial_one_def os_connects_def Let_def)
  then show thesis using that by blast
qed

lemma dial_pair_connects:
  assumes "os_connects os"
  shows "\<exists>d' fd. dial_pair os wo a alt d = (d', Some fd) \<and> di_remote d' = Some a \<and> di_alt d' = alt \<and>
    (alt \<noteq> None \<longrightarrow> di_fd2 d' \<noteq> None)"
proof -
  obtain opn k where p: "dial_one os d a (di_open d) = (opn, Some k)" by (rule dial_one_connects [OF assms])
  show ?thesis
  proof (cases alt)
    case None
    then show ?thesis using p by (simp add: dial_pair_def dial_settle_def)
  next
    case (Some b)
    define d1 where "d1 = d\<lparr>di_open := opn, di_remote := Some a, di_v6 := sa_v6 a,
      di_stash := (di_stash d)\<lparr>sh_sent := False, sh_pkt := []\<rparr>, di_alt := None, di_fd2 := None\<rparr>"
    obtain opn' k' where "dial_one os d1 b opn = (opn', Some k')" by (rule dial_one_connects [OF assms])
    then have "dial_settle os a alt (d\<lparr>di_open := opn\<rparr>) = d1\<lparr>di_alt := Some b, di_fd2 := Some (sk_fd k'), di_open := opn'\<rparr>"
      unfolding dial_settle_def Some by (simp add: d1_def)
    then show ?thesis using p Some by (simp add: dial_pair_def d1_def)
  qed
qed

lemma pick_rec_None: "pick_rec ais fam cur nxt = None \<longleftrightarrow> usable fam ais = []"
proof (cases "dropWhile (\<lambda>a. \<not> in_use cur a) (usable fam ais)")
  case Nil
  then show ?thesis by (cases "usable fam ais") (simp_all add: pick_rec_eq)
next
  case (Cons x xs)
  then have "usable fam ais \<noteq> []" by auto
  then show ?thesis using Cons by (cases "usable fam ais") (simp_all add: pick_rec_eq)
qed

text \<open>The records of a name: the one picked in each family, with the port.\<close>

lemma resolve_addr_named:
  assumes "nt_pton4 nt host = None" "nt_pton6 nt host = None" "nt_gai nt host = Some ais"
    and "pick_rec ais fam cur nxt = Some x"
  obtains v4 v6 where "resolve_addr nt host port cur nxt = Some (v4, v6)"
    "(if fam then v6 else v4) = Some (sa_set_port x port)"
    "(if fam then v4 else v6) = None \<longleftrightarrow> usable (\<not> fam) ais = []"
proof -
  define v4 where "v4 = map_option (\<lambda>a. sa_set_port a port) (pick_rec ais False cur nxt)"
  define v6 where "v6 = map_option (\<lambda>a. sa_set_port a port) (pick_rec ais True cur nxt)"
  have one: "(if fam then v6 else v4) = Some (sa_set_port x port)" using assms(4) by (cases fam) (simp_all add: v4_def v6_def)
  then have "\<not> (v4 = None \<and> v6 = None)" by (auto split: if_splits)
  then have r: "resolve_addr nt host port cur nxt = Some (v4, v6)"
    unfolding resolve_addr_def assms(1-3) option.case Let_def v4_def [symmetric] v6_def [symmetric] by simp
  have "(if fam then v4 else v6) = None \<longleftrightarrow> usable (\<not> fam) ais = []"
    using pick_rec_None [of ais _ cur nxt] by (cases fam) (simp_all add: v4_def v6_def)
  with r one show thesis by (rule that)
qed

lemma dial_order_place:
  assumes "(if fam then v6 else v4) = Some y"
  shows "dial_order p v4 v6 =
    (if (if fam then v4 else v6) = None \<or> fam = p then (Some y, fst (if fam then v4 else v6, ()))
     else (if fam then v4 else v6, Some y))"
  using assms by (cases fam; cases p; cases v4; cases v6) (simp_all add: dial_order_def)

text \<open>
  A first dial with a kept port and a noted address: the record at that address is connected to,
  first or as the other family of the race.
\<close>

lemma dial_remote_keeps:
  assumes "di_keep d" "\<not> di_dead d" "\<not> di_reset d" "di_remote d = Some c" "os_connects os"
    and "nt_pton4 nt (di_host d) = None" "nt_pton6 nt (di_host d) = None" "nt_gai nt (di_host d) = Some ais"
    and "x \<in> set (usable fam ais)" "sa_addr_eq x c"
  shows "\<exists>d' fd x'. dial_remote nt os wo d = Some (d', Some fd) \<and> x' \<in> set (usable fam ais) \<and> sa_addr_eq x' c \<and>
    (if usable (\<not> fam) ais = [] \<or> fam = di_prefer6 d then di_remote d' = Some (sa_set_port x' (di_port d))
     else di_alt d' = Some (sa_set_port x' (di_port d)) \<and> di_fd2 d' \<noteq> None)"
proof -
  obtain x' where x': "pick_rec ais fam (Some c) False = Some x'" "sa_addr_eq x' c"
    using pick_rec_stays [OF assms(9,10)] by blast
  have mem: "x' \<in> set (usable fam ais)" by (rule pick_rec_member [OF x'(1)])
  let ?d = "d\<lparr>di_keep := True, di_dead := False\<rparr>" and ?y = "sa_set_port x' (di_port d)"
  obtain v4 v6 where r: "resolve_addr nt (di_host d) (di_port d) (Some c) False = Some (v4, v6)"
    "(if fam then v6 else v4) = Some ?y" "(if fam then v4 else v6) = None \<longleftrightarrow> usable (\<not> fam) ais = []"
    by (rule resolve_addr_named [OF assms(6-8) x'(1)])
  have dial: "dial_remote nt os wo d = dial_resolved os wo v4 v6 ?d"
    using assms(1,2,4) r(1) by (simp add: dial_remote_def dial_draw_def)
  show ?thesis
  proof (cases "usable (\<not> fam) ais = [] \<or> fam = di_prefer6 d")
    case True
    then have o: "fst (dial_order (di_prefer6 d) v4 v6) = Some ?y" using dial_order_place [OF r(2)] r(3) by simp
    obtain alt where o: "dial_order (di_prefer6 d) v4 v6 = (Some ?y, alt)" using o by (metis prod.collapse)
    obtain d' fd where p: "dial_pair os wo ?y alt ?d = (d', Some fd)" "di_remote d' = Some ?y"
      using dial_pair_connects [OF assms(5)] by blast
    have "dial_remote nt os wo d = Some (d', Some fd)" using dial o p(1) assms(3) by (simp add: dial_resolved_def)
    then show ?thesis using p(2) mem x'(2) True by auto
  next
    case False
    obtain z where z: "(if fam then v4 else v6) = Some z" using False r(3) by (cases "if fam then v4 else v6") auto
    have o: "dial_order (di_prefer6 d) v4 v6 = (Some z, Some ?y)"
      using dial_order_place [OF r(2), of "di_prefer6 d"] z False by simp
    obtain d' fd where p: "dial_pair os wo z (Some ?y) ?d = (d', Some fd)" "di_alt d' = Some ?y" "di_fd2 d' \<noteq> None"
      using dial_pair_connects [OF assms(5), of wo z "Some ?y" ?d] by blast
    have "dial_remote nt os wo d = Some (d', Some fd)" using dial o p(1) assms(3) by (simp add: dial_resolved_def)
    then show ?thesis using p(2,3) mem x'(2) False by auto
  qed
qed

text \<open>
  C34. The endpoint that answered survives a restart.  When the first packet of a connection brings
  its endpoint to the state file, the next run reads the same port and address back if the
  configuration still has the port, and its first dial takes that port without a draw.  When the
  name resolves and still lists the address, and the kernel opens the sockets, that dial connects to
  it: as the primary remote when its family is dialled first, and otherwise (the name has records
  of both families and the address is not of the preferred one, as for an IPv6 endpoint beside
  an IPv4 record without a learned preference for IPv6) on the second socket of the race.
\<close>

theorem warp_endpoint_survives:
  assumes "inet_law nt a" "di_remote d = Some a" "ep_str nt d \<noteq> di_ep d" "di_saved d = 0"
    and "dk_path (di_disk d) \<noteq> []" "STATE_EP_MAX + 2 \<le> w"
    and "di_disk e = di_disk (warp_keep nt (Some w) now d)" "wf_portset (di_ports e)" "portset_has (di_ports e) (di_port d)"
    and "\<not> di_dead e" "\<not> di_reset e" "os_fresh os"
  shows "\<exists>b d' fd. di_remote (warp_restore nt e) = Some b \<and> sa_addr_eq b a \<and>
    dial_remote nt os wo (warp_restore nt e) = Some (d', fd) \<and> di_port d' = di_port d \<and>
    (\<forall>ais x. nt_pton4 nt (di_host e) = None \<and> nt_pton6 nt (di_host e) = None \<and> nt_gai nt (di_host e) = Some ais \<and>
        x \<in> set (usable (sa_v6 a) ais) \<and> sa_addr_eq x a \<and> os_connects os \<longrightarrow>
      fd \<noteq> None \<and>
      (\<exists>y. y \<in> set (usable (sa_v6 a) ais) \<and> sa_addr_eq y a \<and>
        (if usable (\<not> sa_v6 a) ais = [] \<or> sa_v6 a = di_prefer6 e then di_remote d' = Some (sa_set_port y (di_port d))
         else di_alt d' = Some (sa_set_port y (di_port d)) \<and> di_fd2 d' \<noteq> None)))"
proof -
  have ep: "ep_str nt (d\<lparr>di_keep := True\<rparr>) = ep_str nt d" by (simp add: ep_str_def)
  have "di_disk e = fst (state_write (Some w) (di_disk6 d) (ep_str nt d) (di_disk d))"
    using assms(3,4,7) ep by (simp add: warp_keep_def Let_def)
  then have "state_read_ep (di_disk e) STATE_EP_MAX = ep_str nt d"
    using state_write_read(2) [OF assms(5,6) ep_str_fits [OF assms(1,2)]] by simp
  from assms(1,2) this assms(9,8) obtain b where b: "sa_addr_eq b a"
    "warp_restore nt e = e\<lparr>di_remote := Some b, di_port := di_port d, di_keep := True, di_ep := ep_str nt d\<rparr>"
    by (rule warp_restore_endpoint)
  let ?r = "warp_restore nt e"
  have w: "wf_portset (di_ports ?r)" "portset_has (di_ports ?r) (di_port ?r)" using assms(8,9) b(2) by simp_all
  obtain port rng k d' fd where dl: "dial_remote nt os wo ?r = Some (d', fd)"
    "connected (?r\<lparr>di_keep := k, di_dead := False, di_port := port, di_rng := rng\<rparr>) d' fd" "di_keep ?r \<and> \<not> di_dead ?r \<longrightarrow> port = di_port ?r"
    by (rule dial_remote_connected [OF assms(12) w])
  have port: "di_port d' = di_port d" using dl(2,3) b(2) assms(10) by (simp add: connected_def)
  have "fd \<noteq> None \<and> (\<exists>y. y \<in> set (usable (sa_v6 a) ais) \<and> sa_addr_eq y a \<and>
        (if usable (\<not> sa_v6 a) ais = [] \<or> sa_v6 a = di_prefer6 e then di_remote d' = Some (sa_set_port y (di_port d))
         else di_alt d' = Some (sa_set_port y (di_port d)) \<and> di_fd2 d' \<noteq> None))"
    if h: "nt_pton4 nt (di_host e) = None" "nt_pton6 nt (di_host e) = None" "nt_gai nt (di_host e) = Some ais"
      "x \<in> set (usable (sa_v6 a) ais)" "sa_addr_eq x a" "os_connects os" for ais x
  proof -
    have r: "di_keep ?r" "\<not> di_dead ?r" "\<not> di_reset ?r" "di_remote ?r = Some b" "di_host ?r = di_host e"
      "di_port ?r = di_port d" "di_prefer6 ?r = di_prefer6 e"
      using assms(10,11) b(2) by simp_all
    have xb: "sa_addr_eq x b" using h(5) b(1) sa_addr_eq_trans(1) by metis
    from dial_remote_keeps [OF r(1-4) h(6), of nt ais x "sa_v6 a" wo, unfolded r(5-7), OF h(1-4) xb] dl(1)
    obtain y where y: "fd \<noteq> None" "y \<in> set (usable (sa_v6 a) ais)" "sa_addr_eq y b"
      "if usable (\<not> sa_v6 a) ais = [] \<or> sa_v6 a = di_prefer6 e then di_remote d' = Some (sa_set_port y (di_port d))
       else di_alt d' = Some (sa_set_port y (di_port d)) \<and> di_fd2 d' \<noteq> None" by auto
    moreover have "sa_addr_eq y a" using y(3) b(1) sa_addr_eq_trans(2) by metis
    ultimately show ?thesis by blast
  qed
  moreover have "di_remote ?r = Some b" using b(2) by simp
  ultimately show ?thesis using port dl(1) b(1) by (intro exI [of _ b] exI [of _ d'] exI [of _ fd]) blast
qed

text \<open>
  The server answered on port 21 at 2.2.2.2, the second of two IPv4 records; the restarted run
  dials that record and that port.
\<close>

theorem warp_endpoint_survives_witness:
  "\<exists>b d' fd. di_remote (warp_restore example_net (example_dial\<lparr>di_disk := di_disk (warp_keep example_net (Some 70) 5
        (example_dial\<lparr>di_port := 21, di_remote := Some (V4 0x02020202 0x1500)\<rparr>))\<rparr>)) = Some b \<and> sa_addr_eq b (V4 0x02020202 0) \<and>
     dial_remote example_net example_os None (warp_restore example_net (example_dial\<lparr>di_disk := di_disk (warp_keep example_net (Some 70) 5
        (example_dial\<lparr>di_port := 21, di_remote := Some (V4 0x02020202 0x1500)\<rparr>))\<rparr>)) = Some (d', Some fd) \<and> di_port d' = 21 \<and>
     (\<exists>y. di_remote d' = Some y \<and> sa_addr_eq y (V4 0x02020202 0))"
proof -
  let ?a = "V4 0x02020202 0x1500"
  let ?d = "example_dial\<lparr>di_port := 21, di_remote := Some ?a\<rparr>"
  let ?e = "example_dial\<lparr>di_disk := di_disk (warp_keep example_net (Some 70) 5 ?d)\<rparr>"
  have le: "put_le 4 (0x02020202 :: u32) = [2, 2, 2, 2]" by code_simp
  have "get_le (put_le 4 (0x02020202 :: u32)) = (0x02020202 :: u32)" unfolding get_put_le by code_simp
  then have law: "inet_law example_net ?a" unfolding le by (simp add: inet_law_def example_net_def sa_str_def le)
  have h: "di_remote ?d = Some ?a" "ep_str example_net ?d \<noteq> di_ep ?d" "di_saved ?d = 0" "dk_path (di_disk ?d) \<noteq> []"
    "STATE_EP_MAX + 2 \<le> 70" "di_disk ?e = di_disk (warp_keep example_net (Some 70) 5 ?d)"
    "wf_portset (di_ports ?e)" "portset_has (di_ports ?e) (di_port ?d)" "\<not> di_dead ?e" "\<not> di_reset ?e"
    by (simp_all add: ep_str_def example_dial_def STATE_EP_MAX_def wf_portset_def range_size_def portset_has_def)
  have n: "nt_pton4 example_net (di_host ?e) = None" "nt_pton6 example_net (di_host ?e) = None"
    "nt_gai example_net (di_host ?e) = Some example_records" "os_connects example_os" "\<not> sa_v6 ?a" "\<not> di_prefer6 ?e"
    by (simp_all add: example_net_def example_dial_def example_os_def os_connects_def sa_v6_def)
  have x: "V4 0x02020202 0 \<in> set (usable (sa_v6 ?a) example_records)" "sa_addr_eq (V4 0x02020202 0) ?a"
    by (simp_all add: example_records_def rec_usable_def sa_v6_def sa_addr_eq_def cliaddr_len_def)
  have "\<exists>b d' fd. di_remote (warp_restore example_net ?e) = Some b \<and> sa_addr_eq b ?a \<and>
      dial_remote example_net example_os None (warp_restore example_net ?e) = Some (d', fd) \<and> di_port d' = di_port ?d \<and>
      fd \<noteq> None \<and> (\<exists>y. sa_addr_eq y ?a \<and> di_remote d' = Some (sa_set_port y (di_port ?d)))"
    using warp_endpoint_survives [OF law h example_os_fresh, where wo = None]
    by (elim exE conjE allE [of _ example_records] allE [of _ "V4 0x02020202 0"] impE)
      (use n x in \<open>simp only: simp_thms if_True if_False\<close>, use n in \<open>simp only: simp_thms if_True if_False, blast\<close>)
  then obtain b d' fd where r: "di_remote (warp_restore example_net ?e) = Some b" "sa_addr_eq b ?a"
    "dial_remote example_net example_os None (warp_restore example_net ?e) = Some (d', fd)" "di_port d' = di_port ?d"
    and y: "fd \<noteq> None \<and> (\<exists>y. sa_addr_eq y ?a \<and> di_remote d' = Some (sa_set_port y (di_port ?d)))" by blast
  obtain n y where y: "fd = Some n" "sa_addr_eq y ?a" "di_remote d' = Some (sa_set_port y (di_port ?d))" using y by blast
  have eq: "sa_addr_eq x ?a = sa_addr_eq x (V4 0x02020202 0)" for x by (simp add: sa_addr_eq_def split: cliaddr.splits)
  have "sa_addr_eq (sa_set_port y (di_port ?d)) (V4 0x02020202 0)"
    using y(2) eq by (simp add: sa_addr_eq_def sa_set_port_def split: cliaddr.splits)
  with r y eq show ?thesis by (intro exI [of _ b] exI [of _ d'] exI [of _ n]) simp
qed

section \<open>The wear on the flash\<close>

fun packet_times :: "(nat option \<times> conn_op) list \<Rightarrow> nat list" where
  "packet_times [] = []"
| "packet_times ((wo, First_packet nt now) # xs) = unat now # packet_times xs"
| "packet_times (_ # xs) = packet_times xs"

text \<open>How many more writes of the endpoint can come until \<open>t1\<close>, from a moment \<open>t\<close>.\<close>

definition budget :: "nat \<Rightarrow> nat \<Rightarrow> u64 \<Rightarrow> nat" where
  "budget t1 t saved = (if saved = 0 then 1 + (t1 - t) div 3600000 else (t1 - unat saved) div 3600000)"

lemma or_1_bounds:
  assumes "unat (now :: u64) < 2 ^ 63"
  shows "unat now \<le> unat (now OR 1)" "unat (now OR 1) \<le> unat now + 1" "now OR 1 \<noteq> 0"
proof -
  have "now OR 1 = now + of_bool (even now)" by (rule or_one_eq)
  moreover have "unat (now + 1) = unat now + 1" using assms by (subst unat_plus_if') simp
  ultimately show "unat now \<le> unat (now OR 1)" "unat (now OR 1) \<le> unat now + 1" by simp_all
  show "now OR 1 \<noteq> 0" by (metis bit_0 bit_0_eq bit_or_iff bit_1_0 bot_apply bot_bool_def)
qed

lemma budget_mono: "t \<le> t' \<Longrightarrow> budget t1 t' s \<le> budget t1 t s"
  by (simp add: budget_def div_le_mono)

lemma budget_spend:
  assumes "saved = 0 \<or> 3600000 \<le> now - saved" "saved = 0 \<or> unat saved \<le> unat now" "t \<le> unat now" "unat now \<le> t1" "t1 < 2 ^ 63"
  shows "1 + budget t1 t' (now OR 1) \<le> budget t1 t saved"
proof -
  note o = or_1_bounds [of now] 
  have n: "unat now < 2 ^ 63" using assms(4,5) by simp
  have b: "budget t1 t' (now OR 1) = (t1 - unat (now OR 1)) div 3600000" using o(3) [OF n] by (simp add: budget_def)
  show ?thesis
  proof (cases "saved = 0")
    case True
    have "(t1 - unat (now OR 1)) div 3600000 \<le> (t1 - t) div 3600000" using o(1) [OF n] assms(3) by (intro div_le_mono) simp
    then show ?thesis using True b by (simp add: budget_def)
  next
    case False
    have le: "unat saved \<le> unat now" using False assms(2) by simp
    then have "unat (now - saved) = unat now - unat saved" by (simp add: unat_sub word_le_nat_alt)
    then have g: "unat saved + 3600000 \<le> unat now" using False assms(1) le by (simp add: word_le_nat_alt)
    have "(t1 - unat (now OR 1)) div 3600000 \<le> (t1 - unat saved - 3600000) div 3600000"
      using o(1) [OF n] g by (intro div_le_mono) simp
    moreover have "(t1 - unat saved) div 3600000 = 1 + (t1 - unat saved - 3600000) div 3600000"
      using g assms(4) by (subst le_div_geq) simp_all
    ultimately show ?thesis using False b by (simp add: budget_def)
  qed
qed

definition writes :: "dial \<Rightarrow> nat" where
  "writes d = dk_writes (di_disk d) + of_bool (\<not> di_written d)"

lemma flash_wear_from:
  assumes "dial_inv d" "\<forall>(wo, x) \<in> set xs. case x of Redial nt os \<Rightarrow> os_fresh os | _ \<Rightarrow> True"
    and "sorted_wrt (<) (packet_times xs)" "\<forall>u \<in> set (packet_times xs). t \<le> u \<and> u \<le> t1" "t1 < 2 ^ 63"
    and "di_saved d = 0 \<or> unat (di_saved d) \<le> t" "conn_run xs d = Some d'"
  shows "writes d' \<le> writes d + budget t1 t (di_saved d)"
  using assms(1-4,6,7)
proof (induction xs arbitrary: d t)
  case (Cons y xs)
  obtain wo x where y: "y = (wo, x)" by fastforce
  have f: "case x of Redial nt os \<Rightarrow> os_fresh os | _ \<Rightarrow> True" "\<forall>(wo, x) \<in> set xs. case x of Redial nt os \<Rightarrow> os_fresh os | _ \<Rightarrow> True"
    using Cons.prems(2) y by simp_all
  obtain d1 where d1: "conn_step wo x d = Some d1" "dial_inv d1" by (rule conn_step_ok [OF Cons.prems(1) f(1)])
  have run: "conn_run xs d1 = Some d'" using Cons.prems(6) y d1(1) by simp
  note IH = Cons.IH [OF d1(2) f(2) _ _ _ run]
  have same: ?case if "writes d1 \<le> writes d" "di_saved d1 = di_saved d" "packet_times (y # xs) = packet_times xs"
    using IH [of t] Cons.prems(3-5) that by fastforce
  show ?case
  proof (cases x)
    case (Silent reset)
    then show ?thesis using d1(1) y by (intro same) (auto simp: writes_def)
  next
    case (Redial nt os)
    have fr: "os_fresh os" using f(1) Redial by simp
    obtain d2 fd where r: "dial_again nt os wo d = Some (d2, fd)" "di_saved d2 = di_saved d"
      "dk_writes (di_disk d2) + of_bool (\<not> di_written d2) \<le> dk_writes (di_disk d) + of_bool (\<not> di_written d)"
      by (rule dial_again_ok [OF fr Cons.prems(1)])
    then show ?thesis using d1(1) Redial y by (intro same) (auto simp: writes_def)
  next
    case (Probe_done use_alt learn)
    then show ?thesis using d1(1) y he_finish_ok(3,5) [OF Cons.prems(1), of wo use_alt learn] by (intro same) (auto simp: writes_def)
  next
    case (First_packet nt now)
    have tm: "t \<le> unat now" "unat now \<le> t1" "sorted_wrt (<) (packet_times xs)" "\<forall>u \<in> set (packet_times xs). unat now + 1 \<le> u \<and> u \<le> t1"
      using Cons.prems(3,4) y First_packet by (auto simp: Suc_le_eq)
    have n: "unat now < 2 ^ 63" using tm(2) assms(5) by simp
    have d1e: "d1 = warp_keep nt wo now d" using d1(1) First_packet by simp
    show ?thesis
    proof (rule warp_keep_eq [of nt wo now d])
      assume e: "warp_keep nt wo now d = d\<lparr>di_keep := True\<rparr>"
      then have "writes d1 = writes d" "di_saved d1 = di_saved d" using d1e by (simp_all add: writes_def)
      moreover have "budget t1 (unat now + 1) (di_saved d) \<le> budget t1 t (di_saved d)" using tm(1) by (intro budget_mono) simp
      ultimately show ?thesis using IH [OF tm(3,4)] Cons.prems(5) tm(1) by fastforce
    next
      fix k
      assume e: "warp_keep nt wo now d = d\<lparr>di_keep := True, di_saved := now OR 1, di_ep := ep_str nt d, di_disk := k\<rparr>"
        "di_saved d = 0 \<or> 3600000 \<le> now - di_saved d" "dk_writes k \<le> dk_writes (di_disk d) + 1"
      have "writes d1 \<le> writes d + 1" "di_saved d1 = now OR 1" using e(1,3) d1e by (simp_all add: writes_def)
      moreover have "1 + budget t1 (unat now + 1) (now OR 1) \<le> budget t1 t (di_saved d)"
        using e(2) Cons.prems(5) tm(1,2) assms(5) by (intro budget_spend) auto
      ultimately show ?thesis using IH [OF tm(3,4)] or_1_bounds(2) [OF n] by fastforce
    qed
  qed
qed (simp add: writes_def)

text \<open>
  The router's flash.  However the link flaps, the state file is written at most once for the
  family, once for the first endpoint, and once an hour for endpoints after it; the first
  packets of connections are at least a millisecond apart.
\<close>

theorem flash_wear:
  assumes "dial_inv d" "\<forall>(wo, x) \<in> set xs. case x of Redial nt os \<Rightarrow> os_fresh os | _ \<Rightarrow> True" "di_saved d = 0"
    and "sorted_wrt (<) (packet_times xs)" "\<forall>u \<in> set (packet_times xs). t0 \<le> u \<and> u \<le> t1" "t1 < 2 ^ 63"
    and "conn_run xs d = Some d'"
  shows "dk_writes (di_disk d') \<le> dk_writes (di_disk d) + 2 + (t1 - t0) div 3600000"
  using flash_wear_from [OF assms(1,2,4-6) _ assms(7)] assms(3)
  by (cases "di_written d"; cases "di_written d'") (simp_all add: writes_def budget_def)

theorem flash_wear_witness:
  "\<exists>d'. conn_run [(Some 70, Redial example_net example_os), (Some 70, First_packet example_net 1000),
      (None, Silent False), (Some 70, Redial example_net example_os), (Some 70, First_packet example_net 60000)] example_dial = Some d' \<and>
    dk_writes (di_disk d') \<le> 2"
proof -
  let ?xs = "[(Some 70, Redial example_net example_os), (Some 70, First_packet example_net 1000),
      (None, Silent False), (Some 70, Redial example_net example_os), (Some 70, First_packet example_net 60000)]"
  have f: "\<forall>(wo, x) \<in> set ?xs. case x of Redial nt os \<Rightarrow> os_fresh os | _ \<Rightarrow> True" using example_os_fresh by simp
  obtain d' where r: "conn_run ?xs example_dial = Some d'" by (rule conn_run_ok [OF example_dial_inv f])
  have "packet_times ?xs = [1000, 60000]" by simp
  then have t: "sorted_wrt (<) (packet_times ?xs)" "\<forall>u \<in> set (packet_times ?xs). 1000 \<le> u \<and> u \<le> 60000" by simp_all
  have "dk_writes (di_disk d') \<le> dk_writes (di_disk example_dial) + 2 + (60000 - 1000) div 3600000"
    by (rule flash_wear [OF example_dial_inv f _ t _ r]) (simp_all add: example_dial_def)
  then have "dk_writes (di_disk d') \<le> 2" by (simp add: example_dial_def)
  with r show ?thesis by (intro exI conjI)
qed

section \<open>The pace of the probe\<close>

lemma sint64_small:
  assumes "uint (x :: u64) < 2 ^ 63"
  shows "sint x = uint x"
proof -
  have "signed_take_bit 63 (uint x) = uint x"
    by (rule signed_take_bit_int_eq_self) (use assms unsigned_greater_eq [of x, where 'a = int] in linarith)+
  then show ?thesis by (simp add: sint_uint)
qed

lemma sint_diff:
  assumes "unat (a :: u64) < 2 ^ 63" "unat (b :: u64) < 2 ^ 63"
  shows "sint (a - b) = int (unat a) - int (unat b)"
proof -
  have u: "uint a < 2 ^ 63" "uint b < 2 ^ 63" 
    using assms [folded of_nat_less_iff [where 'a = int]] by simp_all
  have "sint (a - b) = signed_take_bit 63 (uint a - uint b)" unfolding word_sub_wi [of a b] signed_of_int by simp
  also have "\<dots> = uint a - uint b"
    using u unsigned_greater_eq [of a, where 'a = int] unsigned_greater_eq [of b, where 'a = int]
    by (intro signed_take_bit_int_eq_self) linarith+
  finally show ?thesis by simp
qed

text \<open>The replays happen in order, each at least \<open>e0\<close> after the one before.\<close>

definition spaced :: "int \<Rightarrow> nat list \<Rightarrow> bool" where
  "spaced e0 ts \<longleftrightarrow> (\<forall>i. Suc i < length ts \<longrightarrow> int (ts ! i) + e0 \<le> int (ts ! Suc i))"

lemma spaced_simps [simp]:
  "spaced e0 []" "spaced e0 [t]" "spaced e0 (t # u # ts) \<longleftrightarrow> int t + e0 \<le> int u \<and> spaced e0 (u # ts)"
proof -
  show "spaced e0 (t # u # ts) \<longleftrightarrow> int t + e0 \<le> int u \<and> spaced e0 (u # ts)"
    unfolding spaced_def by (auto simp: nth_Cons' less_Suc_eq_0_disj split: if_splits)
qed (simp_all add: spaced_def)

lemma spaced_total: "spaced e0 (t # ts) \<Longrightarrow> int t + e0 * int (length ts) \<le> int (last (t # ts))"
  by (induction ts arbitrary: t) (fastforce simp: algebra_simps)+

lemma he_turn_every:
  assumes "he_turn first ev t pb = Again pb' s" "0 < pb_every pb"
  shows "pb_every pb \<le> pb_every pb'" "pb_every pb' \<le> max (pb_every pb) HE_PROBE_SLOW_MS"
    "s \<noteq> None \<Longrightarrow> pb_last pb' = tu_now2 t \<and> pb_replayed pb' \<and> he_due first pb \<le> he_since pb (tu_now2 t) (tu_stash2 t) \<and>
       s = Some (sh_pkt (tu_stash2 t)) \<and> sh_sent (tu_stash2 t)"
    "s = None \<Longrightarrow> pb_last pb' = pb_last pb \<and> pb_replayed pb' = pb_replayed pb"
  using assms by (auto simp: he_turn_def HE_PROBE_SLOW_MS_def split: if_splits polled.splits)

lemma he_loop_spaced:
  assumes "he_loop first ev ts pb = (r, out)" "0 < e0" "e0 \<le> pb_every pb" "pb_replayed pb \<Longrightarrow> unat (pb_last pb) < 2 ^ 63"
    and "\<forall>t \<in> set ts. unat (tu_now2 t) < 2 ^ 63"
  shows "spaced e0 ((if pb_replayed pb then [unat (pb_last pb)] else []) @ map (unat \<circ> fst) out)"
  using assms
proof (induction ts arbitrary: pb r out)
  case (Cons t ts)
  show ?case
  proof (cases "he_turn first ev t pb")
    case (Ended use_alt learn)
    then show ?thesis using Cons.prems(1) by auto
  next
    case (Again pb' s)
    obtain r' out' where l: "he_loop first ev ts pb' = (r', out')" by fastforce
    have pos: "0 < pb_every pb" using Cons.prems(2,3) by simp
    note tn = he_turn_every [OF Again pos]
    have e: "e0 \<le> pb_every pb'" using tn(1) Cons.prems(3) by simp
    have o: "out = (case s of None \<Rightarrow> [] | Some b \<Rightarrow> [(tu_now2 t, b)]) @ out'" using Cons.prems(1) Again l by simp
    show ?thesis
    proof (cases s)
      case None
      then have k: "pb_last pb' = pb_last pb" "pb_replayed pb' = pb_replayed pb" using tn(4) by simp_all
      show ?thesis using Cons.IH [OF l Cons.prems(2) e] Cons.prems(4,5) None o unfolding k by simp
    next
      case (Some b)
      have a: "pb_last pb' = tu_now2 t" "pb_replayed pb'" "he_due first pb \<le> he_since pb (tu_now2 t) (tu_stash2 t)" using tn(3) Some by auto
      have n: "unat (tu_now2 t) < 2 ^ 63" using Cons.prems(5) by simp
      have sp: "spaced e0 (unat (tu_now2 t) # map (unat \<circ> fst) out')"
        using Cons.IH [OF l Cons.prems(2) e] Cons.prems(5) a n by (simp add: comp_def)
      show ?thesis
      proof (cases "pb_replayed pb")
        case True
        then have "pb_every pb \<le> int (unat (tu_now2 t)) - int (unat (pb_last pb))"
          using a(3) sint_diff [OF n Cons.prems(4)] by (simp add: he_due_def he_since_def)
        then show ?thesis using True sp o Some Cons.prems(3) by (simp add: comp_def)
      qed (use sp o Some in \<open>simp add: comp_def\<close>)
    qed
  qed
qed auto

text \<open>
  The pace of the probe.  With any delay configured the replays of the probe are at least that
  delay apart (a quarter of a second where it is zero), so a path that never answers costs at
  most one datagram per delay; and no wait of the probe is negative, longer than the longest
  pause between replays, or past the end of its window.
\<close>

theorem he_probe_pace:
  assumes "he_loop (he_first delay) ev ts (he_start delay now) = (r, out)" "\<forall>t \<in> set ts. unat (tu_now2 t) < 2 ^ 63"
  shows "spaced (he_every delay) (map (unat \<circ> fst) out) \<and>
    (out \<noteq> [] \<longrightarrow> he_every delay * int (length out - 1) \<le> int (unat (fst (last out))) - int (unat (fst (hd out)))) \<and>
    (\<forall>first pb t. tu_now t - pb_start pb < HE_PROBE_MAX_MS \<and> 0 < pb_every pb \<longrightarrow>
       0 \<le> he_wait first ev t pb \<and> he_wait first ev t pb \<le> max 1000 (pb_every pb) \<and>
       uint (tu_now t - pb_start pb) + he_wait first ev t pb \<le> uint HE_PROBE_MAX_MS)"
proof (intro conjI)
  have "0 < he_every delay" by (simp add: he_every_def)
  then show sp: "spaced (he_every delay) (map (unat \<circ> fst) out)"
    using he_loop_spaced [OF assms(1), of "he_every delay"] assms(2) by (simp add: he_start_def)
  show "out \<noteq> [] \<longrightarrow> he_every delay * int (length out - 1) \<le> int (unat (fst (last out))) - int (unat (fst (hd out)))"
    using sp spaced_total [of "he_every delay" "unat (fst (hd out))" "map (unat \<circ> fst) (tl out)"]
    by (cases out) (auto simp: last_map split: if_splits)
  show "\<forall>first pb t. tu_now t - pb_start pb < HE_PROBE_MAX_MS \<and> 0 < pb_every pb \<longrightarrow>
       0 \<le> he_wait first ev t pb \<and> he_wait first ev t pb \<le> max 1000 (pb_every pb) \<and>
       uint (tu_now t - pb_start pb) + he_wait first ev t pb \<le> uint HE_PROBE_MAX_MS"
  proof (intro allI impI, elim conjE)
    fix first and pb :: probe and t :: turn
    assume a: "tu_now t - pb_start pb < HE_PROBE_MAX_MS" "0 < pb_every pb"
    have u: "uint (tu_now t - pb_start pb) < 15000" using a(1) by (simp add: HE_PROBE_MAX_MS_def word_less_alt)
    then have s: "sint (tu_now t - pb_start pb) = uint (tu_now t - pb_start pb)"
      by (intro sint64_small) simp
    show "0 \<le> he_wait first ev t pb \<and> he_wait first ev t pb \<le> max 1000 (pb_every pb) \<and>
       uint (tu_now t - pb_start pb) + he_wait first ev t pb \<le> uint HE_PROBE_MAX_MS"
      using a(2) u unfolding he_wait_def s Let_def HE_PROBE_MAX_MS_def by auto
  qed
qed

text \<open>Two silent turns of 300 ms and one that stops the probe.\<close>

definition quiet_turn :: "u64 \<Rightarrow> turn" where
  "quiet_turn ms = \<lparr>tu_stop = False, tu_now = ms, tu_stash = \<lparr>sh_sent = True, sh_pkt = [1, 2], sh_ms = 100\<rparr>,
     tu_poll = (\<lambda>_. Poll_events 0 0 0), tu_now2 = ms + 300, tu_stash2 = \<lparr>sh_sent = True, sh_pkt = [1, 2], sh_ms = 100\<rparr>\<rparr>"

definition quiet_turns :: "turn list" where
  "quiet_turns = [quiet_turn 100, quiet_turn 400, (quiet_turn 700)\<lparr>tu_stop := True\<rparr>]"

lemma quiet_loop:
  "he_loop (he_first 250) True quiet_turns (he_start 250 100) = (Some (False, False), [(400, [1, 2]), (700, [1, 2])])"
proof -
  have s: "sint (300 :: u64) = 300" by (intro trans [OF sint64_small]) simp_all
  show ?thesis by (simp add: quiet_turns_def quiet_turn_def he_turn_def he_start_def he_first_def he_every_def he_heard_def
      he_since_def he_due_def HE_PROBE_MAX_MS_def s)
qed

theorem he_probe_pace_witness:
  "he_loop (he_first 250) True quiet_turns (he_start 250 100) = (Some (False, False), [(400, [1, 2]), (700, [1, 2])]) \<and>
   spaced (he_every 250) (map (unat \<circ> fst) [(400 :: u64, [1 :: u8, 2]), (700, [1, 2])])"
proof -
  have "\<forall>t \<in> set quiet_turns. unat (tu_now2 t) < 2 ^ 63" by (simp add: quiet_turns_def quiet_turn_def)
  from he_probe_pace [OF quiet_loop this] quiet_loop show ?thesis by blast
qed

lemma he_loop_verdict:
  "(\<forall>use_alt learn out. he_loop first ev ts pb = (Some (use_alt, learn), out) \<longrightarrow>
      (use_alt \<longrightarrow> learn) \<and>
      (learn \<longrightarrow> (\<exists>t \<in> set ts. \<exists>w r0 r1 r2. tu_poll t w = Poll_events r0 r1 r2 \<and> (r0 \<noteq> 0 \<or> r1 \<noteq> 0) \<and>
         (use_alt \<longleftrightarrow> r0 AND POLLIN = 0 \<and> (r1 AND POLLIN \<noteq> 0 \<or> r0 \<noteq> 0))))) \<and>
   ((\<exists>t \<in> set ts. tu_stop t) \<longrightarrow> fst (he_loop first ev ts pb) \<noteq> None)"
proof (induction ts arbitrary: pb)
  case (Cons t ts)
  show ?case
  proof (cases "he_turn first ev t pb")
    case (Ended a l)
    have "a \<longrightarrow> l" "l \<longrightarrow> (\<exists>w r0 r1 r2. tu_poll t w = Poll_events r0 r1 r2 \<and> (r0 \<noteq> 0 \<or> r1 \<noteq> 0) \<and>
         (a \<longleftrightarrow> r0 AND POLLIN = 0 \<and> (r1 AND POLLIN \<noteq> 0 \<or> r0 \<noteq> 0)))"
      using Ended by (fastforce simp: he_turn_def he_heard_def he_verdict_def Let_def split: if_splits polled.splits)+
    then show ?thesis using Ended by auto
  next
    case (Again pb' s)
    then have "\<not> tu_stop t" by (auto simp: he_turn_def)
    then show ?thesis using Cons.IH [of pb'] Again by (auto split: prod.splits)
  qed
qed simp

text \<open>
  C33. What the probe may conclude.  It learns a family only from a socket that reported something,
  and it changes over only if the first socket did not bring a packet, while the other did or
  the first reported an error; cut short by a stop, a reconnect or a failing \<open>poll\<close>, or with
  nothing to replay, it keeps the first and learns nothing.  A stop ends it.
\<close>

theorem he_probe_verdict:
  "(\<forall>use_alt learn out. he_loop first ev ts pb = (Some (use_alt, learn), out) \<longrightarrow>
      (use_alt \<longrightarrow> learn) \<and>
      (learn \<longrightarrow> (\<exists>t \<in> set ts. \<exists>w r0 r1 r2. tu_poll t w = Poll_events r0 r1 r2 \<and> (r0 \<noteq> 0 \<or> r1 \<noteq> 0) \<and>
         (use_alt \<longleftrightarrow> r0 AND POLLIN = 0 \<and> (r1 AND POLLIN \<noteq> 0 \<or> r0 \<noteq> 0))))) \<and>
   ((\<exists>t \<in> set ts. tu_stop t) \<longrightarrow> fst (he_loop first ev ts pb) \<noteq> None) \<and>
   (\<forall>d' out. (\<forall>t \<in> set ts. \<forall>w r0 r1 r2. tu_poll t w = Poll_events r0 r1 r2 \<longrightarrow> r0 = 0 \<and> r1 = 0) \<and>
      he_probe wo delay ev now ts d = (Some d', out) \<longrightarrow>
      di_prefer6 d' = di_prefer6 d \<and> di_disk d' = di_disk d \<and> di_remote d' = di_remote d \<and> di_fd d' = di_fd d)"
proof -
  have "di_prefer6 d' = di_prefer6 d \<and> di_disk d' = di_disk d \<and> di_remote d' = di_remote d \<and> di_fd d' = di_fd d"
    if q: "\<forall>t \<in> set ts. \<forall>w r0 r1 r2. tu_poll t w = Poll_events r0 r1 r2 \<longrightarrow> r0 = 0 \<and> r1 = 0"
      and p: "he_probe wo delay ev now ts d = (Some d', out)" for d' out
  proof (cases "di_fd d = None \<or> di_fd2 d = None")
    case True
    then show ?thesis using p by (auto simp: he_probe_def)
  next
    case False
    obtain r o1 where l: "he_loop (he_first delay) ev ts (he_start delay now) = (r, o1)" by fastforce
    then obtain a b where r: "r = Some (a, b)" "d' = he_finish wo a b d" using p False by (auto simp: he_probe_def)
    have "\<not> b" "\<not> a" using he_loop_verdict [of "he_first delay" ev ts "he_start delay now"] l r(1) q by fastforce+
    then show ?thesis using r(2) False by (auto simp: he_finish_def Let_def)
  qed
  then show ?thesis using he_loop_verdict [of first ev ts pb] by blast
qed

theorem he_probe_verdict_witness:
  "fst (he_loop (he_first 250) True quiet_turns (he_start 250 100)) = Some (False, False) \<and>
   (\<exists>d' out. he_probe None 250 True 100 quiet_turns (example_dial\<lparr>di_fd := Some 3, di_fd2 := Some 4\<rparr>) = (Some d', out) \<and>
      \<not> di_prefer6 d' \<and> di_fd d' = Some 3)"
proof -
  let ?d = "example_dial\<lparr>di_fd := Some 3, di_fd2 := Some 4\<rparr>"
  have q: "\<forall>t \<in> set quiet_turns. \<forall>w r0 r1 r2. tu_poll t w = Poll_events r0 r1 r2 \<longrightarrow> r0 = 0 \<and> r1 = 0"
    by (simp add: quiet_turns_def quiet_turn_def)
  obtain d' out where p: "he_probe None 250 True 100 quiet_turns ?d = (Some d', out)" by (simp add: he_probe_def quiet_loop)
  have "di_prefer6 d' = di_prefer6 ?d \<and> di_disk d' = di_disk ?d \<and> di_remote d' = di_remote ?d \<and> di_fd d' = di_fd ?d"
    using he_probe_verdict [of "he_first 250" True quiet_turns "he_start 250 100" None 250 100 ?d] q p by blast
  then show ?thesis using p quiet_loop by (simp add: example_dial_def)
qed

section \<open>A verdict lost\<close>

text \<open>
  The main loop's verdict that the server went silent is consumed by the dial it causes, even if
  that dial fails at the resolver.  The next dial then stays on the silent server while it is
  listed, instead of handing over to the next one.
\<close>

theorem silence_forgotten_by_failed_lookup:
  assumes "dial_inv d" "nt_pton4 nt (di_host d) = None" "nt_pton6 nt (di_host d) = None" "nt_gai nt (di_host d) = None"
    and "di_dead d" "di_remote d = Some c" "x \<in> set (usable fam ais)" "sa_addr_eq x c"
  shows "\<exists>d1 y. dial_remote nt os wo d = Some (d1, None) \<and> \<not> di_dead d1 \<and>
    pick_rec ais fam (di_remote d1) (di_dead d1) = Some y \<and> sa_addr_eq y c"
proof -
  have w: "wf_portset (di_ports d)" "portset_has (di_ports d) (di_port d)" using assms(1) by (simp_all add: dial_inv_def)
  obtain port rng k where dr: "dial_draw d = Some (d\<lparr>di_keep := k, di_dead := False, di_port := port, di_rng := rng\<rparr>)"
    by (rule dial_draw_ok [OF w])
  have r: "dial_remote nt os wo d = Some (d\<lparr>di_keep := k, di_dead := False, di_port := port, di_rng := rng\<rparr>, None)"
    using dr assms(2-4) by (simp add: dial_remote_def resolve_addr_def)
  obtain y where "pick_rec ais fam (Some c) False = Some y" "sa_addr_eq y c"
    using pick_rec_stays [OF assms(7,8)] by blast
  then show ?thesis using r assms(6) by simp
qed

end
