(* ===== verification/Proxy_Init.thy ===== *)
theory Proxy_Init
  imports Dial Watchdog
begin

text \<open>
  Building the proxy, from \<open>proxy_init\<close> of \<^verbatim>\<open>src/src/proxy.c\<close>: the client-facing address, the
  server's ports, where Cloudflare WARP or the state file steer the first dial, whether ports
  rotate, the random generators, the junk buffers, the rings of H4 values and the layout of the
  packet buffers.  The theorem shows that a validated configuration with readable addresses
  yields a state that satisfies the invariants the data paths, the dialling and the rotation
  start from, with the headroom of the buffers in the direction that adds padding.
\<close>

section \<open>Pieces\<close>

text \<open>
  \<open>warp_pub\<close> is the public key every WARP configuration names.  A host of \<open>AWG_LISTEN\<close> that is no
  IPv6 literal is an IPv4 address, or any address.
\<close>

definition warp_pub :: bytes where
  "warp_pub =
     [0x6e, 0x65, 0xce, 0x0b, 0xe1, 0x75, 0x17, 0x11, 0x0c, 0x17, 0xd7, 0x72, 0x88, 0xad, 0x87, 0xe7,
      0xfd, 0x52, 0x52, 0xdc, 0xc7, 0xd0, 0x9b, 0x95, 0xa3, 0x9d, 0x61, 0xdb, 0x03, 0xdf, 0x83, 0x2a]"

definition listen_address :: "net \<Rightarrow> bytes \<Rightarrow> u16 \<Rightarrow> cliaddr" where
  "listen_address nt host port =
     (case if host = [] then None else nt_pton6 nt host of
        Some a \<Rightarrow> V6 a (htons port) 0
      | None \<Rightarrow> V4 (case if host = [] then None else nt_pton4 nt host of Some a \<Rightarrow> a | None \<Rightarrow> 0) (htons port))"

datatype init_error = Invalid_config cfg_error | Bad_listen | Bad_remote | Bad_junk

text \<open>The rotation: only towards a server with several ports, and never for WARP.\<close>

definition rot_wanted :: "awg_config \<Rightarrow> awg_tuning \<Rightarrow> bool \<Rightarrow> portset \<Rightarrow> bool" where
  "rot_wanted cfg t warp ps \<longleftrightarrow>
     (t_rot_t_lo t \<noteq> 0 \<or> t_rot_mb_lo t \<noteq> 0) \<and> \<not> warp \<and> c_mode cfg = AWG_MODE_NORMAL \<and> \<not> ps_total ps < 2"

text \<open>
  Forty bytes of entropy: eight for the generators' seed (little-endian), 32 for the key of the
  junk.  \<open>ent\<close> is what \<open>/dev/urandom\<close> delivers, \<open>fb\<close> the seed the code makes up from an address
  and the time when it does not.
\<close>

definition init_entropy :: "bytes option \<Rightarrow> u64 \<Rightarrow> bytes" where
  "init_entropy ent fb =
     (case ent of
        Some e \<Rightarrow> if length e = 40 then e else fst (fastrand_fill (fastrand_init fb) 40)
      | None \<Rightarrow> fst (fastrand_fill (fastrand_init fb) 40))"

definition init_random :: "bytes \<Rightarrow> proxy \<Rightarrow> proxy" where
  "init_random e p =
     (let seed = get_le (take 8 e)
      in p\<lparr>px_rng := fastrand_init seed, px_rng_c2s := fastrand_init (seed XOR 0x9E3779B97F4A7C15),
           px_rng_s2c := fastrand_init (seed XOR 0xBF58476D1CE4E5B9),
           px_cs_c2s := csprng_init (drop 8 e) 1, px_cs_s2c := csprng_init (drop 8 e) 2\<rparr>)"

text \<open>The junk buffer, from \<open>malloc\<close>; none is allocated when no junk is configured.\<close>

definition init_junk :: "nat \<Rightarrow> (nat \<Rightarrow> bytes option) \<Rightarrow> awg_config \<Rightarrow> bytes option" where
  "init_junk size_max malloc cfg =
     (if c_jc cfg > 0 \<and> c_jmax cfg > 0
      then do { (junk_bytes, sizes_bytes) \<leftarrow> junk_layout_sizes size_max cfg;
                buf \<leftarrow> malloc junk_bytes;
                sizes \<leftarrow> malloc sizes_bytes;
                Some buf }
      else Some [])"

text \<open>
  The buffers of a batch: every packet is received \<open>headroom\<close> bytes into its buffer, up to a
  length; each buffer is \<open>BUF_SIZE + AWG_PACKET_HEADROOM\<close> long.
\<close>

record layout =
  la_c2s_headroom :: int
  la_c2s_len :: int
  la_s2c_headroom :: int
  la_s2c_len :: int

definition init_layout :: "awg_config \<Rightarrow> layout" where
  "init_layout cfg =
     (let c2s = (if c_mode cfg = AWG_MODE_NORMAL then c_max_s4 cfg else 0);
          s2c = (if c_mode cfg = AWG_MODE_NORMAL then 0 else c_max_s4 cfg)
      in \<lparr>la_c2s_headroom = c2s, la_c2s_len = int BUF_SIZE, la_s2c_headroom = s2c, la_s2c_len = int BUF_SIZE + 256 - s2c\<rparr>)"

section \<open>The whole of it\<close>

text \<open>
  What \<open>proxy_init\<close> leaves behind.  \<open>rng_s2c\<close> is also the generator the dial draws its ports
  from, so it appears in both parts.
\<close>

record boot =
  bo_px :: proxy
  bo_dial :: dial
  bo_listen :: cliaddr
  bo_warp :: bool
  bo_rot_on :: bool
  bo_rot_soft :: bool
  bo_rot :: "rot_cfg option"
  bo_auto_src :: bool
  bo_gso_ok :: bool
  bo_layout :: layout

definition zero_proxy :: "awg_config \<Rightarrow> bool \<Rightarrow> proxy" where
  "zero_proxy cfg v6 =
     \<lparr>px_cfg = cfg, px_h4_ring = replicate 4 (replicate H4_RING_SIZE 0), px_h4_idx = replicate 4 0,
      px_rng = 0, px_rng_c2s = 0, px_rng_s2c = 0,
      px_cs_c2s = \<lparr>cs_key = replicate 32 0, cs_nonce = replicate 12 0, cs_ctr = 0\<rparr>,
      px_cs_s2c = \<lparr>cs_key = replicate 32 0, cs_nonce = replicate 12 0, cs_ctr = 0\<rparr>,
      px_cps_counter = 0, px_junk_buf = [], px_prof_cache = replicate 64 \<lparr>pc_key = 0, pc_prof = 0\<rparr>,
      px_sessions = empty_sessions, px_listen_v6 = v6, px_has_client = False, px_client_addr = V4 0 0,
      px_client_init = False, px_fe_init_seen = False, px_fe_init_sent = False, px_fe_resp_received = False,
      px_fe_resp_sent = False, px_fe_transport_c2s = False, px_fe_transport_s2c = False\<rparr>"

definition init_dial :: "awg_tuning \<Rightarrow> disk \<Rightarrow> bytes \<Rightarrow> portset \<Rightarrow> int \<Rightarrow> bool \<Rightarrow> fastrand \<Rightarrow> nat list \<Rightarrow> dial" where
  "init_dial t k host ps src_port rot_on rng opn =
     \<lparr>di_host = host, di_ports = ps, di_port = fst (hd (ps_r ps)), di_rng = rng,
      di_local = (if src_port > 0 then src_port else 0), di_rot_on = rot_on,
      di_rb = (if t_socket_buf_auto t then 212992 else t_socket_buf t), di_sndbuf = t_socket_buf t,
      di_busy = t_busy_poll t, di_no_df = (t_no_df t \<noteq> 0), di_keep = False, di_dead = False, di_reset = False,
      di_prefer6 = state_read_prefer6 k, di_written = False, di_disk6 = state_read_prefer6 k, di_disk = k, di_ep = [],
      di_saved = 0, di_remote = None, di_alt = None, di_v6 = False, di_fd = None, di_fd2 = None,
      di_stash = \<lparr>sh_sent = False, sh_pkt = [], sh_ms = 0\<rparr>, di_open = opn\<rparr>"

text \<open>\<open>None\<close> is an access outside the profiles while the rings are filled, \<open>Inl\<close> the return value \<open>-1\<close>.\<close>

definition proxy_init :: "net \<Rightarrow> nat \<Rightarrow> (nat \<Rightarrow> bytes option) \<Rightarrow> disk \<Rightarrow> bytes option \<Rightarrow> u64 \<Rightarrow> nat list \<Rightarrow>
    awg_config \<Rightarrow> awg_tuning \<Rightarrow> bytes \<Rightarrow> bytes \<Rightarrow> int \<Rightarrow> (init_error + boot) option" where
  "proxy_init nt size_max malloc k ent fb opn cfg t listen_str remote_str src_port =
     (case config_validate cfg of
        Inl e \<Rightarrow> Some (Inl (Invalid_config e))
      | Inr _ \<Rightarrow>
     (case parse_host_port (\<lambda>s. nt_pton6 nt s \<noteq> None) listen_str 256 of
        None \<Rightarrow> Some (Inl Bad_listen)
      | Some (host, port) \<Rightarrow>
     (case parse_host_ports (\<lambda>s. nt_pton6 nt s \<noteq> None) remote_str 256 of
        None \<Rightarrow> Some (Inl Bad_remote)
      | Some (rhost, ps) \<Rightarrow>
          let addr = listen_address nt host port;
              warp = (c_mode cfg = AWG_MODE_NORMAL \<and> c_server_pub cfg = warp_pub);
              rot_on = rot_wanted cfg t warp ps;
              p = init_random (init_entropy ent fb) (zero_proxy cfg (sa_v6 addr));
              d = init_dial t k rhost ps src_port rot_on (px_rng_s2c p) opn;
              d = (if warp then warp_restore nt d else d)
          in (case init_junk size_max malloc cfg of
                None \<Rightarrow> Some (Inl Bad_junk)
              | Some junk \<Rightarrow>
                  do { p \<leftarrow> fill_h4_rings (p\<lparr>px_junk_buf := junk\<rparr>);
                       Some (Inr \<lparr>bo_px = p, bo_dial = d, bo_listen = addr, bo_warp = warp, bo_rot_on = rot_on,
                                  bo_rot_soft = (rot_on \<and> t_rot_soft t > 0),
                                  bo_rot = (if rot_on then Some (rot_cfg_make (t_rot_t_lo t) (t_rot_t_hi t) (t_rot_mb_lo t) (t_rot_mb_hi t)) else None),
                                  bo_auto_src = (src_port = 0), bo_gso_ok = (t_no_gso t = 0), bo_layout = init_layout cfg\<rparr>) }))))"

text \<open>
  The startup dial of \<open>proxy_run\<close> repeats until it succeeds; the pause doubles from one second up
  to thirty, like that between the reconnects of the reading thread.  \<open>outs\<close> lists the outcomes of
  the dials, the result the pauses taken and whether one succeeded.
\<close>

definition next_backoff :: "int \<Rightarrow> int" where
  "next_backoff b = (if b * 2 > 30 then 30 else b * 2)"

fun dial_retry :: "bool list \<Rightarrow> int \<Rightarrow> int list \<times> bool" where
  "dial_retry [] b = ([], False)"
| "dial_retry (ok # oks) b =
     (if ok then ([], True) else let (ps, r) = dial_retry oks (next_backoff b) in (b # ps, r))"

section \<open>The rings\<close>

lemma fill_rings_from_ok:
  assumes "wf_config (px_cfg p)" "0 \<le> i" "i + int c \<le> c_profile_count (px_cfg p)" "length (px_h4_ring p) = 4"
  shows "\<exists>rings rng. fill_rings_from c i p = Some (p\<lparr>px_h4_ring := rings, px_rng := rng\<rparr>) \<and> length rings = 4 \<and>
    (\<forall>j < nat i. rings ! j = px_h4_ring p ! j) \<and>
    (\<forall>j. nat i \<le> j \<and> j < nat i + c \<longrightarrow> length (rings ! j) = H4_RING_SIZE \<and>
       list_all (hrange_contains (pr_h4 (c_profiles (px_cfg p) ! j))) (rings ! j))"
  using assms
proof (induction c arbitrary: i p)
  case 0
  then show ?case by (intro exI [of _ "px_h4_ring p"] exI [of _ "px_rng p"]) auto
next
  case (Suc c)
  have "i < c_profile_count (px_cfg p)" using Suc.prems(3) by simp
  from fill_h4_ring_ok [OF Suc.prems(1,2) this] obtain vs rng where
    f: "fill_h4_ring p i = Some (p\<lparr>px_h4_ring := (px_h4_ring p)[nat i := vs], px_rng := rng\<rparr>)" "length vs = H4_RING_SIZE"
      "list_all (hrange_contains (pr_h4 (c_profiles (px_cfg p) ! nat i))) vs" by blast
  let ?p = "p\<lparr>px_h4_ring := (px_h4_ring p)[nat i := vs], px_rng := rng\<rparr>"
  have i4: "nat i < 4" using profile_in_range(3) [OF Suc.prems(1,2)] Suc.prems(3) by simp
  have s: "nat (i + 1) = Suc (nat i)" using Suc.prems(2) by simp
  obtain rings rng2 where r: "fill_rings_from c (i + 1) ?p = Some (?p\<lparr>px_h4_ring := rings, px_rng := rng2\<rparr>)" "length rings = 4"
    "\<forall>j < Suc (nat i). rings ! j = px_h4_ring ?p ! j"
    "\<forall>j. Suc (nat i) \<le> j \<and> j < Suc (nat i) + c \<longrightarrow> length (rings ! j) = H4_RING_SIZE \<and>
       list_all (hrange_contains (pr_h4 (c_profiles (px_cfg p) ! j))) (rings ! j)"
    using Suc.IH [of ?p "i + 1"] Suc.prems unfolding s by auto
  have at: "rings ! nat i = vs" using r(3) i4 Suc.prems(4) by simp
  have lo: "\<forall>j < nat i. rings ! j = px_h4_ring p ! j" using r(3) by simp
  have hi: "length (rings ! j) = H4_RING_SIZE \<and> list_all (hrange_contains (pr_h4 (c_profiles (px_cfg p) ! j))) (rings ! j)"
    if "nat i \<le> j" "j < nat i + Suc c" for j
    using that r(4) f(2,3) at by (cases "j = nat i") simp_all
  have "fill_rings_from (Suc c) i p = Some (p\<lparr>px_h4_ring := rings, px_rng := rng2\<rparr>)" using f(1) r(1) by simp
  then show ?case using r(2) lo hi by blast
qed

lemma fill_h4_rings_ok:
  assumes "wf_config (px_cfg p)" "px_h4_ring p = replicate 4 (replicate H4_RING_SIZE 0)" "px_h4_idx p = replicate 4 0"
  obtains rings rng where "fill_h4_rings p = Some (p\<lparr>px_h4_ring := rings, px_rng := rng\<rparr>)"
    "rings_ok (p\<lparr>px_h4_ring := rings, px_rng := rng\<rparr>)"
proof -
  let ?n = "nat (c_profile_count (px_cfg p))"
  have n: "1 \<le> c_profile_count (px_cfg p)" "c_profile_count (px_cfg p) \<le> 4" using assms(1) by (simp_all add: wf_config_def)
  obtain rings rng where r: "fill_rings_from ?n 0 p = Some (p\<lparr>px_h4_ring := rings, px_rng := rng\<rparr>)" "length rings = 4"
    "\<forall>j < ?n. length (rings ! j) = H4_RING_SIZE \<and> list_all (hrange_contains (pr_h4 (c_profiles (px_cfg p) ! j))) (rings ! j)"
    using fill_rings_from_ok [OF assms(1), of 0 ?n] assms(2) n by auto
  have "rings_ok (p\<lparr>px_h4_ring := rings, px_rng := rng\<rparr>)"
    using r(2,3) assms(3) n by (simp add: rings_ok_def ring_ok_def)
  then show thesis using that r(1) by (simp add: fill_h4_rings_def)
qed

section \<open>What it establishes\<close>

lemma parse_host_ports_wf:
  assumes "parse_host_ports inet6 s m = Some (host, ps)"
  shows "wf_portset ps"
proof -
  obtain q where "port_set_loop q \<lparr>ps_r = [], ps_total = 0\<rparr> = Some ps"
    using assms by (auto simp: parse_host_ports_def parse_port_set_def split: Option.bind_splits)
  then show ?thesis by (rule port_set_loop_wf) (simp add: pre_portset_def)
qed

text \<open>A well-formed configuration passes the validation \<open>proxy_init\<close> repeats.\<close>

lemma wf_config_validates:
  assumes "wf_config cfg" "0 < c_jc cfg \<longrightarrow> c_jmin cfg \<le> c_jmax cfg"
  shows "config_validate cfg = Inr ()"
proof -
  have a: "0 \<le> c_active_profile cfg" "c_active_profile cfg < c_profile_count cfg" "config_active_profile cfg = Some (config_snapshot_profile cfg)"
    using assms(1) by (simp_all add: wf_config_def mirrored_def)
  obtain pr where "profile_at cfg (c_active_profile cfg) = Some pr" "wf_profile pr"
    using wf_config_profile [OF assms(1) a(1,2)] by blast
  then have "config_validate_profile (config_snapshot_profile cfg) = Inr ()"
    using a(3) by (simp add: config_active_profile_def wf_profile_def)
  then have "config_validate_profile (flat_profile cfg) = Inr ()"
    by (simp add: validate_profile_iff) (simp add: config_snapshot_profile_def flat_profile_def)
  then show ?thesis using assms(2) by (auto simp: config_validate_def)
qed

lemma first_port: "wf_portset ps \<Longrightarrow> portset_has ps (fst (hd (ps_r ps)))"
  by (cases "ps_r ps") (auto simp: wf_portset_def portset_has_def)

lemma init_dial_inv: "wf_portset ps \<Longrightarrow> dial_inv (init_dial t k host ps src_port rot_on rng opn)"
  using first_port by (simp add: dial_inv_def init_dial_def opens_def)

lemma warp_restore_inv:
  assumes "dial_inv d" "di_fd2 d = None"
  shows "dial_inv (warp_restore nt d)" "di_ports (warp_restore nt d) = di_ports d"
proof -
  obtain port s where p: "port_scan 0 (state_read_ep (di_disk d) STATE_EP_MAX) = (port, s)" by fastforce
  have "warp_restore nt d = d \<or> (\<exists>a b ep. portset_has (di_ports d) b \<and>
      warp_restore nt d = d\<lparr>di_remote := a, di_port := b, di_keep := True, di_ep := ep\<rparr>)"
    unfolding warp_restore_def Let_def p by auto
  then show "dial_inv (warp_restore nt d)" "di_ports (warp_restore nt d) = di_ports d"
    using assms by (auto simp: dial_inv_def)
qed

lemma init_junk_fits:
  assumes "init_junk size_max malloc cfg = Some buf" "\<forall>n b. malloc n = Some b \<longrightarrow> length b = n"
    and "2 ^ 32 \<le> size_max + 1" "c_jc cfg < 2 ^ 31" "c_jmax cfg < 2 ^ 31"
  shows "junk_fits size_max cfg buf"
proof (cases "c_jc cfg > 0 \<and> c_jmax cfg > 0")
  case True
  then obtain jb sb where j: "junk_layout_sizes size_max cfg = Some (jb, sb)" "malloc jb = Some buf"
    using assms(1) by (auto simp: init_junk_def split: Option.bind_splits)
  have ts: "to_size size_max (c_jc cfg) = nat (c_jc cfg)" "to_size size_max (c_jmax cfg) = nat (c_jmax cfg)"
    using True assms(3-5) by (auto intro: to_size_pos)
  have "checked_mul_size size_max (nat (c_jc cfg)) (nat (c_jmax cfg)) = Some jb"
    using j(1) by (auto simp: junk_layout_sizes_def ts split: bind_splits)
  then have "jb = nat (c_jc cfg) * nat (c_jmax cfg)" by (rule checked_mul_exact)
  then have "length buf = nat (c_jc cfg * c_jmax cfg)" using assms(2) j(2) True by (simp add: nat_mult_distrib)
  then show ?thesis using assms(3-5) by (simp add: junk_fits_def)
next
  case False
  then show ?thesis using assms(3-5) by (auto simp: junk_fits_def)
qed

text \<open>The two directions never run the same stream, whatever the seed.\<close>

lemma init_random_streams:
  "px_rng_c2s (init_random e p) \<noteq> 0" "px_rng_s2c (init_random e p) \<noteq> 0"
  "px_rng_c2s (init_random e p) \<noteq> px_rng_s2c (init_random e p)"
  "cs_nonce (px_cs_c2s (init_random e p)) \<noteq> cs_nonce (px_cs_s2c (init_random e p))"
proof -
  have k: "fastrand_init (s XOR a) \<noteq> fastrand_init (s XOR b)" if ab: "a XOR b \<noteq> 0" "a XOR b \<noteq> 1" for s a b :: u64
  proof -
    have x: "(s XOR a) XOR (s XOR b) = a XOR b" by (simp add: xor.assoc xor.left_commute)
    have y: "s XOR a \<noteq> s XOR b" using x ab(1) by (metis xor_self_eq)
    have z: "\<not> (s XOR a = 0 \<and> s XOR b = 1)" "\<not> (s XOR a = 1 \<and> s XOR b = 0)" using x ab(2) by auto
    show ?thesis using y z by (auto simp: fastrand_init_def)
  qed
  show "px_rng_c2s (init_random e p) \<noteq> px_rng_s2c (init_random e p)"
    by (simp add: init_random_def Let_def k)
  have "(replicate 12 (0 :: u8))[0 := 1] ! 0 \<noteq> (replicate 12 0)[0 := 2] ! 0" by simp
  then have "(replicate 12 (0 :: u8))[0 := 1] \<noteq> (replicate 12 0)[0 := 2]" by metis
  then show "cs_nonce (px_cs_c2s (init_random e p)) \<noteq> cs_nonce (px_cs_s2c (init_random e p))"
    unfolding init_random_def Let_def csprng_init_def by simp
qed (simp_all add: init_random_def Let_def fastrand_init_def)

text \<open>
  The layout of the receive buffers: which direction has the headroom, that packets fit, and that
  the headroom covers the transport padding of every profile.
\<close>

lemma layout_directions:
  "la_c2s_headroom (init_layout cfg) = (if c_mode cfg = AWG_MODE_NORMAL then c_max_s4 cfg else 0)"
  "la_s2c_headroom (init_layout cfg) = (if c_mode cfg = AWG_MODE_NORMAL then 0 else c_max_s4 cfg)"
  by (simp_all add: init_layout_def Let_def)

lemma layout_room:
  assumes "0 \<le> c_max_s4 cfg" "c_max_s4 cfg \<le> 256"
  shows "0 \<le> la_c2s_headroom (init_layout cfg)" "la_c2s_headroom (init_layout cfg) + la_c2s_len (init_layout cfg) \<le> 1756"
    "0 \<le> la_s2c_headroom (init_layout cfg)" "la_s2c_headroom (init_layout cfg) + la_s2c_len (init_layout cfg) = 1756"
    "1500 \<le> la_c2s_len (init_layout cfg)" "1500 \<le> la_s2c_len (init_layout cfg)"
  using assms by (simp_all add: init_layout_def Let_def)

lemma layout_padding:
  assumes "wf_config cfg" "0 \<le> c_max_s4 cfg"
    and "\<forall>pr \<in> set (take (nat (c_profile_count cfg)) (c_profiles cfg)). pr_s4 pr \<le> c_max_s4 cfg"
  shows "c_mode cfg = AWG_MODE_NORMAL \<longrightarrow>
      c_s4 cfg \<le> la_c2s_headroom (init_layout cfg) \<and> max_padding_ok cfg (nat (la_c2s_headroom (init_layout cfg)))"
    "c_mode cfg \<noteq> AWG_MODE_NORMAL \<longrightarrow> max_padding_ok cfg (nat (la_s2c_headroom (init_layout cfg)))"
proof -
  have all: "max_padding_ok cfg (nat (c_max_s4 cfg))"
    using assms(2,3) by (simp add: max_padding_ok_def list_all_iff)
  have w: "length (c_profiles cfg) = 4" "0 \<le> c_active_profile cfg" "c_active_profile cfg < c_profile_count cfg"
    "c_profile_count cfg \<le> 4" "mirrored cfg" using assms(1) by (simp_all add: wf_config_def)
  then have "config_snapshot_profile cfg = c_profiles cfg ! nat (c_active_profile cfg)" by (simp add: mirrored_def config_active_profile_def profile_at_def split: if_splits)
  from arg_cong [OF this, of pr_s4] have "c_s4 cfg = pr_s4 (c_profiles cfg ! nat (c_active_profile cfg))"
    by (simp add: config_snapshot_profile_def)
  then have "c_s4 cfg \<le> c_max_s4 cfg" using max_padding_okD [OF all w(2,3,1,4)] assms(2) by simp
  with all show "c_mode cfg = AWG_MODE_NORMAL \<longrightarrow>
      c_s4 cfg \<le> la_c2s_headroom (init_layout cfg) \<and> max_padding_ok cfg (nat (la_c2s_headroom (init_layout cfg)))"
    "c_mode cfg \<noteq> AWG_MODE_NORMAL \<longrightarrow> max_padding_ok cfg (nat (la_s2c_headroom (init_layout cfg)))"
    by (simp_all add: layout_directions)
qed

text \<open>
  C27. Initialisation.  With a well-formed configuration \<open>proxy_init\<close> returns, and when it succeeds the
  state is one the rest of the program can start from: full rings of H4 values inside every
  profile's range, a junk buffer for the whole train, an empty session table, a port of the
  configured set; ports rotate only towards a server with several of them, and not for WARP; the
  generators of the two directions are running and different.  The headroom goes to the
  direction that adds padding, client to server in normal mode and server to client in the
  others: there it is the largest S4 of the profiles, as the transport path of every profile
  requires, and the other direction has none; in both, received packets fit their buffers, with
  room for a full packet of 1500 bytes.
\<close>

theorem proxy_init_ready:
  assumes "wf_config cfg" "0 \<le> c_max_s4 cfg" "c_max_s4 cfg \<le> 256" "c_jc cfg < 2 ^ 31" "c_jmax cfg < 2 ^ 31"
    and "2 ^ 32 \<le> size_max + 1" "\<forall>n b. malloc n = Some b \<longrightarrow> length b = n"
    and "\<forall>pr \<in> set (take (nat (c_profile_count cfg)) (c_profiles cfg)). pr_s4 pr \<le> c_max_s4 cfg"
  shows "\<exists>r. proxy_init nt size_max malloc k ent fb opn cfg t listen_str remote_str src_port = Some r \<and>
    (\<forall>b. r = Inr b \<longrightarrow>
       px_cfg (bo_px b) = cfg \<and> rings_ok (bo_px b) \<and> junk_fits size_max cfg (px_junk_buf (bo_px b)) \<and>
       wf_sessions (px_sessions (bo_px b)) \<and> dial_inv (bo_dial b) \<and> others (bo_dial b) = opn \<and>
       (bo_rot_on b \<longrightarrow> \<not> bo_warp b \<and> c_mode cfg = AWG_MODE_NORMAL \<and> 2 \<le> ps_total (di_ports (bo_dial b))) \<and>
       px_rng_c2s (bo_px b) \<noteq> 0 \<and> px_rng_s2c (bo_px b) \<noteq> 0 \<and> px_rng_c2s (bo_px b) \<noteq> px_rng_s2c (bo_px b) \<and>
       cs_nonce (px_cs_c2s (bo_px b)) \<noteq> cs_nonce (px_cs_s2c (bo_px b)) \<and>
       la_c2s_headroom (bo_layout b) = (if c_mode cfg = AWG_MODE_NORMAL then c_max_s4 cfg else 0) \<and>
       la_s2c_headroom (bo_layout b) = (if c_mode cfg = AWG_MODE_NORMAL then 0 else c_max_s4 cfg) \<and>
       (c_mode cfg = AWG_MODE_NORMAL \<longrightarrow> c_s4 cfg \<le> la_c2s_headroom (bo_layout b) \<and> max_padding_ok cfg (nat (la_c2s_headroom (bo_layout b)))) \<and>
       (c_mode cfg \<noteq> AWG_MODE_NORMAL \<longrightarrow> max_padding_ok cfg (nat (la_s2c_headroom (bo_layout b)))) \<and>
       0 \<le> la_c2s_headroom (bo_layout b) \<and> la_c2s_headroom (bo_layout b) + la_c2s_len (bo_layout b) \<le> 1756 \<and>
       0 \<le> la_s2c_headroom (bo_layout b) \<and> la_s2c_headroom (bo_layout b) + la_s2c_len (bo_layout b) = 1756 \<and>
       1500 \<le> la_c2s_len (bo_layout b) \<and> 1500 \<le> la_s2c_len (bo_layout b))"
proof (cases "\<exists>e. proxy_init nt size_max malloc k ent fb opn cfg t listen_str remote_str src_port = Some (Inl e)")
  case True
  then show ?thesis by auto
next
  case False
  obtain u where v: "config_validate cfg = Inr u" using False by (cases "config_validate cfg") (auto simp: proxy_init_def)
  obtain host port where lp: "parse_host_port (\<lambda>s. nt_pton6 nt s \<noteq> None) listen_str 256 = Some (host, port)"
    using False v by (cases "parse_host_port (\<lambda>s. nt_pton6 nt s \<noteq> None) listen_str 256") (auto simp: proxy_init_def)
  obtain rhost ps where rp: "parse_host_ports (\<lambda>s. nt_pton6 nt s \<noteq> None) remote_str 256 = Some (rhost, ps)"
    using False v lp by (cases "parse_host_ports (\<lambda>s. nt_pton6 nt s \<noteq> None) remote_str 256") (auto simp: proxy_init_def)
  define warp where "warp \<longleftrightarrow> c_mode cfg = AWG_MODE_NORMAL \<and> c_server_pub cfg = warp_pub"
  define rot_on where "rot_on \<longleftrightarrow> rot_wanted cfg t warp ps"
  define addr where "addr = listen_address nt host port"
  define p where "p = init_random (init_entropy ent fb) (zero_proxy cfg (sa_v6 addr))"
  define d0 where "d0 = init_dial t k rhost ps src_port rot_on (px_rng_s2c p) opn"
  define d where "d = (if warp then warp_restore nt d0 else d0)"
  obtain junk where j: "init_junk size_max malloc cfg = Some junk"
    using False v lp rp by (cases "init_junk size_max malloc cfg") (auto simp: proxy_init_def Let_def)
  let ?p = "p\<lparr>px_junk_buf := junk\<rparr>"
  have pz: "px_cfg p = cfg" "px_h4_ring p = replicate 4 (replicate H4_RING_SIZE 0)" "px_h4_idx p = replicate 4 0"
    "px_sessions p = empty_sessions" by (simp_all add: p_def init_random_def zero_proxy_def Let_def)
  obtain rings rng where f: "fill_h4_rings ?p = Some (?p\<lparr>px_h4_ring := rings, px_rng := rng\<rparr>)" "rings_ok (?p\<lparr>px_h4_ring := rings, px_rng := rng\<rparr>)"
    by (rule fill_h4_rings_ok [of ?p]) (use assms(1) pz in simp_all)
  define b where "b = \<lparr>bo_px = ?p\<lparr>px_h4_ring := rings, px_rng := rng\<rparr>, bo_dial = d, bo_listen = addr, bo_warp = warp, bo_rot_on = rot_on,
    bo_rot_soft = (rot_on \<and> t_rot_soft t > 0),
    bo_rot = (if rot_on then Some (rot_cfg_make (t_rot_t_lo t) (t_rot_t_hi t) (t_rot_mb_lo t) (t_rot_mb_hi t)) else None),
    bo_auto_src = (src_port = 0), bo_gso_ok = (t_no_gso t = 0), bo_layout = init_layout cfg\<rparr>"
  have r: "proxy_init nt size_max malloc k ent fb opn cfg t listen_str remote_str src_port = Some (Inr b)"
    unfolding proxy_init_def v lp rp sum.case option.case prod.case Let_def
      warp_def [symmetric] rot_on_def [symmetric] addr_def [symmetric] p_def [symmetric] d0_def [symmetric] d_def [symmetric] j f(1)
    by (simp add: b_def)
  have wf: "wf_portset ps" by (rule parse_host_ports_wf [OF rp])
  have d0: "dial_inv d0" "di_fd2 d0 = None" "di_ports d0 = ps" using init_dial_inv [OF wf] by (simp_all add: d0_def) (simp_all add: init_dial_def)
  have d: "dial_inv d" "di_ports d = ps" using warp_restore_inv [OF d0(1,2)] d0 by (simp_all add: d_def)
  have o: "others d = opn" unfolding d_def d0_def others_def by (simp add: warp_restore_def init_dial_def Let_def split: prod.split)
  have rot: "rot_on \<longrightarrow> \<not> warp \<and> c_mode cfg = AWG_MODE_NORMAL \<and> 2 \<le> ps_total ps" by (auto simp: rot_on_def rot_wanted_def not_less)
  have jf: "junk_fits size_max cfg junk" by (rule init_junk_fits [OF j assms(7,6,4,5)])
  note la = layout_directions [of cfg] layout_room [OF assms(2,3)] layout_padding [OF assms(1,2,8)]
  note st = init_random_streams [of "init_entropy ent fb" "zero_proxy cfg (sa_v6 addr)", folded p_def]
  show ?thesis unfolding r using pz f(2) d o rot jf la st by (simp add: b_def)
qed

section \<open>Retries\<close>

lemma next_backoff_pow: "next_backoff (min 30 (2 ^ i)) = min 30 (2 ^ Suc i)"
proof (cases "i < 5")
  case True
  then have "i \<in> {0, 1, 2, 3, 4}" by auto
  then show ?thesis by (auto simp: next_backoff_def)
next
  case False
  then have "(2 :: int) ^ 5 \<le> 2 ^ i" by (intro power_increasing) simp_all
  then show ?thesis by (simp add: next_backoff_def)
qed

text \<open>
  Pauses between dials.  They grow from one second by doubling up to thirty and stay there, one
  for each failure before the first success; the dial is repeated until it succeeds.
\<close>

theorem dial_retry_pauses:
  "dial_retry oks 1 = (map (\<lambda>i. min 30 (2 ^ i)) [0..<length (takeWhile Not oks)], True \<in> set oks)"
proof -
  have "dial_retry oks (min 30 (2 ^ i)) = (map (\<lambda>j. min 30 (2 ^ j)) [i..<i + length (takeWhile Not oks)], True \<in> set oks)" for i
  proof (induction oks arbitrary: i)
    case (Cons ok oks)
    show ?case
    proof (cases ok)
      case False
      let ?n = "length (takeWhile Not oks)"
      have "dial_retry oks (next_backoff (min 30 (2 ^ i))) = (map (\<lambda>j. min 30 (2 ^ j)) [Suc i..<Suc i + ?n], True \<in> set oks)"
        unfolding next_backoff_pow by (rule Cons.IH)
      moreover have "[i..<i + Suc ?n] = i # [Suc i..<Suc i + ?n]" by (simp add: upt_conv_Cons del: upt_Suc)
      ultimately show ?thesis using False by (simp del: upt_Suc)
    qed simp
  qed simp
  from this [of 0] show ?thesis by simp
qed

section \<open>An instance\<close>

definition example_settings :: awg_tuning where
  "example_settings = example_tuning\<lparr>t_rot_t_lo := 600, t_rot_t_hi := 900\<rparr>"

text \<open>Listening on \<^verbatim>\<open>:51820\<close>, the server at \<^verbatim>\<open>w:443,20-22\<close>.\<close>

definition example_boot :: "(init_error + boot) option" where
  "example_boot = proxy_init example_net (2 ^ 64 - 1) (\<lambda>n. Some (replicate n 0)) \<lparr>dk_path = [], dk_file = None, dk_writes = 0\<rparr> None 7 [3]
     example_config example_settings [58, 53, 49, 56, 50, 48] [119, 58, 52, 52, 51, 44, 50, 48, 45, 50, 50] (-1)"

theorem proxy_init_ready_witness:
  "\<exists>b. example_boot = Some (Inr b) \<and> rings_ok (bo_px b) \<and> dial_inv (bo_dial b) \<and> others (bo_dial b) = [3] \<and>
     la_c2s_headroom (bo_layout b) = 0 \<and> la_s2c_headroom (bo_layout b) = 16"
proof -
  have "c_jmin example_config = 10"
    by (simp add: example_config_unfold split: prod.split)
  then have v: "config_validate example_config = Inr ()"
    using wf_config_validates [OF wf_example_config] by (simp add: example_config_fields)
  have lp: "parse_host_port (\<lambda>s. nt_pton6 example_net s \<noteq> None) [58, 53, 49, 56, 50, 48] 256 = Some ([], 51820)" by code_simp
  have rp: "parse_host_ports (\<lambda>s. nt_pton6 example_net s \<noteq> None) [119, 58, 52, 52, 51, 44, 50, 48, 45, 50, 50] 256 =
      Some ([119], \<lparr>ps_r = [(443, 443), (20, 22)], ps_total = 4\<rparr>)" by code_simp
  have j: "init_junk (2 ^ 64 - 1) (\<lambda>n. Some (replicate n 0)) example_config \<noteq> None"
    by (simp add: init_junk_def junk_layout_sizes_def checked_mul_size_def to_size_def example_config_fields)
  have ms: "c_max_s4 example_config = 16"
    using config_compute_establishes [OF example_input_ok]
    by (simp add: example_config_def) (simp add: example_input_def mirror_profile_def example_profile_def)
  have md: "c_mode example_config \<noteq> AWG_MODE_NORMAL"
    by (simp add: example_config_unfold split: prod.split)
  have pad: "\<forall>pr \<in> set (take (nat (c_profile_count example_config)) (c_profiles example_config)). pr_s4 pr \<le> c_max_s4 example_config"
    using example_padding by (simp add: max_padding_ok_def list_all_iff ms)
  have "\<exists>r. example_boot = Some r \<and> (\<forall>b. r = Inr b \<longrightarrow> rings_ok (bo_px b) \<and> dial_inv (bo_dial b) \<and> others (bo_dial b) = [3] \<and>
      la_c2s_headroom (bo_layout b) = 0 \<and> la_s2c_headroom (bo_layout b) = 16)"
    unfolding example_boot_def
    using proxy_init_ready [OF wf_example_config, of "2 ^ 64 - 1" "\<lambda>n. Some (replicate n 0)" example_net
        "\<lparr>dk_path = [], dk_file = None, dk_writes = 0\<rparr>" None 7 "[3]" example_settings] ms md pad
    by (simp add: example_config_fields) blast
  then obtain r where r: "example_boot = Some r"
    "\<forall>b. r = Inr b \<longrightarrow> rings_ok (bo_px b) \<and> dial_inv (bo_dial b) \<and> others (bo_dial b) = [3] \<and>
      la_c2s_headroom (bo_layout b) = 0 \<and> la_s2c_headroom (bo_layout b) = 16" by blast
  moreover have "\<exists>b. r = Inr b"
    using r(1) j unfolding example_boot_def proxy_init_def v lp rp
    by (auto simp: Let_def split: Option.bind_splits)
  ultimately show ?thesis by blast
qed

end
