(* ===== verification/S2c_Thread.thy ===== *)
theory S2c_Thread
  imports Proxy_Init
begin

text \<open>
  The server-to-client thread of normal mode, a turn of \<open>s2c_thread\<close> in \<^verbatim>\<open>src/src/proxy.c\<close>: the
  reconnect with its growing pauses, the coalesced read with what is pending of it, the plain
  read, what both tell the watchdog and a pending port move, and the send to the client; and the
  drain of the port a move just left (\<open>rot_drain_old\<close>).  The reads, the socket calls and the
  outcome of a dial are arguments.  The theorems: no turn leaves its buffers, every datagram
  is passed to the client once and in order or stays pending, and a remainder that survives a
  reconnect keeps the thread turning without reading until a client speaks.
\<close>

section \<open>State and environment\<close>

text \<open>\<open>e_alt\<close> is the outcome of the probe of the address families: whether the other socket won.\<close>

record s2c_env =
  e_stopped :: bool
  e_port :: u16
  e_dial :: "(nat \<times> nat option) option"
  e_alt :: bool
  e_no_gro :: bool
  e_gro_ok :: bool
  e_warp :: bool
  e_rot_on :: bool
  e_tick :: u32
  e_ms :: u64
  e_gro_read :: "(int \<times> errno) + (bytes \<times> int)"
  e_read :: "(int \<times> errno) + bytes list"
  e_kernel :: kernel

text \<open>
  \<open>s2_active\<close>, \<open>s2_rx\<close> and \<open>s2_first\<close> are the flags \<open>last_active\<close>, \<open>last_remote_rx\<close> and
  \<open>fe_remote_pkt\<close>; \<open>s2_keeps\<close> counts the calls of \<open>warp_keep\<close>.
\<close>

record s2c_th =
  s2_px :: proxy
  s2_rot :: rot
  s2_gro :: gro_ctl
  s2_bufs :: "bytes list"
  s2_backoff :: int
  s2_seen :: rot_seen
  s2_busy :: u32
  s2_bytes :: u32
  s2_active :: bool
  s2_rx :: bool
  s2_first :: bool
  s2_keeps :: nat
  s2_gso :: gso_state
  s2_tx :: u32
  s2_drop :: u32

section \<open>One turn\<close>

definition probe_end :: "bool \<Rightarrow> rot \<Rightarrow> rot" where
  "probe_end use_alt r =
     (case ro_fd2 r of
        None \<Rightarrow> r
      | Some fd2 \<Rightarrow> r\<lparr>ro_fd := (if use_alt then Some fd2 else ro_fd r), ro_fd2 := None\<rparr>)"

text \<open>The reconnect at the head of a turn, after the pause.\<close>

definition s2c_reconnect :: "s2c_env \<Rightarrow> s2c_th \<Rightarrow> s2c_th" where
  "s2c_reconnect v s =
     (if e_stopped v then s
      else let (r, p, fd) = do_reconnect_locked (e_port v) (e_dial v) (s2_rot s) (s2_px s)
           in if fd = None then s\<lparr>s2_rot := r, s2_px := p, s2_backoff := next_backoff (s2_backoff s)\<rparr>
              else let s = s\<lparr>s2_rot := probe_end (e_alt v) r, s2_px := p, s2_backoff := 1,
                             s2_active := True, s2_rx := False, s2_first := False\<rparr>
                   in if ro_fd (s2_rot s) = None then s
                      else s\<lparr>s2_gro := (if e_no_gro v then s2_gro s else (s2_gro s)\<lparr>gr_on := e_gro_ok v\<rparr>)\<rparr>)"

definition s2c_heard :: "bool \<Rightarrow> int \<Rightarrow> s2c_th \<Rightarrow> s2c_th" where
  "s2c_heard warp n s =
     s\<lparr>s2_active := True, s2_rx := True, s2_backoff := 1, s2_first := True,
       s2_keeps := (if \<not> s2_first s \<and> warp \<and> n > 0 then s2_keeps s + 1 else s2_keeps s)\<rparr>"

definition s2c_read_err :: "s2c_env \<Rightarrow> int \<times> errno \<Rightarrow> s2c_th \<Rightarrow> s2c_th" where
  "s2c_read_err v err s = s\<lparr>s2_rot := note_remote_read_err (fst err) (snd err) (e_stopped v) (s2_rot s)\<rparr>"

text \<open>
  While coalescing is on: what is pending first, otherwise a new read; the state and the
  datagrams for the client.
\<close>

definition s2c_gro_pass :: "s2c_env \<Rightarrow> int \<Rightarrow> int \<Rightarrow> s2c_th \<Rightarrow> (s2c_th \<times> pkt list) option" where
  "s2c_gro_pass v n seg s =
     (let s = s2c_heard (e_warp v) n s
      in if \<not> px_has_client (s2_px s) then Some (s, [])
         else do { (p, c, out) \<leftarrow> s2c_gro_split (s2_px s) n seg (s2_gro s);
                   ds \<leftarrow> those (out_data (gr_buf c) out);
                   Some (s\<lparr>s2_px := p, s2_gro := c\<rparr>, ds) })"

definition s2c_gro_turn :: "s2c_env \<Rightarrow> s2c_th \<Rightarrow> (s2c_th \<times> pkt list) option" where
  "s2c_gro_turn v s =
     (if gro_pending (s2_gro s) then s2c_gro_pass v (gr_total (s2_gro s)) (gr_seg (s2_gro s)) s
      else case e_gro_read v of
             Inl err \<Rightarrow> Some (s2c_read_err v err s, [])
           | Inr (data, seg) \<Rightarrow> s2c_gro_pass v (int (length data)) seg (s\<lparr>s2_gro := gro_fill data (s2_gro s)\<rparr>))"

text \<open>A batch of separate datagrams: the receive buffers after the read, and the loop over them.\<close>

definition deposit :: "bytes list \<Rightarrow> bytes list \<Rightarrow> bytes list" where
  "deposit ds bufs = map2 (\<lambda>d b. d @ drop (length d) b) ds bufs @ drop (length ds) bufs"

text \<open>\<open>skip\<close> is whether the loop passes over empty datagrams, as that of the thread does.\<close>

fun s2c_normal_loop :: "bool \<Rightarrow> proxy \<Rightarrow> (bytes \<times> int) list \<Rightarrow> (proxy \<times> bytes list \<times> (bytes \<times> int \<times> int \<times> cliaddr) list) option" where
  "s2c_normal_loop skip p [] = Some (p, [], [])"
| "s2c_normal_loop skip p ((buf, n) # bs) =
     do { (p, buf, res) \<leftarrow> (if skip \<and> n \<le> 0 then Some (p, buf, None) else process_s2c_pkt_normal p buf n);
          (p, bufs, out) \<leftarrow> s2c_normal_loop skip p bs;
          Some (p, buf # bufs, case res of None \<Rightarrow> out | Some (off, len, a) \<Rightarrow> (buf, off, len, a) # out) }"

definition s2c_normal_batch :: "bool \<Rightarrow> bytes list \<Rightarrow> proxy \<Rightarrow> bytes list \<Rightarrow> (proxy \<times> bytes list \<times> pkt list) option" where
  "s2c_normal_batch skip ds p bufs =
     do { let bufs = deposit ds bufs;
          (p, after, out) \<leftarrow> s2c_normal_loop skip p (zip bufs (map (\<lambda>d. int (length d)) ds));
          pkts \<leftarrow> those (map (\<lambda>(buf, off, len, a). map_option (\<lambda>d. (d, a)) (rd buf off len)) out);
          Some (p, after @ drop (length ds) bufs, pkts) }"

definition s2c_plain_turn :: "s2c_env \<Rightarrow> s2c_th \<Rightarrow> (s2c_th \<times> pkt list) option" where
  "s2c_plain_turn v s =
     (let (c, on) = gro_rearm (e_no_gro v) (e_gro_ok v) (s2_gro s); s = s\<lparr>s2_gro := c\<rparr>
      in if on then Some (s, [])
         else case e_read v of
                Inl err \<Rightarrow> Some (s2c_read_err v err s, [])
              | Inr ds \<Rightarrow>
                  if ds = [] then Some (s2c_read_err v (0, EAGAIN) s, [])
                  else let s = s2c_heard (e_warp v) (int (length (hd ds))) s
                       in if \<not> px_has_client (s2_px s) then Some (s\<lparr>s2_bufs := deposit ds (s2_bufs s)\<rparr>, [])
                          else do { (p, bufs, pkts) \<leftarrow> s2c_normal_batch True ds (s2_px s) (s2_bufs s);
                                    Some (s\<lparr>s2_px := p, s2_bufs := bufs\<rparr>, pkts) })"

text \<open>What a batch for the client says about the connection, and its send.\<close>

definition s2c_note :: "s2c_env \<Rightarrow> pkt list \<Rightarrow> s2c_th \<Rightarrow> s2c_th" where
  "s2c_note v ds s =
     (if \<not> e_rot_on v \<or> ds = [] then s
      else let bytes = of_nat (sum_list (map (\<lambda>d. length (fst d)) ds));
               (seen, fresh) = rot_seen_note (s2_seen s) (e_tick v) bytes;
               r = s2_rot s
           in s\<lparr>s2_seen := seen, s2_busy := (if fresh then sn_busy seen else s2_busy s),
                s2_rot := (if ro_pending r then rot_answered (e_ms v) r else r),
                s2_bytes := (if rc_mb_lo (ro_cfg r) \<noteq> 0 then s2_bytes s + bytes else s2_bytes s)\<rparr>)"

definition s2c_send :: "s2c_env \<Rightarrow> pkt list \<Rightarrow> s2c_th \<Rightarrow> s2c_th" where
  "s2c_send v ds s =
     (if ds = [] then s
      else let (g, sent, err) = send_batch_gso (e_kernel v) True ds (s2_gso s);
               (tx, dr) = stats_add_tx (s2_tx s) (s2_drop s) (int (length ds)) (int sent)
           in s\<lparr>s2_gso := g, s2_tx := tx, s2_drop := dr\<rparr>)"

definition s2c_turn :: "s2c_env \<Rightarrow> s2c_th \<Rightarrow> s2c_th option" where
  "s2c_turn v s =
     (if ro_fd (s2_rot s) = None \<or> ro_reconnect (s2_rot s) then Some (s2c_reconnect v s)
      else do { (s, ds) \<leftarrow> (if gr_on (s2_gro s) then s2c_gro_turn v s else s2c_plain_turn v s);
                Some (s2c_send v ds (s2c_note v ds s)) })"

fun s2c_run :: "s2c_env list \<Rightarrow> s2c_th \<Rightarrow> s2c_th option" where
  "s2c_run [] s = Some s"
| "s2c_run (v # vs) s = do { s \<leftarrow> s2c_turn v s; s2c_run vs s }"

section \<open>The port a move left\<close>

text \<open>
  What waits on the old socket is \<open>q\<close>; \<open>got\<close> is how much of it a read returns.  The state, the buffers, the
  offload and what is still waiting after at most \<open>c\<close> rounds.
\<close>

fun drain_rounds :: "nat \<Rightarrow> kernel \<Rightarrow> (nat \<Rightarrow> nat) \<Rightarrow> bytes list \<Rightarrow> proxy \<Rightarrow> bytes list \<Rightarrow> gso_state
    \<Rightarrow> (proxy \<times> bytes list \<times> gso_state \<times> bytes list) option" where
  "drain_rounds 0 k got q p bufs g = Some (p, bufs, g, q)"
| "drain_rounds (Suc c) k got q p bufs g =
     (let n = min (got c) (min BATCH_SIZE (length q)); ds = take n q; q = drop n q
      in if n = 0 then Some (p, bufs, g, q)
         else if \<not> px_has_client p then drain_rounds c k got q p (deposit ds bufs) g
         else do { (p, bufs, pkts) \<leftarrow> s2c_normal_batch False ds p bufs;
                   let g' = fst (send_batch_gso k True pkts (g\<lparr>gs_msgs := 0, gs_segs := 0\<rparr>));
                   let g = (if pkts = [] then g else g'\<lparr>gs_msgs := gs_msgs g, gs_segs := gs_segs g\<rparr>);
                   if n < BATCH_SIZE then Some (p, bufs, g, q) else drain_rounds c k got q p bufs g })"

definition rot_drain_old :: "kernel \<Rightarrow> (nat \<Rightarrow> nat) \<Rightarrow> bytes list \<Rightarrow> proxy \<Rightarrow> bytes list \<Rightarrow> gso_state
    \<Rightarrow> (proxy \<times> bytes list \<times> gso_state \<times> bytes list) option" where
  "rot_drain_old k got q p bufs g = drain_rounds 8 k got q p bufs g"

section \<open>Batches\<close>

lemma fast_decode_nonempty:
  assumes "wf_profile pr" "fast_decode cfg pr d = Some (k, m)"
  shows "m \<noteq> []"
proof (cases "fast_size pr (int (length d)) \<and> claims cfg pr d Transport")
  case True
  then have "int (length m) = int (length d) - pr_s4 pr"
    using assms fast_message(2) [OF assms(1), of cfg d] by (simp add: fast_decode_def)
  then show ?thesis using True by (auto simp: fast_size_def)
next
  case False
  then have "wire_decode cfg pr d = Some (k, m)" using assms(2) unfolding fast_decode_def by (simp only: if_False)
  then show ?thesis using wire_decode_long [OF assms(1)] by fastforce
qed

lemma decoded_nonempty:
  assumes "px_inv cfg p"
  shows "list_all (\<lambda>x. fst x \<noteq> []) (map (\<lambda>m. (m, a)) (decoded cfg ds))"
proof (induction ds)
  case (Cons d ds)
  then show ?case using fast_decode_nonempty [OF px_invD(4) [OF assms], of cfg d] by (auto split: option.split)
qed simp

lemma s2c_normal_flags:
  assumes "process_s2c_pkt_normal p pkt n = Some (p', pkt', res)"
  shows "px_has_client p' = px_has_client p" "px_client_addr p' = px_client_addr p"
  using assms by (auto simp: process_s2c_pkt_normal_def Let_def split: bind_splits option.splits)

lemma s2c_normal_one:
  assumes "px_inv cfg p"
  shows "\<exists>p' buf' res. process_s2c_pkt_normal p (d @ rest) (int (length d)) = Some (p', buf', res) \<and> px_inv cfg p' \<and>
    px_has_client p' = px_has_client p \<and> px_client_addr p' = px_client_addr p \<and> length buf' = length (d @ rest) \<and>
    those (map (\<lambda>(buf, off, len, a). map_option (\<lambda>d. (d, a)) (rd buf off len))
      (case res of None \<Rightarrow> [] | Some (off, len, a) \<Rightarrow> [(buf', off, len, a)])) = Some (map (\<lambda>m. (m, px_client_addr p)) (decoded cfg [d]))"
proof -
  obtain p' buf' res where r: "process_s2c_pkt_normal p (d @ rest) (int (length d)) = Some (p', buf', res)"
    "restores (fast_decode (px_cfg p) (config_snapshot_profile cfg) d) buf' (map_option (\<lambda>(off, len, a). (off, len)) res)"
    "in_place d rest buf' (map_option (\<lambda>(off, len, a). (off, len)) res)"
    "\<forall>off len a. res = Some (off, len, a) \<longrightarrow> a = px_client_addr p" "px_inv cfg p'"
    using s2c_normal_ok [OF assms] by blast
  have dec: "fast_decode (px_cfg p) pr d = fast_decode cfg pr d" for pr using decode_grown px_invD(3) [OF assms] by blast
  have "those (map (\<lambda>(buf, off, len, a). map_option (\<lambda>d. (d, a)) (rd buf off len))
      (case res of None \<Rightarrow> [] | Some (off, len, a) \<Rightarrow> [(buf', off, len, a)])) = Some (map (\<lambda>m. (m, px_client_addr p)) (decoded cfg [d]))"
    using r(2,4) unfolding dec by (auto simp: restores_def split: option.splits)
  then show ?thesis using r s2c_normal_flags [OF r(1)] in_place_length [OF r(3)] by blast
qed

lemma decoded_empty:
  assumes "px_inv cfg p"
  shows "decoded cfg [[]] = []"
proof (rule ccontr)
  assume "decoded cfg [[]] \<noteq> []"
  then obtain k m where km: "fast_decode cfg (config_snapshot_profile cfg) [] = Some (k, m)" by (auto split: option.splits)
  have w: "px_inv cfg (p\<lparr>px_cfg := cfg\<rparr>)"
    using assms cfg_grown_fields(1,2) [OF px_invD(3) [OF assms]] by (simp add: px_inv_def rings_ok_def ring_ok_def)
  obtain p' buf' res where r: "restores (fast_decode cfg (config_snapshot_profile cfg) []) buf' (map_option (\<lambda>(off, len, a). (off, len)) res)"
    "in_place [] [] buf' (map_option (\<lambda>(off, len, a). (off, len)) (res :: (int \<times> int \<times> cliaddr) option))"
    using s2c_normal_ok [OF w, of "[]" "[]"] by auto
  then obtain off where "0 \<le> off" "off + int (length m) \<le> 0" unfolding km by (auto simp: restores_def in_place_def)
  then have "length m = 0" by linarith
  then show False using fast_decode_nonempty [OF px_invD(4) [OF assms] km] by simp
qed

lemma decoded_Cons: "decoded cfg (d # ds) = decoded cfg [d] @ decoded cfg ds"
  by (simp split: option.split)

lemma s2c_normal_loop_ok:
  assumes "px_inv cfg p"
  shows "\<exists>p' bufs' out. s2c_normal_loop skip p (map (\<lambda>(d, r). (d @ r, int (length d))) drs) = Some (p', bufs', out) \<and> px_inv cfg p' \<and>
    px_has_client p' = px_has_client p \<and> px_client_addr p' = px_client_addr p \<and> map length bufs' = map (\<lambda>(d, r). length (d @ r)) drs \<and>
    those (map (\<lambda>(buf, off, len, a). map_option (\<lambda>d. (d, a)) (rd buf off len)) out) =
      Some (map (\<lambda>m. (m, px_client_addr p)) (decoded cfg (map fst drs)))"
  using assms
proof (induction drs arbitrary: p)
  case (Cons dr drs)
  obtain d r where dr: "dr = (d, r)" by (cases dr)
  let ?rd = "\<lambda>(buf, off, len, a). map_option (\<lambda>d. (d, a :: cliaddr)) (rd buf off len)"
  let ?res = "\<lambda>buf res. case res of None \<Rightarrow> [] | Some (off, len, a) \<Rightarrow> [(buf, off, len, a :: cliaddr)]"
  obtain p1 b1 res where one: "(if skip \<and> int (length d) \<le> 0 then Some (p, d @ r, None) else process_s2c_pkt_normal p (d @ r) (int (length d))) = Some (p1, b1, res)"
    "px_inv cfg p1" "px_has_client p1 = px_has_client p" "px_client_addr p1 = px_client_addr p" "length b1 = length (d @ r)"
    "those (map ?rd (?res b1 res)) = Some (map (\<lambda>m. (m, px_client_addr p)) (decoded cfg [d]))"
  proof (cases "skip \<and> int (length d) \<le> 0")
    case True
    then have "d = []" by simp
    then show ?thesis using that [of p "d @ r" None] True Cons.prems decoded_empty [OF Cons.prems] by simp
  next
    case False
    then show ?thesis using that s2c_normal_one [OF Cons.prems, of d r] by auto
  qed
  obtain p2 bufs out where two: "s2c_normal_loop skip p1 (map (\<lambda>(d, r). (d @ r, int (length d))) drs) = Some (p2, bufs, out)" "px_inv cfg p2"
    "px_has_client p2 = px_has_client p1" "px_client_addr p2 = px_client_addr p1" "map length bufs = map (\<lambda>(d, r). length (d @ r)) drs"
    "those (map ?rd out) = Some (map (\<lambda>m. (m, px_client_addr p1)) (decoded cfg (map fst drs)))"
    using Cons.IH [OF one(2)] by blast
  have "s2c_normal_loop skip p (map (\<lambda>(d, r). (d @ r, int (length d))) (dr # drs)) = Some (p2, b1 # bufs, ?res b1 res @ out)"
    using one(1) two(1) by (simp add: dr split: option.split)
  moreover have "those (map ?rd (?res b1 res @ out)) = Some (map (\<lambda>m. (m, px_client_addr p)) (decoded cfg (map fst (dr # drs))))"
    unfolding map_append those_append one(6) two(6) by (simp add: dr one(4) decoded_Cons [of cfg d "map fst drs"] del: decoded_simps)
  moreover have "px_inv cfg p2" "px_has_client p2 = px_has_client p" "px_client_addr p2 = px_client_addr p"
    "map length (b1 # bufs) = map (\<lambda>(d, r). length (d @ r)) (dr # drs)"
    using one two by (simp_all add: dr)
  ultimately show ?case by blast
qed simp

text \<open>What fits: a batch no longer than the array, each datagram no longer than its buffer.\<close>

definition fits_bufs :: "bytes list \<Rightarrow> bytes list \<Rightarrow> bool" where
  "fits_bufs ds bufs \<longleftrightarrow> length ds \<le> length bufs \<and> list_all2 (\<lambda>d b. length d \<le> length b) ds (take (length ds) bufs)"

lemma deposit_lengths: "fits_bufs ds bufs \<Longrightarrow> map length (deposit ds bufs) = map length bufs"
proof (induction ds arbitrary: bufs)
  case (Cons d ds)
  then show ?case by (cases bufs) (auto simp: fits_bufs_def deposit_def)
qed (simp add: deposit_def fits_bufs_def)

lemma zip_deposit:
  assumes "fits_bufs ds bufs"
  shows "zip (deposit ds bufs) (map (\<lambda>d. int (length d)) ds) =
    map (\<lambda>(d, r). (d @ r, int (length d))) (zip ds (map2 (\<lambda>d b. drop (length d) b) ds bufs))"
  using assms
proof (induction ds arbitrary: bufs)
  case (Cons d ds)
  then show ?case by (cases bufs) (auto simp: fits_bufs_def deposit_def)
qed simp

lemma batch_lengths:
  assumes "fits_bufs ds bufs"
  shows "map (\<lambda>(d, r). length (d @ r)) (zip ds (map2 (\<lambda>d b. drop (length d) b) ds bufs)) = take (length ds) (map length bufs)"
  using assms
proof (induction ds arbitrary: bufs)
  case (Cons d ds)
  then show ?case by (cases bufs) (auto simp: fits_bufs_def)
qed simp

lemma s2c_normal_batch_ok:
  assumes "px_inv cfg p" "fits_bufs ds bufs"
  shows "\<exists>p' bufs'. s2c_normal_batch skip ds p bufs = Some (p', bufs', map (\<lambda>m. (m, px_client_addr p)) (decoded cfg ds)) \<and>
    px_inv cfg p' \<and> px_has_client p' = px_has_client p \<and> px_client_addr p' = px_client_addr p \<and> map length bufs' = map length bufs"
proof -
  let ?drs = "zip ds (map2 (\<lambda>d b. drop (length d) b) ds bufs)"
  have len: "length (map2 (\<lambda>d b. drop (length d) b) ds bufs) = length ds" using assms(2) by (simp add: fits_bufs_def)
  have fst: "map fst ?drs = ds" using len by simp
  obtain p' out bufs' where l: "s2c_normal_loop skip p (zip (deposit ds bufs) (map (\<lambda>d. int (length d)) ds)) = Some (p', bufs', out)" "px_inv cfg p'"
    "px_has_client p' = px_has_client p" "px_client_addr p' = px_client_addr p" "map length bufs' = map (\<lambda>(d, r). length (d @ r)) ?drs"
    "those (map (\<lambda>(buf, off, len, a). map_option (\<lambda>d. (d, a)) (rd buf off len)) out) = Some (map (\<lambda>m. (m, px_client_addr p)) (decoded cfg ds))"
    using s2c_normal_loop_ok [OF assms(1), of skip ?drs] unfolding fst zip_deposit [OF assms(2)] by blast
  have "map length (bufs' @ drop (length ds) (deposit ds bufs)) = map length bufs"
    unfolding map_append l(5) drop_map [symmetric] deposit_lengths [OF assms(2)] batch_lengths [OF assms(2)] by simp
  then show ?thesis using l by (simp add: s2c_normal_batch_def)
qed

section \<open>The invariant of the thread\<close>

definition pending_ok :: "gro_ctl \<Rightarrow> bool" where
  "pending_ok c \<longleftrightarrow>
     (gro_pending c \<longrightarrow> 0 \<le> gr_off c \<and> 0 < gr_seg c \<and> gr_seg c < gr_total c \<and> gr_total c \<le> int (length (gr_buf c)))"

text \<open>The segments of a read not yet handed on.\<close>

definition left_over :: "gro_ctl \<Rightarrow> bytes list" where
  "left_over c = (if gro_pending c then chunks (nat (gr_seg c)) (drop (nat (gr_off c)) (take (nat (gr_total c)) (gr_buf c))) else [])"

definition thread_inv :: "s2c_th \<Rightarrow> bool" where
  "thread_inv s \<longleftrightarrow>
     px_inv (px_cfg (s2_px s)) (s2_px s) \<and> rot_inv (s2_rot s) \<and> pending_ok (s2_gro s) \<and> 1 \<le> s2_backoff s \<and> s2_backoff s \<le> 30"

text \<open>What the kernel keeps to: it fills the buffers it is given, and a dial ends on a port of the set.\<close>

definition env_sane :: "s2c_env \<Rightarrow> s2c_th \<Rightarrow> bool" where
  "env_sane v s \<longleftrightarrow>
     kernel_sane (e_kernel v) \<and> portset_has (ro_ports (s2_rot s)) (e_port v) \<and>
     (case e_gro_read v of Inl err \<Rightarrow> True | Inr (data, seg) \<Rightarrow> data \<noteq> [] \<and> length data \<le> length (gr_buf (s2_gro s))) \<and>
     (case e_read v of Inl err \<Rightarrow> True | Inr ds \<Rightarrow> fits_bufs ds (s2_bufs s))"

text \<open>The datagrams a turn has before it, when the socket is up.\<close>

definition segments_of :: "bytes \<times> int \<Rightarrow> bytes list" where
  "segments_of r = (if 0 < snd r \<and> snd r < int (length (fst r)) then chunks (nat (snd r)) (fst r) else [fst r])"

definition offered :: "s2c_env \<Rightarrow> s2c_th \<Rightarrow> bytes list" where
  "offered v s =
     (if gr_on (s2_gro s)
      then if gro_pending (s2_gro s) then left_over (s2_gro s)
           else case e_gro_read v of Inl err \<Rightarrow> [] | Inr r \<Rightarrow> segments_of r
      else if snd (gro_rearm (e_no_gro v) (e_gro_ok v) (s2_gro s)) then []
      else case e_read v of Inl err \<Rightarrow> [] | Inr ds \<Rightarrow> ds)"

lemma px_inv_rebase: "px_inv cfg p \<Longrightarrow> px_inv (px_cfg p) p"
  using px_invD(1,2) [of cfg p] by (simp add: px_inv_def)

lemma px_inv_reset:
  assumes "px_inv (px_cfg p) p" "px_h4_ring q = px_h4_ring p" "px_h4_idx q = px_h4_idx p" "px_cfg q = (px_cfg p)\<lparr>c_udp_window := 500\<rparr>"
  shows "px_inv (px_cfg q) q"
  using assms(1) unfolding px_inv_def rings_ok_def ring_ok_def wf_config_def mirrored_def assms(2-4)
  by (auto simp: config_active_profile_def profile_at_def config_snapshot_profile_def split: if_splits)

lemma gro_rearm_keeps:
  assumes "gro_rearm no_gro ok c = (c', on)"
  shows "left_over c' = left_over c" "pending_ok c' = pending_ok c" "gro_pending c' = gro_pending c"
  using assms by (auto simp: gro_rearm_def left_over_def pending_ok_def gro_pending_def Let_def split: if_splits)

lemma those_map_Some: "xs = map Some ys \<Longrightarrow> those xs = Some ys"
  by (induction ys arbitrary: xs) auto

text \<open>A pass over a read: what is handed on, with what stays pending, is what was there.\<close>

lemma s2c_gro_split_ok:
  assumes "px_inv cfg p" "0 \<le> gr_off c" "gr_off c < n" "n \<le> int (length (gr_buf c))" "0 < seg \<and> seg < n \<or> gr_off c = 0 \<and> \<not> gro_pending c"
  shows "\<exists>p' c' out passed. s2c_gro_split p n seg c = Some (p', c', out) \<and> px_inv cfg p' \<and> pending_ok c' \<and>
    those (out_data (gr_buf c') out) = Some (map (\<lambda>m. (m, px_client_addr p)) (decoded cfg passed)) \<and>
    passed @ left_over c' =
      (if 0 < seg \<and> seg < n then chunks (nat seg) (drop (nat (gr_off c)) (take (nat n) (gr_buf c))) else [take (nat n) (gr_buf c)])"
proof (cases "0 < seg \<and> seg < n")
  case True
  define sg tot off where d: "sg = nat seg" "tot = nat n" "off = nat (gr_off c)"
  have e: "seg = int sg" "n = int tot" "gr_off c = int off" using True assms(2,3) by (simp_all add: d)
  define L where "L = chunks sg (drop off (take tot (gr_buf c)))"
  have pre: "0 < sg" "sg < tot" "tot \<le> length (gr_buf c)" "off < tot" using True assms(3,4) by (simp_all add: e)
  from s2c_gro_read_restores [OF assms(1) pre(1-3) e(3) pre(4)] obtain p' c' out j where
    r: "s2c_gro_split p (int tot) (int sg) c = Some (p', c', out)" "px_inv cfg p'"
    "out_data (gr_buf c') out = map (\<lambda>m. Some (m, px_client_addr p)) (decoded cfg (take j L))"
    and rest: "if gro_pending c'
     then BATCH_SIZE \<le> length out \<and> gr_off c' = int (off + sg * j) \<and> gr_total c' = int tot \<and> gr_seg c' = int sg \<and>
       drop (off + sg * j) (take tot (gr_buf c')) = drop (off + sg * j) (take tot (gr_buf c))
     else length L \<le> j"
    unfolding L_def by blast
  have len: "length (gr_buf c') = length (gr_buf c)"
    using r(1) pre s2c_gro_loop_ok [OF assms(1) pre(1,3), of off "[]"] e(3)
    by (auto simp: s2c_gro_split_def out_below_def Let_def)
  have "take j L @ left_over c' = L"
  proof (cases "gro_pending c'")
    case True
    then have g: "gr_off c' = int (off + sg * j)" "gr_total c' = int tot" "gr_seg c' = int sg"
      "drop (off + sg * j) (take tot (gr_buf c')) = drop (off + sg * j) (take tot (gr_buf c))" using rest by simp_all
    have "left_over c' = drop j L"
      unfolding left_over_def g(1-3) nat_int g(4) L_def chunks_drop [OF pre(1)] using True by (simp add: add.commute)
    then show ?thesis by simp
  next
    case False
    then show ?thesis using rest by (simp add: left_over_def)
  qed
  moreover have "pending_ok c'" using rest pre len by (auto simp: pending_ok_def)
  moreover have "those (out_data (gr_buf c') out) = Some (map (\<lambda>m. (m, px_client_addr p)) (decoded cfg (take j L)))"
    by (rule those_map_Some) (simp add: r(3))
  ultimately show ?thesis using r(1,2) True by (intro exI conjI) (simp_all add: e L_def)
next
  case False
  then have z: "gr_off c = 0" "\<not> gro_pending c" using assms(5) by auto
  define c1 where "c1 = c\<lparr>gr_idle := gr_idle c + 1\<rparr>"
  define c2 where "c2 = (if gr_idle c1 \<ge> 8 then c1\<lparr>gr_on := False, gr_in := gr_gap c1\<rparr> else c1)"
  let ?d = "take (nat n) (gr_buf c)"
  have n: "n = int (length ?d)" using assms(2,4) assms(3) by simp
  obtain p' b res where r: "process_s2c_pkt_normal p (gr_buf c) n = Some (p', b, res)" "px_inv cfg p'"
    "those (map (\<lambda>(buf, off, len, a). map_option (\<lambda>d. (d, a)) (rd buf off len))
      (case res of None \<Rightarrow> [] | Some (off, len, a) \<Rightarrow> [(b, off, len, a)])) = Some (map (\<lambda>m. (m, px_client_addr p)) (decoded cfg [?d]))"
    using s2c_normal_one [OF assms(1), of ?d "drop (nat n) (gr_buf c)"] n by auto
  have "s2c_gro_split p n seg c = Some (p', c2\<lparr>gr_buf := b\<rparr>, case res of None \<Rightarrow> [] | Some r \<Rightarrow> [r])"
    using False r(1) by (auto simp: s2c_gro_split_def c1_def c2_def Let_def)
  moreover have "those (out_data b (case res of None \<Rightarrow> [] | Some r \<Rightarrow> [r])) = Some (map (\<lambda>m. (m, px_client_addr p)) (decoded cfg [?d]))"
    using r(3) by (cases res) (auto simp: out_data_def)
  moreover have "\<not> gro_pending (c2\<lparr>gr_buf := b\<rparr>)" using z(2) by (simp add: c2_def c1_def gro_pending_def)
  ultimately show ?thesis using r(2) False
    by (intro exI [of _ p'] exI [of _ "c2\<lparr>gr_buf := b\<rparr>"] exI [of _ "case res of None \<Rightarrow> [] | Some r \<Rightarrow> [r]"] exI [of _ "[?d]"])
      (auto simp: pending_ok_def left_over_def simp del: decoded_simps)
qed

section \<open>A turn keeps the invariant\<close>

lemma rot_parts_inv:
  "rot_inv r \<Longrightarrow> rot_inv (note_remote_read_err n e stopped r)"
  "rot_inv r \<Longrightarrow> ro_pending r \<Longrightarrow> rot_inv (rot_answered ms r)"
  "rot_inv r \<Longrightarrow> rot_inv (probe_end v r)"
  "rot_inv r \<Longrightarrow> portset_has (ro_ports r) port \<Longrightarrow> rot_inv (rot_reconnect port dial r)"
proof -
  show "rot_inv r \<Longrightarrow> rot_inv (note_remote_read_err n e stopped r)"
    using refused_inv(1) [of r e] by (auto simp: note_remote_read_err_def reconnect_flag_inv Let_def split: prod.split)
  show "rot_inv r \<Longrightarrow> ro_pending r \<Longrightarrow> rot_inv (rot_answered ms r)"
    by (auto simp: rot_answered_def rot_inv_def Let_def)
  show "rot_inv r \<Longrightarrow> rot_inv (probe_end v r)"
    by (auto simp: probe_end_def rot_inv_def split: option.split)
  show "rot_inv r \<Longrightarrow> portset_has (ro_ports r) port \<Longrightarrow> rot_inv (rot_reconnect port dial r)"
    by (auto simp: rot_reconnect_def rot_inv_def Let_def split: option.split)
qed

lemma reconnect_px:
  assumes "do_reconnect_locked port dial r p = (r', p', fd)" "px_inv (px_cfg p) p"
  shows "px_inv (px_cfg p') p'" "r' = rot_reconnect port dial r" "fd = map_option fst dial"
    "dial \<noteq> None \<Longrightarrow> c_mode (px_cfg p) = AWG_MODE_NORMAL \<Longrightarrow> \<not> px_has_client p'"
proof -
  show "r' = rot_reconnect port dial r" "fd = map_option fst dial" using assms(1) by (auto simp: do_reconnect_locked_def Let_def)
  show "dial \<noteq> None \<Longrightarrow> c_mode (px_cfg p) = AWG_MODE_NORMAL \<Longrightarrow> \<not> px_has_client p'"
    using assms(1) by (auto simp: do_reconnect_locked_def reset_window_def Let_def)
  show "px_inv (px_cfg p') p'"
  proof (cases "dial = None")
    case True
    then show ?thesis using assms by (simp add: do_reconnect_locked_def)
  next
    case False
    then show ?thesis using assms(1)
      by (intro px_inv_reset [OF assms(2)]) (auto simp: do_reconnect_locked_def reset_window_def Let_def split: if_splits)
  qed
qed

lemma s2c_reconnect_inv:
  assumes "thread_inv s" "env_sane v s"
  shows "thread_inv (s2c_reconnect v s)" "gs_log (s2_gso (s2c_reconnect v s)) = gs_log (s2_gso s)"
    "s2_tx (s2c_reconnect v s) = s2_tx s" "s2_drop (s2c_reconnect v s) = s2_drop s"
    "left_over (s2_gro (s2c_reconnect v s)) = left_over (s2_gro s)"
proof -
  obtain r p fd where d: "do_reconnect_locked (e_port v) (e_dial v) (s2_rot s) (s2_px s) = (r, p, fd)" by (metis prod_cases3)
  have inv: "px_inv (px_cfg (s2_px s)) (s2_px s)" "rot_inv (s2_rot s)" "portset_has (ro_ports (s2_rot s)) (e_port v)"
    using assms by (simp_all add: thread_inv_def env_sane_def)
  note R = reconnect_px [OF d inv(1)]
  have r: "rot_inv r" "rot_inv (probe_end w r)" for w using R(2) rot_parts_inv(3,4) inv(2,3) by simp_all
  have b: "1 \<le> next_backoff (s2_backoff s)" "next_backoff (s2_backoff s) \<le> 30"
    using assms(1) by (simp_all add: thread_inv_def next_backoff_def)
  show "thread_inv (s2c_reconnect v s)" using assms(1) R(1) r b
    by (simp add: s2c_reconnect_def d thread_inv_def pending_ok_def gro_pending_def Let_def)
  show "gs_log (s2_gso (s2c_reconnect v s)) = gs_log (s2_gso s)" "s2_tx (s2c_reconnect v s) = s2_tx s"
    "s2_drop (s2c_reconnect v s) = s2_drop s" "left_over (s2_gro (s2c_reconnect v s)) = left_over (s2_gro s)"
    by (simp_all add: s2c_reconnect_def d left_over_def gro_pending_def Let_def)
qed

text \<open>What the two branches that read have in common.\<close>

definition reads_ok :: "s2c_env \<Rightarrow> s2c_th \<Rightarrow> (s2c_th \<times> pkt list) option \<Rightarrow> bool" where
  "reads_ok v s res \<longleftrightarrow>
     (\<exists>s' passed. res = Some (s', map (\<lambda>m. (m, px_client_addr (s2_px s))) (decoded (px_cfg (s2_px s)) passed)) \<and> thread_inv s' \<and>
        s2_gso s' = s2_gso s \<and> s2_tx s' = s2_tx s \<and> s2_drop s' = s2_drop s \<and>
        (if px_has_client (s2_px s)
         then passed @ (if gr_on (s2_gro s) then left_over (s2_gro s') else []) = offered v s else passed = []))"

lemma reads_okI:
  assumes "res = Some (s', map (\<lambda>m. (m, px_client_addr (s2_px s))) (decoded (px_cfg (s2_px s)) passed))" "thread_inv s'"
    and "s2_gso s' = s2_gso s" "s2_tx s' = s2_tx s" "s2_drop s' = s2_drop s"
    and "px_has_client (s2_px s) \<Longrightarrow> passed @ (if gr_on (s2_gro s) then left_over (s2_gro s') else []) = offered v s"
    and "\<not> px_has_client (s2_px s) \<Longrightarrow> passed = []"
  shows "reads_ok v s res"
  using assms unfolding reads_ok_def by auto

lemma heard_simps [simp]:
  "s2_px (s2c_heard w n s) = s2_px s" "s2_gro (s2c_heard w n s) = s2_gro s" "s2_gso (s2c_heard w n s) = s2_gso s"
  "s2_tx (s2c_heard w n s) = s2_tx s" "s2_drop (s2c_heard w n s) = s2_drop s" "s2_bufs (s2c_heard w n s) = s2_bufs s"
  "s2_rot (s2c_heard w n s) = s2_rot s" "s2_backoff (s2c_heard w n s) = 1"
  by (simp_all add: s2c_heard_def)

lemma s2c_gro_turn_ok:
  assumes "thread_inv s" "env_sane v s" "gr_on (s2_gro s)"
  shows "reads_ok v s (s2c_gro_turn v s)"
proof -
  have inv: "px_inv (px_cfg (s2_px s)) (s2_px s)" "rot_inv (s2_rot s)" "pending_ok (s2_gro s)" using assms(1) by (simp_all add: thread_inv_def)
  have pass: "reads_ok v s (s2c_gro_pass v n seg (s\<lparr>s2_gro := c\<rparr>))"
    if c: "0 \<le> gr_off c" "gr_off c < n" "n \<le> int (length (gr_buf c))" "0 < seg \<and> seg < n \<or> gr_off c = 0 \<and> \<not> gro_pending c" "pending_ok c"
      and all: "(if 0 < seg \<and> seg < n then chunks (nat seg) (drop (nat (gr_off c)) (take (nat n) (gr_buf c))) else [take (nat n) (gr_buf c)]) = offered v s"
    for c n seg
  proof (cases "px_has_client (s2_px s)")
    case False
    have "s2c_gro_pass v n seg (s\<lparr>s2_gro := c\<rparr>) = Some (s2c_heard (e_warp v) n (s\<lparr>s2_gro := c\<rparr>), [])"
      using False by (simp add: s2c_gro_pass_def)
    then show ?thesis using False inv c(5)
      by (intro reads_okI [where passed = "[]" and s' = "s2c_heard (e_warp v) n (s\<lparr>s2_gro := c\<rparr>)"]) (simp_all add: thread_inv_def)
  next
    case True
    obtain p' c' out passed where r: "s2c_gro_split (s2_px s) n seg c = Some (p', c', out)" "px_inv (px_cfg (s2_px s)) p'" "pending_ok c'"
      "those (out_data (gr_buf c') out) = Some (map (\<lambda>m. (m, px_client_addr (s2_px s))) (decoded (px_cfg (s2_px s)) passed))"
      "passed @ left_over c' = offered v s"
      using s2c_gro_split_ok [OF inv(1) c(1-4)] unfolding all by blast
    have "s2c_gro_pass v n seg (s\<lparr>s2_gro := c\<rparr>) =
        Some ((s2c_heard (e_warp v) n (s\<lparr>s2_gro := c\<rparr>))\<lparr>s2_px := p', s2_gro := c'\<rparr>,
          map (\<lambda>m. (m, px_client_addr (s2_px s))) (decoded (px_cfg (s2_px s)) passed))"
      using True r(1,4) by (simp add: s2c_gro_pass_def)
    then show ?thesis using True inv r(3,5) px_inv_rebase [OF r(2)] assms(3)
      by (intro reads_okI [where passed = passed and s' = "(s2c_heard (e_warp v) n (s\<lparr>s2_gro := c\<rparr>))\<lparr>s2_px := p', s2_gro := c'\<rparr>"]) (simp_all add: thread_inv_def)
  qed
  show ?thesis
  proof (cases "gro_pending (s2_gro s)")
    case True
    then show ?thesis using pass [of "s2_gro s" "gr_total (s2_gro s)" "gr_seg (s2_gro s)"] inv(3) assms(3)
      by (simp add: s2c_gro_turn_def pending_ok_def offered_def left_over_def gro_pending_def)
  next
    case False
    show ?thesis
    proof (cases "e_gro_read v")
      case (Inl err)
      then show ?thesis using False assms(1,3) rot_parts_inv(1) [OF inv(2)]
        by (intro reads_okI [where passed = "[]" and s' = "s2c_read_err v err s"])
          (simp_all add: s2c_gro_turn_def s2c_read_err_def thread_inv_def offered_def left_over_def)
    next
      case (Inr ds)
      obtain data seg where r: "e_gro_read v = Inr (data, seg)" using Inr by (cases ds) auto
      then have d: "data \<noteq> []" "length data \<le> length (gr_buf (s2_gro s))" using assms(2) by (simp_all add: env_sane_def)
      have f: "\<not> gro_pending (gro_fill data (s2_gro s))" "gr_off (gro_fill data (s2_gro s)) = 0"
        "gr_buf (gro_fill data (s2_gro s)) = data @ drop (length data) (gr_buf (s2_gro s))"
        by (simp_all add: gro_fill_def gro_pending_def)
      have "s2c_gro_turn v s = s2c_gro_pass v (int (length data)) seg (s\<lparr>s2_gro := gro_fill data (s2_gro s)\<rparr>)"
        using False r by (simp add: s2c_gro_turn_def)
      moreover have "reads_ok v s (s2c_gro_pass v (int (length data)) seg (s\<lparr>s2_gro := gro_fill data (s2_gro s)\<rparr>))"
        using f d assms(3) r False by (intro pass) (auto simp: pending_ok_def offered_def segments_of_def)
      ultimately show ?thesis by simp
    qed
  qed
qed

lemma s2c_plain_turn_ok:
  assumes "thread_inv s" "env_sane v s" "\<not> gr_on (s2_gro s)"
  shows "reads_ok v s (s2c_plain_turn v s)"
proof -
  have inv: "px_inv (px_cfg (s2_px s)) (s2_px s)" "rot_inv (s2_rot s)" "pending_ok (s2_gro s)" using assms(1) by (simp_all add: thread_inv_def)
  obtain c on where g: "gro_rearm (e_no_gro v) (e_gro_ok v) (s2_gro s) = (c, on)" by fastforce
  have c: "pending_ok c" using gro_rearm_keeps(2) [OF g] inv(3) by simp
  show ?thesis
  proof (cases "on \<or> e_read v = Inr [] \<or> (\<exists>err. e_read v = Inl err)")
    case True
    then consider (on) on | (none) "\<not> on" "e_read v = Inr []" | (err) err where "\<not> on" "e_read v = Inl err" by blast
    then obtain r where r: "s2c_plain_turn v s = Some (s\<lparr>s2_gro := c, s2_rot := r\<rparr>, [])" "rot_inv r"
    proof cases
      case on
      then show ?thesis using that [of "s2_rot s"] inv(2) by (simp add: s2c_plain_turn_def g)
    next
      case none
      then show ?thesis using that rot_parts_inv(1) [OF inv(2)] by (simp add: s2c_plain_turn_def g s2c_read_err_def Let_def)
    next
      case (err err)
      then show ?thesis using that rot_parts_inv(1) [OF inv(2)] by (simp add: s2c_plain_turn_def g s2c_read_err_def Let_def)
    qed
    show ?thesis using True assms(1,3) c r(2)
      by (intro reads_okI [where passed = "[]" and s' = "s\<lparr>s2_gro := c, s2_rot := r\<rparr>"]) (auto simp: r(1) thread_inv_def offered_def g)
  next
    case False
    then obtain ds where ds: "e_read v = Inr ds" "ds \<noteq> []" "\<not> on" by (cases "e_read v") auto
    then have fit: "fits_bufs ds (s2_bufs s)" using assms(2) by (simp add: env_sane_def)
    let ?s = "s2c_heard (e_warp v) (int (length (hd ds))) (s\<lparr>s2_gro := c\<rparr>)"
    show ?thesis
    proof (cases "px_has_client (s2_px s)")
      case True
      obtain p' bufs' where b: "s2c_normal_batch True ds (s2_px s) (s2_bufs s) =
          Some (p', bufs', map (\<lambda>m. (m, px_client_addr (s2_px s))) (decoded (px_cfg (s2_px s)) ds))" "px_inv (px_cfg (s2_px s)) p'"
        using s2c_normal_batch_ok [OF inv(1) fit] by blast
      have "s2c_plain_turn v s = Some (?s\<lparr>s2_px := p', s2_bufs := bufs'\<rparr>, map (\<lambda>m. (m, px_client_addr (s2_px s))) (decoded (px_cfg (s2_px s)) ds))"
        using True b(1) ds by (simp add: s2c_plain_turn_def g)
      then show ?thesis using True assms(3) inv c px_inv_rebase [OF b(2)] ds
        by (intro reads_okI [where passed = ds and s' = "?s\<lparr>s2_px := p', s2_bufs := bufs'\<rparr>"]) (simp_all add: thread_inv_def offered_def g)
    next
      case noclient: False
      then have "s2c_plain_turn v s = Some (?s\<lparr>s2_bufs := deposit ds (s2_bufs s)\<rparr>, [])"
        using ds by (simp add: s2c_plain_turn_def g)
      then show ?thesis using noclient assms(3) inv c
        by (intro reads_okI [where passed = "[]" and s' = "?s\<lparr>s2_bufs := deposit ds (s2_bufs s)\<rparr>"]) (simp_all add: thread_inv_def)
    qed
  qed
qed

lemma s2c_note_ok:
  assumes "thread_inv s"
  shows "thread_inv (s2c_note v ds s)" "s2_gso (s2c_note v ds s) = s2_gso s" "s2_tx (s2c_note v ds s) = s2_tx s"
    "s2_drop (s2c_note v ds s) = s2_drop s" "s2_gro (s2c_note v ds s) = s2_gro s"
  using assms rot_parts_inv(2) [of "s2_rot s" "e_ms v"]
  by (auto simp: s2c_note_def thread_inv_def Let_def split: prod.split)

lemma s2c_send_ok:
  assumes "kernel_sane (e_kernel v)" "list_all (\<lambda>x. fst x \<noteq> []) ds" "thread_inv s"
  shows "thread_inv (s2c_send v ds s)" "s2_gro (s2c_send v ds s) = s2_gro s"
    "\<exists>sent new. sent \<le> length ds \<and> gs_log (s2_gso (s2c_send v ds s)) = gs_log (s2_gso s) @ new \<and> list_all legal_call new \<and>
       list_all2 (sent_as True) (wire_log new) (take sent ds) \<and>
       s2_tx (s2c_send v ds s) = s2_tx s + of_nat sent \<and> s2_drop (s2c_send v ds s) = s2_drop s + of_nat (length ds - sent) \<and>
       ((\<forall>i qs. qs \<noteq> [] \<longrightarrow> 0 < fst (k_sendmmsg (e_kernel v) i qs)) \<longrightarrow> sent = length ds)"
proof -
  obtain g sent err where b: "send_batch_gso (e_kernel v) True ds (s2_gso s) = (g, sent, err)" by (metis prod_cases3)
  have c: "sent \<le> length ds" "carries True (s2_gso s) g (take sent ds)"
    "(\<forall>i qs. qs \<noteq> [] \<longrightarrow> 0 < fst (k_sendmmsg (e_kernel v) i qs)) \<longrightarrow> sent = length ds"
    using send_loop_carries [OF assms(1,2), where named = True and sent = 0 and st = "s2_gso s"] b by (simp_all add: send_batch_gso_def)
  obtain new where n: "gs_log g = gs_log (s2_gso s) @ new" "list_all legal_call new" "list_all2 (sent_as True) (wire_log new) (take sent ds)"
    using c(2) by (auto simp: carries_def)
  have st: "stats_add_tx (s2_tx s) (s2_drop s) (int (length ds)) (int sent) = (s2_tx s + of_nat sent, s2_drop s + of_nat (length ds - sent))"
    using c(1) by (auto simp: stats_add_tx_def of_nat_diff)
  have e: "s2c_send v ds s = (if ds = [] then s else s\<lparr>s2_gso := g, s2_tx := s2_tx s + of_nat sent, s2_drop := s2_drop s + of_nat (length ds - sent)\<rparr>)"
    by (simp add: s2c_send_def b st)
  show "thread_inv (s2c_send v ds s)" "s2_gro (s2c_send v ds s) = s2_gro s" using assms(3) by (simp_all add: e thread_inv_def)
  show "\<exists>sent new. sent \<le> length ds \<and> gs_log (s2_gso (s2c_send v ds s)) = gs_log (s2_gso s) @ new \<and> list_all legal_call new \<and>
       list_all2 (sent_as True) (wire_log new) (take sent ds) \<and>
       s2_tx (s2c_send v ds s) = s2_tx s + of_nat sent \<and> s2_drop (s2c_send v ds s) = s2_drop s + of_nat (length ds - sent) \<and>
       ((\<forall>i qs. qs \<noteq> [] \<longrightarrow> 0 < fst (k_sendmmsg (e_kernel v) i qs)) \<longrightarrow> sent = length ds)"
  proof (cases "ds = []")
    case True
    then show ?thesis by (intro exI [of _ 0] exI [of _ "[]"]) (simp add: s2c_send_def)
  next
    case False
    then show ?thesis using c n by (intro exI [of _ sent] exI [of _ new]) (simp add: e)
  qed
qed

text \<open>The drain: rounds of a batch each, until a short one.\<close>

lemma drain_rounds_ok:
  assumes "kernel_sane k" "\<forall>i qs. qs \<noteq> [] \<longrightarrow> 0 < fst (k_sendmmsg k i qs)" "\<forall>i. BATCH_SIZE \<le> got i"
    and "px_inv cfg p" "px_has_client p" "BATCH_SIZE \<le> length bufs" "\<forall>d \<in> set q. \<forall>b \<in> set bufs. length d \<le> length b"
  shows "\<exists>p' bufs' g' new. drain_rounds c k got q p bufs g = Some (p', bufs', g', drop (BATCH_SIZE * c) q) \<and> px_inv cfg p' \<and>
    gs_log g' = gs_log g @ new \<and> list_all legal_call new \<and> gs_msgs g' = gs_msgs g \<and> gs_segs g' = gs_segs g \<and>
    list_all2 (sent_as True) (wire_log new) (map (\<lambda>m. (m, px_client_addr p)) (decoded cfg (take (BATCH_SIZE * c) q)))"
  using assms(4-7)
proof (induction c arbitrary: p bufs g q)
  case 0
  show ?case using 0(1) by (intro exI [of _ p] exI [of _ bufs] exI [of _ g] exI [of _ "[]"]) simp
next
  case (Suc c)
  define n where "n = min (got c) (min BATCH_SIZE (length q))"
  have n: "n = min BATCH_SIZE (length q)" using spec [OF assms(3), of c] by (simp add: n_def)
  let ?ds = "take n q"
  show ?case
  proof (cases "q = []")
    case True
    then show ?thesis using Suc.prems(1)
      by (intro exI [of _ p] exI [of _ bufs] exI [of _ g] exI [of _ "[]"]) (simp add: Let_def)
  next
    case False
    have n0: "n \<noteq> 0" using False n by simp
    have fit: "fits_bufs ?ds bufs"
      using Suc.prems(3,4) n by (auto simp: fits_bufs_def list_all2_conv_all_nth)
    obtain p1 bufs1 where b: "s2c_normal_batch False ?ds p bufs = Some (p1, bufs1, map (\<lambda>m. (m, px_client_addr p)) (decoded cfg ?ds))" "px_inv cfg p1"
      "px_has_client p1 = px_has_client p" "px_client_addr p1 = px_client_addr p" "map length bufs1 = map length bufs"
      using s2c_normal_batch_ok [OF Suc.prems(1) fit] by blast
    define pkts where "pkts = map (\<lambda>m. (m, px_client_addr p)) (decoded cfg ?ds)"
    define g0 where "g0 = fst (send_batch_gso k True pkts (g\<lparr>gs_msgs := 0, gs_segs := 0\<rparr>))"
    define g1 where "g1 = (if pkts = [] then g else g0\<lparr>gs_msgs := gs_msgs g, gs_segs := gs_segs g\<rparr>)"
    have ne: "list_all (\<lambda>x. fst x \<noteq> []) pkts" unfolding pkts_def by (rule decoded_nonempty [OF Suc.prems(1)])
    obtain new where new: "gs_log g1 = gs_log g @ new" "list_all legal_call new" "list_all2 (sent_as True) (wire_log new) pkts"
      "gs_msgs g1 = gs_msgs g" "gs_segs g1 = gs_segs g"
    proof (cases "pkts = []")
      case True
      then show ?thesis using that [of "[]"] by (simp add: g1_def)
    next
      case False
      obtain g' sent err where s: "send_batch_gso k True pkts (g\<lparr>gs_msgs := 0, gs_segs := 0\<rparr>) = (g', sent, err)" by (metis prod_cases3)
      have "sent = length pkts" "carries True (g\<lparr>gs_msgs := 0, gs_segs := 0\<rparr>) g' (take sent pkts)"
        using send_loop_carries [OF assms(1) ne, where named = True and sent = 0 and st = "g\<lparr>gs_msgs := 0, gs_segs := 0\<rparr>"] s assms(2)
        by (auto simp: send_batch_gso_def)
      then show ?thesis using that False by (auto simp: g1_def g0_def s carries_def)
    qed
    have step: "drain_rounds (Suc c) k got q p bufs g =
        (if n < BATCH_SIZE then Some (p1, bufs1, g1, drop n q) else drain_rounds c k got (drop n q) p1 bufs1 g1)"
      using n0 b(1) Suc.prems(2)
      by (cases "pkts = []") (simp_all add: Let_def n_def [symmetric] pkts_def [symmetric] g0_def [symmetric] g1_def)
    show ?thesis
    proof (cases "n < BATCH_SIZE")
      case True
      then have all: "n = length q" using n by simp
      then have "BATCH_SIZE * Suc c \<ge> length q" using True by simp
      then show ?thesis using step True b(2) new all
        by (intro exI [of _ p1] exI [of _ bufs1] exI [of _ g1] exI [of _ new]) (simp add: pkts_def)
    next
      case False
      then have n32: "n = BATCH_SIZE" using n by simp
      have "length bufs1 = length bufs" using b(5) map_eq_imp_length_eq by blast
      moreover have "length d \<le> length b" if "d \<in> set (drop n q)" "b \<in> set bufs1" for d b
      proof -
        have "length b \<in> length ` set bufs" using arg_cong [OF b(5), of set] that(2) by force
        then obtain b0 where "b0 \<in> set bufs" "length b = length b0" by blast
        then show ?thesis using Suc.prems(4) in_set_dropD [OF that(1)] by simp
      qed
      ultimately obtain p2 bufs2 g2 new2 where ih: "drain_rounds c k got (drop n q) p1 bufs1 g1 = Some (p2, bufs2, g2, drop (BATCH_SIZE * c) (drop n q))"
        "px_inv cfg p2" "gs_log g2 = gs_log g1 @ new2" "list_all legal_call new2" "gs_msgs g2 = gs_msgs g1" "gs_segs g2 = gs_segs g1"
        "list_all2 (sent_as True) (wire_log new2) (map (\<lambda>m. (m, px_client_addr p1)) (decoded cfg (take (BATCH_SIZE * c) (drop n q))))"
        using Suc.IH [of p1 bufs1 "drop n q" g1] b(2,3) Suc.prems(2,3) by auto
      have "decoded cfg (take (BATCH_SIZE * Suc c) q) = decoded cfg ?ds @ decoded cfg (take (BATCH_SIZE * c) (drop n q))"
        by (simp add: decoded_def n32 take_add map_filter_def)
      then have "list_all2 (sent_as True) (wire_log (new @ new2)) (map (\<lambda>m. (m, px_client_addr p)) (decoded cfg (take (BATCH_SIZE * Suc c) q)))"
        using list_all2_appendI [OF new(3) ih(7)] b(4) by (simp add: pkts_def)
      then show ?thesis using step False ih(1-6) new
        by (intro exI [of _ p2] exI [of _ bufs2] exI [of _ g2] exI [of _ "new @ new2"]) (simp add: n32 add.commute del: drain_rounds.simps)
    qed
  qed
qed

text \<open>Turns while a remainder is pending and no client is known.\<close>

lemma idle_turn:
  assumes "gr_on (s2_gro s)" "gro_pending (s2_gro s)" "\<not> px_has_client (s2_px s)" "ro_fd (s2_rot s) \<noteq> None" "\<not> ro_reconnect (s2_rot s)"
  shows "s2c_turn v s = Some (s2c_heard (e_warp v) (gr_total (s2_gro s)) s)"
  using assms by (auto simp: s2c_turn_def s2c_gro_turn_def s2c_gro_pass_def s2c_note_def s2c_send_def)

lemma idle_turns:
  assumes "gr_on (s2_gro s)" "gro_pending (s2_gro s)" "\<not> px_has_client (s2_px s)" "ro_fd (s2_rot s) \<noteq> None" "\<not> ro_reconnect (s2_rot s)"
  shows "\<exists>s'. s2c_run vs s = Some s' \<and> s2_gro s' = s2_gro s \<and> s2_gso s' = s2_gso s \<and>
    (vs \<noteq> [] \<or> s2_rx s \<and> s2_active s \<longrightarrow> s2_rx s' \<and> s2_active s')"
  using assms
proof (induction vs arbitrary: s)
  case (Cons v vs)
  let ?s = "s2c_heard (e_warp v) (gr_total (s2_gro s)) s"
  obtain s' where "s2c_run vs ?s = Some s'" "s2_gro s' = s2_gro ?s" "s2_gso s' = s2_gso ?s"
    "vs \<noteq> [] \<or> s2_rx ?s \<and> s2_active ?s \<longrightarrow> s2_rx s' \<and> s2_active s'"
    using Cons.IH [of ?s] Cons.prems by auto
  then show ?case using idle_turn [OF Cons.prems] by (simp add: s2c_heard_def)
qed simp

section \<open>Properties\<close>

text \<open>
  C14. A turn of the server-to-client thread in normal mode.  Whatever the reads return, it stays inside its
  buffers and keeps the invariant.  While the socket is up and a client is known, the
  datagrams before it (what is pending of a coalesced read, or a new read) are split into those it
  passes on and those that stay pending, in order and without loss; the messages of the former
  go to the client once and in order, as many as the kernel takes, and the counters grow by what was
  sent and what was not.  Without a client, or while reconnecting, nothing is sent.
\<close>

theorem s2c_turn_delivers:
  assumes "thread_inv s" "env_sane v s"
  shows "\<exists>s' passed msgs sent new. s2c_turn v s = Some s' \<and> thread_inv s' \<and>
    msgs = map (\<lambda>m. (m, px_client_addr (s2_px s))) (decoded (px_cfg (s2_px s)) passed) \<and>
    (if ro_fd (s2_rot s) \<noteq> None \<and> \<not> ro_reconnect (s2_rot s) \<and> px_has_client (s2_px s)
     then passed @ (if gr_on (s2_gro s) then left_over (s2_gro s') else []) = offered v s else passed = []) \<and>
    sent \<le> length msgs \<and> gs_log (s2_gso s') = gs_log (s2_gso s) @ new \<and> list_all legal_call new \<and>
    list_all2 (sent_as True) (wire_log new) (take sent msgs) \<and>
    s2_tx s' = s2_tx s + of_nat sent \<and> s2_drop s' = s2_drop s + of_nat (length msgs - sent) \<and>
    ((\<forall>i qs. qs \<noteq> [] \<longrightarrow> 0 < fst (k_sendmmsg (e_kernel v) i qs)) \<longrightarrow> sent = length msgs)"
proof (cases "ro_fd (s2_rot s) = None \<or> ro_reconnect (s2_rot s)")
  case True
  then show ?thesis using s2c_reconnect_inv [OF assms]
    by (intro exI [of _ "s2c_reconnect v s"] exI [of _ "[]"] exI [of _ 0]) (auto simp: s2c_turn_def)
next
  case False
  define res where "res = (if gr_on (s2_gro s) then s2c_gro_turn v s else s2c_plain_turn v s)"
  define msgs where "msgs ds = map (\<lambda>m. (m, px_client_addr (s2_px s))) (decoded (px_cfg (s2_px s)) ds)" for ds
  have "reads_ok v s res" using s2c_gro_turn_ok [OF assms] s2c_plain_turn_ok [OF assms] by (simp add: res_def)
  then obtain s1 passed where r: "res = Some (s1, msgs passed)" "thread_inv s1" "s2_gso s1 = s2_gso s" "s2_tx s1 = s2_tx s" "s2_drop s1 = s2_drop s"
    "if px_has_client (s2_px s) then passed @ (if gr_on (s2_gro s) then left_over (s2_gro s1) else []) = offered v s else passed = []"
    unfolding reads_ok_def msgs_def by blast
  have ne: "list_all (\<lambda>x. fst x \<noteq> []) (msgs passed)"
    unfolding msgs_def by (rule decoded_nonempty [of _ "s2_px s"]) (use assms(1) in \<open>simp add: thread_inv_def\<close>)
  have k: "kernel_sane (e_kernel v)" using assms(2) by (simp add: env_sane_def)
  let ?s = "s2c_note v (msgs passed) s1"
  note n = s2c_note_ok [OF r(2), of v "msgs passed"]
  have "s2c_turn v s = Some (s2c_send v (msgs passed) ?s)" using False r(1) by (auto simp: s2c_turn_def res_def [symmetric])
  then show ?thesis using s2c_send_ok [OF k ne n(1)] n(2-5) r(3-6) False
    unfolding msgs_def [symmetric] by (intro exI [of _ "s2c_send v (msgs passed) ?s"] exI [of _ passed] exI [of _ "msgs passed"]) auto
qed

text \<open>A client is known, a move is under way, and three segments of a read are still pending.\<close>

definition midread :: s2c_th where
  "midread =
     \<lparr>s2_px = example_proxy\<lparr>px_has_client := True, px_client_addr := V4 7 9\<rparr>, s2_rot = moving,
      s2_gro = \<lparr>gr_buf = [0, 0, 0, 1, 2, 3, 4, 5, 6, 7, 0, 0], gr_on = True, gr_off = 3, gr_total = 10, gr_seg = 3,
        gr_idle = 0, gr_in = 0, gr_gap = 512\<rparr>,
      s2_bufs = replicate 32 (replicate 1756 0), s2_backoff = 1, s2_seen = \<lparr>sn_busy = 0, sn_client = 0, sn_tick = 0, sn_bytes = 0\<rparr>,
      s2_busy = 0, s2_bytes = 0, s2_active = False, s2_rx = False, s2_first = True, s2_keeps = 0,
      s2_gso = \<lparr>gs_ok = True, gs_msgs = 0, gs_segs = 0, gs_log = []\<rparr>, s2_tx = 0, s2_drop = 0\<rparr>"

definition calm_env :: s2c_env where
  "calm_env =
     \<lparr>e_stopped = False, e_port = 443, e_dial = Some (8, None), e_alt = False, e_no_gro = False, e_gro_ok = True, e_warp = False,
      e_rot_on = True, e_tick = 9, e_ms = 5000, e_gro_read = Inl (-1, EAGAIN), e_read = Inl (-1, EAGAIN), e_kernel = old_kernel\<rparr>"

lemma midread_ok: "thread_inv midread" "env_sane calm_env midread"
proof -
  have "px_inv (px_cfg (s2_px midread)) (s2_px midread)"
    using example_proxy_ok(1,2) by (simp add: px_inv_def midread_def rings_ok_def ring_ok_def)
  then show "thread_inv midread" using moving_ok(1)
    by (simp add: thread_inv_def) (simp add: midread_def pending_ok_def)
  show "env_sane calm_env midread"
    by (simp add: env_sane_def calm_env_def midread_def kernel_sane_def old_kernel_def moving_def rot_start_def portset_has_def)
qed

theorem s2c_turn_delivers_witness:
  "\<exists>s' passed. s2c_turn calm_env midread = Some s' \<and> thread_inv s' \<and>
     passed @ left_over (s2_gro s') = [[1, 2, 3], [4, 5, 6], [7]]"
proof -
  have up: "ro_fd (s2_rot midread) \<noteq> None" "\<not> ro_reconnect (s2_rot midread)" "px_has_client (s2_px midread)" "gr_on (s2_gro midread)"
    "offered calm_env midread = [[1, 2, 3], [4, 5, 6], [7]]"
    by (simp_all add: midread_def moving_def rot_start_def offered_def gro_pending_def left_over_def chunks.simps)
  from s2c_turn_delivers [OF midread_ok] up show ?thesis by fastforce
qed

text \<open>
  C15. A remainder that outlives its connection.  If a coalesced read is still partly pending when the
  thread reconnects, the reconnect forgets the client but not the remainder: from then on no
  turn reads the new socket or sends anything, whatever arrives there, and every turn
  reports the server as heard, until a client speaks.
\<close>

theorem stale_read_blocks:
  assumes "gro_pending (s2_gro s)" "ro_reconnect (s2_rot s)" "e_dial v = Some (fd, None)" "\<not> e_stopped v" "\<not> e_no_gro v" "e_gro_ok v"
    and "c_mode (px_cfg (s2_px s)) = AWG_MODE_NORMAL"
  shows "\<exists>s'. s2c_run (v # vs) s = Some s' \<and> s2_gro s' = (s2_gro s)\<lparr>gr_on := True\<rparr> \<and> gro_pending (s2_gro s') \<and>
    s2_gso s' = s2_gso s \<and> (vs \<noteq> [] \<longrightarrow> s2_rx s' \<and> s2_active s')"
proof -
  obtain r p fd' where d: "do_reconnect_locked (e_port v) (e_dial v) (s2_rot s) (s2_px s) = (r, p, fd')" by (metis prod_cases3)
  let ?s = "s2c_reconnect v s"
  have r: "ro_fd r = Some fd" "ro_fd2 r = None" "\<not> ro_reconnect r" "fd' = Some fd" "\<not> px_has_client p"
    using d assms(3,7) by (auto simp: do_reconnect_locked_def rot_reconnect_def reset_window_def Let_def)
  then have s: "s2_px ?s = p" "s2_rot ?s = r" "s2_gro ?s = (s2_gro s)\<lparr>gr_on := True\<rparr>" "s2_gso ?s = s2_gso s"
    using d assms(4-6) by (simp_all add: s2c_reconnect_def probe_end_def Let_def)
  then obtain s' where "s2c_run vs ?s = Some s'" "s2_gro s' = s2_gro ?s" "s2_gso s' = s2_gso ?s" "vs \<noteq> [] \<longrightarrow> s2_rx s' \<and> s2_active s'"
    using idle_turns [of ?s vs] r assms(1) by (auto simp: gro_pending_def)
  moreover have "s2c_turn v s = Some ?s" using assms(2) by (simp add: s2c_turn_def)
  ultimately show ?thesis using s assms(1) by (simp add: gro_pending_def)
qed

text \<open>The reconnect comes while the three segments are pending; on the new socket datagrams arrive in vain.\<close>

theorem stale_read_blocks_witness:
  "let s = midread\<lparr>s2_rot := moving\<lparr>ro_reconnect := True\<rparr>, s2_px := example_proxy\<lparr>px_cfg := example_config\<lparr>c_mode := AWG_MODE_NORMAL\<rparr>, px_has_client := True\<rparr>\<rparr>
   in \<exists>s'. s2c_run [calm_env, calm_env\<lparr>e_gro_read := Inr ([8, 9], 0)\<rparr>, calm_env] s = Some s' \<and> left_over (s2_gro s') = [[1, 2, 3], [4, 5, 6], [7]] \<and>
     gs_log (s2_gso s') = [] \<and> s2_rx s'"
proof -
  define s where "s = midread\<lparr>s2_rot := moving\<lparr>ro_reconnect := True\<rparr>, s2_px := example_proxy\<lparr>px_cfg := example_config\<lparr>c_mode := AWG_MODE_NORMAL\<rparr>, px_has_client := True\<rparr>\<rparr>"
  have g: "s2_gro s = s2_gro midread" "s2_gso s = s2_gso midread" "ro_reconnect (s2_rot s)" "c_mode (px_cfg (s2_px s)) = AWG_MODE_NORMAL"
    by (simp_all add: s_def)
  have p: "gro_pending (s2_gro midread)" "gs_log (s2_gso midread) = []" "left_over ((s2_gro midread)\<lparr>gr_on := True\<rparr>) = [[1, 2, 3], [4, 5, 6], [7]]"
    by (simp_all add: midread_def gro_pending_def left_over_def chunks.simps)
  have e: "e_dial calm_env = Some (8, None)" "\<not> e_stopped calm_env" "\<not> e_no_gro calm_env" "e_gro_ok calm_env" by (simp_all add: calm_env_def)
  from stale_read_blocks [of s, OF _ g(3) e g(4), of "[calm_env\<lparr>e_gro_read := Inr ([8, 9], 0)\<rparr>, calm_env]"]
  show ?thesis unfolding Let_def s_def [symmetric] g using p by (metis list.distinct(1))
qed

text \<open>
  C16. The port a move left.  When the kernel hands out what is queued and takes what is sent, one wake
  of the main loop takes up to eight batches off the old socket and passes their messages to the client,
  each once and in order; the rest waits for the next wake, and the offload's counters do not move.
\<close>

theorem old_port_drained:
  assumes "kernel_sane k" "\<forall>i qs. qs \<noteq> [] \<longrightarrow> 0 < fst (k_sendmmsg k i qs)" "\<forall>i. BATCH_SIZE \<le> got i"
    and "px_inv cfg p" "px_has_client p" "BATCH_SIZE \<le> length bufs" "\<forall>d \<in> set q. \<forall>b \<in> set bufs. length d \<le> length b"
  shows "\<exists>p' bufs' g' new. rot_drain_old k got q p bufs g = Some (p', bufs', g', drop 256 q) \<and> px_inv cfg p' \<and>
    gs_log g' = gs_log g @ new \<and> list_all legal_call new \<and> gs_msgs g' = gs_msgs g \<and> gs_segs g' = gs_segs g \<and>
    list_all2 (sent_as True) (wire_log new) (map (\<lambda>m. (m, px_client_addr p)) (decoded cfg (take 256 q)))"
  using drain_rounds_ok [OF assms, of 8 g] by (simp add: rot_drain_old_def)

theorem old_port_drained_witness:
  "\<exists>p' bufs' g'. rot_drain_old old_kernel (\<lambda>_. 32) (replicate 300 [1, 2, 3]) (s2_px midread) (s2_bufs midread) (s2_gso midread) =
     Some (p', bufs', g', replicate 44 [1, 2, 3]) \<and> gs_msgs g' = 0"
proof -
  have k: "kernel_sane old_kernel" "\<forall>i qs. qs \<noteq> [] \<longrightarrow> 0 < fst (k_sendmmsg old_kernel i qs)"
    by (auto simp: kernel_sane_def old_kernel_def Suc_le_eq)
  have b: "BATCH_SIZE \<le> length (s2_bufs midread)" "\<forall>d \<in> set (replicate 300 [1, 2, 3]). \<forall>b \<in> set (s2_bufs midread). length d \<le> length b"
    "px_has_client (s2_px midread)" "gs_msgs (s2_gso midread) = 0"
    by (simp_all add: midread_def)
  have p: "px_inv (px_cfg (s2_px midread)) (s2_px midread)" using midread_ok(1) by (simp add: thread_inv_def)
  have d: "drop 256 (replicate 300 [1, 2, 3 :: u8]) = replicate 44 [1, 2, 3]" by simp
  from old_port_drained [OF k _ p b(3,1,2), of "\<lambda>_. 32" "s2_gso midread"] d b(4) show ?thesis by auto
qed

end
