(* ===== verification/Kernel_Stats.thy ===== *)
theory Kernel_Stats
  imports Startup
begin

text \<open>
  The kernel's drop counters, from \<^verbatim>\<open>src/src/proxy.c\<close>: the columns of the UDP lines of
  \<^verbatim>\<open>/proc/net/snmp\<close> (\<open>read_udp_kstats\<close>) and the per-socket counters of \<^verbatim>\<open>/proc/net/udp\<close> and
  \<^verbatim>\<open>/proc/net/udp6\<close> (\<open>udp_socket_drops\<close>), which the spin controller and the statistics read.
  The files' contents are arguments, \<open>None\<close> when a file cannot be read.  The theorems: on tables
  of the kernel's shape each counter is taken from its own column, and the drops are those
  of exactly the sockets bound to the given port.
\<close>

section \<open>Reading the UDP totals\<close>

text \<open>\<open>strstr\<close>: the text from the first occurrence on.\<close>

fun strstr :: "bytes \<Rightarrow> bytes \<Rightarrow> bytes option" where
  "strstr pat [] = (if pat = [] then Some [] else None)"
| "strstr pat (c # s) = (if take (length pat) (c # s) = pat then Some (c # s) else strstr pat s)"

record udp_kstats =
  ks_in_errors :: u64
  ks_rcvbuf_errors :: u64
  ks_sndbuf_errors :: u64

text \<open>The digits at the head of a string, in 64 bits, and what follows.\<close>

fun u64_digits :: "u64 \<Rightarrow> bytes \<Rightarrow> u64 \<times> bytes" where
  "u64_digits v [] = (v, [])"
| "u64_digits v (c # s) = (if 48 \<le> c \<and> c \<le> 57 then u64_digits (v * 10 + (ucast c - 48)) s else (v, c # s))"

text \<open>\<open>strncmp\<close> against the head of a column's name.\<close>

definition starts :: "string \<Rightarrow> bytes \<Rightarrow> bool" where
  "starts name s \<longleftrightarrow> take (length name) s = str name"

definition note_column :: "bytes \<Rightarrow> u64 \<Rightarrow> udp_kstats \<Rightarrow> udp_kstats" where
  "note_column np v k =
     (if starts ''InErrors'' np then k\<lparr>ks_in_errors := v\<rparr>
      else if starts ''RcvbufErrors'' np then k\<lparr>ks_rcvbuf_errors := v\<rparr>
      else if starts ''SndbufErrors'' np then k\<lparr>ks_sndbuf_errors := v\<rparr>
      else k)"

lemma skip_shrinks:
  assumes "dropWhile (\<lambda>c. c = 32) np \<noteq> []"
  shows "length (dropWhile (\<lambda>c. c \<noteq> 32) (dropWhile (\<lambda>c. c = 32) np)) < length (np :: bytes)"
proof -
  obtain c s where d: "dropWhile (\<lambda>c. c = 32) np = c # s" using assms by (cases "dropWhile (\<lambda>c. c = 32) np") auto
  then have "c \<noteq> 32" using hd_dropWhile [of "\<lambda>c. c = 32" np] by simp
  then show ?thesis using length_dropWhile_le [of "\<lambda>c. c = 32" np] length_dropWhile_le [of "\<lambda>c. c \<noteq> 32" s] d by simp
qed

text \<open>The loop over the two lines: \<open>np\<close> is what is left of the names, \<open>vp\<close> of the text from the values on.\<close>

function kstats_loop :: "bytes \<Rightarrow> bytes \<Rightarrow> udp_kstats \<Rightarrow> udp_kstats" where
  "kstats_loop np vp k =
     (if np = [] then k
      else let np = dropWhile (\<lambda>c. c = 32) np; vp = dropWhile (\<lambda>c. c = 32) vp
           in if np = [] \<or> vp = [] \<or> hd vp = 10 then k
              else let (v, rest) = u64_digits 0 vp
                   in if rest = vp then k
                      else kstats_loop (dropWhile (\<lambda>c. c \<noteq> 32) np) rest (note_column np v k))"
  by pat_completeness auto
termination
  by (relation "measure (\<lambda>(np, _, _). length np)") (simp_all add: skip_shrinks)

declare kstats_loop.simps [simp del]

definition read_udp_kstats :: "bytes option \<Rightarrow> udp_kstats option" where
  "read_udp_kstats file =
     do { f \<leftarrow> file;
          let buf = takeWhile (\<lambda>c. c \<noteq> 0) (take 4095 f);
          if f = [] then None
          else do { names \<leftarrow> strstr (str ''Udp:'') buf;
                    vals \<leftarrow> strstr (str ''Udp:'') (drop 4 names);
                    let names_end = length (takeWhile (\<lambda>c. c \<noteq> 10) names);
                    if names_end = length names \<or> names_end > length names - length vals then None
                    else Some (kstats_loop (drop 4 (take names_end names)) (drop 4 vals)
                                 \<lparr>ks_in_errors = 0, ks_rcvbuf_errors = 0, ks_sndbuf_errors = 0\<rparr>) } }"

section \<open>Drops by socket\<close>

text \<open>The local address of a socket ends with its port in four upper-case digits.\<close>

definition hex_upper :: "u16 \<Rightarrow> u8" where
  "hex_upper d = (if d < 10 then 48 + ucast d else 55 + ucast d)"

definition want :: "u16 \<Rightarrow> bytes" where
  "want port = [58, hex_upper (drop_bit 12 port AND 0xF), hex_upper (drop_bit 8 port AND 0xF),
                hex_upper (drop_bit 4 port AND 0xF), hex_upper (port AND 0xF)]"

text \<open>The fields of a line, up to a number of them.\<close>

fun line_fields :: "nat \<Rightarrow> bytes \<Rightarrow> bytes list" where
  "line_fields 0 q = []"
| "line_fields (Suc n) q =
     (let q = dropWhile (\<lambda>c. c = 32) q
      in if q = [] then [] else takeWhile (\<lambda>c. c \<noteq> 32) q # line_fields n (drop 1 (dropWhile (\<lambda>c. c \<noteq> 32) q)))"

definition ends_with :: "bytes \<Rightarrow> bytes \<Rightarrow> bool" where
  "ends_with s suf \<longleftrightarrow> length s > 5 \<and> drop (length s - 5) s = suf"

definition line_drops :: "bytes \<Rightarrow> bytes \<Rightarrow> u64" where
  "line_drops w line =
     (let fs = line_fields 16 line
      in if length fs \<ge> 3 \<and> ends_with (fs ! 1) w then fst (u64_digits 0 (last fs)) else 0)"

function table_drops :: "bytes \<Rightarrow> bytes \<Rightarrow> u64 \<Rightarrow> u64" where
  "table_drops w s t =
     (if s = [] then t
      else table_drops w (drop 1 (dropWhile (\<lambda>c. c \<noteq> 10) s)) (t + line_drops w (takeWhile (\<lambda>c. c \<noteq> 10) s)))"
  by pat_completeness auto
termination
proof (relation "measure (\<lambda>(_, s, _). length s)")
  fix w s :: bytes and t :: u64 assume "s \<noteq> []"
  then show "((w, drop 1 (dropWhile (\<lambda>c. c \<noteq> 10) s), t + line_drops w (takeWhile (\<lambda>c. c \<noteq> 10) s)), w, s, t) \<in> measure (\<lambda>(_, s, _). length s)"
    using length_dropWhile_le [of "\<lambda>c. c \<noteq> 10" s] by (cases s) auto
qed simp

declare table_drops.simps [simp del]

definition file_drops :: "bytes \<Rightarrow> bytes option \<Rightarrow> u64 \<Rightarrow> u64" where
  "file_drops w file t =
     (case file of None \<Rightarrow> t | Some f \<Rightarrow> table_drops w (takeWhile (\<lambda>c. c \<noteq> 0) (take 65535 f)) t)"

text \<open>The port is what \<open>getsockname\<close> reports, \<open>None\<close> when it fails.\<close>

definition udp_socket_drops :: "u16 option \<Rightarrow> bytes option \<Rightarrow> bytes option \<Rightarrow> u64" where
  "udp_socket_drops port udp udp6 =
     (case port of
        None \<Rightarrow> 0
      | Some p \<Rightarrow> if p = 0 then 0 else file_drops (want p) udp6 (file_drops (want p) udp 0))"

section \<open>Tables of the kernel's shape\<close>

text \<open>A number as the kernel prints it, and the words of a line, a space before each.\<close>

fun decimal :: "nat \<Rightarrow> bytes" where
  "decimal n = (if n < 10 then [48 + of_nat n] else decimal (n div 10) @ [48 + of_nat (n mod 10)])"

declare decimal.simps [simp del]

definition spaced_words :: "bytes list \<Rightarrow> bytes" where
  "spaced_words ws = concat (map (\<lambda>w. 32 # w) ws)"

lemma spaced_words_simps [simp]: "spaced_words [] = []" "spaced_words (w # ws) = 32 # w @ spaced_words ws"
  by (simp_all add: spaced_words_def)

definition word_ok :: "bytes \<Rightarrow> bool" where
  "word_ok w \<longleftrightarrow> w \<noteq> [] \<and> list_all (\<lambda>c. c \<noteq> 32 \<and> c \<noteq> 10 \<and> c \<noteq> 0) w"

definition number_end :: "bytes \<Rightarrow> bool" where
  "number_end s \<longleftrightarrow> s = [] \<or> \<not> (48 \<le> hd s \<and> hd s \<le> 57)"

lemma digit_byte:
  assumes "n < 10"
  shows "48 \<le> (48 + of_nat n :: u8)" "(48 + of_nat n :: u8) \<le> 57" "ucast (48 + of_nat n :: u8) - 48 = (of_nat n :: u64)"
proof -
  have "n \<in> {0, 1, 2, 3, 4, 5, 6, 7, 8, 9}" using assms by auto
  then show "48 \<le> (48 + of_nat n :: u8)" "(48 + of_nat n :: u8) \<le> 57" "ucast (48 + of_nat n :: u8) - 48 = (of_nat n :: u64)"
    by auto
qed

lemma u64_digits_decimal: "u64_digits v (decimal n @ s) = u64_digits (v * 10 ^ length (decimal n) + of_nat n) s"
proof (induction n arbitrary: v s rule: decimal.induct)
  case (1 n)
  show ?case
  proof (cases "n < 10")
    case True
    then show ?thesis using digit_byte [OF True] by (subst (1 2) decimal.simps) simp
  next
    case False
    have d: "n mod 10 < 10" by simp
    have "n = n div 10 * 10 + n mod 10" by simp
    then have n: "of_nat n = of_nat (n div 10) * 10 + (of_nat (n mod 10) :: u64)"
      by (metis of_nat_add of_nat_mult of_nat_numeral)
    have "decimal n = decimal (n div 10) @ [48 + of_nat (n mod 10)]" using False by (subst decimal.simps) simp
    then show ?thesis using 1 [OF False, of v "(48 + of_nat (n mod 10)) # s"] digit_byte [OF d]
      by (simp add: n algebra_simps)
  qed
qed

lemma decimal_ok: "word_ok (decimal n)" "list_all (\<lambda>c. 48 \<le> c \<and> c \<le> 57) (decimal n)"
proof -
  show digits: "list_all (\<lambda>c. 48 \<le> c \<and> c \<le> 57) (decimal n)"
  proof (induction n rule: decimal.induct)
    case (1 n)
    then show ?case by (cases "n < 10") (subst decimal.simps, simp add: digit_byte)+
  qed
  have "decimal n \<noteq> []" by (subst decimal.simps) simp
  moreover have "c \<noteq> 32 \<and> c \<noteq> 10 \<and> c \<noteq> 0" if "48 \<le> c" for c :: u8 using that by auto
  ultimately show "word_ok (decimal n)" using digits by (auto simp: word_ok_def list_all_iff)
qed

lemma u64_digits_stop: "number_end s \<Longrightarrow> u64_digits v s = (v, s)"
  by (cases s) (auto simp: number_end_def)

lemma read_decimal: "number_end s \<Longrightarrow> u64_digits 0 (decimal n @ s) = (of_nat n, s)"
  by (simp add: u64_digits_decimal u64_digits_stop)

section \<open>The UDP totals of such a table\<close>

lemma strstr_absent: "c \<in> set pat \<Longrightarrow> c \<notin> set s \<Longrightarrow> strstr pat s = None"
proof (induction s)
  case (Cons a s)
  then have "take (length pat) (a # s) \<noteq> pat" by (metis in_set_takeD)
  then show ?case using Cons by simp
qed auto

lemma strstr_first:
  assumes "pat \<noteq> []" "strstr pat (pre @ butlast pat) = None"
  shows "strstr pat (pre @ pat @ s) = Some (pat @ s)"
  using assms(2)
proof (induction pre)
  case Nil
  have "take (length pat) (pat @ s) = pat" "pat @ s \<noteq> []" using assms(1) by simp_all
  then show ?case by (cases "pat @ s") auto
next
  case (Cons c pre)
  have "take (length pat) (c # pre @ pat @ s) = take (length pat) (c # pre @ butlast pat)"
  proof -
    have "pat @ s = butlast pat @ last pat # s" using assms(1) by (metis append.assoc append_Cons append_Nil append_butlast_last_id)
    then have "c # pre @ pat @ s = (c # pre @ butlast pat) @ last pat # s" by simp
    moreover have "take (length pat) (xs @ ys) = take (length pat) xs" if "length pat \<le> length xs" for xs ys :: bytes
      using that by simp
    moreover have "length pat \<le> length (c # pre @ butlast pat)" using assms(1) by simp
    ultimately show ?thesis by (simp only:)
  qed
  then show ?case using Cons by (auto split: if_splits)
qed

lemma word_cut:
  assumes "word_ok w" "s = [] \<or> hd s = 32 \<or> hd s = 10"
  shows "dropWhile (\<lambda>c. c = 32) (w @ s) = w @ s" "takeWhile (\<lambda>c. c \<noteq> 32) (w @ 32 # s) = w" "takeWhile (\<lambda>c. c \<noteq> 32) w = w"
    "dropWhile (\<lambda>c. c \<noteq> 32) (w @ 32 # s) = 32 # s" "dropWhile (\<lambda>c. c \<noteq> 32) w = []"
    "w @ s \<noteq> []" "hd (w @ s) \<noteq> 10"
proof -
  obtain c v where "w = c # v" "c \<noteq> 32" "c \<noteq> 10" using assms(1) by (cases w) (auto simp: word_ok_def)
  then show "dropWhile (\<lambda>c. c = 32) (w @ s) = w @ s" "w @ s \<noteq> []" "hd (w @ s) \<noteq> 10" by auto
  have "\<forall>c \<in> set w. c \<noteq> 32" using assms(1) by (auto simp: word_ok_def list_all_iff)
  then show "takeWhile (\<lambda>c. c \<noteq> 32) (w @ 32 # s) = w" "takeWhile (\<lambda>c. c \<noteq> 32) w = w"
    "dropWhile (\<lambda>c. c \<noteq> 32) (w @ 32 # s) = 32 # s" "dropWhile (\<lambda>c. c \<noteq> 32) w = []"
    by (auto simp: takeWhile_append dropWhile_append takeWhile_eq_all_conv dropWhile_eq_Nil_conv)
qed

lemma spaced_words_hd: "spaced_words ws = [] \<or> hd (spaced_words ws) = 32"
  by (cases ws) simp_all

lemma drop_word:
  assumes "word_ok w" shows "dropWhile (\<lambda>c. c \<noteq> 32) (w @ spaced_words ws) = spaced_words ws"
  using word_cut(4) [OF assms, of "[]"] word_cut(5) [OF assms, of "[]"] assms
  by (cases ws) (simp_all add: word_ok_def list_all_iff dropWhile_append)

text \<open>Column names hold no space, so what follows the name cannot complete a match.\<close>

lemma starts_word:
  assumes "\<forall>c \<in> set name. of_char c \<noteq> (32 :: u8)"
  shows "starts name (w @ spaced_words ws) \<longleftrightarrow> starts name w"
proof (cases "length name \<le> length w \<or> ws = []")
  case False
  then obtain v vs where ws: "ws = v # vs" by (cases ws) auto
  have "32 \<in> set (take (length name) (w @ spaced_words ws))" using False by (simp add: ws take_Cons')
  moreover have "32 \<notin> set (str name)" using assms by (auto simp: str_def)
  moreover have "length (take (length name) w) \<noteq> length (str name)" using False by (simp add: str_def)
  ultimately show ?thesis unfolding starts_def by metis
qed (auto simp: starts_def)

lemma note_column_word: "note_column (w @ spaced_words ws) v k = note_column w v k"
  unfolding note_column_def by (simp add: starts_word)

lemma kstats_loop_table:
  assumes "list_all word_ok names" "length vals = length names"
  shows "kstats_loop (spaced_words names) (spaced_words (map decimal vals) @ 10 # rest) k =
    fold (\<lambda>(n, v). note_column n (of_nat v)) (zip names vals) k"
  using assms
proof (induction names arbitrary: vals k)
  case Nil
  then show ?case by (simp add: kstats_loop.simps)
next
  case (Cons n ns)
  then obtain v vs where vals: "vals = v # vs" "length vs = length ns" by (cases vals) auto
  have w: "word_ok n" "list_all word_ok ns" using Cons.prems by auto
  define tl where "tl = spaced_words (map decimal vs) @ 10 # rest"
  have tl: "tl = [] \<or> hd tl = 32 \<or> hd tl = 10" using spaced_words_hd [of "map decimal vs"] by (auto simp: tl_def hd_append)
  then have "number_end tl" by (auto simp: number_end_def)
  note v = read_decimal [OF this, of v]
  have "spaced_words ns = [] \<or> hd (spaced_words ns) = 32 \<or> hd (spaced_words ns) = 10" using spaced_words_hd [of ns] by blast
  note nw = word_cut(1,6) [OF w(1) this] and vw = word_cut(1,6,7) [OF decimal_ok(1) tl, of v]
  have ne: "tl \<noteq> decimal v @ tl" using decimal_ok(1) [of v] by (simp add: word_ok_def)
  have "kstats_loop (spaced_words (n # ns)) (spaced_words (map decimal vals) @ 10 # rest) k =
      kstats_loop (spaced_words ns) tl (note_column n (of_nat v) k)"
    using nw vw ne
    by (subst kstats_loop.simps) (simp del: dropWhile_eq_Nil_conv append_is_Nil_conv
      add: Let_def vals tl_def [symmetric] v drop_word w note_column_word)
  then show ?case using Cons.IH [OF w(2) vals(2)] by (simp add: vals tl_def)
qed

lemma fold_column:
  assumes "i < length ns" "length vs = length ns" "P (ns ! i)" "\<forall>j < length ns. j \<noteq> i \<longrightarrow> \<not> P (ns ! j)"
  shows "fold (\<lambda>(n, v) x. if P n then f v else x) (zip ns vs) y = f (vs ! i)"
  using assms
proof (induction ns arbitrary: vs i y)
  case (Cons n ns)
  then obtain v us where vs: "vs = v # us" "length us = length ns" by (cases vs) auto
  have tail: "\<not> P (ns ! j)" if "Suc j < length (n # ns)" "Suc j \<noteq> i" for j using Cons.prems(4) that by force
  show ?case
  proof (cases i)
    case 0
    have "\<not> P m" if "m \<in> set ns" for m
      using that tail 0 by (metis Suc_mono in_set_conv_nth length_Cons nat.distinct(1))
    then have "fold (\<lambda>(n, v) x. if P n then f v else x) ps y = y" if "fst ` set ps \<subseteq> set ns" for ps y
      using that by (induction ps arbitrary: y) auto
    moreover have "fst ` set (zip ns us) \<subseteq> set ns" by (auto dest: set_zip_leftD)
    ultimately show ?thesis using 0 Cons.prems(3) by (simp add: vs)
  next
    case (Suc k)
    have "k < length ns" "P (ns ! k)" using Cons.prems(1,3) Suc by simp_all
    moreover have "\<forall>j < length ns. j \<noteq> k \<longrightarrow> \<not> P (ns ! j)" using tail Suc by simp
    ultimately have "fold (\<lambda>(n, v) x. if P n then f v else x) (zip ns us) y = f (us ! k)" for y
      using Cons.IH vs(2) by blast
    then show ?thesis by (simp add: vs Suc)
  qed
qed simp

lemma starts_apart:
  "starts ''RcvbufErrors'' n \<Longrightarrow> \<not> starts ''InErrors'' n"
  "starts ''SndbufErrors'' n \<Longrightarrow> \<not> starts ''InErrors'' n"
  "starts ''SndbufErrors'' n \<Longrightarrow> \<not> starts ''RcvbufErrors'' n"
  by (cases n; simp add: starts_def str_def)+

lemma fold_totals:
  "ks_in_errors (fold (\<lambda>(n, v). note_column n (of_nat v)) ps k) =
     fold (\<lambda>(n, v) x. if starts ''InErrors'' n then of_nat v else x) ps (ks_in_errors k)"
  "ks_rcvbuf_errors (fold (\<lambda>(n, v). note_column n (of_nat v)) ps k) =
     fold (\<lambda>(n, v) x. if starts ''RcvbufErrors'' n then of_nat v else x) ps (ks_rcvbuf_errors k)"
  "ks_sndbuf_errors (fold (\<lambda>(n, v). note_column n (of_nat v)) ps k) =
     fold (\<lambda>(n, v) x. if starts ''SndbufErrors'' n then of_nat v else x) ps (ks_sndbuf_errors k)"
  by (induction ps arbitrary: k) (auto simp: note_column_def starts_apart)

definition udp_lines :: "bytes list \<Rightarrow> nat list \<Rightarrow> bytes" where
  "udp_lines names vals =
     str ''Udp:'' @ spaced_words names @ [10] @ str ''Udp:'' @ spaced_words (map decimal vals) @ [10]"

lemma read_udp_table:
  assumes "list_all word_ok names" "list_all (\<lambda>n. 58 \<notin> set n) names" "length vals = length names"
    and "strstr (str ''Udp:'') (pre @ str ''Udp'') = None" "0 \<notin> set pre" "length (pre @ udp_lines names vals) \<le> 4095"
  shows "read_udp_kstats (Some (pre @ udp_lines names vals @ rest)) =
    Some (fold (\<lambda>(n, v). note_column n (of_nat v)) (zip names vals) \<lparr>ks_in_errors = 0, ks_rcvbuf_errors = 0, ks_sndbuf_errors = 0\<rparr>)"
proof -
  define pat where "pat = str ''Udp:''"
  define ns vs where "ns = spaced_words names" and "vs = spaced_words (map decimal vals)"
  have pat: "pat = [85, 100, 112, 58]" "butlast pat = str ''Udp''" by (simp_all add: pat_def str_def)
  have zero: "0 \<notin> set (spaced_words ws)" "10 \<notin> set (spaced_words ws)" if "list_all word_ok ws" for ws
    using that by (induction ws) (auto simp: word_ok_def list_all_iff)
  have vok: "list_all word_ok (map decimal vals)" by (simp add: list_all_iff decimal_ok)
  have z: "0 \<notin> set (udp_lines names vals)"
    using zero [OF assms(1)] zero [OF vok] by (auto simp: udp_lines_def str_def)
  define tail where "tail = takeWhile (\<lambda>c. c \<noteq> 0) (take (4095 - length (pre @ udp_lines names vals)) rest)"
  have buf: "takeWhile (\<lambda>c. c \<noteq> 0) (take 4095 (pre @ udp_lines names vals @ rest)) = pre @ udp_lines names vals @ tail"
  proof -
    have t: "take 4095 (pre @ udp_lines names vals @ rest) =
        (pre @ udp_lines names vals) @ take (4095 - length (pre @ udp_lines names vals)) rest"
      using assms(6) by simp
    have "takeWhile (\<lambda>c. c \<noteq> 0) (take 4095 (pre @ udp_lines names vals @ rest)) = (pre @ udp_lines names vals) @ tail"
      unfolding t tail_def by (rule takeWhile_append2) (use assms(5) z in auto)
    then show ?thesis by simp
  qed
  have lines: "udp_lines names vals @ tail = pat @ ns @ 10 # pat @ vs @ 10 # tail"
    by (simp add: udp_lines_def pat_def ns_def vs_def)
  have "58 \<notin> set (ns @ [10])"
    using assms(2) unfolding ns_def by (induction names) auto
  then have "58 \<notin> set ((ns @ [10]) @ butlast pat)" by (auto simp: pat str_def)
  then have "strstr pat ((ns @ [10]) @ butlast pat) = None" by (intro strstr_absent [of 58]) (simp_all add: pat)
  then have second: "strstr pat (ns @ 10 # pat @ vs @ 10 # tail) = Some (pat @ vs @ 10 # tail)"
    using strstr_first [of pat "ns @ [10]" "vs @ 10 # tail"] by (simp add: pat(1))
  have first: "strstr pat (pre @ udp_lines names vals @ tail) = Some (pat @ ns @ 10 # pat @ vs @ 10 # tail)"
    unfolding lines by (rule strstr_first) (use assms(4) in \<open>simp_all add: pat(2) flip: pat_def\<close>, simp add: pat(1))
  have "takeWhile (\<lambda>c. c \<noteq> 10) (ns @ 10 # s) = ns" for s
    unfolding ns_def by (subst takeWhile_append2) (use zero(2) [OF assms(1)] in auto)
  then have "takeWhile (\<lambda>c. c \<noteq> 10) (pat @ ns @ 10 # s) = pat @ ns" for s by (simp add: pat(1))
  moreover have "pre @ udp_lines names vals @ rest \<noteq> []" by (simp add: udp_lines_def str_def)
  ultimately show ?thesis
    using kstats_loop_table [OF assms(1,3), of tail] second
    unfolding read_udp_kstats_def pat_def [symmetric] Option.bind.bind_lunit Let_def buf first
    by (simp add: pat(1) ns_def vs_def)
qed

section \<open>The sockets of such a table\<close>

lemma nibble16: "(0xF :: u16) = mask 4" "(x AND 0xF :: u16) < 16"
  using and_mask_less' [of 4 x] by (simp_all add: mask_eq_exp_minus_1)

lemma hex_val_upper:
  assumes "d < 16" shows "hex_val (hex_upper d) = uint d"
proof -
  have "unat d \<in> set [0..<16]" using assms by (simp add: word_less_nat_alt)
  then have "word_of_nat (unat d) \<in> set (map word_of_nat [0..<16] :: u16 list)" unfolding set_map by (rule imageI)
  then have "d \<in> set (map word_of_nat [0..<16])" by simp
  then show ?thesis by (simp add: upt_rec) (elim disjE; simp add: hex_val_def hex_upper_def)
qed

lemma nibble_bit: "bit (drop_bit m p AND 0xF :: u16) j \<longleftrightarrow> j < 4 \<and> bit p (m + j)"
  unfolding nibble16 by (auto simp: bit_simps dest: bit_imp_le_length)

lemma want_inj: "want p = want q \<longleftrightarrow> p = q"
proof
  assume w: "want p = want q"
  have eq: "drop_bit m p AND 0xF = drop_bit m q AND 0xF" if "m \<in> {12, 8, 4, 0}" for m
  proof -
    have "hex_upper (drop_bit m p AND 0xF) = hex_upper (drop_bit m q AND 0xF)" using w that by (auto simp: want_def)
    then have "uint (drop_bit m p AND 0xF) = uint (drop_bit m q AND 0xF)"
      using hex_val_upper nibble16(2) by metis
    then show ?thesis by (rule word_uint_eqI)
  qed
  show "p = q"
  proof (rule bit_word_eqI)
    fix n assume "n < LENGTH(16)"
    then have "4 * (n div 4) \<in> {12, 8, 4, 0}" "n mod 4 < 4" by auto
    moreover have "n = 4 * (n div 4) + n mod 4" by simp
    ultimately show "bit p n = bit q n" using eq nibble_bit by metis
  qed
qed simp

lemma want_ok: "word_ok (want p)" "length (want p) = 5"
proof -
  have "hex_upper d \<noteq> 32 \<and> hex_upper d \<noteq> 10 \<and> hex_upper d \<noteq> 0" if "d < 16" for d
  proof -
    have "hex_val (hex_upper d) \<noteq> -1" using hex_val_upper [OF that] uint_ge_0 [of d] by linarith
    then show ?thesis by (auto simp: hex_val_def)
  qed
  then show "word_ok (want p)" using nibble16(2) by (simp add: word_ok_def want_def)
qed (simp add: want_def)

text \<open>A line: the words with the spaces before each, and the spaces that pad it.\<close>

fun padded :: "(nat \<times> bytes) list \<Rightarrow> nat \<Rightarrow> bytes" where
  "padded [] e = replicate e 32"
| "padded ((k, w) # ws) e = replicate k 32 @ w @ padded ws e"

definition padded_ok :: "(nat \<times> bytes) list \<Rightarrow> bool" where
  "padded_ok ws \<longleftrightarrow> list_all (\<lambda>(k, w). word_ok w) ws \<and> list_all (\<lambda>(k, w). 0 < k) (tl ws)"

lemma padded_hd:
  assumes "list_all (\<lambda>(k, w). 0 < k) ws" obtains "padded ws e = []" | s where "padded ws e = 32 # s"
proof (cases ws)
  case Nil
  then show ?thesis using that by (cases e) auto
next
  case (Cons x xs)
  obtain k w where "x = (k, w)" by (cases x)
  then show ?thesis using assms that Cons by (cases k) auto
qed

lemma drop_spaces: "s = [] \<or> hd s \<noteq> 32 \<Longrightarrow> dropWhile (\<lambda>c. c = 32) (replicate k 32 @ s) = (s :: bytes)"
  by (induction k) (cases s; auto)+

lemma padded_tail:
  assumes "list_all (\<lambda>(k, w). 0 < k) ws" "list_all (\<lambda>(k, w). word_ok w) ws"
  shows "\<exists>ws' e'. padded_ok ws' \<and> map snd ws' = map snd ws \<and> drop 1 (padded ws e) = padded ws' e'"
proof (cases ws)
  case Nil
  then show ?thesis by (intro exI [of _ "[]"] exI [of _ "e - 1"]) (simp add: padded_ok_def)
next
  case (Cons x xs)
  obtain k w where "x = (Suc k, w)" using assms(1) Cons by (cases x) (auto simp: gr0_conv_Suc)
  then show ?thesis using assms Cons
    by (intro exI [of _ "(k, w) # xs"] exI [of _ e]) (simp add: padded_ok_def)
qed

lemma fields_padded: "padded_ok ws \<Longrightarrow> line_fields n (padded ws e) = take n (map snd ws)"
proof (induction n arbitrary: ws e)
  case (Suc n)
  show ?case
  proof (cases ws)
    case Nil
    then show ?thesis using drop_spaces [of "[]" e] by simp
  next
    case (Cons x xs)
    obtain k w where x: "x = (k, w)" by (cases x)
    have ok: "word_ok w" "list_all (\<lambda>(k, w). 0 < k) xs" "list_all (\<lambda>(k, w). word_ok w) xs"
      using Suc.prems by (auto simp: padded_ok_def Cons x)
    have q: "dropWhile (\<lambda>c. c = 32) (padded ws e) = w @ padded xs e" "w @ padded xs e \<noteq> []"
      using ok(1) drop_spaces [of "w @ padded xs e" k] by (cases w; simp add: Cons x word_ok_def)+
    have "takeWhile (\<lambda>c. c \<noteq> 32) (w @ padded xs e) = w \<and> dropWhile (\<lambda>c. c \<noteq> 32) (w @ padded xs e) = padded xs e"
    proof (rule padded_hd [OF ok(2), of e])
      assume "padded xs e = []"
      then show ?thesis using word_cut(3,5) [OF ok(1), of "[]"] by simp
    next
      fix s assume "padded xs e = 32 # s"
      then show ?thesis using word_cut(2,4) [OF ok(1), of s] ok(1)
        by (auto simp: word_ok_def list_all_iff takeWhile_append dropWhile_append)
    qed
    moreover obtain ws' e' where "padded_ok ws'" "map snd ws' = map snd xs" "drop 1 (padded xs e) = padded ws' e'"
      using padded_tail [OF ok(2,3)] by blast
    ultimately show ?thesis using q Suc.IH [of ws' e'] by (simp add: Let_def Cons x)
  qed
qed simp

text \<open>A socket's line, and the table: a header without a colon, then the sockets.\<close>

record udp_row =
  ur_slot :: bytes
  ur_addr :: bytes
  ur_port :: u16
  ur_mid :: "bytes list"
  ur_drops :: nat
  ur_gaps :: "nat list"
  ur_pad :: nat

definition row_words :: "udp_row \<Rightarrow> bytes list" where
  "row_words r = [ur_slot r, ur_addr r @ want (ur_port r)] @ ur_mid r @ [decimal (ur_drops r)]"

definition row_ok :: "udp_row \<Rightarrow> bool" where
  "row_ok r \<longleftrightarrow> word_ok (ur_slot r) \<and> word_ok (ur_addr r) \<and> list_all word_ok (ur_mid r) \<and> length (ur_mid r) \<le> 13 \<and>
     length (ur_gaps r) = length (row_words r) \<and> list_all (\<lambda>k. 0 < k) (tl (ur_gaps r))"

definition row_text :: "udp_row \<Rightarrow> bytes" where
  "row_text r = padded (zip (ur_gaps r) (row_words r)) (ur_pad r)"

definition udp_table :: "bytes \<Rightarrow> udp_row list \<Rightarrow> bytes" where
  "udp_table hdr rows = hdr @ 10 # concat (map (\<lambda>r. row_text r @ [10]) rows)"

lemma row_padded: "row_ok r \<Longrightarrow> padded_ok (zip (ur_gaps r) (row_words r))"
proof -
  assume r: "row_ok r"
  have w: "word_ok (v @ w)" if "word_ok v" "word_ok w" for v w using that by (simp add: word_ok_def)
  have "list_all word_ok (row_words r)" using r by (simp add: row_ok_def row_words_def w want_ok decimal_ok)
  then have "list_all (\<lambda>(k, w). word_ok w) (zip gs (row_words r))" for gs
    by (auto simp: list_all_iff dest: set_zip_rightD)
  moreover have "tl (zip gs ws) = zip (tl gs) (tl ws)" for gs :: "nat list" and ws :: "bytes list" by (cases gs; cases ws) auto
  then have "list_all (\<lambda>(k, w). 0 < k) (tl (zip (ur_gaps r) (row_words r)))"
    using r by (auto simp: row_ok_def list_all_iff dest: set_zip_leftD)
  ultimately show ?thesis by (simp add: padded_ok_def)
qed

lemma row_fields: "row_ok r \<Longrightarrow> line_fields 16 (row_text r) = row_words r"
proof -
  assume r: "row_ok r"
  then have l: "length (row_words r) \<le> 16" "map snd (zip (ur_gaps r) (row_words r)) = row_words r"
    by (auto simp: row_ok_def row_words_def)
  show ?thesis using fields_padded [OF row_padded [OF r], of 16 "ur_pad r"] l by (simp add: row_text_def)
qed

lemma row_drops:
  assumes "row_ok r"
  shows "line_drops (want p) (row_text r) = (if ur_port r = p then of_nat (ur_drops r) else 0)"
proof -
  have "ends_with (ur_addr r @ want (ur_port r)) (want p) \<longleftrightarrow> ur_port r = p"
    using assms by (auto simp: ends_with_def want_ok row_ok_def word_ok_def want_inj)
  moreover have "fst (u64_digits 0 (decimal (ur_drops r))) = of_nat (ur_drops r)"
    using read_decimal [of "[]"] by (simp add: number_end_def)
  ultimately show ?thesis by (simp add: line_drops_def row_fields [OF assms] row_words_def)
qed

lemma padded_set: "set (padded ws e) \<subseteq> {32} \<union> \<Union> (set ` snd ` set ws)"
  by (induction ws e rule: padded.induct) auto

lemma row_text_bytes:
  assumes "row_ok r" shows "10 \<notin> set (row_text r)" "0 \<notin> set (row_text r)"
proof -
  have "c \<noteq> 10 \<and> c \<noteq> 0" if "c \<in> set w" "w \<in> snd ` set (zip (ur_gaps r) (row_words r))" for c w
    using row_padded [OF assms] that by (fastforce simp: padded_ok_def list_all_iff word_ok_def)
  then show "10 \<notin> set (row_text r)" "0 \<notin> set (row_text r)"
    using padded_set [of "zip (ur_gaps r) (row_words r)" "ur_pad r"] by (fastforce simp: row_text_def)+
qed

lemma table_line: "10 \<notin> set l \<Longrightarrow> table_drops w (l @ 10 # s) t = table_drops w s (t + line_drops w l)"
  by (subst table_drops.simps) (simp add: takeWhile_append dropWhile_append)

lemma table_rows:
  "list_all row_ok rows \<Longrightarrow> table_drops (want p) (concat (map (\<lambda>r. row_text r @ [10]) rows)) t =
     t + of_nat (sum_list (map ur_drops (filter (\<lambda>r. ur_port r = p) rows)))"
proof (induction rows arbitrary: t)
  case Nil
  then show ?case by (simp add: table_drops.simps)
next
  case (Cons r rows)
  then show ?case using table_line [OF row_text_bytes(1), of r] by (simp add: row_drops add.assoc)
qed

lemma header_drops:
  assumes "58 \<notin> set hdr" shows "line_drops (want p) hdr = 0"
proof -
  have "set (line_fields n q ! i) \<subseteq> set q" if "i < length (line_fields n q)" for n q i
    using that
  proof (induction n arbitrary: q i)
    case (Suc n)
    define q' where "q' = dropWhile (\<lambda>c. c = 32) q"
    have q': "set q' \<subseteq> set q" using set_dropWhileD by (fastforce simp: q'_def)
    have t: "set (takeWhile (\<lambda>c. c \<noteq> 32) q') \<subseteq> set q'" "set (drop 1 (dropWhile (\<lambda>c. c \<noteq> 32) q')) \<subseteq> set q'"
      by (auto dest: set_takeWhileD set_dropWhileD in_set_dropD)
    show ?case using Suc.prems q' t Suc.IH [of _ "drop 1 (dropWhile (\<lambda>c. c \<noteq> 32) q')"]
      by (cases i) (auto simp: Let_def q'_def [symmetric] split: if_splits, blast+)
  qed simp
  moreover have "58 \<in> set (want p)" by (simp add: want_def)
  ultimately have "\<not> ends_with (line_fields 16 hdr ! 1) (want p)" if "1 < length (line_fields 16 hdr)"
    using that assms unfolding ends_with_def by (metis in_set_dropD subsetD)
  then show ?thesis by (auto simp: line_drops_def Let_def)
qed

lemma file_drops_table:
  assumes "list_all row_ok rows" "{0, 10, 58} \<inter> set hdr = {}" "length (udp_table hdr rows) \<le> 65535"
  shows "file_drops (want p) (Some (udp_table hdr rows)) t =
    t + of_nat (sum_list (map ur_drops (filter (\<lambda>r. ur_port r = p) rows)))"
proof -
  have "0 \<notin> set (udp_table hdr rows)"
    using assms(1,2) row_text_bytes(2) by (auto simp: udp_table_def list_all_iff)
  then have "takeWhile (\<lambda>c. c \<noteq> 0) (udp_table hdr rows) = udp_table hdr rows"
    by (simp add: takeWhile_eq_all_conv) metis
  moreover have "take 65535 (udp_table hdr rows) = udp_table hdr rows" using assms(3) by simp
  ultimately have "file_drops (want p) (Some (udp_table hdr rows)) t = table_drops (want p) (udp_table hdr rows) t"
    by (simp only: file_drops_def option.case)
  then show ?thesis using assms(1,2) table_line [of hdr] header_drops [of hdr] by (simp add: udp_table_def table_rows)
qed

section \<open>Properties\<close>

text \<open>
  C39. The UDP totals.  From a table of the kernel's shape (a line of distinct column names, a line of
  as many numbers, at most 4095 bytes up to there, whatever comes before and after) each total is
  the number in the column of exactly that name, modulo \<open>2\<^sup>6\<^sup>4\<close>, wherever the kernel puts it.
\<close>

theorem udp_totals_by_column:
  assumes "list_all word_ok names" "list_all (\<lambda>n. 58 \<notin> set n) names" "distinct names" "length vals = length names"
    and "\<forall>n \<in> set names. \<forall>c \<in> {''InErrors'', ''RcvbufErrors'', ''SndbufErrors''}. starts c n \<longrightarrow> n = str c"
    and "strstr (str ''Udp:'') (pre @ str ''Udp'') = None" "0 \<notin> set pre" "length (pre @ udp_lines names vals) \<le> 4095"
  shows "\<exists>k. read_udp_kstats (Some (pre @ udp_lines names vals @ rest)) = Some k \<and>
    (\<forall>i < length names.
       (names ! i = str ''InErrors'' \<longrightarrow> ks_in_errors k = of_nat (vals ! i)) \<and>
       (names ! i = str ''RcvbufErrors'' \<longrightarrow> ks_rcvbuf_errors k = of_nat (vals ! i)) \<and>
       (names ! i = str ''SndbufErrors'' \<longrightarrow> ks_sndbuf_errors k = of_nat (vals ! i)))"
proof -
  have only: "\<not> starts c (names ! j)"
    if "names ! i = str c" "i < length names" "j < length names" "j \<noteq> i" "c \<in> {''InErrors'', ''RcvbufErrors'', ''SndbufErrors''}" for i j c
    using assms(3,5) that by (metis nth_eq_iff_index_eq nth_mem)
  have self: "starts c (str c)" for c by (simp add: starts_def str_def)
  have col: "fold (\<lambda>(n, v) x. if starts c n then of_nat v else x) (zip names vals) y = (of_nat (vals ! i) :: u64)"
    if "names ! i = str c" "i < length names" "c \<in> {''InErrors'', ''RcvbufErrors'', ''SndbufErrors''}" for i c y
    using fold_column [of i names vals "starts c" of_nat y] only [OF that(1,2) _ _ that(3)] that self assms(4) by auto
  show ?thesis
    unfolding read_udp_table [OF assms(1,2,4,6,7,8)] by (intro exI conjI refl) (auto simp: fold_totals col)
qed

definition example_names :: "bytes list" where
  "example_names = map str [''InDatagrams'', ''NoPorts'', ''InErrors'', ''OutDatagrams'', ''RcvbufErrors'', ''SndbufErrors'', ''InCsumErrors'']"

theorem udp_totals_by_column_witness:
  "\<exists>k. read_udp_kstats (Some (str ''Ip: Forwarding'' @ [10] @ udp_lines example_names [9000, 3, 25, 8000, 21, 1, 4] @ str ''UdpLite: x'')) = Some k \<and>
     ks_in_errors k = 25 \<and> ks_rcvbuf_errors k = 21 \<and> ks_sndbuf_errors k = 1"
proof -
  have "list_all word_ok example_names" "list_all (\<lambda>n. 58 \<notin> set n) example_names" "distinct example_names"
    "\<forall>n \<in> set example_names. \<forall>c \<in> {''InErrors'', ''RcvbufErrors'', ''SndbufErrors''}. starts c n \<longrightarrow> n = str c"
    "strstr (str ''Udp:'') ((str ''Ip: Forwarding'' @ [10]) @ str ''Udp'') = None" "0 \<notin> set (str ''Ip: Forwarding'' @ [10])"
    "length ((str ''Ip: Forwarding'' @ [10]) @ udp_lines example_names [9000, 3, 25, 8000, 21, 1, 4]) \<le> 4095"
    by (simp_all add: example_names_def word_ok_def str_def starts_def udp_lines_def decimal.simps)
  note ok = this
  have n: "length example_names = 7" "example_names ! 2 = str ''InErrors''" "example_names ! 4 = str ''RcvbufErrors''" "example_names ! 5 = str ''SndbufErrors''"
    by (simp_all add: example_names_def)
  have len: "length [9000, 3, 25, 8000, 21, 1, 4 :: nat] = length example_names" by (simp add: n)
  from udp_totals_by_column [OF ok(1-3) len ok(4-7), of "str ''UdpLite: x''"]
  obtain k where k: "read_udp_kstats (Some ((str ''Ip: Forwarding'' @ [10]) @ udp_lines example_names [9000, 3, 25, 8000, 21, 1, 4] @ str ''UdpLite: x'')) = Some k"
    and cols: "\<forall>i < length example_names. (example_names ! i = str ''InErrors'' \<longrightarrow> ks_in_errors k = of_nat ([9000, 3, 25, 8000, 21, 1, 4] ! i)) \<and>
       (example_names ! i = str ''RcvbufErrors'' \<longrightarrow> ks_rcvbuf_errors k = of_nat ([9000, 3, 25, 8000, 21, 1, 4] ! i)) \<and>
       (example_names ! i = str ''SndbufErrors'' \<longrightarrow> ks_sndbuf_errors k = of_nat ([9000, 3, 25, 8000, 21, 1, 4] ! i))"
    by blast
  have "ks_in_errors k = 25" "ks_rcvbuf_errors k = 21" "ks_sndbuf_errors k = 1"
    using spec [OF cols, of 2] spec [OF cols, of 4] spec [OF cols, of 5] n by simp_all
  then show ?thesis using k by simp
qed

text \<open>
  C40. The drops of one socket.  From tables of the kernel's shape (a header without a colon, then one
  line per socket, up to 16 words, padded in any way, at most 65535 bytes) the sum is that
  of the last words of exactly the lines whose local address ends in the port, over both
  tables: no other socket of the namespace is counted and none of the port is missed.
\<close>

theorem udp_socket_drops_exact:
  assumes "list_all row_ok rows4" "list_all row_ok rows6" "{0, 10, 58} \<inter> (set hdr4 \<union> set hdr6) = {}"
    and "length (udp_table hdr4 rows4) \<le> 65535" "length (udp_table hdr6 rows6) \<le> 65535" "p \<noteq> 0"
  shows "udp_socket_drops (Some p) (Some (udp_table hdr4 rows4)) (Some (udp_table hdr6 rows6)) =
    of_nat (sum_list (map ur_drops (filter (\<lambda>r. ur_port r = p) (rows4 @ rows6))))"
  using file_drops_table [OF assms(1) _ assms(4), of p 0]
    file_drops_table [OF assms(2) _ assms(5), of p] assms(3,6)
  by (simp add: udp_socket_drops_def Int_Un_distrib)

definition example_row :: "u16 \<Rightarrow> nat \<Rightarrow> udp_row" where
  "example_row port dr =
     \<lparr>ur_slot = str ''17:'', ur_addr = str ''0100007F'', ur_port = port, ur_mid = [str ''00000000:0000'', str ''07''], ur_drops = dr,
      ur_gaps = [3, 1, 1, 2, 1], ur_pad = 4\<rparr>"

theorem udp_socket_drops_exact_witness:
  "udp_socket_drops (Some 51820) (Some (udp_table (str ''  sl  local_address'') [example_row 53 9, example_row 51820 7]))
     (Some (udp_table (str ''  sl'') [example_row 51820 30])) = 37"
proof -
  have "list_all row_ok [example_row 53 9, example_row 51820 7]" "list_all row_ok [example_row 51820 30]"
    "{0, 10, 58} \<inter> (set (str ''  sl  local_address'') \<union> set (str ''  sl'')) = {}"
    "length (udp_table (str ''  sl  local_address'') [example_row 53 9, example_row 51820 7]) \<le> 65535"
    "length (udp_table (str ''  sl'') [example_row 51820 30]) \<le> 65535" "(51820 :: u16) \<noteq> 0"
    by (simp_all add: row_ok_def example_row_def row_words_def word_ok_def str_def udp_table_def row_text_def want_ok(2) decimal.simps)
  from udp_socket_drops_exact [OF this] show ?thesis by (simp add: example_row_def)
qed

end
