(* ===== verification/Stats.thy ===== *)
theory Stats
  imports Kernel_Stats
begin

text \<open>
  The statistics ticker of the main loop, \<open>proxy_run\<close> in \<^verbatim>\<open>src/src/proxy.c\<close>: every \<open>AWG_STATS\<close> seconds
  it compares the counters with those of its last turn and logs what moved.  A line is modelled
  by the numbers it prints; the counters, the kernel's totals and the socket drops are arguments.
  The theorems: what the lines report adds up to what the counters counted, and a turn in which
  nothing moved prints nothing.
\<close>

section \<open>Setup and state\<close>

definition stats_every :: "int \<Rightarrow> int" where
  "stats_every interval =
     (let checks = (if interval > 0 then interval div 5 else 0)
      in if interval > 0 \<and> checks < 1 then 1 else checks)"

text \<open>The counters the I/O threads bump: five of datagrams, four of segment offload.\<close>

record counters =
  ct_c2s_rx :: u32
  ct_c2s_tx :: u32
  ct_c2s_dr :: u32
  ct_s2c_tx :: u32
  ct_s2c_dr :: u32
  ct_c2s_gm :: u32
  ct_c2s_gs :: u32
  ct_s2c_gm :: u32
  ct_s2c_gs :: u32

record stats =
  st_tick :: int
  st_pv :: counters
  st_pv_k :: udp_kstats
  st_pv_l :: u64
  st_pv_r :: u64
  st_rb_moved :: bool

definition zero_counters :: counters where
  "zero_counters = \<lparr>ct_c2s_rx = 0, ct_c2s_tx = 0, ct_c2s_dr = 0, ct_s2c_tx = 0, ct_s2c_dr = 0,
     ct_c2s_gm = 0, ct_c2s_gs = 0, ct_s2c_gm = 0, ct_s2c_gs = 0\<rparr>"

definition zero_kstats :: udp_kstats where
  "zero_kstats = \<lparr>ks_in_errors = 0, ks_rcvbuf_errors = 0, ks_sndbuf_errors = 0\<rparr>"

text \<open>With the ticker on, the kernel's numbers start at what they are.\<close>

definition stats_start :: "int \<Rightarrow> udp_kstats option \<Rightarrow> u64 \<Rightarrow> stats" where
  "stats_start checks k drops =
     \<lparr>st_tick = 0, st_pv = zero_counters,
      st_pv_k = (if checks > 0 then case k of Some k \<Rightarrow> k | None \<Rightarrow> zero_kstats else zero_kstats),
      st_pv_l = (if checks > 0 then drops else 0), st_pv_r = 0, st_rb_moved = False\<rparr>"

section \<open>The lines\<close>

text \<open>What one turn finds: the kernel's totals and socket drops, the spin budget, the buffer sizes in KB.\<close>

record look =
  lk_ct :: counters
  lk_k :: "udp_kstats option"
  lk_listen :: u64
  lk_remote :: "u64 option"
  lk_spin :: u32
  lk_rcv_listen :: u32
  lk_rcv_remote :: "u32 option"

record report =
  rp_stats :: "u32 list option"
  rp_gso :: "u32 list option"
  rp_bufs :: "u32 list option"

text \<open>The growth of a socket's drop counter; a smaller one is that of a new socket.\<close>

definition drop_growth :: "u64 \<Rightarrow> u64 \<Rightarrow> u64" where
  "drop_growth now pv = (if now > pv then now - pv else 0)"

definition datagram_line :: "stats \<Rightarrow> look \<Rightarrow> udp_kstats \<Rightarrow> u64 \<Rightarrow> u32 list option" where
  "datagram_line s v k sr =
     (let c = lk_ct v; pv = st_pv s; pk = st_pv_k s;
          ds = [ct_c2s_rx c - ct_c2s_rx pv, ct_c2s_tx c - ct_c2s_tx pv, ct_c2s_dr c - ct_c2s_dr pv,
                ct_s2c_tx c - ct_s2c_tx pv, ct_s2c_dr c - ct_s2c_dr pv];
          ks = [ks_in_errors k - ks_in_errors pk, ks_rcvbuf_errors k - ks_rcvbuf_errors pk,
                ks_sndbuf_errors k - ks_sndbuf_errors pk,
                drop_growth (lk_listen v) (st_pv_l s), drop_growth sr (st_pv_r s)]
      in if list_all (\<lambda>d. d = 0) ds \<and> list_all (\<lambda>d. d = 0) ks then None
         else Some (ds @ map ucast ks @ [lk_spin v]))"

text \<open>Segments per message to one decimal; a direction that sent none shows zero.\<close>

definition run_length :: "u32 \<Rightarrow> u32 \<Rightarrow> u32 list" where
  "run_length msgs segs =
     (if msgs = 0 then [0, 0] else [segs div msgs, (segs mod msgs) * 10 div msgs])"

definition offload_line :: "stats \<Rightarrow> look \<Rightarrow> u32 list option" where
  "offload_line s v =
     (let c = lk_ct v; pv = st_pv s;
          cm = ct_c2s_gm c - ct_c2s_gm pv; cs = ct_c2s_gs c - ct_c2s_gs pv;
          sm = ct_s2c_gm c - ct_s2c_gm pv; ss = ct_s2c_gs c - ct_s2c_gs pv
      in if cm = 0 \<and> sm = 0 then None
         else Some ([cm, cs] @ run_length cm cs @ [sm, ss] @ run_length sm ss))"

definition buffer_line :: "stats \<Rightarrow> look \<Rightarrow> u32 list option" where
  "buffer_line s v =
     (if st_rb_moved s then Some [lk_rcv_listen v, case lk_rcv_remote v of Some r \<Rightarrow> r | None \<Rightarrow> 0] else None)"

text \<open>One tick of the five second timer.\<close>

definition stats_tick :: "int \<Rightarrow> look \<Rightarrow> stats \<Rightarrow> stats \<times> report option" where
  "stats_tick checks v s =
     (if \<not> checks > 0 then (s, None)
      else if st_tick s + 1 < checks then (s\<lparr>st_tick := st_tick s + 1\<rparr>, None)
      else let k = (case lk_k v of Some k \<Rightarrow> k | None \<Rightarrow> zero_kstats);
               sr = (case lk_remote v of Some d \<Rightarrow> d | None \<Rightarrow> st_pv_r s)
           in (\<lparr>st_tick = 0, st_pv = lk_ct v, st_pv_k = k, st_pv_l = lk_listen v, st_pv_r = sr, st_rb_moved = False\<rparr>,
               Some \<lparr>rp_stats = datagram_line s v k sr, rp_gso = offload_line s v, rp_bufs = buffer_line s v\<rparr>))"

text \<open>A run of ticks, the buffer controller raising its flag in between.\<close>

fun stats_run :: "int \<Rightarrow> (look \<times> bool) list \<Rightarrow> stats \<Rightarrow> stats \<times> report list" where
  "stats_run checks [] s = (s, [])"
| "stats_run checks ((v, moved) # vs) s =
     (let (s, r) = stats_tick checks v (s\<lparr>st_rb_moved := st_rb_moved s \<or> moved\<rparr>);
          (s, rs) = stats_run checks vs s
      in (s, (case r of None \<Rightarrow> [] | Some r \<Rightarrow> [r]) @ rs))"

section \<open>What the lines add up to\<close>

definition column :: "nat \<Rightarrow> report \<Rightarrow> u32" where
  "column i r = (case rp_stats r of None \<Rightarrow> 0 | Some ds \<Rightarrow> ds ! i)"

text \<open>The counter behind a column of the datagram line; the kernel's 64-bit totals are printed in 32.\<close>

definition behind :: "nat \<Rightarrow> stats \<Rightarrow> u32" where
  "behind i s = [ct_c2s_rx (st_pv s), ct_c2s_tx (st_pv s), ct_c2s_dr (st_pv s), ct_s2c_tx (st_pv s), ct_s2c_dr (st_pv s),
     ucast (ks_in_errors (st_pv_k s)), ucast (ks_rcvbuf_errors (st_pv_k s)), ucast (ks_sndbuf_errors (st_pv_k s))] ! i"

lemma ucast_minus: "ucast (a - b) = (ucast a - ucast b :: u32)" for a b :: u64
proof -
  have "take_bit 32 (take_bit 64 (x - y)) = take_bit 32 (take_bit 64 x - take_bit 64 y)" for x y :: int
    using take_bit_diff [of 32 "take_bit 64 x" "take_bit 64 y"] take_bit_diff [of 32 x y] by simp
  then show ?thesis by transfer simp
qed

lemma below_eight: "i < 8 \<Longrightarrow> i = 0 \<or> i = 1 \<or> i = 2 \<or> i = 3 \<or> i = 4 \<or> i = 5 \<or> i = 6 \<or> i = (7::nat)"
  by linarith

text \<open>A line that is not printed would have held zeros.\<close>

lemma datagram_columns:
  assumes "i < 8"
  shows "(case datagram_line s v k sr of None \<Rightarrow> 0 | Some ds \<Rightarrow> ds ! i) =
    [ct_c2s_rx (lk_ct v) - ct_c2s_rx (st_pv s), ct_c2s_tx (lk_ct v) - ct_c2s_tx (st_pv s), ct_c2s_dr (lk_ct v) - ct_c2s_dr (st_pv s),
     ct_s2c_tx (lk_ct v) - ct_s2c_tx (st_pv s), ct_s2c_dr (lk_ct v) - ct_s2c_dr (st_pv s),
     ucast (ks_in_errors k) - ucast (ks_in_errors (st_pv_k s)), ucast (ks_rcvbuf_errors k) - ucast (ks_rcvbuf_errors (st_pv_k s)),
     ucast (ks_sndbuf_errors k) - ucast (ks_sndbuf_errors (st_pv_k s))] ! i"
  using below_eight [OF assms] by (elim disjE) (simp_all add: datagram_line_def Let_def ucast_minus)

lemma tick_columns:
  assumes "i < 8" "stats_tick checks v s = (s', r)"
  shows "behind i s' = behind i s + (case r of None \<Rightarrow> 0 | Some r \<Rightarrow> column i r)"
proof (cases "checks > 0 \<and> \<not> st_tick s + 1 < checks")
  case True
  let ?k = "case lk_k v of Some k \<Rightarrow> k | None \<Rightarrow> zero_kstats"
  let ?sr = "case lk_remote v of Some d \<Rightarrow> d | None \<Rightarrow> st_pv_r s"
  have s': "s' = \<lparr>st_tick = 0, st_pv = lk_ct v, st_pv_k = ?k, st_pv_l = lk_listen v, st_pv_r = ?sr, st_rb_moved = False\<rparr>"
    and r: "r = Some \<lparr>rp_stats = datagram_line s v ?k ?sr, rp_gso = offload_line s v, rp_bufs = buffer_line s v\<rparr>"
    using assms(2) True by (simp_all add: stats_tick_def Let_def)
  show ?thesis using below_eight [OF assms(1)]
    by (elim disjE) (simp_all add: r s' column_def datagram_columns behind_def)
next
  case False
  then show ?thesis using assms(2) by (auto simp: stats_tick_def behind_def split: if_splits)
qed

lemma tick_count:
  assumes "0 < checks" "0 \<le> st_tick s" "st_tick s < checks" "stats_tick checks v s = (s', r)"
  shows "0 \<le> st_tick s'" "st_tick s' < checks" "st_tick s + 1 = st_tick s' + (if r = None then 0 else checks)"
  using assms by (auto simp: stats_tick_def Let_def split: if_splits)

lemma run_count:
  assumes "0 < checks" "0 \<le> st_tick s" "st_tick s < checks" "stats_run checks vs s = (s', rs)"
  shows "0 \<le> st_tick s' \<and> st_tick s' < checks \<and> st_tick s + int (length vs) = st_tick s' + checks * int (length rs)"
  using assms(2-)
proof (induction vs arbitrary: s rs)
  case (Cons a vs)
  obtain v moved where a: "a = (v, moved)" by (cases a)
  obtain s1 r where t: "stats_tick checks v (s\<lparr>st_rb_moved := st_rb_moved s \<or> moved\<rparr>) = (s1, r)" by fastforce
  obtain rs1 where run: "stats_run checks vs s1 = (s', rs1)" and rs: "rs = (case r of None \<Rightarrow> [] | Some r \<Rightarrow> [r]) @ rs1"
    using Cons.prems(3) by (auto simp: a t split: prod.splits)
  note c = tick_count [OF assms(1) _ _ t] and ih = Cons.IH [OF _ _ run]
  show ?case using c ih Cons.prems(1,2) by (cases r) (auto simp: rs algebra_simps)
qed simp

section \<open>Properties\<close>

text \<open>
  C38. The statistics add up.  Over any run of timer ticks there is one turn in every so many ticks, and in
  each column of the datagram line (received, sent and dropped in both directions, and the
  kernel's three totals) the numbers printed add up, modulo \<open>2\<^sup>3\<^sup>2\<close>, to exactly the growth of the
  counter up to the last turn: a turn that printed nothing left nothing out.
\<close>

theorem stats_add_up:
  assumes "stats_run checks vs s = (s', rs)" "0 < checks" "0 \<le> st_tick s" "st_tick s < checks" "i < 8"
  shows "behind i s' = behind i s + sum_list (map (column i) rs) \<and>
    int (length rs) = (st_tick s + int (length vs)) div checks \<and> st_tick s' = (st_tick s + int (length vs)) mod checks"
proof -
  note n = run_count [OF assms(2,3,4,1)]
  have "behind i s' = behind i s + sum_list (map (column i) rs)"
    using assms(1)
  proof (induction vs arbitrary: s rs)
    case (Cons a vs)
    obtain v moved where a: "a = (v, moved)" by (cases a)
    obtain s1 r where t: "stats_tick checks v (s\<lparr>st_rb_moved := st_rb_moved s \<or> moved\<rparr>) = (s1, r)" by fastforce
    obtain rs1 where run: "stats_run checks vs s1 = (s', rs1)" and rs: "rs = (case r of None \<Rightarrow> [] | Some r \<Rightarrow> [r]) @ rs1"
      using Cons.prems by (auto simp: a t split: prod.splits)
    show ?case using tick_columns [OF assms(5) t] Cons.IH [OF run]
      by (cases r) (simp_all add: rs behind_def)
  qed simp
  moreover have "int (length rs) = (st_tick s + int (length vs)) div checks" "st_tick s' = (st_tick s + int (length vs)) mod checks"
    using n by simp_all
  ultimately show ?thesis by blast
qed

definition traffic :: "u32 \<Rightarrow> u64 \<Rightarrow> look" where
  "traffic n e = \<lparr>lk_ct = zero_counters\<lparr>ct_c2s_rx := n\<rparr>, lk_k = Some (zero_kstats\<lparr>ks_in_errors := e\<rparr>), lk_listen = 0,
     lk_remote = None, lk_spin = 0, lk_rcv_listen = 256, lk_rcv_remote = None\<rparr>"

text \<open>Five ticks of a ten second ticker: two turns, the second of which counts the rest, and a tick left over.\<close>

theorem stats_add_up_witness:
  "let (s, rs) = stats_run 2 [(traffic 3 0, False), (traffic 7 1, False), (traffic 7 1, False), (traffic 9 1, True),
      (traffic 12 1, False)] (stats_start 2 (Some zero_kstats) 0)
   in map (column 0) rs = [7, 2] \<and> behind 0 s = 9 \<and> behind 0 s = sum_list (map (column 0) rs) \<and> length rs = 2 \<and> st_tick s = 1"
proof -
  let ?vs = "[(traffic 3 0, False), (traffic 7 1, False), (traffic 7 1, False), (traffic 9 1, True), (traffic 12 1, False)]"
  let ?s = "stats_start 2 (Some zero_kstats) 0"
  obtain s rs where r: "stats_run 2 ?vs ?s = (s, rs)" by fastforce
  have v: "map (column 0) rs = [7, 2]"
    using r by (auto simp: stats_tick_def stats_start_def Let_def traffic_def column_def datagram_line_def
        zero_counters_def zero_kstats_def drop_growth_def)
  have "behind 0 s = behind 0 ?s + sum_list (map (column 0) rs) \<and> int (length rs) = (st_tick ?s + int (length ?vs)) div 2 \<and>
      st_tick s = (st_tick ?s + int (length ?vs)) mod 2"
    by (rule stats_add_up [OF r]) (simp_all add: stats_start_def)
  then have "map (column 0) rs = [7, 2] \<and> behind 0 s = 9 \<and> behind 0 s = sum_list (map (column 0) rs) \<and> length rs = 2 \<and> st_tick s = 1"
    using v by (simp add: stats_start_def behind_def zero_counters_def)
  then show ?thesis unfolding r Let_def by simp
qed

text \<open>
  A failed read of the kernel's totals counts as zero: the line shows the totals so far
  taken back, a number close to \<open>2\<^sup>3\<^sup>2\<close>.
\<close>

lemma failed_read_is_zero:
  assumes "lk_k v = None" "ks_in_errors (st_pv_k s) = 5"
  shows "\<exists>s' r. stats_tick 1 v (s\<lparr>st_tick := 0\<rparr>) = (s', Some r) \<and> column 5 r = 2 ^ 32 - 5 \<and> ks_in_errors (st_pv_k s') = 0"
  using assms by (auto simp: stats_tick_def Let_def column_def datagram_line_def zero_kstats_def)

end
