(* ===== verification/Spec2Isabelle.thy ===== *)
theory Spec2Isabelle
  imports Base64 Watchdog Dial Proxy_Init S2c_Thread Stats
begin

text \<open>
  A verification library for awg-proxy, the UDP proxy that translates between WireGuard and the
  obfuscated AmneziaWG wire format (C sources under \<^verbatim>\<open>src/src/\<close>).

  The program.  One thread reads the listening socket (client to server, c2s), one the remote
  socket (server to client, s2c), and the main thread runs a five second timer.  In normal mode
  WireGuard messages from a local client are obfuscated towards the server and restored on the
  way back; in reverse and server mode the proxy sits before WireGuard, restores what clients
  send and obfuscates the answers, for one client or for many.  The main thread watches for silence,
  asks for reconnects, schedules port moves and tunes buffers; the threads share atomics.

  The theories, in the order of the code's layers.
  \<^item> \<open>Awg_Prelude\<close>: bytes, words, bounded reads and writes \<open>rd\<close>, \<open>wr\<close> (\<open>None\<close> outside the buffer),
    little-endian words, list lemmas and the collections of simplification rules.
  \<^item> \<open>Chacha\<close> (\<^verbatim>\<open>chacha20.c\<close>), \<open>Known_Answers\<close> (published vectors), \<open>Fastrand\<close> (\<^verbatim>\<open>fastrand.c\<close>), \<open>Blake\<close>
    (\<^verbatim>\<open>blake2s.c\<close>: the buffered hash refines the block-by-block one below 2 GiB), \<open>Base64\<close>, \<open>Cps\<close> (\<^verbatim>\<open>cps.c\<close>),
    \<open>Logging\<close> (\<^verbatim>\<open>log.c\<close>).
  \<^item> \<open>Config\<close>, \<open>Wire_Format\<close>, \<open>Transform\<close> (\<^verbatim>\<open>transform.c\<close>, \<^verbatim>\<open>transform.h\<close>): profiles and their
    validation; the abstract wire format \<open>wire_encode\<close>, \<open>wire_decode\<close>; the in-place
    transformations, which refine it and never leave their buffers.
  \<^item> \<open>Sessions\<close> (\<^verbatim>\<open>proxy.h\<close>): the session table as a map, the profile cache, following a moved client.
  \<^item> \<open>Datapath\<close>, \<open>Inbound_Path\<close>, \<open>Hub_Path\<close> (\<^verbatim>\<open>proxy.c\<close>): the packet loops of the four directions, a
    batch at a time, each with its transport fast path, against the wire format, and what batching
    changes in the order of the datagrams.
  \<^item> \<open>Offload\<close>: segmented sends, the batch send and the splitting of coalesced reads.
  \<^item> \<open>Lag_Queue\<close>, \<open>Ports\<close>, \<open>Rotation\<close>: delayed copies for the port being left, port sets and the
    schedule, the move of the connected socket as a transition system, the send on both ports.
  \<^item> \<open>S2c_Thread\<close>: a turn of the server-to-client thread in normal mode, which joins the receive
    handler, the split of coalesced reads, the port move and the send; the drain of the old port.
  \<^item> \<open>Dial\<close>: choosing a record, dialling, the probe between address families, the state file.
  \<^item> \<open>Tuning\<close>, \<open>Startup\<close> (\<^verbatim>\<open>main.c\<close>), \<open>Watchdog\<close>, \<open>Proxy_Init\<close>: fitting settings to the hardware and
    the controllers of buffers and spinning; environment and files to a configuration; the
    timer's decisions; the initial state and the dial retry.
  \<^item> \<open>Kernel_Stats\<close>, \<open>Stats\<close>: the kernel's drop counters and the statistics ticker.

  Correspondence.  A C struct is a \<open>record\<close>, a machine integer a word of its width; an \<open>int\<close> that
  holds a length or an offset is an \<open>int\<close>, with the bounds that keep it in range stated where
  they matter; a cast that can change a value, as that of the message length in \<^verbatim>\<open>blake2s.c\<close>, is
  written out.  A buffer is a byte list changed by \<open>rd\<close> and \<open>wr\<close>, so every access is
  checked and a theorem that a handler returns \<open>Some\<close> says that it stays inside its buffers.
  Negative descriptors and null pointers are \<open>None\<close>.  Definitions keep the names of the C functions.

  What the lemmas show.  Per component: well-formedness invariants kept by every
  operation (\<open>wf_config\<close>, \<open>px_inv\<close>, \<open>hub_inv\<close>, \<open>rot_inv\<close>, \<open>dial_inv\<close>), behaviour on every
  branch, refinement of an abstract specification (wire format, block-wise hash, map, bounded
  queue, statistics as differences), and progress (a pending move ends, silence leads to a
  reconnect, every record is tried).  The interfaces used by several parts are locales, each
  interpreted on the model's own operations in the theory that provides them.  The theorems below
  join components: two proxies end to end.

  Bounds and fuel.  All other recursion is structural or has a termination measure.  The batch is 32
  packets, a probe sequence four entries, a port draw four tries, as in the code.  The rejection
  sampling of \<open>Cps\<close> is a partial function whose value \<open>None\<close> stands for not returning;
  \<open>fill_symbols_total\<close> shows that it returns.

  Parameters.  What lies outside the sources is an argument: socket calls and their errors
  (\<open>kernel\<close>, \<open>send_env\<close>), the resolver, clocks, entropy, files and environment variables.  Their
  hypotheses are documented behaviour, for example that \<open>sendmmsg\<close> never reports more messages
  than it was given.

  Concurrency.  Each operation of a thread on the shared rotation and dial state is one atomic
  step; the steps interleave freely.  This holds for the operations under \<open>remote_mu\<close>; for the others it
  abstracts from races between the relaxed atomics inside one operation.

  Not modelled.  Thread affinity, priorities, the steering file and socket options (calls whose
  outcome is only logged); creation of sockets, epoll, timer and signal descriptors, thread start and the closing
  sequence; the retries of a spinning read before it returns;
  the texts of log lines other than their assembly; benchmarks, tests, installers and scripts.
\<close>

section \<open>Properties across components\<close>

text \<open>
  C1. Two proxies, end to end: a message the sending proxy transforms in its buffer and puts on
  the wire is restored byte for byte by the receiving proxy in its own buffer, whatever follows
  the datagram there, provided the two share profile and header-protection key, the message
  carries the MAC1 the receiver checks, and no earlier slot captures the datagram, which
  profiles with equal paddings exclude.  Neither side leaves its buffers.
\<close>

theorem proxies_end_to_end:
  assumes "wf_profile pr" "pr_s4 pr \<le> dataoff" "dataoff + 1500 \<le> int (length buf)" "length hs = 1500"
    and "0 \<le> n" "dataoff + n \<le> int (length buf)" "m = take (nat n) (drop (nat dataoff) buf)"
    and "classify m = Some k" "\<not> (k = Cookie \<and> c_disable_cookies cfg)" "c_hp_key cfg = c_hp_key cfg'"
    and "c_mac1key_out cfg \<noteq> None \<longrightarrow> c_mac1key_in cfg' \<noteq> None" "authentic k (c_mac1key_in cfg') m"
  shows "\<exists>r d. transform_outbound_profile buf hs dataoff n cfg pr None rand = Some r \<and> datagram r = Some d \<and>
    (\<not> captured cfg' pr k d \<or> equal_paddings pr \<longrightarrow>
      (\<exists>buf' ks' off. transform_inbound_profile (d @ rest) (int (length d)) cfg' pr None =
          Some (buf', ks', Some (off, int (length m))) \<and> rd buf' off (int (length m)) = Some m))"
proof -
  obtain r v where r: "transform_outbound_profile buf hs dataoff n cfg pr None rand = Some r"
    and v: "hrange_pick (kind_range pr k) rand = Some v"
    and d: "datagram r = Some (wire_encode cfg pr k (c_mac1key_out cfg) v rand m)"
    using transform_outbound_safe [OF assms(1-7) refl, where key = None and cfg = cfg and rand = rand] assms(8,9)
    by (auto simp: outbound_spec_def)
  let ?d = "wire_encode cfg pr k (c_mac1key_out cfg) v rand m"
  have "wire_decode cfg' pr ?d = Some (k, m)" if "\<not> captured cfg' pr k ?d \<or> equal_paddings pr"
  proof -
    have c: "hrange_contains (kind_range pr k) v"
      using hrange_pick_contains [OF kind_pad_bounds(4) [OF assms(1)], of k rand] v by simp
    have "\<not> captured cfg' pr k ?d"
      using that not_captured_equal [OF wire_encode_frame [OF assms(1) classify_Some(2) [OF assms(8)] c assms(10)]] by blast
    moreover have "c_mac1key_in cfg' = None \<Longrightarrow> c_mac1key_out cfg = None" using assms(11) by blast
    ultimately show ?thesis by (intro wire_roundtrip_kind [OF assms(1,8) v assms(10) _ assms(12)])
  qed
  moreover have "cache_ok cfg' ?d None" by (simp add: cache_ok_def)
  note inb = inbound_refines [OF assms(1) this, of rest]
  have "\<exists>buf' ks' off. transform_inbound_profile (?d @ rest) (int (length ?d)) cfg' pr None =
      Some (buf', ks', Some (off, int (length m))) \<and> rd buf' off (int (length m)) = Some m"
    if "wire_decode cfg' pr ?d = Some (k, m)"
    using inb unfolding that by auto
  ultimately show ?thesis using r d by blast
qed

theorem proxies_end_to_end_witness:
  "\<exists>r d. transform_outbound_profile (replicate 16 0 @ sample_init @ replicate 1352 0) (replicate 1500 0) 16 148
      example_config uniform_profile None 7 = Some r \<and> datagram r = Some d \<and>
    (\<exists>buf' ks' off. transform_inbound_profile (d @ [1, 2, 3]) (int (length d)) example_config uniform_profile None =
      Some (buf', ks', Some (off, 148)) \<and> rd buf' off 148 = Some sample_init)"
proof -
  have l: "length sample_init = 148"
    using classify_Some(2) [OF sample_init_ok(1)] by (simp add: fits_kind_def)
  have "sample_init = take (nat 148) (drop (nat 16) (replicate 16 0 @ sample_init @ replicate 1352 0))" using l by simp
  from proxies_end_to_end [OF wf_uniform_profile(1) _ _ _ _ _ this sample_init_ok(1) _ refl _ sample_init_ok(2),
      where hs = "replicate 1500 0" and rand = 7 and rest = "[1, 2, 3]"] l wf_uniform_profile(2)
  show ?thesis by (simp add: uniform_profile_def example_config_mac)
qed

end
